(* ===== verification/Rocks_Prelude.thy ===== *)
theory Rocks_Prelude
  imports Main "HOL-Library.Word"
begin

text \<open>
  The vocabulary the component theories share: the machine types of the C++ sources, byte strings,
  and the generic facts on words, bits and lists that the component proofs rest on.

  A \<^verbatim>\<open>uint8_t\<close>, \<^verbatim>\<open>uint16_t\<close>, \<^verbatim>\<open>uint32_t\<close> or
  \<^verbatim>\<open>uint64_t\<close> is a word of that width, so that \<open>+\<close>, \<open>-\<close>, \<open>*\<close> and
  \<open>push_bit\<close> wrap as the C++ operators do.  A \<^verbatim>\<open>Slice\<close> or a
  \<^verbatim>\<open>std::string\<close> is the list of bytes it refers to.  A \<^verbatim>\<open>size_t\<close> that
  counts elements of an existing list is a \<open>nat\<close>; the casts of such a count to a narrower type
  are written out with \<open>of_nat\<close>.
\<close>

unbundle bit_operations_syntax

section \<open>Machine types\<close>

type_synonym byte = "8 word"
type_synonym u16 = "16 word"
type_synonym u32 = "32 word"
type_synonym u64 = "64 word"
type_synonym bytes = "byte list"

text \<open>An \<^verbatim>\<open>assert\<close> in code whose failure is modelled: None is the failed assertion.\<close>

definition assert :: "bool \<Rightarrow> unit option" where
  "assert b = (if b then Some () else None)"

lemma assert_simps [simp]: "assert True = Some ()" "assert False = None"
  by (simp_all add: assert_def)

text \<open>Rewrite rules that turn a masked cast into a statement about single bits.\<close>

named_theorems word_norm \<open>normal forms of masks and casts\<close>

lemma and_ff [word_norm]: "(x :: 'a::len word) AND 0xff = take_bit 8 x"
  by (simp add: take_bit_eq_mask mask_eq_exp_minus_1)

lemma and_7f [word_norm]: "(x :: 'a::len word) AND 127 = take_bit 7 x"
  by (simp add: take_bit_eq_mask mask_eq_exp_minus_1)

lemma and_1 [word_norm]: "(x :: 'a::len word) AND 1 = take_bit 1 x"
  by (simp add: take_bit_eq_mask mask_eq_exp_minus_1)

lemma and_ffffffff [word_norm]: "(x :: 'a::len word) AND 0xffffffff = take_bit 32 x"
  by (simp add: take_bit_eq_mask mask_eq_exp_minus_1)

lemma bit_128: "bit (128 :: 'a::len word) n \<longleftrightarrow> n = 7 \<and> 7 < LENGTH('a)"
  using bit_exp_iff [of 7 n, where 'a = "'a word"] by auto

lemma bit_128_int: "bit (128 :: int) n \<longleftrightarrow> n = 7"
  using bit_exp_iff [of 7 n, where 'a = int] by auto

lemma and_128_eq_0_iff:
  assumes "7 < LENGTH('a)"
  shows "(x :: 'a::len word) AND 128 = 0 \<longleftrightarrow> \<not> bit x 7"
proof
  assume "x AND 128 = 0"
  then have "\<not> bit (x AND 128) 7" by simp
  then show "\<not> bit x 7" using assms by (simp only: bit_and_iff bit_128) simp
next
  assume "\<not> bit x 7"
  then show "x AND 128 = 0"
    by (intro bit_word_eqI) (auto simp only: bit_and_iff bit_128 bit_0_eq bot_apply bot_bool_def)
qed

text \<open>An unsigned comparison with a power of two is a statement about the high bits.\<close>

lemma word_less_exp_iff_drop_bit:
  fixes v :: "'a::len word"
  assumes "k < LENGTH('a)"
  shows "v < 2 ^ k \<longleftrightarrow> drop_bit k v = 0"
proof -
  have "unat (2 ^ k :: 'a word) = 2 ^ k"
    using assms unsigned_of_nat [of "2 ^ k", where 'b = 'a and 'a = nat]
    by (simp add: take_bit_nat_eq_self)
  then have "v < 2 ^ k \<longleftrightarrow> unat v < 2 ^ k"
    by (simp add: word_less_nat_alt)
  also have "\<dots> \<longleftrightarrow> unat v div 2 ^ k = 0"
    by (simp add: div_eq_0_iff)
  also have "\<dots> \<longleftrightarrow> unat (drop_bit k v) = 0"
    by (simp add: unat_drop_bit_eq flip: drop_bit_eq_div)
  finally show ?thesis by (simp add: unat_eq_0)
qed

lemma word_less_128_iff:
  assumes "7 < LENGTH('a)"
  shows "(v :: 'a::len word) < 128 \<longleftrightarrow> drop_bit 7 v = 0"
  using word_less_exp_iff_drop_bit [OF assms, of v] by simp

lemma drop_bit_eq_0_bit:
  assumes "drop_bit k (v :: 'a::len word) = 0" and "k \<le> n"
  shows "\<not> bit v n"
proof -
  have "bit (drop_bit k v) (n - k) = bit v n" using assms(2) by (simp add: bit_drop_bit_eq)
  then show ?thesis using assms(1) by simp
qed

lemma unat_drop_bit_less:
  assumes "128 \<le> (v :: 'a::len word)" and "7 < LENGTH('a)"
  shows "unat (drop_bit 7 v) < unat v"
proof -
  have "\<not> v < 128" using assms(1) by simp
  then have "v \<noteq> 0" using assms(2) by (auto simp: word_less_128_iff)
  then have "unat v \<noteq> 0" by (simp add: unat_eq_0)
  then have "unat v div 128 < unat v" by simp
  moreover have "unat (drop_bit 7 v) = unat v div 128"
    by (subst unat_drop_bit_eq) (simp add: drop_bit_eq_div)
  ultimately show ?thesis by simp
qed

text \<open>Splitting a word into its low bits and the rest.\<close>

lemma take_bit_or_push_drop: "take_bit k (v :: 'a::len word) OR push_bit k (drop_bit k v) = v"
proof (rule bit_word_eqI)
  fix n assume "n < LENGTH('a)"
  then show "bit (take_bit k v OR push_bit k (drop_bit k v)) n = bit v n"
    by (cases "n < k") (auto simp: bit_simps)
qed

lemma not_bit_byte: "8 \<le> n \<Longrightarrow> \<not> bit (b :: byte) n"
  by (auto dest: bit_imp_le_length)

text \<open>Cancellation for exclusive or.\<close>

lemma xor_left_cancel_word [simp]: "(a :: 'a::len word) XOR b = a XOR c \<longleftrightarrow> b = c"
  by (metis xor.assoc xor.left_neutral xor_self_eq)

lemma xor_right_cancel_word [simp]: "(b :: 'a::len word) XOR a = c XOR a \<longleftrightarrow> b = c"
  by (metis xor.commute xor_left_cancel_word)

lemma xor_eq_0_iff_word: "(a :: 'a::len word) XOR b = 0 \<longleftrightarrow> a = b"
  by (metis xor_left_cancel_word xor_self_eq)

text \<open>Unsigned arithmetic that does not wrap.\<close>

lemma unat_drop_bit_div: "unat (drop_bit k (x :: 'a::len word)) = unat x div 2 ^ k"
  by (subst unat_drop_bit_eq) (simp add: drop_bit_eq_div)

lemma unat_take_bit_mod: "unat (take_bit k (x :: 'a::len word)) = unat x mod 2 ^ k"
  by (simp only: unsigned_take_bit_eq take_bit_eq_mod [where 'a = nat])

lemma unat_add_no_overflow: "unat x + unat y < 2 ^ LENGTH('a) \<Longrightarrow> unat (x + y :: 'a::len word) = unat x + unat y"
  by (simp add: unat_word_ariths)

lemma unat_mult_no_overflow: "unat x * unat y < 2 ^ LENGTH('a) \<Longrightarrow> unat (x * y :: 'a::len word) = unat x * unat y"
  by (simp add: unat_word_ariths)

lemma sint_of_nat_u32: "n < 2 ^ 31 \<Longrightarrow> sint (of_nat n :: u32) = int n"
  by (simp add: sint_uint unsigned_of_nat signed_take_bit_int_eq_self take_bit_nat_eq_self)

lemma unat_of_nat_u32: "n < 2 ^ 32 \<Longrightarrow> unat (of_nat n :: u32) = n"
  by (simp add: unsigned_of_nat take_bit_nat_eq_self)

section \<open>Lists\<close>

text \<open>\<^verbatim>\<open>Slice(data + off, n)\<close>: the bytes a slice points to.\<close>

definition subslice :: "bytes \<Rightarrow> nat \<Rightarrow> nat \<Rightarrow> bytes" where
  "subslice data off n = take n (drop off data)"

lemma take_drop_take_append: "a \<le> length xs \<Longrightarrow> take (length xs - a) (drop a (xs @ ys)) = drop a xs"
  by simp

lemma nth_drop_0: "i < length xs \<Longrightarrow> drop i xs = xs ! i # drop (Suc i) xs"
  by (simp add: Cons_nth_drop_Suc)

end
