(* ===== verification/Slice.thy ===== *)
theory Slice
  imports Rocks_Prelude "HOL-Library.List_Lexorder"
begin

text \<open>
  Byte strings: \<^verbatim>\<open>include/rocksdb/slice.h\<close> and \<^verbatim>\<open>util/slice.cc\<close>.
  The three-way comparison and the prefix operations of \<^verbatim>\<open>class Slice\<close>, the hexadecimal
  printer and parser, and the three built-in prefix extractors.  The lemmas show that
  \<^verbatim>\<open>Slice::compare\<close> is the lexicographic order on bytes, that
  \<^verbatim>\<open>difference_offset\<close> is the length of the longest common prefix, that hexadecimal
  printing is inverted by \<^verbatim>\<open>DecodeHex\<close>, and that every extractor keeps the contract of
  \<^verbatim>\<open>SliceTransform\<close>, stated as a locale.
\<close>

section \<open>Definitions\<close>

text \<open>The C library's \<^verbatim>\<open>memcmp\<close>, of which the sources use the sign only.\<close>

fun memcmp :: "bytes \<Rightarrow> bytes \<Rightarrow> nat \<Rightarrow> int" where
  "memcmp (x # a) (y # b) (Suc n) = (if x < y then -1 else if y < x then 1 else memcmp a b n)"
| "memcmp _ _ _ = 0"

definition Slice_compare :: "bytes \<Rightarrow> bytes \<Rightarrow> int" where
  "Slice_compare a b =
     (let min_len = (if length a < length b then length a else length b);
          r = memcmp a b min_len
      in if r = 0 then (if length a < length b then -1 else if length a > length b then 1 else r)
         else r)"

definition Slice_equal :: "bytes \<Rightarrow> bytes \<Rightarrow> bool" where
  "Slice_equal x y \<longleftrightarrow> length x = length y \<and> memcmp x y (length x) = 0"

definition Slice_starts_with :: "bytes \<Rightarrow> bytes \<Rightarrow> bool" where
  "Slice_starts_with s x \<longleftrightarrow> length s \<ge> length x \<and> memcmp s x (length x) = 0"

definition Slice_ends_with :: "bytes \<Rightarrow> bytes \<Rightarrow> bool" where
  "Slice_ends_with s x \<longleftrightarrow>
     length s \<ge> length x \<and> memcmp (drop (length s - length x) s) x (length x) = 0"

definition Slice_remove_prefix :: "bytes \<Rightarrow> nat \<Rightarrow> bytes" where
  "Slice_remove_prefix s n = drop n s"

definition Slice_remove_suffix :: "bytes \<Rightarrow> nat \<Rightarrow> bytes" where
  "Slice_remove_suffix s n = take (length s - n) s"

text \<open>The loop that advances \<open>off\<close> while the bytes agree, up to \<open>len\<close>.\<close>

function diff_loop :: "bytes \<Rightarrow> bytes \<Rightarrow> nat \<Rightarrow> nat \<Rightarrow> nat" where
  "diff_loop a b off len =
     (if off < len \<and> a ! off = b ! off then diff_loop a b (Suc off) len else off)"
  by pat_completeness auto
termination
  by (relation "measure (\<lambda>(a, b, off, len). len - off)") auto

declare diff_loop.simps [simp del]

definition Slice_difference_offset :: "bytes \<Rightarrow> bytes \<Rightarrow> nat" where
  "Slice_difference_offset a b =
     (let len = (if length a < length b then length a else length b) in diff_loop a b 0 len)"

text \<open>\<^verbatim>\<open>'0'\<close> is 48, \<^verbatim>\<open>'9'\<close> 57, \<^verbatim>\<open>'A'\<close> 65,
  \<^verbatim>\<open>'F'\<close> 70, \<^verbatim>\<open>'a'\<close> 97, \<^verbatim>\<open>'f'\<close> 102.  A
  \<^verbatim>\<open>char\<close> is compared as a signed value.\<close>

definition toHex :: "byte \<Rightarrow> byte" where
  "toHex v = (if v \<le> 9 then 48 + v else 65 + v - 10)"

definition fromHex :: "byte \<Rightarrow> int" where
  "fromHex c0 =
     (let c = (if 97 \<le> sint c0 \<and> sint c0 \<le> 102 then sint c0 - (97 - 65) else sint c0)
      in if c < 48 \<or> (c > 57 \<and> (c < 65 \<or> c > 70)) then -1
         else if c \<le> 57 then c - 48
         else c - 65 + 10)"

fun Slice_ToString_hex :: "bytes \<Rightarrow> bytes" where
  "Slice_ToString_hex [] = []"
| "Slice_ToString_hex (c # cs) = toHex (drop_bit 4 c) # toHex (c AND 0xf) # Slice_ToString_hex cs"

definition Slice_ToString :: "bool \<Rightarrow> bytes \<Rightarrow> bytes" where
  "Slice_ToString hex s = (if hex then Slice_ToString_hex s else s)"

text \<open>The decoding loop takes two characters at a time; \<open>None\<close> is the \<^verbatim>\<open>false\<close> result.\<close>

fun DecodeHex_loop :: "bytes \<Rightarrow> bytes option" where
  "DecodeHex_loop [] = Some []"
| "DecodeHex_loop [c] = None"
| "DecodeHex_loop (c1 # c2 # cs) =
     (let h1 = fromHex c1 in if h1 < 0 then None
      else let h2 = fromHex c2 in if h2 < 0 then None
      else map_option (\<lambda>r. word_of_int (push_bit 4 h1 OR h2) # r) (DecodeHex_loop cs))"

definition Slice_DecodeHex :: "bytes \<Rightarrow> bytes option" where
  "Slice_DecodeHex s = (if odd (length s) then None else DecodeHex_loop s)"

text \<open>\<^verbatim>\<open>Slice(const SliceParts&, std::string*)\<close>: the parts appended to the buffer.\<close>

definition Slice_from_parts :: "bytes list \<Rightarrow> bytes \<Rightarrow> bytes" where
  "Slice_from_parts parts buf = foldl (\<lambda>b p. b @ p) buf parts"

text \<open>The prefix extractors.\<close>

definition FixedPrefix_InDomain :: "nat \<Rightarrow> bytes \<Rightarrow> bool" where
  "FixedPrefix_InDomain prefix_len src \<longleftrightarrow> length src \<ge> prefix_len"

definition FixedPrefix_Transform :: "nat \<Rightarrow> bytes \<Rightarrow> bytes" where
  "FixedPrefix_Transform prefix_len src = take prefix_len src"

definition FixedPrefix_InRange :: "nat \<Rightarrow> bytes \<Rightarrow> bool" where
  "FixedPrefix_InRange prefix_len dst \<longleftrightarrow> length dst = prefix_len"

definition FixedPrefix_SameResultWhenAppended :: "nat \<Rightarrow> bytes \<Rightarrow> bool" where
  "FixedPrefix_SameResultWhenAppended prefix_len prefix = FixedPrefix_InDomain prefix_len prefix"

definition CappedPrefix_InDomain :: "nat \<Rightarrow> bytes \<Rightarrow> bool" where
  "CappedPrefix_InDomain cap_len src \<longleftrightarrow> True"

definition CappedPrefix_Transform :: "nat \<Rightarrow> bytes \<Rightarrow> bytes" where
  "CappedPrefix_Transform cap_len src = take (min cap_len (length src)) src"

definition CappedPrefix_InRange :: "nat \<Rightarrow> bytes \<Rightarrow> bool" where
  "CappedPrefix_InRange cap_len dst \<longleftrightarrow> length dst \<le> cap_len"

definition CappedPrefix_SameResultWhenAppended :: "nat \<Rightarrow> bytes \<Rightarrow> bool" where
  "CappedPrefix_SameResultWhenAppended cap_len prefix \<longleftrightarrow> length prefix \<ge> cap_len"

definition Noop_InDomain :: "bytes \<Rightarrow> bool" where
  "Noop_InDomain src \<longleftrightarrow> True"

definition Noop_Transform :: "bytes \<Rightarrow> bytes" where
  "Noop_Transform src = src"

definition Noop_InRange :: "bytes \<Rightarrow> bool" where
  "Noop_InRange dst \<longleftrightarrow> True"

definition Noop_SameResultWhenAppended :: "bytes \<Rightarrow> bool" where
  "Noop_SameResultWhenAppended prefix \<longleftrightarrow> False"

section \<open>Comparison\<close>

lemma memcmp_eq_0_iff:
  "n \<le> length a \<Longrightarrow> n \<le> length b \<Longrightarrow> memcmp a b n = 0 \<longleftrightarrow> take n a = take n b"
  by (induction a b n rule: memcmp.induct) auto

lemma memcmp_range: "memcmp a b n \<in> {-1, 0, 1}"
  by (induction a b n rule: memcmp.induct) auto

text \<open>The order on byte lists of \<open>List_Lexorder\<close> is what \<^verbatim>\<open>compare\<close> decides.\<close>

lemma memcmp_min_less:
  "memcmp a b (min (length a) (length b)) < 0 \<or>
     memcmp a b (min (length a) (length b)) = 0 \<and> length a < length b \<longleftrightarrow> a < b"
proof (induction a arbitrary: b)
  case Nil
  then show ?case by (cases b) auto
next
  case (Cons x a)
  show ?case
  proof (cases b)
    case Nil
    then show ?thesis by auto
  next
    case (Cons y b')
    with Cons.IH [of b'] show ?thesis by auto
  qed
qed

lemma memcmp_swap: "memcmp b a n = - memcmp a b n"
  by (induction a b n rule: memcmp.induct) (auto dest: less_asym)

lemma Slice_compare_swap: "Slice_compare b a = - Slice_compare a b"
  by (auto simp: Slice_compare_def Let_def memcmp_swap [of b a])

lemma Slice_compare_less_iff: "Slice_compare a b < 0 \<longleftrightarrow> a < b"
proof -
  have m: "(if length a < length b then length a else length b) = min (length a) (length b)"
    by (simp add: min_def)
  show ?thesis
    using memcmp_min_less [of a b] by (auto simp: Slice_compare_def Let_def m)
qed

lemma Slice_compare_greater_iff: "Slice_compare a b > 0 \<longleftrightarrow> b < a"
  using Slice_compare_less_iff [of b a] by (simp add: Slice_compare_swap [of a b])

lemma Slice_compare_eq_0_iff: "Slice_compare a b = 0 \<longleftrightarrow> a = b"
  by (metis Slice_compare_greater_iff Slice_compare_less_iff less_irrefl linorder_less_linear)

lemma Slice_compare_le_iff: "Slice_compare a b \<le> 0 \<longleftrightarrow> a \<le> b"
  using Slice_compare_greater_iff [of a b] by (auto simp: not_less [symmetric])

lemmas Slice_compare_iffs =
  Slice_compare_less_iff Slice_compare_greater_iff Slice_compare_eq_0_iff Slice_compare_le_iff

lemma Slice_equal_iff: "Slice_equal x y \<longleftrightarrow> x = y"
  by (auto simp: Slice_equal_def memcmp_eq_0_iff)

lemma Slice_starts_with_iff: "Slice_starts_with s x \<longleftrightarrow> (\<exists>r. s = x @ r)"
proof
  assume "Slice_starts_with s x"
  then have "s = x @ drop (length x) s"
    by (auto simp: Slice_starts_with_def memcmp_eq_0_iff) (metis append_take_drop_id)
  then show "\<exists>r. s = x @ r" ..
qed (auto simp: Slice_starts_with_def memcmp_eq_0_iff)

section \<open>The first differing byte\<close>

lemma diff_loop_bounds: "off \<le> len \<Longrightarrow> off \<le> diff_loop a b off len \<and> diff_loop a b off len \<le> len"
proof (induction a b off len rule: diff_loop.induct)
  case (1 a b off len)
  then show ?case by (subst (1 2) diff_loop.simps) (auto simp: Suc_le_eq)
qed

lemma diff_loop_agree:
  "off \<le> i \<Longrightarrow> i < diff_loop a b off len \<Longrightarrow> a ! i = b ! i"
proof (induction a b off len rule: diff_loop.induct)
  case (1 a b off len)
  show ?case
  proof (cases "off < len \<and> a ! off = b ! off")
    case True
    with 1 show ?thesis
      by (cases "i = off") (auto simp: diff_loop.simps [of a b off len])
  next
    case False
    with 1 show ?thesis by (auto simp: diff_loop.simps [of a b off len])
  qed
qed

lemma diff_loop_stop: "diff_loop a b off len < len \<Longrightarrow> a ! diff_loop a b off len \<noteq> b ! diff_loop a b off len"
proof (induction a b off len rule: diff_loop.induct)
  case (1 a b off len)
  then show ?case
    by (cases "off < len \<and> a ! off = b ! off") (auto simp: diff_loop.simps [of a b off len])
qed

lemma diff_loop_take:
  assumes "len \<le> length a" and "len \<le> length b"
  shows "take (diff_loop a b 0 len) a = take (diff_loop a b 0 len) b"
proof (rule nth_equalityI)
  have "diff_loop a b 0 len \<le> len" using diff_loop_bounds [of 0 len a b] by simp
  with assms show "length (take (diff_loop a b 0 len) a) = length (take (diff_loop a b 0 len) b)"
    by simp
  fix i assume "i < length (take (diff_loop a b 0 len) a)"
  then show "take (diff_loop a b 0 len) a ! i = take (diff_loop a b 0 len) b ! i"
    using diff_loop_agree [of 0 i a b len] by simp
qed

lemma Slice_difference_offset_le:
  "Slice_difference_offset a b \<le> length a" "Slice_difference_offset a b \<le> length b"
  using diff_loop_bounds [of 0 "if length a < length b then length a else length b" a b]
  by (auto simp: Slice_difference_offset_def Let_def split: if_splits)

lemma Slice_difference_offset_take:
  "take (Slice_difference_offset a b) a = take (Slice_difference_offset a b) b"
  by (auto simp: Slice_difference_offset_def Let_def intro!: diff_loop_take)

section \<open>Hexadecimal\<close>

lemma toHex_fromHex: "v < 16 \<Longrightarrow> fromHex (toHex v) = uint v"
proof -
  assume "v < 16"
  then have "unat v < 16" by (simp add: word_less_nat_alt)
  moreover have "v = of_nat (unat v)" by simp
  ultimately have "v \<in> of_nat ` {..<16}"
    by (metis image_eqI lessThan_iff)
  moreover have "\<forall>n \<in> {..<16::nat}. fromHex (toHex (of_nat n)) = uint (of_nat n :: byte)"
    by code_simp
  ultimately show ?thesis by blast
qed

lemma hex_nibbles: "word_of_int (push_bit 4 (uint (drop_bit 4 c)) OR uint (c AND 0xf)) = (c :: byte)"
proof -
  have "uint c = push_bit 4 (drop_bit 4 (uint c)) OR take_bit 4 (uint c)"
    by (rule bit_eqI) (auto simp: bit_simps)
  moreover have "c AND 0xf = take_bit 4 c"
    by (simp add: take_bit_eq_mask mask_eq_exp_minus_1)
  moreover have "take_bit 8 (uint c) = uint c"
    using unsigned_less [of c, where 'a = int] by (intro take_bit_int_eq_self) auto
  ultimately have "push_bit 4 (uint (drop_bit 4 c)) OR uint (c AND 0xf) = uint c"
    by (simp add: unsigned_drop_bit_eq unsigned_take_bit_eq)
  then show ?thesis by simp
qed

lemma drop_bit_4_less: "drop_bit 4 (c :: byte) < 16"
proof -
  have "drop_bit 4 (drop_bit 4 c) = drop_bit 8 c" by simp
  also have "\<dots> = 0" by (rule bit_word_eqI) (simp add: bit_simps)
  finally show ?thesis using word_less_exp_iff_drop_bit [of 4 "drop_bit 4 c"] by simp
qed

lemma and_f_less: "(c :: byte) AND 0xf < 16"
  by (rule le_less_trans [OF word_and_le1]) simp

lemma DecodeHex_loop_ToString: "DecodeHex_loop (Slice_ToString_hex s) = Some s"
proof (induction s)
  case (Cons c s)
  have "fromHex (toHex (drop_bit 4 c)) = uint (drop_bit 4 c)"
    and "fromHex (toHex (c AND 0xf)) = uint (c AND 0xf)"
    by (simp_all only: toHex_fromHex drop_bit_4_less and_f_less)
  with Cons show ?case by (simp add: hex_nibbles del: unsigned_and_eq)
qed simp

lemma length_ToString_hex [simp]: "length (Slice_ToString_hex s) = 2 * length s"
  by (induction s) auto

section \<open>The contract of prefix extractors\<close>

text \<open>
  \<^verbatim>\<open>include/rocksdb/slice_transform.h\<close> documents what the engine and its users rely on: the
  result is a prefix of the key, it lies in the range, and when
  \<^verbatim>\<open>SameResultWhenAppended(prefix)\<close> holds, every key that extends the prefix has the
  same result.
\<close>

locale slice_transform =
  fixes InDomain :: "bytes \<Rightarrow> bool"
    and Transform :: "bytes \<Rightarrow> bytes"
    and InRange :: "bytes \<Rightarrow> bool"
    and SameResultWhenAppended :: "bytes \<Rightarrow> bool"
  assumes transform_prefix: "InDomain k \<Longrightarrow> Slice_starts_with k (Transform k)"
    and transform_range: "InDomain k \<Longrightarrow> InRange (Transform k)"
    and transform_idem: "InDomain k \<Longrightarrow> InDomain (Transform k) \<and> Transform (Transform k) = Transform k"
    and same_domain: "SameResultWhenAppended p \<Longrightarrow> InDomain (p @ s)"
    and same_append: "SameResultWhenAppended p \<Longrightarrow> Transform (p @ s) = Transform p"
begin

text \<open>
  What a user may conclude: a filter keyed by the extracted prefix sees the same entry for the
  seek key \<open>p\<close> and for every key that starts with \<open>p\<close>.
\<close>

lemma seek_prefix_complete:
  "SameResultWhenAppended p \<Longrightarrow> Slice_starts_with k p \<Longrightarrow> InDomain k \<and> Transform k = Transform p"
  by (auto simp: Slice_starts_with_iff same_append same_domain)

lemma transform_length: "InDomain k \<Longrightarrow> length (Transform k) \<le> length k"
  using transform_prefix [of k] by (simp add: Slice_starts_with_def)

end

lemmas prefix_transform_defs =
  FixedPrefix_InDomain_def FixedPrefix_Transform_def FixedPrefix_InRange_def
  FixedPrefix_SameResultWhenAppended_def CappedPrefix_InDomain_def CappedPrefix_Transform_def
  CappedPrefix_InRange_def CappedPrefix_SameResultWhenAppended_def Noop_InDomain_def
  Noop_Transform_def Noop_InRange_def Noop_SameResultWhenAppended_def

interpretation fixed_prefix: slice_transform "FixedPrefix_InDomain n" "FixedPrefix_Transform n"
  "FixedPrefix_InRange n" "FixedPrefix_SameResultWhenAppended n" for n
  by unfold_locales
    (auto simp: prefix_transform_defs Slice_starts_with_def memcmp_eq_0_iff)

interpretation capped_prefix: slice_transform "CappedPrefix_InDomain n" "CappedPrefix_Transform n"
  "CappedPrefix_InRange n" "CappedPrefix_SameResultWhenAppended n" for n
  by unfold_locales
    (auto simp: prefix_transform_defs Slice_starts_with_def memcmp_eq_0_iff min_def)

interpretation noop_transform: slice_transform Noop_InDomain Noop_Transform Noop_InRange
  Noop_SameResultWhenAppended
  by unfold_locales (auto simp: prefix_transform_defs Slice_starts_with_def memcmp_eq_0_iff)

end
