(* ===== verification/Coding.thy ===== *)
theory Coding
  imports Slice
begin

text \<open>
  The byte encodings of \<^verbatim>\<open>util/coding.h\<close> and \<^verbatim>\<open>util/coding.cc\<close>: fixed-width
  little-endian integers, variable-length integers (seven bits per byte, continuation in the top
  bit), zigzag signed integers and length-prefixed slices.  A \<^verbatim>\<open>Put\<close> routine returns the
  extended destination; a \<^verbatim>\<open>Get\<close> routine returns the value and the rest of the input, or
  \<open>None\<close> where the source returns \<^verbatim>\<open>false\<close> or \<^verbatim>\<open>nullptr\<close>.
  The interface they share is the locale \<open>codec\<close>: what a \<^verbatim>\<open>Get\<close> reads back after
  a \<^verbatim>\<open>Put\<close>, whatever follows it in the input.
\<close>

section \<open>Fixed-width integers\<close>

text \<open>Both endianness branches of the source write the least significant byte first.\<close>

definition EncodeFixed16 :: "u16 \<Rightarrow> bytes" where
  "EncodeFixed16 value = [ucast (value AND 0xff), ucast (drop_bit 8 value AND 0xff)]"

definition EncodeFixed32 :: "u32 \<Rightarrow> bytes" where
  "EncodeFixed32 value =
     [ucast (value AND 0xff), ucast (drop_bit 8 value AND 0xff),
      ucast (drop_bit 16 value AND 0xff), ucast (drop_bit 24 value AND 0xff)]"

definition EncodeFixed64 :: "u64 \<Rightarrow> bytes" where
  "EncodeFixed64 value =
     [ucast (value AND 0xff), ucast (drop_bit 8 value AND 0xff),
      ucast (drop_bit 16 value AND 0xff), ucast (drop_bit 24 value AND 0xff),
      ucast (drop_bit 32 value AND 0xff), ucast (drop_bit 40 value AND 0xff),
      ucast (drop_bit 48 value AND 0xff), ucast (drop_bit 56 value AND 0xff)]"

definition PutFixed16 :: "bytes \<Rightarrow> u16 \<Rightarrow> bytes" where
  "PutFixed16 dst value = dst @ EncodeFixed16 value"

definition PutFixed32 :: "bytes \<Rightarrow> u32 \<Rightarrow> bytes" where
  "PutFixed32 dst value = dst @ EncodeFixed32 value"

definition PutFixed64 :: "bytes \<Rightarrow> u64 \<Rightarrow> bytes" where
  "PutFixed64 dst value = dst @ EncodeFixed64 value"

text \<open>
  The unchecked loads.  They read the first bytes of the list \<open>ptr\<close>; where the list is shorter
  the source's read is undefined behaviour and the model's value is unspecified.
\<close>

definition DecodeFixed16 :: "bytes \<Rightarrow> u16" where
  "DecodeFixed16 ptr = ucast (ptr ! 0) OR push_bit 8 (ucast (ptr ! 1))"

definition DecodeFixed32 :: "bytes \<Rightarrow> u32" where
  "DecodeFixed32 ptr =
     ucast (ptr ! 0) OR push_bit 8 (ucast (ptr ! 1)) OR push_bit 16 (ucast (ptr ! 2))
       OR push_bit 24 (ucast (ptr ! 3))"

definition DecodeFixed64 :: "bytes \<Rightarrow> u64" where
  "DecodeFixed64 ptr =
     (let lo = ucast (DecodeFixed32 ptr); hi = ucast (DecodeFixed32 (drop 4 ptr))
      in push_bit 32 hi OR lo)"

definition GetFixed16 :: "bytes \<Rightarrow> (u16 \<times> bytes) option" where
  "GetFixed16 input =
     (if length input < 2 then None
      else Some (DecodeFixed16 input, Slice_remove_prefix input 2))"

definition GetFixed32 :: "bytes \<Rightarrow> (u32 \<times> bytes) option" where
  "GetFixed32 input =
     (if length input < 4 then None
      else Some (DecodeFixed32 input, Slice_remove_prefix input 4))"

definition GetFixed64 :: "bytes \<Rightarrow> (u64 \<times> bytes) option" where
  "GetFixed64 input =
     (if length input < 8 then None
      else Some (DecodeFixed64 input, Slice_remove_prefix input 8))"

section \<open>Variable-length integers\<close>

definition kMaxVarint64Length :: nat where
  "kMaxVarint64Length = 10"

definition EncodeVarint32 :: "u32 \<Rightarrow> bytes" where
  "EncodeVarint32 v =
     (let B = 128 in
      if v < 2 ^ 7 then [ucast v]
      else if v < 2 ^ 14 then [ucast (v OR B), ucast (drop_bit 7 v)]
      else if v < 2 ^ 21 then [ucast (v OR B), ucast (drop_bit 7 v OR B), ucast (drop_bit 14 v)]
      else if v < 2 ^ 28 then
        [ucast (v OR B), ucast (drop_bit 7 v OR B), ucast (drop_bit 14 v OR B), ucast (drop_bit 21 v)]
      else
        [ucast (v OR B), ucast (drop_bit 7 v OR B), ucast (drop_bit 14 v OR B),
         ucast (drop_bit 21 v OR B), ucast (drop_bit 28 v)])"

function EncodeVarint64 :: "u64 \<Rightarrow> bytes" where
  "EncodeVarint64 v =
     (if v \<ge> 128 then ucast ((v AND (128 - 1)) OR 128) # EncodeVarint64 (drop_bit 7 v)
      else [ucast v])"
  by pat_completeness auto
termination
  by (relation "measure unat") (auto simp del: drop_bit_eq_div intro: unat_drop_bit_less)

declare EncodeVarint64.simps [simp del]

definition PutVarint32 :: "bytes \<Rightarrow> u32 \<Rightarrow> bytes" where
  "PutVarint32 dst v = dst @ EncodeVarint32 v"

definition PutVarint32Varint32 :: "bytes \<Rightarrow> u32 \<Rightarrow> u32 \<Rightarrow> bytes" where
  "PutVarint32Varint32 dst v1 v2 = dst @ (EncodeVarint32 v1 @ EncodeVarint32 v2)"

definition PutVarint32Varint32Varint32 :: "bytes \<Rightarrow> u32 \<Rightarrow> u32 \<Rightarrow> u32 \<Rightarrow> bytes" where
  "PutVarint32Varint32Varint32 dst v1 v2 v3 =
     dst @ (EncodeVarint32 v1 @ EncodeVarint32 v2 @ EncodeVarint32 v3)"

definition PutVarint64 :: "bytes \<Rightarrow> u64 \<Rightarrow> bytes" where
  "PutVarint64 dst v = dst @ EncodeVarint64 v"

definition PutVarint64Varint64 :: "bytes \<Rightarrow> u64 \<Rightarrow> u64 \<Rightarrow> bytes" where
  "PutVarint64Varint64 dst v1 v2 = dst @ (EncodeVarint64 v1 @ EncodeVarint64 v2)"

definition PutVarint32Varint64 :: "bytes \<Rightarrow> u32 \<Rightarrow> u64 \<Rightarrow> bytes" where
  "PutVarint32Varint64 dst v1 v2 = dst @ (EncodeVarint32 v1 @ EncodeVarint64 v2)"

definition PutVarint32Varint32Varint64 :: "bytes \<Rightarrow> u32 \<Rightarrow> u32 \<Rightarrow> u64 \<Rightarrow> bytes" where
  "PutVarint32Varint32Varint64 dst v1 v2 v3 =
     dst @ (EncodeVarint32 v1 @ EncodeVarint32 v2 @ EncodeVarint64 v3)"

function VarintLength_loop :: "u64 \<Rightarrow> nat \<Rightarrow> nat" where
  "VarintLength_loop v len = (if v \<ge> 128 then VarintLength_loop (drop_bit 7 v) (len + 1) else len)"
  by pat_completeness auto
termination
  by (relation "measure (\<lambda>(v, len). unat v)") (auto simp del: drop_bit_eq_div intro: unat_drop_bit_less)

declare VarintLength_loop.simps [simp del]

definition VarintLength :: "u64 \<Rightarrow> nat" where
  "VarintLength v = VarintLength_loop v 1"

text \<open>
  The decoding loops of \<^verbatim>\<open>GetVarint32PtrFallback\<close> and \<^verbatim>\<open>GetVarint64Ptr\<close>
  differ in the type of the accumulator and in the last shift allowed (28 and 63): one definition,
  polymorphic in the word type, with that bound as its first argument.
\<close>

fun GetVarint_loop :: "nat \<Rightarrow> nat \<Rightarrow> 'a::len word \<Rightarrow> bytes \<Rightarrow> ('a word \<times> bytes) option" where
  "GetVarint_loop max_shift shift result [] = None"
| "GetVarint_loop max_shift shift result (c # p) =
     (if shift \<le> max_shift then
        (let byte = (ucast c :: 'a word) in
         if byte AND 128 \<noteq> 0
         then GetVarint_loop max_shift (shift + 7) (result OR push_bit shift (byte AND 127)) p
         else Some (result OR push_bit shift byte, p))
      else None)"

definition GetVarint32PtrFallback :: "bytes \<Rightarrow> (u32 \<times> bytes) option" where
  "GetVarint32PtrFallback p = GetVarint_loop 28 0 0 p"

definition GetVarint32Ptr :: "bytes \<Rightarrow> (u32 \<times> bytes) option" where
  "GetVarint32Ptr p =
     (case p of
        [] \<Rightarrow> GetVarint32PtrFallback p
      | c # p' \<Rightarrow>
          (let result = ucast c in
           if result AND 128 = 0 then Some (result, p') else GetVarint32PtrFallback p))"

definition GetVarint64Ptr :: "bytes \<Rightarrow> (u64 \<times> bytes) option" where
  "GetVarint64Ptr p = GetVarint_loop 63 0 0 p"

definition GetVarint32 :: "bytes \<Rightarrow> (u32 \<times> bytes) option" where
  "GetVarint32 input = GetVarint32Ptr input"

definition GetVarint64 :: "bytes \<Rightarrow> (u64 \<times> bytes) option" where
  "GetVarint64 input = GetVarint64Ptr input"

text \<open>Zigzag: the signed type \<^verbatim>\<open>int64_t\<close> is the same word, read with \<open>sint\<close>; its right
  shift is arithmetic.\<close>

definition i64ToZigzag :: "u64 \<Rightarrow> u64" where
  "i64ToZigzag l = push_bit 1 l XOR signed_drop_bit 63 l"

definition zigzagToI64 :: "u64 \<Rightarrow> u64" where
  "zigzagToI64 n = drop_bit 1 n XOR - (n AND 1)"

definition PutVarsignedint64 :: "bytes \<Rightarrow> u64 \<Rightarrow> bytes" where
  "PutVarsignedint64 dst v = dst @ EncodeVarint64 (i64ToZigzag v)"

definition GetVarsignedint64Ptr :: "bytes \<Rightarrow> (u64 \<times> bytes) option" where
  "GetVarsignedint64Ptr p = map_option (\<lambda>(u, q). (zigzagToI64 u, q)) (GetVarint64Ptr p)"

definition GetVarsignedint64 :: "bytes \<Rightarrow> (u64 \<times> bytes) option" where
  "GetVarsignedint64 input = GetVarsignedint64Ptr input"

section \<open>Length-prefixed slices and other helpers\<close>

definition PutLengthPrefixedSlice :: "bytes \<Rightarrow> bytes \<Rightarrow> bytes" where
  "PutLengthPrefixedSlice dst value = PutVarint32 dst (of_nat (length value)) @ value"

definition PutLengthPrefixedSliceParts_from :: "bytes \<Rightarrow> nat \<Rightarrow> bytes list \<Rightarrow> bytes" where
  "PutLengthPrefixedSliceParts_from dst total_bytes slice_parts =
     foldl (@)
       (PutVarint32 dst (of_nat (foldl (\<lambda>n p. n + length p) total_bytes slice_parts))) slice_parts"

definition PutLengthPrefixedSliceParts :: "bytes \<Rightarrow> bytes list \<Rightarrow> bytes" where
  "PutLengthPrefixedSliceParts dst slice_parts = PutLengthPrefixedSliceParts_from dst 0 slice_parts"

definition PutLengthPrefixedSlicePartsWithPadding :: "bytes \<Rightarrow> bytes list \<Rightarrow> nat \<Rightarrow> bytes" where
  "PutLengthPrefixedSlicePartsWithPadding dst slice_parts pad_sz =
     PutLengthPrefixedSliceParts_from dst pad_sz slice_parts @ replicate pad_sz 0"

definition GetLengthPrefixedSlice :: "bytes \<Rightarrow> (bytes \<times> bytes) option" where
  "GetLengthPrefixedSlice input =
     (case GetVarint32 input of
        None \<Rightarrow> None
      | Some (len, input') \<Rightarrow>
          if length input' \<ge> unat len
          then Some (take (unat len) input', Slice_remove_prefix input' (unat len))
          else None)"

text \<open>The overload for trusted data looks at five bytes for the length and does no bounds check.\<close>

definition GetLengthPrefixedSlice_unchecked :: "bytes \<Rightarrow> bytes option" where
  "GetLengthPrefixedSlice_unchecked data =
     (case GetVarint32Ptr (take 5 data) of
        None \<Rightarrow> None
      | Some (len, q) \<Rightarrow>
          Some (take (unat len) (drop (length (take 5 data) - length q) data)))"

fun GetSliceUntil_len :: "bytes \<Rightarrow> byte \<Rightarrow> nat" where
  "GetSliceUntil_len [] delimiter = 0"
| "GetSliceUntil_len (c # cs) delimiter =
     (if c \<noteq> delimiter then Suc (GetSliceUntil_len cs delimiter) else 0)"

definition GetSliceUntil :: "bytes \<Rightarrow> byte \<Rightarrow> bytes \<times> bytes" where
  "GetSliceUntil s delimiter =
     (let len = GetSliceUntil_len s delimiter
      in (take len s, Slice_remove_prefix s (len + (if len < length s then 1 else 0))))"

text \<open>On a little-endian host byte \<open>i\<close> of the input in memory is its bits \<open>8 * i\<close> and up.\<close>

definition EndianTransform :: "u64 \<Rightarrow> nat \<Rightarrow> u64" where
  "EndianTransform input sz =
     foldl (\<lambda>ret_val i. ret_val OR
         push_bit ((sz - i - 1) * 8) (ucast (ucast (drop_bit (8 * i) input) :: byte)))
       0 [0..<sz]"

section \<open>The interface of self-delimiting encodings\<close>

text \<open>
  \<open>ok\<close> bounds the values the encoding can carry (a length prefix has 32 bits).  From the one law
  that decoding inverts encoding in front of any rest, clients get unique decodability and the
  decoding of whole sequences.
\<close>

fun decode_all :: "(bytes \<Rightarrow> ('a \<times> bytes) option) \<Rightarrow> nat \<Rightarrow> bytes \<Rightarrow> ('a list \<times> bytes) option" where
  "decode_all dec 0 input = Some ([], input)"
| "decode_all dec (Suc n) input =
     (case dec input of
        None \<Rightarrow> None
      | Some (x, rest) \<Rightarrow> map_option (\<lambda>(xs, r). (x # xs, r)) (decode_all dec n rest))"

locale codec =
  fixes enc :: "'a \<Rightarrow> bytes"
    and dec :: "bytes \<Rightarrow> ('a \<times> bytes) option"
    and ok :: "'a \<Rightarrow> bool"
  assumes dec_enc: "ok x \<Longrightarrow> dec (enc x @ rest) = Some (x, rest)"
begin

lemma prefix_free:
  assumes "ok x" and "ok y" and "enc x @ r = enc y @ s"
  shows "x = y \<and> r = s"
  by (metis assms dec_enc option.inject prod.inject)

lemma decode_all_concat:
  "(\<forall>x \<in> set xs. ok x) \<Longrightarrow> decode_all dec (length xs) (concat (map enc xs) @ rest) = Some (xs, rest)"
  by (induction xs) (auto simp: dec_enc)

lemma concat_inj:
  assumes "\<forall>x \<in> set xs. ok x" and "\<forall>x \<in> set ys. ok x" and "length xs = length ys"
    and "concat (map enc xs) = concat (map enc ys)"
  shows "xs = ys"
  by (metis assms decode_all_concat option.inject prod.inject)

end

text \<open>Two encodings in sequence, as the combined \<^verbatim>\<open>Put\<close> routines write them.\<close>

locale codec_pair = a: codec enc_a dec_a ok_a + b: codec enc_b dec_b ok_b
  for enc_a :: "'a \<Rightarrow> bytes" and dec_a ok_a and enc_b :: "'b \<Rightarrow> bytes" and dec_b ok_b
begin

sublocale pair: codec "\<lambda>(x, y). enc_a x @ enc_b y"
  "\<lambda>input. Option.bind (dec_a input) (\<lambda>(x, r). map_option (\<lambda>(y, r'). ((x, y), r')) (dec_b r))"
  "\<lambda>(x, y). ok_a x \<and> ok_b y"
  by unfold_locales (auto simp: a.dec_enc b.dec_enc)

end


section \<open>Round trips: fixed width\<close>

lemma DecodeFixed16_Encode: "DecodeFixed16 (EncodeFixed16 v @ r) = v"
proof (rule bit_word_eqI)
  fix n assume "n < LENGTH(16)"
  then show "bit (DecodeFixed16 (EncodeFixed16 v @ r)) n = bit v n"
    by (cases "n < 8") (auto simp: DecodeFixed16_def EncodeFixed16_def word_norm bit_simps)
qed

lemma foldl_PutFixed32: "foldl PutFixed32 dst ws = dst @ concat (map EncodeFixed32 ws)"
  by (induction ws arbitrary: dst) (simp_all add: PutFixed32_def)

lemma DecodeFixed32_Encode: "DecodeFixed32 (EncodeFixed32 v @ r) = v"
proof (rule bit_word_eqI)
  fix n assume "n < LENGTH(32)"
  then consider "n < 8" | "8 \<le> n" "n < 16" | "16 \<le> n" "n < 24" | "24 \<le> n" "n < 32" by fastforce
  then show "bit (DecodeFixed32 (EncodeFixed32 v @ r)) n = bit v n"
    by cases (auto simp: DecodeFixed32_def EncodeFixed32_def word_norm bit_simps)
qed

lemma EncodeFixed64_split:
  "EncodeFixed64 v = EncodeFixed32 (ucast v) @ EncodeFixed32 (ucast (drop_bit 32 v))"
  by (auto simp: EncodeFixed64_def EncodeFixed32_def word_norm bit_simps intro!: bit_word_eqI)

lemma length_EncodeFixed [simp]:
  "length (EncodeFixed16 v16) = 2" "length (EncodeFixed32 v32) = 4" "length (EncodeFixed64 v64) = 8"
  by (simp_all add: EncodeFixed16_def EncodeFixed32_def EncodeFixed64_def)

lemma DecodeFixed64_Encode: fixes v :: u64 shows "DecodeFixed64 (EncodeFixed64 v @ r) = v"
proof -
  have "DecodeFixed64 (EncodeFixed64 v @ r) = push_bit 32 (ucast (ucast (drop_bit 32 v) :: u32)) OR ucast (ucast v :: u32)"
    by (simp add: DecodeFixed64_def EncodeFixed64_split DecodeFixed32_Encode)
  also have "\<dots> = v"
  proof (rule bit_word_eqI)
    fix n assume "n < LENGTH(64)"
    then show "bit (push_bit 32 (ucast (ucast (drop_bit 32 v) :: u32)) OR ucast (ucast v :: u32) :: u64) n = bit v n"
      by (cases "n < 32") (auto simp: bit_simps)
  qed
  finally show ?thesis .
qed

section \<open>Round trips: variable length\<close>

lemma continuation_byte:
  fixes v :: "'a::len word"
  assumes "7 < LENGTH('a)"
  shows "(ucast (ucast (v OR 128) :: byte) :: 'a word) AND 128 \<noteq> 0"
    and "(ucast (ucast (v OR 128) :: byte) :: 'a word) AND 127 = take_bit 7 v"
proof -
  show "(ucast (ucast (v OR 128) :: byte) :: 'a word) AND 128 \<noteq> 0"
    using assms by (simp add: and_128_eq_0_iff bit_simps bit_128 bit_128_int)
  show "(ucast (ucast (v OR 128) :: byte) :: 'a word) AND 127 = take_bit 7 v"
    by (rule bit_word_eqI) (auto simp: and_7f bit_simps bit_128 bit_128_int)
qed

lemma GetVarint_loop_step:
  fixes v :: "'a::len word"
  assumes "7 < LENGTH('a)" and "shift \<le> m"
  shows "GetVarint_loop m shift result (ucast (v OR 128) # p) =
           GetVarint_loop m (shift + 7) (result OR push_bit shift (take_bit 7 v)) p"
  using continuation_byte [OF assms(1), of v] assms(2) by (simp add: Let_def)

lemma GetVarint_loop_last:
  fixes v :: "'a::len word"
  assumes "7 < LENGTH('a)" and "shift \<le> m" and "drop_bit 7 v = 0"
  shows "GetVarint_loop m shift result (ucast v # p) = Some (result OR push_bit shift v, p)"
proof -
  have b: "\<not> bit v n" if "7 \<le> n" for n
    using drop_bit_eq_0_bit [OF assms(3) that] .
  have "(ucast (ucast v :: byte) :: 'a word) = v"
  proof (rule bit_word_eqI)
    fix n assume "n < LENGTH('a)"
    then show "bit (ucast (ucast v :: byte) :: 'a word) n = bit v n"
      using b [of n] by (cases "n < 7") (auto simp: bit_simps)
  qed
  moreover have "v AND 128 = 0"
    using assms(1) b [of 7] by (simp add: and_128_eq_0_iff)
  ultimately show ?thesis using assms(2) by simp
qed

lemma varint_accumulate:
  "(result OR push_bit shift (take_bit 7 v)) OR push_bit (shift + 7) (drop_bit 7 v) =
     result OR push_bit shift (v :: 'a::len word)"
proof -
  have "push_bit (shift + 7) (drop_bit 7 v) = push_bit shift (push_bit 7 (drop_bit 7 v))"
    by (simp add: add.commute)
  then have "(result OR push_bit shift (take_bit 7 v)) OR push_bit (shift + 7) (drop_bit 7 v) =
     result OR push_bit shift (take_bit 7 v OR push_bit 7 (drop_bit 7 v))"
    by (simp only: push_bit_or or.assoc)
  then show ?thesis by (simp only: take_bit_or_push_drop)
qed

lemma GetVarint_loop_Encode64:
  "shift \<le> 63 \<Longrightarrow> drop_bit (64 - shift) v = 0 \<Longrightarrow>
     GetVarint_loop 63 shift result (EncodeVarint64 v @ rest) = Some (result OR push_bit shift v, rest)"
proof (induction v arbitrary: shift result rule: EncodeVarint64.induct)
  case (1 v)
  show ?case
  proof (cases "v \<ge> 128")
    case False
    then have "drop_bit 7 v = 0" by (simp add: word_less_128_iff not_le)
    with False 1 show ?thesis
      by (subst EncodeVarint64.simps) (simp add: GetVarint_loop_last del: GetVarint_loop.simps)
  next
    case True
    then have nz: "drop_bit 7 v \<noteq> 0" using word_less_128_iff [of v] by auto
    have shift: "shift + 7 < 64"
    proof (rule ccontr)
      assume "\<not> shift + 7 < 64"
      then have "drop_bit 7 v = drop_bit (7 - (64 - shift)) (drop_bit (64 - shift) v)" by simp
      with 1 nz show False by simp
    qed
    then have d: "drop_bit (64 - (shift + 7)) (drop_bit 7 v) = 0"
      using "1.prems" by simp
    have e: "EncodeVarint64 v = ucast (take_bit 7 v OR 128) # EncodeVarint64 (drop_bit 7 v)"
      using True by (subst EncodeVarint64.simps) (simp add: and_7f)
    show ?thesis
      using "1.IH" [OF True _ d] "1.prems" shift
      by (simp add: e GetVarint_loop_step varint_accumulate del: GetVarint_loop.simps)
  qed
qed

lemma EncodeVarint64_small: "drop_bit 7 v = 0 \<Longrightarrow> EncodeVarint64 v = [ucast v]"
  using word_less_128_iff [of v] by (subst EncodeVarint64.simps) (simp add: not_less [symmetric])

lemma EncodeVarint64_large:
  "drop_bit 7 v \<noteq> 0 \<Longrightarrow> EncodeVarint64 v = ucast (v OR 128) # EncodeVarint64 (drop_bit 7 v)"
proof -
  assume "drop_bit 7 v \<noteq> 0"
  then have "v \<ge> 128" using word_less_128_iff [of v] by (simp add: not_less)
  moreover have "(ucast ((v AND 127) OR 128) :: byte) = ucast (v OR 128)"
  proof (rule bit_word_eqI)
    fix n assume "n < LENGTH(8)"
    then show "bit (ucast ((v AND 127) OR 128) :: byte) n = bit (ucast (v OR 128) :: byte) n"
      by (cases "n < 7") (auto simp: and_7f bit_simps bit_128 bit_128_int)
  qed
  ultimately show ?thesis by (subst EncodeVarint64.simps) simp
qed

lemma ucast_drop_bit_32: "drop_bit k (ucast (v :: u32) :: u64) = ucast (drop_bit k v)"
  by (rule bit_word_eqI) (auto simp: bit_simps dest: bit_imp_le_length)

lemma ucast_or_128: "(ucast ((ucast (v :: u32) :: u64) OR 128) :: byte) = ucast (v OR 128)"
  by (rule bit_word_eqI) (auto simp: bit_simps bit_128_int)

lemma ucast_ucast_u32: "(ucast (ucast (v :: u32) :: u64) :: u32) = v" "(ucast (ucast (v :: u32) :: u64) :: byte) = ucast v"
  by (rule bit_word_eqI; auto simp: bit_simps)+

lemma ucast_eq_0_32: "(ucast (v :: u32) :: u64) = 0 \<longleftrightarrow> v = 0"
  using ucast_ucast_u32(1) [of v] by auto

lemma EncodeVarint32_eq_64: "EncodeVarint32 v = EncodeVarint64 (ucast v)"
proof -
  have lt: "v < 2 ^ 7 \<longleftrightarrow> drop_bit 7 v = 0" "v < 2 ^ 14 \<longleftrightarrow> drop_bit 14 v = 0"
    "v < 2 ^ 21 \<longleftrightarrow> drop_bit 21 v = 0" "v < 2 ^ 28 \<longleftrightarrow> drop_bit 28 v = 0"
    by (rule word_less_exp_iff_drop_bit, simp)+
  have top: "drop_bit 35 v = 0" by (rule bit_word_eqI) (simp add: bit_simps)
  have mono: "drop_bit i v = 0 \<Longrightarrow> i \<le> j \<Longrightarrow> drop_bit j v = 0" for i j
    by (metis drop_bit_drop_bit drop_bit_of_0 le_add_diff_inverse2)
  have step: "EncodeVarint64 (ucast (drop_bit i v)) =
      (if drop_bit (i + 7) v = 0 then [ucast (drop_bit i v)]
       else ucast (drop_bit i v OR 128) # EncodeVarint64 (ucast (drop_bit (i + 7) v)))" for i
    using EncodeVarint64_small [of "ucast (drop_bit i v)"] EncodeVarint64_large [of "ucast (drop_bit i v)"]
    by (simp add: ucast_drop_bit_32 ucast_or_128 ucast_eq_0_32 ucast_ucast_u32 add.commute)
  have s0: "EncodeVarint64 (ucast v) = (if drop_bit 7 v = 0 then [ucast v]
      else ucast (v OR 128) # EncodeVarint64 (ucast (drop_bit 7 v)))"
    using step [of 0] by simp
  consider "drop_bit 7 v = 0" | "drop_bit 7 v \<noteq> 0" "drop_bit 14 v = 0"
    | "drop_bit 14 v \<noteq> 0" "drop_bit 21 v = 0" | "drop_bit 21 v \<noteq> 0" "drop_bit 28 v = 0"
    | "drop_bit 28 v \<noteq> 0" by blast
  then show ?thesis
  proof cases
    case 3
    then have "drop_bit 7 v \<noteq> 0" using mono [of 7 14] by auto
    with 3 show ?thesis
      using step [of 7] step [of 14] unfolding EncodeVarint32_def Let_def lt s0 by simp
  next
    case 4
    then have "drop_bit 7 v \<noteq> 0" "drop_bit 14 v \<noteq> 0" using mono [of 7 21] mono [of 14 21] by auto
    with 4 show ?thesis
      using step [of 7] step [of 14] step [of 21] unfolding EncodeVarint32_def Let_def lt s0 by simp
  next
    case 5
    then have "drop_bit 7 v \<noteq> 0" "drop_bit 14 v \<noteq> 0" "drop_bit 21 v \<noteq> 0"
      using mono [of 7 28] mono [of 14 28] mono [of 21 28] by auto
    with 5 show ?thesis
      using step [of 7] step [of 14] step [of 21] step [of 28] top
      unfolding EncodeVarint32_def Let_def lt s0 by simp
  qed (use step [of 7] in \<open>unfold EncodeVarint32_def Let_def lt s0, simp_all\<close>)
qed

lemma GetVarint32Ptr_fallback: "GetVarint32Ptr p = GetVarint32PtrFallback p"
  by (cases p) (auto simp: GetVarint32Ptr_def GetVarint32PtrFallback_def Let_def)

lemma varint_accumulate_at:
  fixes v :: "'a::len word"
  shows "(R OR push_bit s (take_bit 7 (drop_bit s v))) OR push_bit (s + 7) (drop_bit (s + 7) v) =
     R OR push_bit s (drop_bit s v)"
  using varint_accumulate [of R s "drop_bit s v"] by (simp add: add.commute)

lemma GetVarint32_Encode: "GetVarint32 (EncodeVarint32 v @ rest) = Some (v, rest)"
proof -
  have lt: "v < 2 ^ 7 \<longleftrightarrow> drop_bit 7 v = 0" "v < 2 ^ 14 \<longleftrightarrow> drop_bit 14 v = 0"
    "v < 2 ^ 21 \<longleftrightarrow> drop_bit 21 v = 0" "v < 2 ^ 28 \<longleftrightarrow> drop_bit 28 v = 0"
    by (rule word_less_exp_iff_drop_bit, simp)+
  have top: "drop_bit 35 v = 0" by (rule bit_word_eqI) (simp add: bit_simps)
  note acc = varint_accumulate_at [of 0 0 v, simplified] varint_accumulate_at [where s = 7 and v = v, simplified]
    varint_accumulate_at [where s = 14 and v = v, simplified] varint_accumulate_at [where s = 21 and v = v, simplified]
  show ?thesis
    unfolding GetVarint32_def GetVarint32Ptr_fallback GetVarint32PtrFallback_def EncodeVarint32_def Let_def lt
    by (simp add: GetVarint_loop_step GetVarint_loop_last acc top del: GetVarint_loop.simps)
qed

lemma GetVarint64_Encode: "GetVarint64 (EncodeVarint64 v @ rest) = Some (v, rest)"
proof -
  have "drop_bit 64 v = 0" by (rule bit_word_eqI) (simp add: bit_simps)
  then show ?thesis
    using GetVarint_loop_Encode64 [of 0 v 0 rest] by (simp add: GetVarint64_def GetVarint64Ptr_def)
qed

lemma bit_minus_take_bit_1: "bit (- take_bit 1 (n :: u64)) k \<longleftrightarrow> k < 64 \<and> bit n 0"
proof (cases "bit n 0")
  case True
  then have "take_bit 1 n = 1" by (simp add: take_bit_eq_mod bit_0 mod2_eq_if)
  then show ?thesis using True by (simp add: bit_simps)
next
  case False
  then have "take_bit 1 n = 0" by (simp add: take_bit_eq_mod bit_0 mod2_eq_if)
  then show ?thesis using False by (simp add: bit_simps)
qed

lemma bit_i64ToZigzag: "bit (i64ToZigzag l) n \<longleftrightarrow> n < 64 \<and> ((0 < n \<and> bit l (n - 1)) \<noteq> bit l 63)"
proof -
  have "bit (push_bit 1 l) n \<longleftrightarrow> 0 < n \<and> n < 64 \<and> bit l (n - 1)"
    by (simp only: bit_push_bit_iff) (auto dest: bit_imp_le_length)
  moreover have "bit (signed_drop_bit 63 l) n \<longleftrightarrow> n < 64 \<and> bit l 63"
    by (cases "n = 0") (auto simp: bit_signed_drop_bit_iff dest: bit_imp_le_length)
  ultimately show ?thesis by (simp only: i64ToZigzag_def bit_xor_iff) blast
qed

lemma bit_zigzagToI64: "bit (zigzagToI64 u) n \<longleftrightarrow> n < 64 \<and> (bit u (Suc n) \<noteq> bit u 0)"
proof -
  have "bit (drop_bit 1 u) n \<longleftrightarrow> bit u (Suc n)"
    by (simp only: bit_drop_bit_eq comp_apply) simp
  then show ?thesis
    by (simp only: zigzagToI64_def bit_xor_iff and_1 bit_minus_take_bit_1) (auto dest: bit_imp_le_length)
qed

lemma zigzag_inverse: "zigzagToI64 (i64ToZigzag l) = l"
proof (rule bit_word_eqI)
  fix n assume "n < LENGTH(64)"
  then show "bit (zigzagToI64 (i64ToZigzag l)) n = bit l n"
    by (cases "n = 63") (auto simp: bit_zigzagToI64 bit_i64ToZigzag)
qed

lemma zigzag_inverse': "i64ToZigzag (zigzagToI64 u) = u"
proof (rule bit_word_eqI)
  fix n assume "n < LENGTH(64)"
  moreover have "\<not> bit u 64" using bit_imp_le_length [of u 64] by auto
  ultimately show "bit (i64ToZigzag (zigzagToI64 u)) n = bit u n"
    by (cases n) (auto simp: bit_zigzagToI64 bit_i64ToZigzag)
qed

lemma GetLengthPrefixedSlice_Put:
  assumes "length value < 2 ^ 32"
  shows "GetLengthPrefixedSlice (PutLengthPrefixedSlice [] value @ rest) = Some (value, rest)"
proof -
  have "unat (of_nat (length value) :: u32) = length value"
    using assms by (simp add: unsigned_of_nat take_bit_nat_eq_self)
  then show ?thesis
    by (simp add: GetLengthPrefixedSlice_def PutLengthPrefixedSlice_def PutVarint32_def
        GetVarint32_Encode Slice_remove_prefix_def)
qed

lemma VarintLength_loop_eq: "VarintLength_loop v n = n + length (EncodeVarint64 v) - 1"
proof (induction v n rule: VarintLength_loop.induct)
  case (1 v n)
  have "EncodeVarint64 (drop_bit 7 v) \<noteq> []" by (subst EncodeVarint64.simps) simp
  with 1 show ?case
    by (subst VarintLength_loop.simps, subst EncodeVarint64.simps) (auto simp del: drop_bit_eq_div)
qed

lemma length_EncodeVarint64_le: "drop_bit (7 * n) v = 0 \<Longrightarrow> 0 < n \<Longrightarrow> length (EncodeVarint64 v) \<le> n"
proof (induction n arbitrary: v)
  case (Suc n)
  show ?case
  proof (cases "drop_bit 7 v = 0")
    case True
    then show ?thesis by (simp add: EncodeVarint64_small)
  next
    case False
    with Suc.prems have "0 < n" by (cases n) auto
    moreover have "drop_bit (7 * n) (drop_bit 7 v) = 0" using Suc.prems by (simp add: add.commute)
    ultimately show ?thesis using Suc.IH False by (simp add: EncodeVarint64_large)
  qed
qed simp

section \<open>Slices, locality and endianness\<close>

lemma foldl_add_length: "foldl (\<lambda>n p. n + length p) n ps = n + length (concat ps)"
  by (induction ps arbitrary: n) auto

lemma foldl_append_concat: "foldl (@) xs ps = xs @ concat ps"
  by (induction ps arbitrary: xs) auto

lemma PutLengthPrefixedSliceParts_concat:
  "PutLengthPrefixedSliceParts dst parts = PutLengthPrefixedSlice dst (concat parts)"
  by (simp add: PutLengthPrefixedSliceParts_def PutLengthPrefixedSliceParts_from_def
      PutLengthPrefixedSlice_def foldl_add_length foldl_append_concat)

lemma PutLengthPrefixedSlicePartsWithPadding_concat:
  "PutLengthPrefixedSlicePartsWithPadding dst parts n =
     PutLengthPrefixedSlice dst (concat parts @ replicate n 0)"
  by (simp add: PutLengthPrefixedSlicePartsWithPadding_def PutLengthPrefixedSliceParts_from_def
      PutLengthPrefixedSlice_def foldl_add_length foldl_append_concat add.commute)

lemma GetVarint_loop_local:
  fixes r :: "'a::len word"
  shows "GetVarint_loop m s r p = Some (v, q) \<Longrightarrow>
     \<exists>c. c \<noteq> [] \<and> p = c @ q \<and> s + 7 * (length c - 1) \<le> m \<and>
         (\<forall>q'. GetVarint_loop m s r (c @ q') = Some (v, q'))"
proof (induction m s r p rule: GetVarint_loop.induct)
  case (2 m s r c p)
  show ?case
  proof (cases "(ucast c :: 'a word) AND 128 = 0")
    case True
    with 2 show ?thesis by (intro exI [of _ "[c]"]) (auto simp: Let_def split: if_splits)
  next
    case False
    with 2 obtain cs where "cs \<noteq> []" "p = cs @ q" "s + 7 + 7 * (length cs - 1) \<le> m"
      "\<forall>q'. GetVarint_loop m (s + 7) (r OR push_bit s (ucast c AND 127)) (cs @ q') = Some (v, q')"
      by (auto simp: Let_def split: if_splits)
    with False show ?thesis
      by (intro exI [of _ "c # cs"]) (cases cs; auto simp: Let_def)
  qed
qed simp

lemma GetVarint32_local:
  assumes "GetVarint32 p = Some (v, q)"
  obtains c where "c \<noteq> []" "length c \<le> 5" "p = c @ q" "\<And>q'. GetVarint32 (c @ q') = Some (v, q')"
proof -
  from GetVarint_loop_local [OF assms [unfolded GetVarint32_def GetVarint32Ptr_fallback GetVarint32PtrFallback_def]]
  obtain c where "c \<noteq> []" "7 * (length c - 1) \<le> 28" "p = c @ q"
    "\<forall>q'. GetVarint_loop 28 0 0 (c @ q') = Some (v, q')" by auto
  then show ?thesis
    by (intro that [of c]) (auto simp: GetVarint32_def GetVarint32Ptr_fallback GetVarint32PtrFallback_def)
qed

lemma GetLengthPrefixedSlice_unchecked_eq:
  assumes "GetLengthPrefixedSlice data = Some (v, r)"
  shows "GetLengthPrefixedSlice_unchecked data = Some v"
proof -
  from assms obtain len q where g: "GetVarint32 data = Some (len, q)" and v: "v = take (unat len) q"
    by (auto simp: GetLengthPrefixedSlice_def split: option.splits if_splits)
  from g obtain c where c: "length c \<le> 5" "data = c @ q" "\<And>q'. GetVarint32 (c @ q') = Some (len, q')"
    using GetVarint32_local by blast
  then have "take 5 data = c @ take (5 - length c) q" by simp
  with c(3) [of "take (5 - length c) q"] c(1,2) show ?thesis
    by (simp add: GetLengthPrefixedSlice_unchecked_def v GetVarint32_def)
qed

lemma GetSliceUntil_append:
  "d \<notin> set xs \<Longrightarrow> GetSliceUntil (xs @ d # ys) d = (xs, ys)"
proof -
  assume "d \<notin> set xs"
  then have "GetSliceUntil_len (xs @ d # ys) d = length xs" by (induction xs) auto
  then show ?thesis by (simp add: GetSliceUntil_def Let_def Slice_remove_prefix_def)
qed

lemma GetSliceUntil_none: "d \<notin> set xs \<Longrightarrow> GetSliceUntil xs d = (xs, [])"
proof -
  assume "d \<notin> set xs"
  then have "GetSliceUntil_len xs d = length xs" by (induction xs) auto
  then show ?thesis by (simp add: GetSliceUntil_def Let_def Slice_remove_prefix_def)
qed

lemma bit_EndianTransform_loop:
  "k \<le> sz \<Longrightarrow> sz \<le> 8 \<Longrightarrow>
   bit (foldl (\<lambda>ret_val i. ret_val OR
         push_bit ((sz - i - 1) * 8) (ucast (ucast (drop_bit (8 * i) (x :: u64)) :: byte) :: u64))
       0 [0..<k]) n \<longleftrightarrow>
   n < 8 * sz \<and> sz - n div 8 - 1 < k \<and> bit x (8 * (sz - n div 8 - 1) + n mod 8)"
proof (induction k)
  case (Suc k)
  have "bit (push_bit ((sz - k - 1) * 8) (ucast (ucast (drop_bit (8 * k) x) :: byte) :: u64)) n \<longleftrightarrow>
    (sz - k - 1) * 8 \<le> n \<and> n - (sz - k - 1) * 8 < 8 \<and> bit x (8 * k + (n - (sz - k - 1) * 8))"
    using Suc.prems by (auto simp: bit_simps dest: bit_imp_le_length)
  also have "\<dots> \<longleftrightarrow> n < 8 * sz \<and> sz - n div 8 - 1 = k \<and> bit x (8 * k + n mod 8)"
  proof -
    have "(sz - k - 1) * 8 \<le> n \<and> n - (sz - k - 1) * 8 < 8 \<longleftrightarrow> n div 8 = sz - k - 1" by linarith
    moreover have "n div 8 = sz - k - 1 \<Longrightarrow> n - (sz - k - 1) * 8 = n mod 8"
      by (metis minus_div_mult_eq_mod)
    moreover have "n div 8 = sz - k - 1 \<longleftrightarrow> n < 8 * sz \<and> sz - n div 8 - 1 = k"
      using Suc.prems by linarith
    ultimately show ?thesis by auto
  qed
  finally show ?case using Suc by (auto simp: bit_or_iff less_Suc_eq)
qed simp

lemma bit_EndianTransform:
  "sz \<le> 8 \<Longrightarrow> bit (EndianTransform x sz) n \<longleftrightarrow>
     n < 8 * sz \<and> bit x (8 * (sz - n div 8 - 1) + n mod 8)"
  unfolding EndianTransform_def using bit_EndianTransform_loop [of sz sz x n] by auto

lemma EndianTransform_involutive:
  assumes "sz \<le> 8" and "drop_bit (8 * sz) x = 0"
  shows "EndianTransform (EndianTransform x sz) sz = x"
proof (rule bit_word_eqI)
  fix n assume "n < LENGTH(64)"
  show "bit (EndianTransform (EndianTransform x sz) sz) n = bit x n"
  proof (cases "n < 8 * sz")
    case True
    define m where "m = 8 * (sz - n div 8 - 1) + n mod 8"
    have q: "m div 8 = sz - n div 8 - 1" "m mod 8 = n mod 8" by (simp_all add: m_def)
    have "m < 8 * sz" "8 * (sz - m div 8 - 1) + m mod 8 = n"
      using True unfolding q by (simp_all add: m_def)
    then have "bit (EndianTransform x sz) m = bit x n"
      using assms(1) by (simp add: bit_EndianTransform)
    with True assms(1) show ?thesis by (simp add: bit_EndianTransform m_def)
  next
    case False
    then show ?thesis
      using drop_bit_eq_0_bit [OF assms(2), of n] assms(1) by (simp add: bit_EndianTransform)
  qed
qed

section \<open>The encodings implement the interface\<close>

lemma GetFixed_Encode:
  "GetFixed16 (EncodeFixed16 v16 @ rest) = Some (v16, rest)"
  "GetFixed32 (EncodeFixed32 v32 @ rest) = Some (v32, rest)"
  "GetFixed64 (EncodeFixed64 v64 @ rest) = Some (v64, rest)"
  by (simp_all add: GetFixed16_def GetFixed32_def GetFixed64_def Slice_remove_prefix_def
      DecodeFixed16_Encode DecodeFixed32_Encode DecodeFixed64_Encode)

lemma GetVarsignedint64_Encode:
  "GetVarsignedint64 (EncodeVarint64 (i64ToZigzag v) @ rest) = Some (v, rest)"
  using GetVarint64_Encode [of "i64ToZigzag v" rest]
  by (simp add: GetVarsignedint64_def GetVarsignedint64Ptr_def GetVarint64_def zigzag_inverse)

interpretation fixed16: codec EncodeFixed16 GetFixed16 "\<lambda>_. True"
  by unfold_locales (rule GetFixed_Encode)

interpretation fixed32: codec EncodeFixed32 GetFixed32 "\<lambda>_. True"
  by unfold_locales (rule GetFixed_Encode)

interpretation fixed64: codec EncodeFixed64 GetFixed64 "\<lambda>_. True"
  by unfold_locales (rule GetFixed_Encode)

interpretation varint32: codec EncodeVarint32 GetVarint32 "\<lambda>_. True"
  by unfold_locales (rule GetVarint32_Encode)

interpretation varint64: codec EncodeVarint64 GetVarint64 "\<lambda>_. True"
  by unfold_locales (rule GetVarint64_Encode)

interpretation varsigned64: codec "\<lambda>v. EncodeVarint64 (i64ToZigzag v)" GetVarsignedint64 "\<lambda>_. True"
  by unfold_locales (rule GetVarsignedint64_Encode)

interpretation length_prefixed: codec "PutLengthPrefixedSlice []" GetLengthPrefixedSlice
  "\<lambda>v. length v < 2 ^ 32"
  by unfold_locales (rule GetLengthPrefixedSlice_Put)

interpretation varint64_pair: codec_pair EncodeVarint64 GetVarint64 "\<lambda>_. True"
  EncodeVarint64 GetVarint64 "\<lambda>_. True"
  by unfold_locales

interpretation varint32_pair: codec_pair EncodeVarint32 GetVarint32 "\<lambda>_. True"
  EncodeVarint32 GetVarint32 "\<lambda>_. True"
  by unfold_locales

section \<open>Properties\<close>

text \<open>
  C36: the unrolled \<^verbatim>\<open>EncodeVarint32\<close> writes exactly what the loop of
  \<^verbatim>\<open>EncodeVarint64\<close> writes for the same value, and the decoder with the one-byte fast path
  reads every such encoding back, leaving what follows it, whatever that is.
\<close>

theorem varint32_roundtrip:
  "EncodeVarint32 v = EncodeVarint64 (ucast v) \<and>
   GetVarint32 (PutVarint32 [] v @ rest) = Some (v, rest) \<and>
   length (EncodeVarint32 v) \<le> 5"
proof -
  have "drop_bit (7 * 5) (ucast v :: u64) = 0"
    by (rule bit_word_eqI) (auto simp: bit_simps dest: bit_imp_le_length)
  then have "length (EncodeVarint32 v) \<le> 5"
    by (simp only: EncodeVarint32_eq_64) (rule length_EncodeVarint64_le; simp)
  then show ?thesis
    using GetVarint32_Encode [of v rest] by (simp add: PutVarint32_def EncodeVarint32_eq_64)
qed

text \<open>
  Varints of 64 bits and zigzag varints read back what was written; an encoding occupies
  \<^verbatim>\<open>VarintLength\<close> bytes, never more than \<^verbatim>\<open>kMaxVarint64Length\<close>, the size of the
  stack buffers the encoders write into.
\<close>

theorem varint64_roundtrip:
  "GetVarint64 (PutVarint64 [] v @ rest) = Some (v, rest) \<and>
   GetVarsignedint64 (PutVarsignedint64 [] v @ rest) = Some (v, rest) \<and>
   length (EncodeVarint64 v) = VarintLength v \<and> VarintLength v \<le> kMaxVarint64Length"
proof -
  have "drop_bit (7 * 10) v = 0" by (rule bit_word_eqI) (auto simp: bit_simps dest: bit_imp_le_length)
  then have "length (EncodeVarint64 v) \<le> 10" by (rule length_EncodeVarint64_le) simp
  moreover have "length (EncodeVarint64 v) = VarintLength v"
    by (simp add: VarintLength_def VarintLength_loop_eq)
  ultimately show ?thesis
    by (simp add: PutVarint64_def PutVarsignedint64_def GetVarint64_Encode GetVarsignedint64_Encode
        kMaxVarint64Length_def)
qed



text \<open>
  the bounds-checked and the unchecked readers of length-prefixed slices agree on well-formed
  data, and a successful checked read never takes more than the input holds: the length prefix, the
  slice and the rest make up the input.
\<close>

theorem length_prefixed_readers_agree:
  assumes "GetLengthPrefixedSlice data = Some (v, rest)"
  shows "GetLengthPrefixedSlice_unchecked data = Some v \<and>
         (\<exists>prefix. prefix \<noteq> [] \<and> length prefix \<le> 5 \<and> data = prefix @ v @ rest)"
proof -
  from assms obtain len q where g: "GetVarint32 data = Some (len, q)"
    and v: "v = take (unat len) q" "rest = drop (unat len) q"
    by (auto simp: GetLengthPrefixedSlice_def Slice_remove_prefix_def split: option.splits if_splits)
  from g obtain c where "c \<noteq> []" "length c \<le> 5" "data = c @ q"
    using GetVarint32_local by blast
  then have "\<exists>prefix. prefix \<noteq> [] \<and> length prefix \<le> 5 \<and> data = prefix @ v @ rest"
    by (intro exI [of _ c]) (simp add: v)
  with GetLengthPrefixedSlice_unchecked_eq [OF assms] show ?thesis by blast
qed

theorem length_prefixed_readers_agree_witness:
  "GetLengthPrefixedSlice [2, 8, 9, 1] = Some ([8, 9], [1]) \<and>
   GetLengthPrefixedSlice_unchecked [2, 8, 9, 1] = Some [8, 9]"
proof -
  have h: "GetLengthPrefixedSlice [2, 8, 9, 1] = Some ([8, 9], [1])" by code_simp
  show ?thesis using h length_prefixed_readers_agree [OF h] by blast
qed

end
