(* ===== verification/Hashing.thy ===== *)
theory Hashing
  imports Coding
begin

text \<open>
  The hash functions of \<^verbatim>\<open>util/hash.cc\<close> and \<^verbatim>\<open>util/hash.h\<close>: the 32-bit
  \<^verbatim>\<open>Hash\<close> (MurmurHash1) with its two seeds, and the multiply-shift range reductions
  \<^verbatim>\<open>fastrange32\<close> and \<^verbatim>\<open>fastrange64\<close>, the latter both with the 128-bit product and
  with the portable decomposition.  \<^verbatim>\<open>Hash64\<close> forwards to the XXH3 preview implementation,
  which is not modelled here.
\<close>

section \<open>Definitions\<close>

definition Hash_step :: "u32 \<Rightarrow> u32 \<Rightarrow> u32" where
  "Hash_step h w =
     (let h = h + w; h = h * 0xc6a4a793
      in h XOR drop_bit 16 h)"

fun Hash_loop :: "u32 \<Rightarrow> bytes \<Rightarrow> u32 \<times> bytes" where
  "Hash_loop h (a # b # c # d # data) = Hash_loop (Hash_step h (DecodeFixed32 [a, b, c, d])) data"
| "Hash_loop h data = (h, data)"

text \<open>The three cases of the switch, with their fall-through.  A byte is read as \<^verbatim>\<open>int8_t\<close>,
  so it is sign-extended.\<close>

definition Hash_tail :: "u32 \<Rightarrow> bytes \<Rightarrow> u32" where
  "Hash_tail h data =
     (let m = 0xc6a4a793; r = 24;
          h = (if length data = 3 then h + push_bit 16 (scast (data ! 2)) else h);
          h = (if length data \<in> {2, 3} then h + push_bit 8 (scast (data ! 1)) else h)
      in if length data \<in> {1, 2, 3}
         then (let h = h + scast (data ! 0); h = h * m in h XOR drop_bit r h)
         else h)"

definition Hash :: "bytes \<Rightarrow> u32 \<Rightarrow> u32" where
  "Hash data seed =
     (let m = 0xc6a4a793 :: u64;
          h = ucast (ucast seed XOR (of_nat (length data) * m));
          (h, data) = Hash_loop h data
      in Hash_tail h data)"

definition BloomHash :: "bytes \<Rightarrow> u32" where
  "BloomHash key = Hash key 0xbc9f1d34"

definition GetSliceHash :: "bytes \<Rightarrow> u32" where
  "GetSliceHash s = Hash s 397"

definition Upper32of64 :: "u64 \<Rightarrow> u32" where
  "Upper32of64 v = ucast (drop_bit 32 v)"

definition Lower32of64 :: "u64 \<Rightarrow> u32" where
  "Lower32of64 v = ucast v"

definition fastrange32 :: "u32 \<Rightarrow> u32 \<Rightarrow> u32" where
  "fastrange32 hash rng =
     (let product = (ucast rng :: u64) * ucast hash
      in ucast (drop_bit 32 product))"

text \<open>The two branches of \<^verbatim>\<open>#if defined(HAVE_UINT128_EXTENSION)\<close>.\<close>

definition fastrange64_wide :: "u64 \<Rightarrow> u64 \<Rightarrow> u64" where
  "fastrange64_wide hash rng =
     (let wide = (ucast rng :: 128 word) * ucast hash
      in ucast (drop_bit 64 wide))"

definition fastrange64 :: "u64 \<Rightarrow> u64 \<Rightarrow> u64" where
  "fastrange64 hash rng =
     (let tmp = (rng AND 0xffffffff) * (hash AND 0xffffffff);
          tmp = drop_bit 32 tmp;
          tmp = tmp + (rng AND 0xffffffff) * drop_bit 32 hash;
          tmp2 = drop_bit 32 rng * (hash AND 0xffffffff);
          tmp = tmp + ucast (ucast tmp2 :: u32);
          tmp = drop_bit 32 tmp;
          tmp = tmp + drop_bit 32 tmp2;
          tmp = tmp + drop_bit 32 rng * drop_bit 32 hash
      in tmp)"

text \<open>The vectors of \<^verbatim>\<open>util/hash_test.cc\<close>, one for each length of the tail; the second and
  the last have bytes with the sign bit set.\<close>

lemma Hash_test_vectors:
  "BloomHash [] = 3164544308"
  "BloomHash [0x9a] = 3195034349"
  "BloomHash [0x91, 0xf7] = 31066776"
  "BloomHash [0x56, 0xdc, 0xd6] = 2157698265"
  "BloomHash [0x67, 0x53, 0x81, 0x1c] = 118283265"
  "BloomHash [0xd0, 0x7a, 0x6e, 0xea, 0x56] = 4255445370"
  by (simp_all add: BloomHash_def Hash_def Hash_tail_def Hash_step_def DecodeFixed32_def Let_def)

section \<open>Range reduction\<close>

lemma wide_product_high:
  fixes a b c d B :: nat
  assumes "0 < B"
  shows "((a + b * B) * (c + d * B)) div (B * B) =
           ((a * c) div B + a * d + (b * c) mod B) div B + (b * c) div B + b * d"
proof -
  have "(a + b * B) * (c + d * B) = a * c + (a * d + b * c + b * d * B) * B"
    by (simp add: algebra_simps)
  then have "((a + b * B) * (c + d * B)) div (B * B) = ((a * c) div B + (a * d + b * c + b * d * B)) div B"
    using assms by (simp add: div_mult2_eq add.commute)
  also have "a * c div B + (a * d + b * c + b * d * B) = (a * c div B + a * d + b * c) + (b * d) * B"
    by simp
  also have "\<dots> div B = (a * c div B + a * d + b * c) div B + b * d"
    using assms by (subst div_mult_self1) simp_all
  also have "a * c div B + a * d + b * c = (a * c div B + a * d + (b * c) mod B) + (b * c) div B * B"
    by (simp only: add.assoc mod_div_mult_eq)
  also have "\<dots> div B = (a * c div B + a * d + (b * c) mod B) div B + (b * c) div B"
    using assms by (subst div_mult_self1) simp_all
  finally show ?thesis .
qed

lemma fastrange64_unat: "unat (fastrange64 hash rng) = unat rng * unat hash div 2 ^ 64"
proof -
  let ?B = "2 ^ 32 :: nat"
  define a b c d where "a = unat rng mod ?B" and "b = unat rng div ?B"
    and "c = unat hash mod ?B" and "d = unat hash div ?B"
  have r64: "unat x < ?B * ?B" for x :: u64
    using unsigned_less [of x, where 'a = nat] by simp
  have lt: "a < ?B" "b < ?B" "c < ?B" "d < ?B"
    using r64 [of rng] r64 [of hash] by (simp_all add: a_def b_def c_def d_def less_mult_imp_div_less)
  then have le: "a \<le> ?B - 1" "b \<le> ?B - 1" "c \<le> ?B - 1" "d \<le> ?B - 1" by simp_all
  have prod: "x * y \<le> 18446744065119617025" if "x < ?B" "y < ?B" for x y
    using mult_le_mono [of x "?B - 1" y "?B - 1"] that by simp
  note bounds = prod [OF lt(1,3)] prod [OF lt(1,4)] prod [OF lt(2,3)] prod [OF lt(2,4)]
  have parts: "unat (rng AND 0xffffffff) = a" "unat (drop_bit 32 rng) = b"
    "unat (hash AND 0xffffffff) = c" "unat (drop_bit 32 hash) = d"
    by (simp_all only: word_norm unat_take_bit_mod unat_drop_bit_div a_def b_def c_def d_def)
  define t1 where "t1 = drop_bit 32 ((rng AND 0xffffffff) * (hash AND 0xffffffff))"
  define t2 where "t2 = drop_bit 32 rng * (hash AND 0xffffffff)"
  define t3 where "t3 = t1 + (rng AND 0xffffffff) * drop_bit 32 hash"
  define t4 where "t4 = t3 + ucast (ucast t2 :: u32)"
  define t5 where "t5 = drop_bit 32 t4 + drop_bit 32 t2"
  have e1: "unat t1 = a * c div ?B"
    using bounds by (simp only: t1_def unat_drop_bit_div, subst unat_mult_no_overflow) (simp_all only: parts, simp)
  have e2: "unat t2 = b * c"
    using bounds by (simp only: t2_def, subst unat_mult_no_overflow) (simp_all only: parts, simp)
  have "unat ((rng AND 0xffffffff) * drop_bit 32 hash) = a * d"
    using bounds by (subst unat_mult_no_overflow) (simp_all only: parts, simp)
  moreover have k: "a * c div ?B \<le> 4294967294" using bounds(1) by (simp add: div_le_mono [THEN order_trans])
  ultimately have e3: "unat t3 = a * c div ?B + a * d"
    using bounds by (simp only: t3_def, subst unat_add_no_overflow) (simp_all only: e1, simp)
  have "ucast (ucast t2 :: u32) = take_bit 32 t2" by (rule bit_word_eqI) (auto simp: bit_simps)
  then have e4': "unat (ucast (ucast t2 :: u32) :: u64) = (b * c) mod ?B"
    by (simp only: unat_take_bit_mod e2)
  moreover have "(b * c) mod ?B \<le> 4294967295" using mod_less_divisor [of ?B "b * c"] by simp
  ultimately have e4: "unat t4 = a * c div ?B + a * d + (b * c) mod ?B"
    using bounds k by (simp only: t4_def, subst unat_add_no_overflow) (simp_all only: e3, simp)
  have "unat (drop_bit 32 t4) < ?B"
    using r64 [of t4] by (simp only: unat_drop_bit_div) (rule less_mult_imp_div_less)
  moreover have "b * c div ?B \<le> 4294967294" using bounds(3) by (simp add: div_le_mono [THEN order_trans])
  ultimately have e5: "unat t5 = (a * c div ?B + a * d + (b * c) mod ?B) div ?B + b * c div ?B"
    by (simp only: t5_def, subst unat_add_no_overflow) (simp_all only: unat_drop_bit_div e2 e4, simp)
  have e6: "unat (drop_bit 32 rng * drop_bit 32 hash) = b * d"
    using bounds by (subst unat_mult_no_overflow) (simp_all only: parts, simp)
  have "a + b * ?B = unat rng" "c + d * ?B = unat hash"
    by (simp_all only: a_def b_def c_def d_def mod_div_mult_eq)
  then have total: "unat t5 + b * d = unat rng * unat hash div (?B * ?B)"
    using wide_product_high [of ?B a b c d] by (simp only: e5) simp
  moreover have "unat rng * unat hash < ?B * ?B * (?B * ?B)"
    using mult_strict_mono' [OF r64 [of rng] r64 [of hash]] by simp
  then have "unat rng * unat hash div (?B * ?B) < ?B * ?B" by (rule less_mult_imp_div_less)
  ultimately have "unat (t5 + drop_bit 32 rng * drop_bit 32 hash) = unat rng * unat hash div (?B * ?B)"
    by (subst unat_add_no_overflow) (simp_all only: e6, simp)
  moreover have "fastrange64 hash rng = t5 + drop_bit 32 rng * drop_bit 32 hash"
    by (simp only: fastrange64_def Let_def t1_def t2_def t3_def t4_def t5_def)
  ultimately show ?thesis by simp
qed
lemma fastrange64_wide_unat: "unat (fastrange64_wide hash rng) = unat rng * unat hash div 2 ^ 64"
proof -
  have lt: "unat rng < 2 ^ 64" "unat hash < 2 ^ 64"
    using unsigned_less [of rng, where 'a = nat] unsigned_less [of hash, where 'a = nat] by simp_all
  then have "unat rng * unat hash < 2 ^ 64 * 2 ^ 64" by (intro mult_strict_mono') simp_all
  moreover have u: "unat (ucast rng :: 128 word) = unat rng" "unat (ucast hash :: 128 word) = unat hash"
    using lt by (simp_all add: unsigned_ucast_eq take_bit_nat_eq_self)
  ultimately have "unat ((ucast rng :: 128 word) * ucast hash) = unat rng * unat hash"
    by (subst unat_mult_no_overflow) simp_all
  then have "unat (drop_bit 64 ((ucast rng :: 128 word) * ucast hash)) = unat rng * unat hash div 2 ^ 64"
    by (simp only: unat_drop_bit_div)
  moreover have "\<dots> < 2 ^ 64"
    using \<open>unat rng * unat hash < 2 ^ 64 * 2 ^ 64\<close> by (rule less_mult_imp_div_less)
  ultimately show ?thesis
    by (simp only: fastrange64_wide_def Let_def unsigned_ucast_eq) (simp add: take_bit_nat_eq_self)
qed

lemma fastrange32_unat: "unat (fastrange32 hash rng) = unat rng * unat hash div 2 ^ 32"
proof -
  have lt: "unat rng < 2 ^ 32" "unat hash < 2 ^ 32"
    using unsigned_less [of rng, where 'a = nat] unsigned_less [of hash, where 'a = nat] by simp_all
  then have "unat rng * unat hash < 2 ^ 32 * 2 ^ 32" by (intro mult_strict_mono') simp_all
  moreover have u: "unat (ucast rng :: u64) = unat rng" "unat (ucast hash :: u64) = unat hash"
    using lt by (simp_all add: unsigned_ucast_eq take_bit_nat_eq_self)
  ultimately have "unat ((ucast rng :: u64) * ucast hash) = unat rng * unat hash"
    by (subst unat_mult_no_overflow) simp_all
  then have "unat (drop_bit 32 ((ucast rng :: u64) * ucast hash)) = unat rng * unat hash div 2 ^ 32"
    by (simp only: unat_drop_bit_div)
  moreover have "\<dots> < 2 ^ 32"
    using \<open>unat rng * unat hash < 2 ^ 32 * 2 ^ 32\<close> by (rule less_mult_imp_div_less)
  ultimately show ?thesis
    by (simp only: fastrange32_def Let_def unsigned_ucast_eq) (simp add: take_bit_nat_eq_self)
qed

lemma mult_div_less: "0 < r \<Longrightarrow> h < B \<Longrightarrow> r * h div B < (r :: nat)"
  by (rule less_mult_imp_div_less) simp

section \<open>Properties\<close>

text \<open>The portable 64-bit range reduction agrees with the 128-bit product on every hash and
  range: both are the high word of the exact product, and no intermediate sum of the portable
  version overflows.  For a non-empty range the result, like that of the 32-bit version, is a valid
  index below the range.\<close>

theorem fastrange_correct:
  "fastrange64 hash rng = fastrange64_wide hash rng \<and>
   unat (fastrange64 hash rng) = unat rng * unat hash div 2 ^ 64 \<and>
   (rng \<noteq> 0 \<longrightarrow> fastrange64 hash rng < rng) \<and>
   (rng32 \<noteq> 0 \<longrightarrow> fastrange32 hash32 rng32 < rng32)"
proof (intro conjI impI)
  show "fastrange64 hash rng = fastrange64_wide hash rng"
    by (simp only: word_unat_eq_iff fastrange64_unat fastrange64_wide_unat)
  show "unat (fastrange64 hash rng) = unat rng * unat hash div 2 ^ 64" by (rule fastrange64_unat)
  show "fastrange64 hash rng < rng" if "rng \<noteq> 0"
    using mult_div_less [of "unat rng" "unat hash" "2 ^ 64"] that unsigned_less [of hash, where 'a = nat]
    by (simp only: word_less_nat_alt fastrange64_unat) (simp add: unat_gt_0)
  show "fastrange32 hash32 rng32 < rng32" if "rng32 \<noteq> 0"
    using mult_div_less [of "unat rng32" "unat hash32" "2 ^ 32"] that unsigned_less [of hash32, where 'a = nat]
    by (simp only: word_less_nat_alt fastrange32_unat) (simp add: unat_gt_0)
qed

theorem fastrange_correct_witness:
  "fastrange64 0xfedcba9876543210 1000 < 1000 \<and> fastrange32 0xfedcba98 10 < 10"
proof -
  have "(1000 :: u64) \<noteq> 0" "(10 :: u32) \<noteq> 0" by simp_all
  then show ?thesis using fastrange_correct [of "0xfedcba9876543210" 1000 10 "0xfedcba98"] by blast
qed

end
