(* ===== verification/Data_Block_Index.thy ===== *)
theory Data_Block_Index
  imports Hashing
begin

text \<open>
  The data block footer (\<^verbatim>\<open>table/block_based/data_block_footer.cc\<close>) and the hash index a data
  block may carry (\<^verbatim>\<open>table/block_based/data_block_hash_index.h/.cc\<close>): the builder that collects
  (hash, restart index) pairs and serialises them into one byte per bucket, and the reader.

  The builder counts buckets in \<^verbatim>\<open>double\<close>s.  Their arithmetic is an argument of the
  definitions (the record \<open>double_ops\<close>), so the theorems hold whatever the rounding is.
\<close>

section \<open>The footer\<close>

datatype DataBlockIndexType = kDataBlockBinarySearch | kDataBlockBinaryAndHash

definition kDataBlockIndexTypeBitShift :: nat where
  "kDataBlockIndexTypeBitShift = 31"

definition kNumRestartsMask :: u32 where
  "kNumRestartsMask = push_bit kDataBlockIndexTypeBitShift 1 - 1"

definition PackIndexTypeAndNumRestarts :: "DataBlockIndexType \<Rightarrow> u32 \<Rightarrow> u32" where
  "PackIndexTypeAndNumRestarts index_type num_restarts =
     (let block_footer = num_restarts in
      if index_type = kDataBlockBinaryAndHash
      then block_footer OR push_bit kDataBlockIndexTypeBitShift 1
      else block_footer)"

definition UnPackIndexTypeAndNumRestarts :: "u32 \<Rightarrow> DataBlockIndexType \<times> u32" where
  "UnPackIndexTypeAndNumRestarts block_footer =
     (if block_footer AND push_bit kDataBlockIndexTypeBitShift 1 \<noteq> 0
      then kDataBlockBinaryAndHash else kDataBlockBinarySearch,
      block_footer AND kNumRestartsMask)"

section \<open>The hash index\<close>

definition kNoEntry :: byte where
  "kNoEntry = 255"

definition kCollision :: byte where
  "kCollision = 254"

definition kMaxRestartSupportedByHashIndex :: nat where
  "kMaxRestartSupportedByHashIndex = 253"

definition kMaxBlockSizeSupportedByHashIndex :: nat where
  "kMaxBlockSizeSupportedByHashIndex = 2 ^ 16"

text \<open>What the builder uses of \<^verbatim>\<open>double\<close>: the constants, \<^verbatim>\<open>1 / x\<close>, addition, the
  two comparisons with zero and the conversion to \<^verbatim>\<open>uint16_t\<close>.\<close>

record 'd double_ops =
  d_minus_one :: 'd
  d_zero :: 'd
  d_default_util_ratio :: 'd
  d_inverse :: "'d \<Rightarrow> 'd"
  d_add :: "'d \<Rightarrow> 'd \<Rightarrow> 'd"
  d_nonpos :: "'d \<Rightarrow> bool"
  d_pos :: "'d \<Rightarrow> bool"
  d_to_u16 :: "'d \<Rightarrow> u16"

record 'd DataBlockHashIndexBuilder =
  bucket_per_key :: 'd
  estimated_num_buckets :: 'd
  hi_valid :: bool
  hash_and_restart_pairs :: "(u32 \<times> byte) list"

definition HashIndexBuilder_new :: "'d double_ops \<Rightarrow> 'd DataBlockHashIndexBuilder" where
  "HashIndexBuilder_new D =
     \<lparr>bucket_per_key = d_minus_one D, estimated_num_buckets = d_zero D, hi_valid = False,
      hash_and_restart_pairs = []\<rparr>"

definition HashIndexBuilder_Initialize ::
  "'d double_ops \<Rightarrow> 'd \<Rightarrow> 'd DataBlockHashIndexBuilder \<Rightarrow> 'd DataBlockHashIndexBuilder" where
  "HashIndexBuilder_Initialize D util_ratio h =
     (let util_ratio = (if d_nonpos D util_ratio then d_default_util_ratio D else util_ratio)
      in h\<lparr>bucket_per_key := d_inverse D util_ratio, hi_valid := True\<rparr>)"

definition HashIndexBuilder_Valid :: "'d double_ops \<Rightarrow> 'd DataBlockHashIndexBuilder \<Rightarrow> bool" where
  "HashIndexBuilder_Valid D h \<longleftrightarrow> hi_valid h \<and> d_pos D (bucket_per_key h)"

definition HashIndexBuilder_Add ::
  "'d double_ops \<Rightarrow> bytes \<Rightarrow> nat \<Rightarrow> 'd DataBlockHashIndexBuilder \<Rightarrow> 'd DataBlockHashIndexBuilder" where
  "HashIndexBuilder_Add D key restart_index h =
     (if restart_index > kMaxRestartSupportedByHashIndex then h\<lparr>hi_valid := False\<rparr>
      else
        h\<lparr>hash_and_restart_pairs := hash_and_restart_pairs h @ [(GetSliceHash key, of_nat restart_index)],
          estimated_num_buckets := d_add D (estimated_num_buckets h) (bucket_per_key h)\<rparr>)"

text \<open>The number of buckets: at least one, and odd.\<close>

definition num_buckets_of :: "'d double_ops \<Rightarrow> 'd DataBlockHashIndexBuilder \<Rightarrow> u16" where
  "num_buckets_of D h =
     (let num_buckets = d_to_u16 D (estimated_num_buckets h);
          num_buckets = (if num_buckets = 0 then 1 else num_buckets)
      in num_buckets OR 1)"

text \<open>One round of the loop that fills the buckets.\<close>

definition fill_bucket :: "u16 \<Rightarrow> bytes \<Rightarrow> u32 \<times> byte \<Rightarrow> bytes" where
  "fill_bucket num_buckets buckets entry =
     (let hash_value = fst entry; restart_index = snd entry;
          buck_idx = unat (ucast (hash_value mod ucast num_buckets) :: u16)
      in if buckets ! buck_idx = kNoEntry then buckets[buck_idx := restart_index]
         else if buckets ! buck_idx \<noteq> restart_index then buckets[buck_idx := kCollision]
         else buckets)"

definition HashIndexBuilder_Finish :: "'d double_ops \<Rightarrow> 'd DataBlockHashIndexBuilder \<Rightarrow> bytes \<Rightarrow> bytes" where
  "HashIndexBuilder_Finish D h buffer =
     (let num_buckets = num_buckets_of D h;
          buckets = foldl (fill_bucket num_buckets) (replicate (unat num_buckets) kNoEntry)
                      (hash_and_restart_pairs h)
      in PutFixed16 (buffer @ buckets) num_buckets)"

definition HashIndexBuilder_Reset :: "'d double_ops \<Rightarrow> 'd DataBlockHashIndexBuilder \<Rightarrow> 'd DataBlockHashIndexBuilder" where
  "HashIndexBuilder_Reset D h =
     h\<lparr>estimated_num_buckets := d_zero D, hi_valid := True, hash_and_restart_pairs := []\<rparr>"

definition HashIndexBuilder_EstimateSize :: "'d double_ops \<Rightarrow> 'd DataBlockHashIndexBuilder \<Rightarrow> nat" where
  "HashIndexBuilder_EstimateSize D h =
     (let n = d_to_u16 D (estimated_num_buckets h); n = n OR 1 in 2 + unat n)"

text \<open>The reader.  \<^verbatim>\<open>Initialize\<close> returns \<^verbatim>\<open>num_buckets_\<close> and the offset of the
  bucket array.\<close>

definition HashIndex_Initialize :: "bytes \<Rightarrow> u16 \<Rightarrow> u16 \<times> u16" where
  "HashIndex_Initialize data sz =
     (let num_buckets = DecodeFixed16 (drop (unat sz - 2) data)
      in (num_buckets, sz - 2 - num_buckets))"

definition HashIndex_Lookup :: "u16 \<Rightarrow> bytes \<Rightarrow> nat \<Rightarrow> bytes \<Rightarrow> byte" where
  "HashIndex_Lookup num_buckets data map_offset key =
     (let hash_value = GetSliceHash key;
          idx = (ucast (hash_value mod ucast num_buckets) :: u16)
      in data ! (map_offset + unat idx))"

section \<open>Lemmas\<close>

lemma kNumRestartsMask_mask: "kNumRestartsMask = mask 31"
  by (simp add: kNumRestartsMask_def kDataBlockIndexTypeBitShift_def mask_eq_exp_minus_1)

lemma split_top_bit:
  fixes v :: "'a::len word"
  assumes "drop_bit k v = 0" and "k < LENGTH('a)"
  shows "v AND push_bit k 1 = 0" "(v OR push_bit k 1) AND push_bit k 1 \<noteq> 0"
    "v AND mask k = v" "(v OR push_bit k 1) AND mask k = v"
proof -
  note hi = drop_bit_eq_0_bit [OF assms(1)]
  show "v AND push_bit k 1 = 0" "v AND mask k = v" "(v OR push_bit k 1) AND mask k = v"
    using hi by (auto intro!: bit_word_eqI simp: bit_simps) (metis linorder_not_le)+
  have "bit ((v OR push_bit k 1) AND push_bit k 1) k" using assms(2) by (simp add: bit_simps)
  then show "(v OR push_bit k 1) AND push_bit k 1 \<noteq> 0" by (metis bit_0_eq bot_apply bot_bool_def)
qed

lemma UnPack_Pack:
  assumes "unat num_restarts < 2 ^ 31"
  shows "UnPackIndexTypeAndNumRestarts (PackIndexTypeAndNumRestarts t num_restarts) = (t, num_restarts)"
proof -
  have "num_restarts < 2 ^ 31" using assms by (simp add: word_less_nat_alt)
  then have "drop_bit 31 num_restarts = 0" using word_less_exp_iff_drop_bit [of 31 num_restarts] by simp
  note split = split_top_bit [OF this, simplified]
  show ?thesis
    unfolding UnPackIndexTypeAndNumRestarts_def PackIndexTypeAndNumRestarts_def kNumRestartsMask_mask
      kDataBlockIndexTypeBitShift_def Let_def
    by (cases t) (simp_all add: split)
qed

definition bucket_of :: "u16 \<Rightarrow> u32 \<Rightarrow> nat" where
  "bucket_of n h = unat (ucast (h mod ucast n) :: u16)"

lemma bucket_of_eq:
  assumes "n \<noteq> 0"
  shows "bucket_of n h = unat h mod unat n"
proof -
  have "unat (ucast n :: u32) = unat n"
    using unsigned_less [of n, where 'a = nat] by (simp add: unsigned_ucast_eq take_bit_nat_eq_self)
  then have "unat (h mod ucast n) = unat h mod unat n"
    by (simp add: unat_mod_distrib)
  moreover have "unat h mod unat n < 2 ^ 16"
    using assms unsigned_less [of n, where 'a = nat]
    by (intro less_trans [OF mod_less_divisor]) (simp_all add: unat_gt_0)
  ultimately show ?thesis
    by (simp add: bucket_of_def unsigned_ucast_eq take_bit_nat_eq_self)
qed

lemma bucket_of_less: "n \<noteq> 0 \<Longrightarrow> bucket_of n h < unat n"
  by (simp add: bucket_of_eq unat_gt_0)

lemma fill_bucket_alt:
  "fill_bucket n buckets (h, r) =
     (if buckets ! bucket_of n h = kNoEntry then buckets[bucket_of n h := r]
      else if buckets ! bucket_of n h \<noteq> r then buckets[bucket_of n h := kCollision]
      else buckets)"
  by (simp add: fill_bucket_def bucket_of_def Let_def)

text \<open>What a bucket holds after the loop: nothing when no pair fell into it, the common restart
  index of the pairs that did, or the collision mark when they disagree.\<close>

definition bucket_spec :: "byte list \<Rightarrow> byte" where
  "bucket_spec rs = (if rs = [] then kNoEntry else if set rs = {hd rs} then hd rs else kCollision)"

lemma bucket_spec_snoc:
  assumes "set rs \<subseteq> {0..253}"
  shows "bucket_spec (rs @ [r]) =
    (if bucket_spec rs = kNoEntry then r else if bucket_spec rs \<noteq> r then kCollision else bucket_spec rs)"
proof (cases rs)
  case (Cons a as)
  have "a \<noteq> 255" using assms Cons by auto
  then show ?thesis using Cons by (auto simp: bucket_spec_def kNoEntry_def kCollision_def)
qed (simp add: bucket_spec_def)

lemma fill_buckets:
  assumes "n \<noteq> 0" and "snd ` set ps \<subseteq> {0..253}"
  shows "length (foldl (fill_bucket n) (replicate (unat n) kNoEntry) ps) = unat n \<and>
    (\<forall>b < unat n. foldl (fill_bucket n) (replicate (unat n) kNoEntry) ps ! b =
       bucket_spec (map snd (filter (\<lambda>p. bucket_of n (fst p) = b) ps)))"
  using assms(2)
proof (induction ps rule: rev_induct)
  case Nil
  then show ?case by (simp add: bucket_spec_def)
next
  case (snoc p ps)
  obtain h r where p: "p = (h, r)" by (cases p)
  let ?B = "foldl (fill_bucket n) (replicate (unat n) kNoEntry) ps"
  let ?rs = "\<lambda>b. map snd (filter (\<lambda>p. bucket_of n (fst p) = b) ps)"
  have IH: "length ?B = unat n" "\<And>b. b < unat n \<Longrightarrow> ?B ! b = bucket_spec (?rs b)"
    using snoc by auto
  have "set (?rs b) \<subseteq> {0..253}" for b using snoc.prems by auto
  note step = bucket_spec_snoc [OF this]
  have lt: "bucket_of n h < unat n" using assms(1) by (rule bucket_of_less)
  show ?case
    using IH lt by (auto simp: p fill_bucket_alt step nth_list_update)
qed
lemma num_buckets_of_nonzero: "num_buckets_of D h \<noteq> 0"
proof -
  have "bit (num_buckets_of D h) 0" by (simp add: num_buckets_of_def Let_def bit_simps)
  then show ?thesis by auto
qed

lemma EstimateSize_eq: "HashIndexBuilder_EstimateSize D h = 2 + unat (num_buckets_of D h)"
  by (simp add: HashIndexBuilder_EstimateSize_def num_buckets_of_def Let_def)

lemma Lookup_Finish:
  assumes "snd ` set (hash_and_restart_pairs h) \<subseteq> {0..253}"
  shows "HashIndex_Lookup (num_buckets_of D h) (HashIndexBuilder_Finish D h buffer @ rest) (length buffer) key =
    bucket_spec (map snd (filter (\<lambda>p. bucket_of (num_buckets_of D h) (fst p) =
       bucket_of (num_buckets_of D h) (GetSliceHash key)) (hash_and_restart_pairs h)))"
proof -
  let ?n = "num_buckets_of D h" and ?ps = "hash_and_restart_pairs h"
  let ?B = "foldl (fill_bucket ?n) (replicate (unat ?n) kNoEntry) ?ps"
  note B = fill_buckets [OF num_buckets_of_nonzero assms, of D h]
  have lt: "bucket_of ?n (GetSliceHash key) < unat ?n" by (rule bucket_of_less [OF num_buckets_of_nonzero])
  have "HashIndex_Lookup ?n (HashIndexBuilder_Finish D h buffer @ rest) (length buffer) key =
      ?B ! bucket_of ?n (GetSliceHash key)"
    using B lt by (simp add: HashIndex_Lookup_def HashIndexBuilder_Finish_def PutFixed16_def Let_def
        nth_append flip: bucket_of_def)
  then show ?thesis using B lt by simp
qed

lemma length_Finish:
  assumes "snd ` set (hash_and_restart_pairs h) \<subseteq> {0..253}"
  shows "length (HashIndexBuilder_Finish D h buffer) = length buffer + HashIndexBuilder_EstimateSize D h"
  using fill_buckets [OF num_buckets_of_nonzero assms, of D h]
  by (simp add: HashIndexBuilder_Finish_def PutFixed16_def Let_def EstimateSize_eq)

lemma Initialize_Finish:
  assumes "snd ` set (hash_and_restart_pairs h) \<subseteq> {0..253}"
    and "length (HashIndexBuilder_Finish D h buffer) < 2 ^ 16"
  shows "HashIndex_Initialize (HashIndexBuilder_Finish D h buffer @ rest)
      (of_nat (length (HashIndexBuilder_Finish D h buffer))) = (num_buckets_of D h, of_nat (length buffer))"
proof -
  let ?n = "num_buckets_of D h" and ?F = "HashIndexBuilder_Finish D h buffer"
  have len: "length ?F = length buffer + (2 + unat ?n)"
    using length_Finish [OF assms(1)] by (simp add: EstimateSize_eq)
  have "unat (of_nat (length ?F) :: u16) = length ?F"
    using assms(2) by (simp add: unsigned_of_nat take_bit_nat_eq_self)
  moreover have "drop (length ?F - 2) (?F @ rest) = EncodeFixed16 ?n @ rest"
    using fill_buckets [OF num_buckets_of_nonzero assms(1), of D h] len
    by (simp add: HashIndexBuilder_Finish_def PutFixed16_def Let_def)
  moreover have "of_nat (length ?F) - 2 - ?n = (of_nat (length buffer) :: u16)"
    unfolding len by simp
  ultimately show ?thesis by (simp add: HashIndex_Initialize_def DecodeFixed16_Encode Let_def)
qed

lemma bucket_spec_member:
  assumes "r \<in> set rs"
  shows "bucket_spec rs = r \<or> bucket_spec rs = kCollision"
  using assms by (auto simp: bucket_spec_def)

text \<open>The keys a block builder has added, in order, with their restart indexes.\<close>

definition HashIndexBuilder_Adds ::
  "'d double_ops \<Rightarrow> (bytes \<times> nat) list \<Rightarrow> 'd DataBlockHashIndexBuilder \<Rightarrow> 'd DataBlockHashIndexBuilder" where
  "HashIndexBuilder_Adds D kis h = foldl (\<lambda>h (key, i). HashIndexBuilder_Add D key i h) h kis"

lemma pairs_Adds:
  assumes "\<forall>(key, i) \<in> set kis. i \<le> kMaxRestartSupportedByHashIndex"
  shows "hash_and_restart_pairs (HashIndexBuilder_Adds D kis h) =
    hash_and_restart_pairs h @ map (\<lambda>(key, i). (GetSliceHash key, of_nat i)) kis"
  using assms
  by (induction kis arbitrary: h) (auto simp: HashIndexBuilder_Adds_def HashIndexBuilder_Add_def)

lemma restart_byte_range: "i \<le> kMaxRestartSupportedByHashIndex \<Longrightarrow> (of_nat i :: byte) \<in> {0..253}"
  by (simp add: kMaxRestartSupportedByHashIndex_def word_le_nat_alt unsigned_of_nat take_bit_nat_eq_self)

section \<open>Properties\<close>

text \<open>The footer word of a data block round-trips: for fewer than \<open>2 ^ 31\<close> restart points,
  unpacking returns the index type and the number of restart points that were packed.\<close>

theorem footer_roundtrip:
  assumes "unat num_restarts < 2 ^ 31"
  shows "UnPackIndexTypeAndNumRestarts (PackIndexTypeAndNumRestarts t num_restarts) = (t, num_restarts)"
  by (rule UnPack_Pack [OF assms])

theorem footer_roundtrip_witness:
  "UnPackIndexTypeAndNumRestarts (PackIndexTypeAndNumRestarts kDataBlockBinaryAndHash 7) =
     (kDataBlockBinaryAndHash, 7)"
  by (rule footer_roundtrip) simp

text \<open>C22: The hash index has no false negatives.  After any sequence of \<^verbatim>\<open>Add\<close> calls with
  supported restart indexes and a \<^verbatim>\<open>Finish\<close> that stays within the 16-bit size, the reader finds
  the bucket array again, and looking up an added key gives the restart index it was added with or the
  collision mark, never \<^verbatim>\<open>kNoEntry\<close>.  This holds for every arithmetic of
  \<^verbatim>\<open>double\<close>, hence for every number of buckets.\<close>

theorem hash_index_no_false_negative:
  assumes "h = HashIndexBuilder_Adds D kis (HashIndexBuilder_Reset D h0)"
    and "\<forall>(key, i) \<in> set kis. i \<le> kMaxRestartSupportedByHashIndex"
    and "data = HashIndexBuilder_Finish D h buffer" and "length data < 2 ^ 16"
    and "(key, i) \<in> set kis"
  shows "HashIndex_Initialize (data @ rest) (of_nat (length data)) = (num_buckets_of D h, of_nat (length buffer)) \<and>
    HashIndex_Lookup (num_buckets_of D h) (data @ rest) (length buffer) key \<in> {of_nat i, kCollision} - {kNoEntry}"
proof -
  have pairs: "hash_and_restart_pairs h = map (\<lambda>(key, i). (GetSliceHash key, of_nat i)) kis"
    by (simp add: assms(1) pairs_Adds [OF assms(2)] HashIndexBuilder_Reset_def)
  have rng: "snd ` set (hash_and_restart_pairs h) \<subseteq> {0..253}"
    using assms(2) restart_byte_range by (fastforce simp: pairs)
  let ?L = "HashIndex_Lookup (num_buckets_of D h) (data @ rest) (length buffer) key"
  have "?L = of_nat i \<or> ?L = kCollision"
    unfolding assms(3) Lookup_Finish [OF rng]
    by (rule bucket_spec_member) (use assms(5) in \<open>force simp: pairs\<close>)
  moreover have "(of_nat i :: byte) \<in> {0..253}" using assms(2,5) restart_byte_range by blast
  then have "of_nat i \<noteq> kNoEntry" by (auto simp: kNoEntry_def)
  ultimately have "?L \<in> {of_nat i, kCollision} - {kNoEntry}" by (auto simp: kNoEntry_def kCollision_def)
  then show ?thesis using Initialize_Finish [OF rng] assms(3,4) by blast
qed

definition int_double :: "int double_ops" where
  "int_double = \<lparr>d_minus_one = -1, d_zero = 0, d_default_util_ratio = 1, d_inverse = (\<lambda>x. 1),
     d_add = (+), d_nonpos = (\<lambda>x. x \<le> 0), d_pos = (\<lambda>x. x > 0), d_to_u16 = of_int\<rparr>"

definition example_hash_index :: "int DataBlockHashIndexBuilder" where
  "example_hash_index = HashIndexBuilder_Adds int_double [([97], 0), ([98], 4)]
     (HashIndexBuilder_Reset int_double
       (HashIndexBuilder_Initialize int_double 1 (HashIndexBuilder_new int_double)))"

lemma example_hash_index_size: "length (HashIndexBuilder_Finish int_double example_hash_index [1, 2, 3]) < 2 ^ 16"
proof -
  have "snd ` set (hash_and_restart_pairs example_hash_index) \<subseteq> {0..253}"
    by (auto simp: example_hash_index_def HashIndexBuilder_Adds_def HashIndexBuilder_Add_def
        HashIndexBuilder_Reset_def kMaxRestartSupportedByHashIndex_def)
  from length_Finish [OF this, of int_double "[1, 2, 3]"] show ?thesis
    by (simp add: example_hash_index_def HashIndexBuilder_Adds_def HashIndexBuilder_Add_def
        HashIndexBuilder_Reset_def kMaxRestartSupportedByHashIndex_def int_double_def
        HashIndexBuilder_EstimateSize_def HashIndexBuilder_Initialize_def HashIndexBuilder_new_def Let_def)
qed

theorem hash_index_no_false_negative_witness:
  "HashIndex_Lookup (num_buckets_of int_double example_hash_index)
     (HashIndexBuilder_Finish int_double example_hash_index [1, 2, 3] @ []) (length [1, 2, 3 :: byte]) [98]
   \<in> {of_nat 4, kCollision} - {kNoEntry}"
  by (rule hash_index_no_false_negative [OF example_hash_index_def _ refl example_hash_index_size, THEN conjunct2])
    (simp_all add: kMaxRestartSupportedByHashIndex_def)

end
