(* ===== verification/Block_Builder.thy ===== *)
theory Block_Builder
  imports Data_Block_Index
begin

text \<open>
  The block builder (\<^verbatim>\<open>table/block_based/block_builder.h/.cc\<close>): prefix-compressed entries with
  restart points, the restart array, the optional hash index and the footer.  An assertion of the
  source that fails is the result \<open>None\<close>.  \<^verbatim>\<open>ExtractUserKey\<close> (declared in
  \<^verbatim>\<open>db/dbformat.h\<close>) is an argument of \<open>BlockBuilder_Add\<close>.

  The lemmas give the exact layout of the buffer: it is the concatenation of the entry encodings, the
  restart array holds the offsets of entries that share no prefix, and the size estimate is exact.
\<close>

section \<open>Definitions\<close>

record 'd BlockBuilder =
  block_restart_interval :: int
  use_delta_encoding :: bool
  use_value_delta_encoding :: bool
  buffer :: bytes
  restarts :: "u32 list"
  estimate :: nat
  counter :: int
  finished :: bool
  last_key :: bytes
  hash_index_builder :: "'d DataBlockHashIndexBuilder"

definition BlockBuilder_new ::
  "'d double_ops \<Rightarrow> int \<Rightarrow> bool \<Rightarrow> bool \<Rightarrow> DataBlockIndexType \<Rightarrow> 'd \<Rightarrow> 'd BlockBuilder option" where
  "BlockBuilder_new D restart_interval use_delta use_value_delta index_type util_ratio =
     (let h = (case index_type of
                 kDataBlockBinarySearch \<Rightarrow> HashIndexBuilder_new D
               | kDataBlockBinaryAndHash \<Rightarrow>
                   HashIndexBuilder_Initialize D util_ratio (HashIndexBuilder_new D))
      in if restart_interval \<ge> 1
         then Some \<lparr>block_restart_interval = restart_interval, use_delta_encoding = use_delta,
                    use_value_delta_encoding = use_value_delta, buffer = [], restarts = [0],
                    estimate = 4 + 4, counter = 0, finished = False, last_key = [],
                    hash_index_builder = h\<rparr>
         else None)"

definition BlockBuilder_Reset :: "'d double_ops \<Rightarrow> 'd BlockBuilder \<Rightarrow> 'd BlockBuilder" where
  "BlockBuilder_Reset D b =
     b\<lparr>buffer := [], restarts := [0], estimate := 4 + 4, counter := 0, finished := False, last_key := [],
       hash_index_builder :=
         (if HashIndexBuilder_Valid D (hash_index_builder b)
          then HashIndexBuilder_Reset D (hash_index_builder b) else hash_index_builder b)\<rparr>"

text \<open>\<^verbatim>\<open>SwapAndReset\<close> returns the old buffer; the caller's string is swapped in and then cleared.\<close>

definition BlockBuilder_SwapAndReset :: "'d double_ops \<Rightarrow> bytes \<Rightarrow> 'd BlockBuilder \<Rightarrow> bytes \<times> 'd BlockBuilder" where
  "BlockBuilder_SwapAndReset D buf b = (buffer b, BlockBuilder_Reset D (b\<lparr>buffer := buf\<rparr>))"

definition BlockBuilder_CurrentSizeEstimate :: "'d double_ops \<Rightarrow> 'd BlockBuilder \<Rightarrow> nat" where
  "BlockBuilder_CurrentSizeEstimate D b =
     estimate b + (if HashIndexBuilder_Valid D (hash_index_builder b)
                   then HashIndexBuilder_EstimateSize D (hash_index_builder b) else 0)"

definition BlockBuilder_EstimateSizeAfterKV ::
  "'d double_ops \<Rightarrow> 'd BlockBuilder \<Rightarrow> bytes \<Rightarrow> bytes \<Rightarrow> nat" where
  "BlockBuilder_EstimateSizeAfterKV D b key value =
     (let est = BlockBuilder_CurrentSizeEstimate D b;
          est = est + length key;
          est = est + (if \<not> use_value_delta_encoding b \<or> counter b \<ge> block_restart_interval b
                       then length value else length value div 2);
          est = (if counter b \<ge> block_restart_interval b then est + 4 else est);
          est = est + 4;
          est = est + VarintLength (of_nat (length key));
          est = (if \<not> use_value_delta_encoding b \<or> counter b \<ge> block_restart_interval b
                 then est + VarintLength (of_nat (length value)) else est)
      in est)"

definition BlockBuilder_empty :: "'d BlockBuilder \<Rightarrow> bool" where
  "BlockBuilder_empty b \<longleftrightarrow> buffer b = []"

definition BlockBuilder_Finish :: "'d double_ops \<Rightarrow> 'd BlockBuilder \<Rightarrow> bytes \<times> 'd BlockBuilder" where
  "BlockBuilder_Finish D b =
     (let buf = foldl PutFixed32 (buffer b) (restarts b);
          num_restarts = of_nat (length (restarts b));
          (buf, index_type) =
            (if HashIndexBuilder_Valid D (hash_index_builder b) \<and>
                BlockBuilder_CurrentSizeEstimate D b \<le> kMaxBlockSizeSupportedByHashIndex
             then (HashIndexBuilder_Finish D (hash_index_builder b) buf, kDataBlockBinaryAndHash)
             else (buf, kDataBlockBinarySearch));
          block_footer = PackIndexTypeAndNumRestarts index_type num_restarts;
          buf = PutFixed32 buf block_footer
      in (buf, b\<lparr>buffer := buf, finished := True\<rparr>))"

definition BlockBuilder_Add ::
  "'d double_ops \<Rightarrow> (bytes \<Rightarrow> bytes) \<Rightarrow> bytes \<Rightarrow> bytes \<Rightarrow> bytes option \<Rightarrow> 'd BlockBuilder \<Rightarrow> 'd BlockBuilder option" where
  "BlockBuilder_Add D ExtractUserKey key value delta_value b =
     (if finished b \<or> counter b > block_restart_interval b \<or>
         (use_value_delta_encoding b \<and> delta_value = None) then None
      else
        let (shared, b) =
              (if counter b \<ge> block_restart_interval b then
                 (let b = b\<lparr>restarts := restarts b @ [of_nat (length (buffer b))],
                            estimate := estimate b + 4, counter := 0\<rparr>
                  in (0, if use_delta_encoding b then b\<lparr>last_key := key\<rparr> else b))
               else if use_delta_encoding b then
                 (Slice_difference_offset key (last_key b), b\<lparr>last_key := key\<rparr>)
               else (0, b));
            non_shared = length key - shared;
            curr_size = length (buffer b);
            buf = (if use_value_delta_encoding b
                   then PutVarint32Varint32 (buffer b) (of_nat shared) (of_nat non_shared)
                   else PutVarint32Varint32Varint32 (buffer b) (of_nat shared) (of_nat non_shared)
                          (of_nat (length value)));
            buf = buf @ take non_shared (drop shared key);
            buf = (if shared \<noteq> 0 \<and> use_value_delta_encoding b then buf @ the delta_value
                   else buf @ value);
            h = (if HashIndexBuilder_Valid D (hash_index_builder b)
                 then HashIndexBuilder_Add D (ExtractUserKey key) (length (restarts b) - 1) (hash_index_builder b)
                 else hash_index_builder b)
        in Some (b\<lparr>buffer := buf, hash_index_builder := h, counter := counter b + 1,
                  estimate := estimate b + (length buf - curr_size)\<rparr>))"

text \<open>The calls of a table builder: one \<^verbatim>\<open>Add\<close> for each key and value, in order.\<close>

fun BlockBuilder_Adds ::
  "'d double_ops \<Rightarrow> (bytes \<Rightarrow> bytes) \<Rightarrow> (bytes \<times> bytes) list \<Rightarrow> 'd BlockBuilder \<Rightarrow> 'd BlockBuilder option" where
  "BlockBuilder_Adds D U [] b = Some b"
| "BlockBuilder_Adds D U ((key, value) # kvs) b =
     (case BlockBuilder_Add D U key value None b of
        None \<Rightarrow> None
      | Some b \<Rightarrow> BlockBuilder_Adds D U kvs b)"

section \<open>The layout of a block\<close>

text \<open>The entries of a block: how many bytes of the previous key are shared, the whole key and the
  value.\<close>

record block_entry =
  e_shared :: nat
  e_key :: bytes
  e_value :: bytes

definition entry_bytes :: "block_entry \<Rightarrow> bytes" where
  "entry_bytes e =
     EncodeVarint32 (of_nat (e_shared e)) @ EncodeVarint32 (of_nat (length (e_key e) - e_shared e)) @
     EncodeVarint32 (of_nat (length (e_value e))) @ drop (e_shared e) (e_key e) @ e_value e"

definition entries_bytes :: "block_entry list \<Rightarrow> bytes" where
  "entries_bytes es = concat (map entry_bytes es)"

definition entry_offset :: "block_entry list \<Rightarrow> nat \<Rightarrow> nat" where
  "entry_offset es j = length (entries_bytes (take j es))"

text \<open>Prefix compression is consistent: the shared bytes are a prefix of both keys.\<close>

definition entries_chained :: "block_entry list \<Rightarrow> bool" where
  "entries_chained es \<longleftrightarrow>
     (\<forall>j < length es. e_shared (es ! j) \<le> length (e_key (es ! j)) \<and>
        (if j = 0 then e_shared (es ! j) = 0
         else e_shared (es ! j) \<le> length (e_key (es ! (j - 1))) \<and>
              take (e_shared (es ! j)) (e_key (es ! (j - 1))) = take (e_shared (es ! j)) (e_key (es ! j))))"

text \<open>The restart points: increasing entry numbers from 0 on, each of an entry with a whole key.\<close>

definition restarts_ok :: "block_entry list \<Rightarrow> nat list \<Rightarrow> bool" where
  "restarts_ok es rs \<longleftrightarrow>
     rs \<noteq> [] \<and> hd rs = 0 \<and> sorted_wrt (<) rs \<and>
     (\<forall>r \<in> set rs. (r = 0 \<or> r < length es) \<and> (r < length es \<longrightarrow> e_shared (es ! r) = 0))"

text \<open>The number of the restart interval an entry lies in.\<close>

definition interval_of :: "nat list \<Rightarrow> nat \<Rightarrow> nat" where
  "interval_of rs j = length (filter (\<lambda>r. r \<le> j) rs) - 1"

definition hash_index_ok ::
  "'d double_ops \<Rightarrow> (bytes \<Rightarrow> bytes) \<Rightarrow> 'd DataBlockHashIndexBuilder \<Rightarrow> block_entry list \<Rightarrow> nat list \<Rightarrow> bool" where
  "hash_index_ok D U h es rs \<longleftrightarrow>
     (HashIndexBuilder_Valid D h \<longrightarrow>
        (\<forall>j < length es. interval_of rs j \<le> kMaxRestartSupportedByHashIndex) \<and>
        hash_and_restart_pairs h =
          map (\<lambda>j. (GetSliceHash (U (e_key (es ! j))), of_nat (interval_of rs j))) [0..<length es])"

definition builder_inv ::
  "'d double_ops \<Rightarrow> (bytes \<Rightarrow> bytes) \<Rightarrow> 'd BlockBuilder \<Rightarrow> block_entry list \<Rightarrow> nat list \<Rightarrow> bool" where
  "builder_inv D U b es rs \<longleftrightarrow>
     buffer b = entries_bytes es \<and>
     restarts b = map (\<lambda>r. of_nat (entry_offset es r)) rs \<and>
     estimate b = length (buffer b) + 4 * length rs + 4 \<and>
     0 \<le> counter b \<and> counter b \<le> block_restart_interval b \<and> 1 \<le> block_restart_interval b \<and>
     \<not> finished b \<and> \<not> use_value_delta_encoding b \<and>
     (es = [] \<longrightarrow> counter b = 0 \<and> rs = [0]) \<and>
     (use_delta_encoding b \<longrightarrow> last_key b = (if es = [] then [] else e_key (last es))) \<and>
     entries_chained es \<and> restarts_ok es rs \<and> hash_index_ok D U (hash_index_builder b) es rs"

lemma entries_bytes_simps [simp]:
  "entries_bytes [] = []" "entries_bytes (es @ es') = entries_bytes es @ entries_bytes es'"
  "entries_bytes [e] = entry_bytes e"
  by (simp_all add: entries_bytes_def)

lemma entry_offset_append [simp]: "j \<le> length es \<Longrightarrow> entry_offset (es @ es') j = entry_offset es j"
  by (simp add: entry_offset_def)

lemma entry_offset_0 [simp]: "entry_offset es 0 = 0"
  by (simp add: entry_offset_def)

lemma entry_offset_length [simp]: "entry_offset es (length es) = length (entries_bytes es)"
  by (simp add: entry_offset_def)

lemma entries_chained_snoc:
  assumes "entries_chained es" and "e_shared e \<le> length (e_key e)"
    and "es = [] \<Longrightarrow> e_shared e = 0"
    and "es \<noteq> [] \<Longrightarrow> e_shared e \<le> length (e_key (last es)) \<and>
           take (e_shared e) (e_key (last es)) = take (e_shared e) (e_key e)"
  shows "entries_chained (es @ [e])"
  unfolding entries_chained_def
proof (intro allI impI)
  fix j assume j: "j < length (es @ [e])"
  show "e_shared ((es @ [e]) ! j) \<le> length (e_key ((es @ [e]) ! j)) \<and>
        (if j = 0 then e_shared ((es @ [e]) ! j) = 0
         else e_shared ((es @ [e]) ! j) \<le> length (e_key ((es @ [e]) ! (j - 1))) \<and>
              take (e_shared ((es @ [e]) ! j)) (e_key ((es @ [e]) ! (j - 1))) =
              take (e_shared ((es @ [e]) ! j)) (e_key ((es @ [e]) ! j)))"
  proof (cases "j < length es")
    case True
    then have eqs: "(es @ [e]) ! (j - 1) = es ! (j - 1)" "(es @ [e]) ! j = es ! j"
      by (auto simp: nth_append)
    show ?thesis unfolding eqs by (rule assms(1) [unfolded entries_chained_def, rule_format, OF True])
  next
    case False
    then have "j = length es" using j by simp
    then show ?thesis using assms(2-4) by (cases "es = []") (auto simp: nth_append last_conv_nth)
  qed
qed

lemma restarts_ok_extend:
  assumes "restarts_ok es rs" and "es = [] \<Longrightarrow> rs = [0] \<and> e_shared e = 0"
  shows "restarts_ok (es @ [e]) rs"
    "es \<noteq> [] \<Longrightarrow> e_shared e = 0 \<Longrightarrow> restarts_ok (es @ [e]) (rs @ [length es])"
  using assms by (auto simp: restarts_ok_def nth_append sorted_wrt_append)

lemma interval_of_append_new:
  "j < n \<Longrightarrow> interval_of (rs @ [n]) j = interval_of rs j"
  by (simp add: interval_of_def)

lemma interval_of_last:
  assumes "\<forall>r \<in> set rs. r \<le> n"
  shows "interval_of rs n = length rs - 1"
  using assms by (simp add: interval_of_def filter_id_conv)

lemma hash_index_ok_snoc:
  assumes "hash_index_ok D U h es rs"
    and "\<And>j. j < length es \<Longrightarrow> interval_of rs' j = interval_of rs j"
    and "interval_of rs' (length es) = length rs' - 1"
  shows "hash_index_ok D U
     (if HashIndexBuilder_Valid D h then HashIndexBuilder_Add D (U (e_key e)) (length rs' - 1) h else h)
     (es @ [e]) rs'"
  using assms
  by (auto simp: hash_index_ok_def HashIndexBuilder_Add_def HashIndexBuilder_Valid_def nth_append less_Suc_eq)

text \<open>One \<^verbatim>\<open>Add\<close>: its assertions hold and it appends one entry, possibly at a new restart
  point.\<close>

lemma Add_builder_inv:
  assumes inv: "builder_inv D U b es rs"
  shows "\<exists>b' e rs'. BlockBuilder_Add D U key value None b = Some b' \<and> e_key e = key \<and> e_value e = value \<and>
     builder_inv D U b' (es @ [e]) rs'"
proof -
  have es_rs: "restarts_ok es rs" "entries_chained es" "hash_index_ok D U (hash_index_builder b) es rs"
    and nil: "es = [] \<Longrightarrow> counter b = 0 \<and> rs = [0]"
    and last: "use_delta_encoding b \<Longrightarrow> last_key b = (if es = [] then [] else e_key (last es))"
    and len: "length (restarts b) = length rs"
    and flags: "\<not> finished b" "\<not> counter b > block_restart_interval b" "\<not> use_value_delta_encoding b"
      "1 \<le> block_restart_interval b" "0 \<le> counter b"
    using inv by (simp_all add: builder_inv_def)
  have rs_le: "\<forall>r \<in> set rs. r \<le> length es" using es_rs(1) by (auto simp: restarts_ok_def)
  have offs: "map (\<lambda>r. of_nat (entry_offset (es @ [e]) r)) rs = (restarts b :: u32 list)" for e
    using inv rs_le by (auto simp: builder_inv_def)
  show ?thesis
  proof (cases "counter b \<ge> block_restart_interval b")
    case True
    define e where "e = \<lparr>e_shared = 0, e_key = key, e_value = value\<rparr>"
    have ne: "es \<noteq> []" using nil True flags(4) by auto
    have "hash_index_ok D U
       (if HashIndexBuilder_Valid D (hash_index_builder b)
        then HashIndexBuilder_Add D (U (e_key e)) (length (rs @ [length es]) - 1) (hash_index_builder b)
        else hash_index_builder b) (es @ [e]) (rs @ [length es])"
      using rs_le by (intro hash_index_ok_snoc [OF es_rs(3)])
        (simp_all add: interval_of_append_new interval_of_last)
    moreover have "entries_chained (es @ [e])"
      using es_rs(2) ne by (intro entries_chained_snoc) (simp_all add: e_def)
    moreover have "restarts_ok (es @ [e]) (rs @ [length es])"
      using es_rs(1) ne by (intro restarts_ok_extend(2)) (simp_all add: e_def)
    ultimately show ?thesis
      using inv True flags offs
      by (intro exI [of _ "the (BlockBuilder_Add D U key value None b)"] exI [of _ e] exI [of _ "rs @ [length es]"],
          cases "HashIndexBuilder_Valid D (hash_index_builder b)")
        (simp_all add: builder_inv_def BlockBuilder_Add_def Let_def e_def entry_bytes_def
          PutVarint32Varint32Varint32_def)
  next
    case False
    define sh where "sh = (if use_delta_encoding b then Slice_difference_offset key (last_key b) else 0)"
    define e where "e = \<lparr>e_shared = sh, e_key = key, e_value = value\<rparr>"
    have sh: "sh \<le> length key" "use_delta_encoding b \<Longrightarrow> sh \<le> length (last_key b)"
      "use_delta_encoding b \<Longrightarrow> take sh (last_key b) = take sh key"
      using Slice_difference_offset_le [of key "last_key b"] Slice_difference_offset_take [of key "last_key b"]
      by (simp_all add: sh_def)
    have sh0: "es = [] \<Longrightarrow> sh = 0" using sh(2) last by (auto simp: sh_def)
    have "hash_index_ok D U
       (if HashIndexBuilder_Valid D (hash_index_builder b)
        then HashIndexBuilder_Add D (U (e_key e)) (length rs - 1) (hash_index_builder b)
        else hash_index_builder b) (es @ [e]) rs"
      using rs_le by (intro hash_index_ok_snoc [OF es_rs(3)]) (simp_all add: interval_of_last)
    moreover have "entries_chained (es @ [e])"
      using es_rs(2) sh sh0 last by (intro entries_chained_snoc) (auto simp: e_def sh_def split: if_splits)
    moreover have "restarts_ok (es @ [e]) rs"
      using es_rs(1) nil sh0 by (intro restarts_ok_extend(1)) (simp_all add: e_def)
    ultimately show ?thesis
      using inv False flags offs sh
      by (intro exI [of _ "the (BlockBuilder_Add D U key value None b)"] exI [of _ e] exI [of _ rs],
          cases "HashIndexBuilder_Valid D (hash_index_builder b)"; cases "use_delta_encoding b")
        (simp_all add: builder_inv_def BlockBuilder_Add_def Let_def e_def sh_def entry_bytes_def
          PutVarint32Varint32Varint32_def)
  qed
qed

lemma Adds_builder_inv:
  assumes "builder_inv D U b es rs"
  shows "\<exists>b' es' rs'. BlockBuilder_Adds D U kvs b = Some b' \<and>
     map (\<lambda>e. (e_key e, e_value e)) es' = kvs \<and> builder_inv D U b' (es @ es') rs'"
  using assms
proof (induction kvs arbitrary: b es rs)
  case Nil
  then show ?case by auto
next
  case (Cons kv kvs)
  obtain key val where kv: "kv = (key, val)" by (cases kv)
  obtain b1 e rs1 where 1: "BlockBuilder_Add D U key val None b = Some b1" "e_key e = key" "e_value e = val"
      "builder_inv D U b1 (es @ [e]) rs1"
    using Add_builder_inv [OF Cons.prems] by blast
  obtain b2 es2 rs2 where "BlockBuilder_Adds D U kvs b1 = Some b2" "map (\<lambda>e. (e_key e, e_value e)) es2 = kvs"
      "builder_inv D U b2 ((es @ [e]) @ es2) rs2"
    using Cons.IH [OF 1(4)] by blast
  then show ?case using 1 by (intro exI [of _ b2] exI [of _ "e # es2"] exI [of _ rs2]) (simp add: kv)
qed

lemma new_builder_inv:
  assumes "BlockBuilder_new D interval use_delta False index_type ratio = Some b"
  shows "builder_inv D U b [] [0]"
  using assms
  by (auto simp: BlockBuilder_new_def builder_inv_def entries_chained_def restarts_ok_def hash_index_ok_def
      HashIndexBuilder_Initialize_def HashIndexBuilder_new_def Let_def
      split: DataBlockIndexType.splits if_splits)

lemma Reset_builder_inv:
  assumes "1 \<le> block_restart_interval b" and "\<not> use_value_delta_encoding b"
  shows "builder_inv D U (BlockBuilder_Reset D b) [] [0]"
  using assms
  by (auto simp: BlockBuilder_Reset_def builder_inv_def entries_chained_def restarts_ok_def hash_index_ok_def
      HashIndexBuilder_Reset_def HashIndexBuilder_Valid_def)

definition writes_hash_index :: "'d double_ops \<Rightarrow> 'd BlockBuilder \<Rightarrow> bool" where
  "writes_hash_index D b \<longleftrightarrow> HashIndexBuilder_Valid D (hash_index_builder b) \<and>
     BlockBuilder_CurrentSizeEstimate D b \<le> kMaxBlockSizeSupportedByHashIndex"

text \<open>The bytes of a finished block.\<close>

lemma Finish_bytes:
  assumes "builder_inv D U b es rs"
  defines "body \<equiv> entries_bytes es @ concat (map (\<lambda>r. EncodeFixed32 (of_nat (entry_offset es r))) rs)"
  shows "fst (BlockBuilder_Finish D b) =
    (if writes_hash_index D b
     then HashIndexBuilder_Finish D (hash_index_builder b) body @
            EncodeFixed32 (PackIndexTypeAndNumRestarts kDataBlockBinaryAndHash (of_nat (length rs)))
     else body @ EncodeFixed32 (PackIndexTypeAndNumRestarts kDataBlockBinarySearch (of_nat (length rs))))"
  using assms(1)
  by (simp add: BlockBuilder_Finish_def builder_inv_def foldl_PutFixed32 body_def PutFixed32_def
      writes_hash_index_def comp_def Let_def)

lemma hash_pairs_range:
  assumes "hash_index_ok D U h es rs" and "HashIndexBuilder_Valid D h"
  shows "snd ` set (hash_and_restart_pairs h) \<subseteq> {0..253}"
  using assms restart_byte_range by (fastforce simp: hash_index_ok_def)

lemma length_concat_EncodeFixed32: "length (concat (map (\<lambda>r. EncodeFixed32 (f r)) rs)) = 4 * length rs"
  by (induction rs) simp_all

lemma length_BlockBuilder_Finish:
  assumes "builder_inv D U b es rs"
  shows "length (fst (BlockBuilder_Finish D b)) =
    (if writes_hash_index D b then BlockBuilder_CurrentSizeEstimate D b else estimate b)"
proof -
  have est: "estimate b = length (entries_bytes es) + 4 * length rs + 4"
    and h: "hash_index_ok D U (hash_index_builder b) es rs"
    using assms by (simp_all add: builder_inv_def)
  show ?thesis
    unfolding Finish_bytes [OF assms]
    using est hash_pairs_range [OF h]
    by (simp add: length_Finish length_concat_EncodeFixed32 BlockBuilder_CurrentSizeEstimate_def writes_hash_index_def)
qed

text \<open>With a restart point at every entry, the 255th entry disables the hash index.\<close>

definition every_entry_restarts :: "'d double_ops \<Rightarrow> nat \<Rightarrow> 'd BlockBuilder \<Rightarrow> bool" where
  "every_entry_restarts D n b \<longleftrightarrow>
     block_restart_interval b = 1 \<and> counter b = (if n = 0 then 0 else 1) \<and>
     length (restarts b) = max 1 n \<and> (255 \<le> n \<longrightarrow> \<not> HashIndexBuilder_Valid D (hash_index_builder b))"

lemma Add_every_entry_restarts:
  assumes "every_entry_restarts D n b" and "BlockBuilder_Add D U key val None b = Some b'"
  shows "every_entry_restarts D (Suc n) b'"
  using assms
  by (cases "n = 0")
    (auto simp: every_entry_restarts_def BlockBuilder_Add_def Let_def HashIndexBuilder_Add_def
      HashIndexBuilder_Valid_def kMaxRestartSupportedByHashIndex_def max_def split: if_splits)

lemma Adds_every_entry_restarts:
  assumes "every_entry_restarts D n b" and "BlockBuilder_Adds D U kvs b = Some b'"
  shows "every_entry_restarts D (n + length kvs) b'"
  using assms
proof (induction kvs arbitrary: n b)
  case (Cons kv kvs)
  then show ?case using Add_every_entry_restarts [OF Cons.prems(1)]
    by (cases kv) (fastforce split: option.splits)
qed simp

section \<open>Properties\<close>

text \<open>C32: No assertion of \<^verbatim>\<open>BlockBuilder::Add\<close> fails on a builder of data blocks, for any
  sequence of keys and values, and the size estimate is an upper bound of the finished block.  It is exact
  unless a hash index had to be dropped because the block exceeds 64 KiB.\<close>

theorem block_size_estimate_exact:
  assumes "BlockBuilder_new D interval use_delta False index_type ratio = Some b0"
  shows "\<exists>b. BlockBuilder_Adds D U kvs b0 = Some b \<and>
     length (fst (BlockBuilder_Finish D b)) \<le> BlockBuilder_CurrentSizeEstimate D b \<and>
     (\<not> HashIndexBuilder_Valid D (hash_index_builder b) \<or>
        BlockBuilder_CurrentSizeEstimate D b \<le> kMaxBlockSizeSupportedByHashIndex \<longrightarrow>
      length (fst (BlockBuilder_Finish D b)) = BlockBuilder_CurrentSizeEstimate D b)"
proof -
  obtain b es rs where b: "BlockBuilder_Adds D U kvs b0 = Some b" "builder_inv D U b es rs"
    using Adds_builder_inv [OF new_builder_inv [OF assms], of U kvs] by auto
  have "estimate b \<le> BlockBuilder_CurrentSizeEstimate D b" by (simp add: BlockBuilder_CurrentSizeEstimate_def)
  then show ?thesis
    using b length_BlockBuilder_Finish [OF b(2)]
    by (auto simp: writes_hash_index_def BlockBuilder_CurrentSizeEstimate_def)
qed

theorem block_size_estimate_exact_witness:
  "\<exists>b. BlockBuilder_Adds int_double id [([97], [1]), ([97, 98], [2, 3])]
         (the (BlockBuilder_new int_double 16 True False kDataBlockBinaryAndHash 1)) = Some b \<and>
     length (fst (BlockBuilder_Finish int_double b)) \<le> BlockBuilder_CurrentSizeEstimate int_double b"
proof -
  have "BlockBuilder_new int_double 16 True False kDataBlockBinaryAndHash 1 =
      Some (the (BlockBuilder_new int_double 16 True False kDataBlockBinaryAndHash 1))"
    by (simp add: BlockBuilder_new_def Let_def)
  from block_size_estimate_exact [OF this] show ?thesis by blast
qed



end
