(* ===== verification/Comparator.thy ===== *)
theory Comparator
  imports Slice
begin

text \<open>
  Key orders: \<^verbatim>\<open>include/rocksdb/comparator.h\<close> and \<^verbatim>\<open>util/comparator.cc\<close>.
  The contract of \<^verbatim>\<open>class Comparator\<close> is the locale \<open>key_comparator\<close> (a total
  preorder with a matching equality) and its extension \<open>separator_comparator\<close> (the functions that
  shorten index keys).  The bytewise and the reverse bytewise comparator are interpreted as
  instances, and their shortening functions are shown to stay inside the documented interval.
\<close>

section \<open>Definitions\<close>

definition BytewiseCompare :: "bytes \<Rightarrow> bytes \<Rightarrow> int" where
  "BytewiseCompare a b = Slice_compare a b"

definition BytewiseEqual :: "bytes \<Rightarrow> bytes \<Rightarrow> bool" where
  "BytewiseEqual a b = Slice_equal a b"

text \<open>The inner loop of \<^verbatim>\<open>FindShortestSeparator\<close>: look for the first byte that is not
  \<^verbatim>\<open>0xff\<close>, increment it and cut the string behind it.\<close>

function increment_first_non_ff :: "bytes \<Rightarrow> nat \<Rightarrow> bytes" where
  "increment_first_non_ff start diff_index =
     (if diff_index < length start then
        (if start ! diff_index < 0xff
         then take diff_index start @ [start ! diff_index + 1]
         else increment_first_non_ff start (diff_index + 1))
      else start)"
  by pat_completeness auto
termination
  by (relation "measure (\<lambda>(start, i). length start - i)") auto

declare increment_first_non_ff.simps [simp del]

definition BytewiseFindShortestSeparator :: "bytes \<Rightarrow> bytes \<Rightarrow> bytes" where
  "BytewiseFindShortestSeparator start limit =
     (let min_length = min (length start) (length limit);
          diff_index = diff_loop start limit 0 min_length
      in if diff_index \<ge> min_length then start
         else
           (let start_byte = start ! diff_index; limit_byte = limit ! diff_index in
            if start_byte \<ge> limit_byte then start
            else if diff_index < length limit - 1 \<or> unat start_byte + 1 < unat limit_byte
            then take diff_index start @ [start ! diff_index + 1]
            else increment_first_non_ff start (diff_index + 1)))"

function FindShortSuccessor_loop :: "bytes \<Rightarrow> nat \<Rightarrow> bytes" where
  "FindShortSuccessor_loop key i =
     (if i < length key then
        (if key ! i \<noteq> 0xff then take i key @ [key ! i + 1]
         else FindShortSuccessor_loop key (i + 1))
      else key)"
  by pat_completeness auto
termination
  by (relation "measure (\<lambda>(key, i). length key - i)") auto

declare FindShortSuccessor_loop.simps [simp del]

definition BytewiseFindShortSuccessor :: "bytes \<Rightarrow> bytes" where
  "BytewiseFindShortSuccessor key = FindShortSuccessor_loop key 0"

text \<open>The tail check of \<^verbatim>\<open>IsSameLengthImmediateSuccessor\<close>: all \<^verbatim>\<open>0xff\<close> in
  \<open>s\<close> and all zero in \<open>t\<close> from index \<open>i\<close> on.\<close>

function successor_tail :: "bytes \<Rightarrow> bytes \<Rightarrow> nat \<Rightarrow> bool" where
  "successor_tail s t i =
     (if i < length s then
        (if s ! i \<noteq> 0xff \<or> t ! i \<noteq> 0x00 then False else successor_tail s t (i + 1))
      else True)"
  by pat_completeness auto
termination
  by (relation "measure (\<lambda>(s, t, i). length s - i)") auto

declare successor_tail.simps [simp del]

definition IsSameLengthImmediateSuccessor :: "bytes \<Rightarrow> bytes \<Rightarrow> bool" where
  "IsSameLengthImmediateSuccessor s t =
     (if length s \<noteq> length t \<or> length s = 0 then False
      else
        (let diff_ind = Slice_difference_offset s t in
         if diff_ind \<ge> length s then False
         else if s ! diff_ind \<noteq> 0xff \<and> unat (s ! diff_ind) + 1 = unat (t ! diff_ind)
         then successor_tail s t (diff_ind + 1)
         else False))"

definition ReverseBytewiseCompare :: "bytes \<Rightarrow> bytes \<Rightarrow> int" where
  "ReverseBytewiseCompare a b = - Slice_compare a b"

definition ReverseBytewiseFindShortestSeparator :: "bytes \<Rightarrow> bytes \<Rightarrow> bytes" where
  "ReverseBytewiseFindShortestSeparator start limit =
     (let min_length = min (length start) (length limit);
          diff_index = diff_loop start limit 0 min_length
      in if diff_index = min_length then start
         else
           (let start_byte = start ! diff_index; limit_byte = limit ! diff_index in
            if start_byte > limit_byte \<and> diff_index < length start - 1
            then take (diff_index + 1) start
            else start))"

definition ReverseBytewiseFindShortSuccessor :: "bytes \<Rightarrow> bytes" where
  "ReverseBytewiseFindShortSuccessor key = key"

section \<open>The contracts\<close>

locale key_comparator =
  fixes Compare :: "bytes \<Rightarrow> bytes \<Rightarrow> int"
  assumes cmp_refl: "Compare a a = 0"
    and cmp_sym: "Compare b a < 0 \<longleftrightarrow> Compare a b > 0"
    and cmp_trans: "Compare a b \<le> 0 \<Longrightarrow> Compare b c \<le> 0 \<Longrightarrow> Compare a c \<le> 0"
begin

lemma cmp_le_less: "Compare a b \<le> 0 \<Longrightarrow> Compare b c < 0 \<Longrightarrow> Compare a c < 0"
  by (metis cmp_sym cmp_trans le_less not_le)

lemma cmp_less_le: "Compare a b < 0 \<Longrightarrow> Compare b c \<le> 0 \<Longrightarrow> Compare a c < 0"
  by (metis cmp_sym cmp_trans le_less not_le)

lemma cmp_total: "Compare a b \<le> 0 \<or> Compare b a \<le> 0"
  by (metis cmp_sym le_less not_le)

lemma cmp_not_less: "\<not> Compare a b < 0 \<longleftrightarrow> Compare b a \<le> 0"
  by (metis cmp_sym le_less not_le)

lemma cmp_not_le: "\<not> Compare a b \<le> 0 \<longleftrightarrow> Compare b a < 0"
  by (metis cmp_sym not_le)

text \<open>Keys in strictly increasing order, as a table file stores them.\<close>

definition sorted_keys :: "bytes list \<Rightarrow> bool" where
  "sorted_keys = sorted_wrt (\<lambda>a b. Compare a b < 0)"

lemma sorted_keys_nth: "sorted_keys ks \<Longrightarrow> i < j \<Longrightarrow> j < length ks \<Longrightarrow> Compare (ks ! i) (ks ! j) < 0"
  by (simp add: sorted_keys_def sorted_wrt_iff_nth_less)

end

locale separator_comparator = key_comparator +
  fixes FindShortestSeparator :: "bytes \<Rightarrow> bytes \<Rightarrow> bytes"
    and FindShortSuccessor :: "bytes \<Rightarrow> bytes"
  assumes separator_ge: "Compare start limit < 0 \<Longrightarrow> Compare start (FindShortestSeparator start limit) \<le> 0"
    and separator_less: "Compare start limit < 0 \<Longrightarrow> Compare (FindShortestSeparator start limit) limit < 0"
    and successor_ge: "Compare key (FindShortSuccessor key) \<le> 0"
begin

text \<open>
  What the index of a table relies on: the separator of two neighbouring blocks sends every key of
  the first block to the first block and every key of the second block past it.
\<close>

lemma separates_blocks:
  assumes "Compare last_key first_key < 0"
    and "\<forall>k \<in> set block1. Compare k last_key \<le> 0"
    and "\<forall>k \<in> set block2. Compare first_key k \<le> 0"
  shows "(\<forall>k \<in> set block1. Compare k (FindShortestSeparator last_key first_key) \<le> 0) \<and>
         (\<forall>k \<in> set block2. Compare (FindShortestSeparator last_key first_key) k < 0)"
  using assms separator_ge [OF assms(1)] separator_less [OF assms(1)]
  by (blast intro: cmp_trans cmp_less_le)

lemma successor_covers: "\<forall>k \<in> set ks. Compare k key \<le> 0 \<Longrightarrow> \<forall>k \<in> set ks. Compare k (FindShortSuccessor key) \<le> 0"
  using successor_ge cmp_trans by blast

end

section \<open>Lexicographic order of byte strings\<close>

lemma append_less_append_iff: "(p :: bytes) @ a < p @ b \<longleftrightarrow> a < b"
  by (induction p) auto

lemma split_at_diff:
  assumes "diff_loop s t 0 (min (length s) (length t)) = d" and "d < min (length s) (length t)"
  obtains p x s' y t' where "s = p @ x # s'" "t = p @ y # t'" "x \<noteq> y" "length p = d"
    "x = s ! d" "y = t ! d"
proof
  show "s = take d s @ s ! d # drop (Suc d) s"
    using assms(2) by (simp add: id_take_nth_drop)
  have "t = take d t @ t ! d # drop (Suc d) t"
    using assms(2) by (simp add: id_take_nth_drop)
  moreover have "take d s = take d t"
    using diff_loop_take [of "min (length s) (length t)" s t] assms(1) by simp
  ultimately show "t = take d s @ t ! d # drop (Suc d) t" by simp
  show "s ! d \<noteq> t ! d"
    using diff_loop_stop [of s t 0 "min (length s) (length t)"] assms by simp
qed (use assms in auto)

lemma word_ff_eq_minus_1: "(255 :: byte) = - 1"
  by simp

lemma byte_less_ff_add: "(x :: byte) < 0xff \<Longrightarrow> x < x + 1"
proof -
  assume "x < 0xff"
  then have "unat x < 255" by (simp add: word_less_nat_alt)
  then show ?thesis by (simp add: word_less_nat_alt unat_word_ariths)
qed

lemma unat_byte_add_1: "(x :: byte) < y \<Longrightarrow> unat (x + 1) = unat x + 1"
  using unsigned_less [of y, where 'a = nat] by (simp add: word_less_nat_alt unat_word_ariths)

lemma increment_first_non_ff_cases:
  obtains "increment_first_non_ff s i = s"
  | j where "i \<le> j" "j < length s" "s ! j < 0xff"
      "increment_first_non_ff s i = take j s @ [s ! j + 1]"
proof (induction s i arbitrary: thesis rule: increment_first_non_ff.induct)
  case (1 s i)
  show ?case
  proof (cases "i < length s \<and> \<not> s ! i < 0xff")
    case True
    then have eq: "increment_first_non_ff s i = increment_first_non_ff s (i + 1)"
      by (simp add: increment_first_non_ff.simps [of s i])
    show ?thesis
    proof (rule "1.IH")
      show "i < length s" "\<not> s ! i < 0xff" using True by auto
      show thesis if "increment_first_non_ff s (i + 1) = s" using "1.prems"(1) eq that by simp
      show thesis if "i + 1 \<le> j" "j < length s" "s ! j < 0xff"
        "increment_first_non_ff s (i + 1) = take j s @ [s ! j + 1]" for j
        using "1.prems"(2) [of j] eq that by simp
    qed
  next
    case False
    then show ?thesis
      using "1.prems" by (cases "i < length s") (auto simp: increment_first_non_ff.simps [of s i])
  qed
qed

lemma increment_at_greater: "j < length s \<Longrightarrow> s ! j < 0xff \<Longrightarrow> (s :: bytes) < take j s @ [s ! j + 1]"
proof -
  assume j: "j < length s" and "s ! j < 0xff"
  then have "s ! j # drop (Suc j) s < [s ! j + 1]" using byte_less_ff_add by simp
  then have "take j s @ s ! j # drop (Suc j) s < take j s @ [s ! j + 1]"
    by (simp only: append_less_append_iff)
  then show ?thesis using j by (simp flip: id_take_nth_drop)
qed

section \<open>The bytewise comparator\<close>

lemma Bytewise_separator_bounds:
  assumes "start < limit"
  shows "start \<le> BytewiseFindShortestSeparator start limit \<and>
         BytewiseFindShortestSeparator start limit < limit"
proof -
  define d where "d = diff_loop start limit 0 (min (length start) (length limit))"
  note def = BytewiseFindShortestSeparator_def Let_def d_def [symmetric]
  show ?thesis
  proof (cases "d \<ge> min (length start) (length limit) \<or> start ! d \<ge> limit ! d")
    case True
    then have "BytewiseFindShortestSeparator start limit = start" by (auto simp: def)
    then show ?thesis using assms by simp
  next
    case False
    then have less: "d < min (length start) (length limit)" "start ! d < limit ! d" by auto
    from split_at_diff [OF d_def [symmetric] less(1)] obtain p x s y l where
      sl: "start = p @ x # s" "limit = p @ y # l" and p: "length p = d" "x = start ! d" "y = limit ! d" .
    have xy: "x < y" using less p by simp
    have at: "take d start = p" "start ! d = x" "limit ! d = y"
      by (subst sl(1), simp add: p(1) [symmetric]) (simp_all only: p(2,3))
    have nd: "\<not> min (length start) (length limit) \<le> d" "\<not> y \<le> x" using less xy by auto
    show ?thesis
    proof (cases "d < length limit - 1 \<or> unat x + 1 < unat y")
      case True
      have r: "BytewiseFindShortestSeparator start limit = p @ [x + 1]"
        using True nd by (simp add: def at)
      have "x < x + 1" "x + 1 \<le> y"
        using unat_byte_add_1 [OF xy] xy by (auto simp: word_less_nat_alt word_le_nat_alt)
      moreover have "x + 1 < y \<or> l \<noteq> []"
        using True sl(2) p(1) unat_byte_add_1 [OF xy] by (auto simp: word_less_nat_alt)
      ultimately show ?thesis
        unfolding r by (simp only: sl) (cases l; auto simp: append_less_append_iff le_less)
    next
      case False
      then have r: "BytewiseFindShortestSeparator start limit = increment_first_non_ff start (d + 1)"
        using nd by (simp add: def at)
      show ?thesis
      proof (cases rule: increment_first_non_ff_cases [of start "d + 1"])
        case 1
        then show ?thesis using assms r by simp
      next
        case (2 j)
        have "take j start = p @ x # take (j - d - 1) s"
          using 2 sl(1) p(1) by (auto simp: take_Cons')
        then have "take j start @ [start ! j + 1] < limit"
          using xy sl(2) by (simp add: append_less_append_iff)
        then show ?thesis using increment_at_greater [of j start] 2 r by simp
      qed
    qed
  qed
qed

lemma FindShortSuccessor_loop_ge: "key \<le> FindShortSuccessor_loop key i"
proof (induction key i rule: FindShortSuccessor_loop.induct)
  case (1 key i)
  have "key ! i \<noteq> 0xff \<Longrightarrow> key ! i < 0xff"
    using word_order.not_eq_extremum [of "key ! i"] by (simp add: word_ff_eq_minus_1)
  then have "i < length key \<Longrightarrow> key ! i \<noteq> 0xff \<Longrightarrow> key < take i key @ [key ! i + 1]"
    using increment_at_greater by blast
  with 1 show ?case
    by (auto simp: FindShortSuccessor_loop.simps [of key i] less_imp_le)
qed

interpretation bytewise: separator_comparator BytewiseCompare BytewiseFindShortestSeparator
  BytewiseFindShortSuccessor
proof
  fix a b c :: bytes
  show "BytewiseCompare a a = 0" by (simp add: BytewiseCompare_def Slice_compare_iffs)
  show "BytewiseCompare b a < 0 \<longleftrightarrow> BytewiseCompare a b > 0"
    by (simp add: BytewiseCompare_def Slice_compare_iffs)
  show "BytewiseCompare a b \<le> 0 \<Longrightarrow> BytewiseCompare b c \<le> 0 \<Longrightarrow> BytewiseCompare a c \<le> 0"
    by (simp add: BytewiseCompare_def Slice_compare_iffs)
  show "BytewiseCompare a b < 0 \<Longrightarrow> BytewiseCompare a (BytewiseFindShortestSeparator a b) \<le> 0"
    "BytewiseCompare a b < 0 \<Longrightarrow> BytewiseCompare (BytewiseFindShortestSeparator a b) b < 0"
    using Bytewise_separator_bounds [of a b] by (simp_all add: BytewiseCompare_def Slice_compare_iffs)
  show "BytewiseCompare a (BytewiseFindShortSuccessor a) \<le> 0"
    using FindShortSuccessor_loop_ge [of a 0]
    by (simp add: BytewiseCompare_def BytewiseFindShortSuccessor_def Slice_compare_iffs)
qed

section \<open>The reverse bytewise comparator\<close>

lemma Reverse_separator_bounds:
  assumes "limit < start"
  shows "ReverseBytewiseFindShortestSeparator start limit \<le> start \<and>
         limit < ReverseBytewiseFindShortestSeparator start limit"
proof -
  define d where "d = diff_loop start limit 0 (min (length start) (length limit))"
  note def = ReverseBytewiseFindShortestSeparator_def Let_def d_def [symmetric]
  have le: "d \<le> min (length start) (length limit)"
    using diff_loop_bounds [of 0 "min (length start) (length limit)" start limit] by (simp add: d_def)
  show ?thesis
  proof (cases "d < min (length start) (length limit) \<and> start ! d > limit ! d \<and> d < length start - 1")
    case False
    then have "ReverseBytewiseFindShortestSeparator start limit = start" using le by (auto simp: def)
    then show ?thesis using assms by simp
  next
    case True
    then have less: "d < min (length start) (length limit)" by simp
    from split_at_diff [OF d_def [symmetric] less] obtain p x s y l where
      sl: "start = p @ x # s" "limit = p @ y # l" and p: "length p = d" "x = start ! d" "y = limit ! d" .
    have "take (Suc d) start = p @ [x]" using sl(1) p(1) by simp
    then have r: "ReverseBytewiseFindShortestSeparator start limit = p @ [x]"
      using True by (auto simp: def)
    have "y < x" using True p by simp
    then show ?thesis
      unfolding r by (simp only: sl) (cases s; auto simp: append_less_append_iff le_less)
  qed
qed

interpretation reverse_bytewise: separator_comparator ReverseBytewiseCompare
  ReverseBytewiseFindShortestSeparator ReverseBytewiseFindShortSuccessor
proof
  fix a b c :: bytes
  have iffs: "- Slice_compare a b < 0 \<longleftrightarrow> b < a" "- Slice_compare a b \<le> 0 \<longleftrightarrow> b \<le> a" for a b
    using Slice_compare_swap [of a b] Slice_compare_less_iff [of b a] Slice_compare_le_iff [of b a]
    by auto
  show "ReverseBytewiseCompare a a = 0" by (simp add: ReverseBytewiseCompare_def Slice_compare_iffs)
  show "ReverseBytewiseCompare b a < 0 \<longleftrightarrow> ReverseBytewiseCompare a b > 0"
    by (simp add: ReverseBytewiseCompare_def Slice_compare_iffs)
  show "ReverseBytewiseCompare a b \<le> 0 \<Longrightarrow> ReverseBytewiseCompare b c \<le> 0 \<Longrightarrow>
      ReverseBytewiseCompare a c \<le> 0"
    unfolding ReverseBytewiseCompare_def iffs by (rule order_trans)
  show "ReverseBytewiseCompare a b < 0 \<Longrightarrow>
      ReverseBytewiseCompare a (ReverseBytewiseFindShortestSeparator a b) \<le> 0"
    "ReverseBytewiseCompare a b < 0 \<Longrightarrow>
      ReverseBytewiseCompare (ReverseBytewiseFindShortestSeparator a b) b < 0"
    unfolding ReverseBytewiseCompare_def iffs using Reverse_separator_bounds [of b a] by blast+
  show "ReverseBytewiseCompare a (ReverseBytewiseFindShortSuccessor a) \<le> 0"
    unfolding ReverseBytewiseCompare_def ReverseBytewiseFindShortSuccessor_def iffs by (rule order_refl)
qed

section \<open>Immediate successors\<close>

text \<open>The number a byte string spells in base 256, most significant byte first.\<close>

fun be_value :: "bytes \<Rightarrow> nat" where
  "be_value [] = 0"
| "be_value (x # xs) = unat x * 256 ^ length xs + be_value xs"

lemma be_value_append: "be_value (p @ xs) = be_value p * 256 ^ length xs + be_value xs"
  by (induction p) (auto simp: power_add algebra_simps)

lemma be_value_bound: "be_value xs < 256 ^ length xs"
proof (induction xs)
  case (Cons x xs)
  have "unat x + 1 \<le> 256" using unsigned_less [of x, where 'a = nat] by simp
  then have "(unat x + 1) * 256 ^ length xs \<le> 256 * 256 ^ length xs"
    by (rule mult_right_mono) simp
  then have "unat x * 256 ^ length xs + 256 ^ length xs \<le> 256 ^ length (x # xs)"
    by (simp only: add_mult_distrib mult_1 list.size power_Suc add_Suc_right add_0_right)
  with Cons show ?case by (simp only: be_value.simps)
qed simp

lemma be_value_eq_0_iff: "be_value xs = 0 \<longleftrightarrow> (\<forall>x \<in> set xs. x = 0)"
  by (induction xs) (auto simp: unat_eq_0)

lemma be_value_max_iff: "be_value xs = 256 ^ length xs - 1 \<longleftrightarrow> (\<forall>x \<in> set xs. x = 0xff)"
proof (induction xs)
  case (Cons x xs)
  have ff: "unat x = 255 \<longleftrightarrow> x = 0xff" using unat_eq_nat_uint by (auto simp: word_unat_eq_iff)
  have x: "unat x \<le> 255" using unsigned_less [of x, where 'a = nat] by simp
  have "be_value (x # xs) = 256 ^ length (x # xs) - 1 \<longleftrightarrow>
      unat x = 255 \<and> be_value xs = 256 ^ length xs - 1"
  proof
    assume e: "be_value (x # xs) = 256 ^ length (x # xs) - 1"
    have "unat x = 255"
    proof (rule ccontr)
      assume "unat x \<noteq> 255"
      with x have "unat x + 1 \<le> 255" by simp
      then have "(unat x + 1) * 256 ^ length xs \<le> 255 * 256 ^ length xs" by (rule mult_right_mono) simp
      then have "unat x * 256 ^ length xs + 256 ^ length xs \<le> 255 * 256 ^ length xs"
        by (simp only: add_mult_distrib mult_1)
      moreover have "(256 :: nat) ^ length (x # xs) = 255 * 256 ^ length xs + 256 ^ length xs" by simp
      ultimately show False using be_value_bound [of xs] e by (simp only: be_value.simps)
    qed
    with e be_value_bound [of xs] show "unat x = 255 \<and> be_value xs = 256 ^ length xs - 1" by simp
  next
    assume "unat x = 255 \<and> be_value xs = 256 ^ length xs - 1"
    then show "be_value (x # xs) = 256 ^ length (x # xs) - 1" by simp
  qed
  with Cons ff show ?case by auto
qed simp

lemma successor_tail_iff:
  "length s = length t \<Longrightarrow> successor_tail s t i \<longleftrightarrow>
     (\<forall>x \<in> set (drop i s). x = 0xff) \<and> (\<forall>y \<in> set (drop i t). y = 0)"
proof (induction s t i rule: successor_tail.induct)
  case (1 s t i)
  then show ?case
    by (cases "i < length s") (auto simp: successor_tail.simps [of s t i] nth_drop_0)
qed

text \<open>Adding one to \<open>x \<cdot> n + a\<close> changes the leading digit only by a carry out of the rest.\<close>

lemma digit_carry:
  fixes a b n x y :: nat
  assumes "a < n" and "b < n" and "y * n + b = x * n + a + 1" and "x \<noteq> y"
  shows "y = x + 1 \<and> b = 0 \<and> a = n - 1"
proof (cases "a + 1 < n")
  case True
  have d: "(z * n + c) div n = z" if "c < n" for z c using that by simp
  have "x = y" using d [OF True, of x] d [OF assms(2), of y] assms(3) by (simp only: add.assoc)
  with assms(4) show ?thesis by simp
next
  case False
  with assms(1) have a: "a + 1 = n" by simp
  then have e: "y * n + b = (x + 1) * n" using assms(3) by simp
  have "(y * n + b) div n = y" "(x + 1) * n div n = x + 1" using assms(1,2) by auto
  with e have "y = x + 1" by simp
  with e a show ?thesis by simp
qed

lemma immediate_successor_step:
  assumes "length s' = length t'" and "x \<noteq> y"
  shows "be_value (p @ y # t') = be_value (p @ x # s') + 1 \<longleftrightarrow>
     unat y = unat x + 1 \<and> (\<forall>z \<in> set t'. z = 0) \<and> (\<forall>z \<in> set s'. z = 0xff)"
proof -
  have "be_value (p @ y # t') = be_value (p @ x # s') + 1 \<longleftrightarrow>
      unat y * 256 ^ length s' + be_value t' = unat x * 256 ^ length s' + be_value s' + 1"
    using assms(1) by (simp add: be_value_append)
  also have "\<dots> \<longleftrightarrow> unat y = unat x + 1 \<and> be_value t' = 0 \<and> be_value s' = 256 ^ length s' - 1"
  proof
    assume "unat y * 256 ^ length s' + be_value t' = unat x * 256 ^ length s' + be_value s' + 1"
    then show "unat y = unat x + 1 \<and> be_value t' = 0 \<and> be_value s' = 256 ^ length s' - 1"
      using digit_carry [of "be_value s'" "256 ^ length s'" "be_value t'" "unat y" "unat x"]
        be_value_bound [of s'] be_value_bound [of t'] assms by (simp add: word_unat_eq_iff)
  qed auto
  finally show ?thesis unfolding be_value_eq_0_iff be_value_max_iff .
qed

section \<open>Properties\<close>

text \<open>
  C28: for the bytewise comparator the separator computed between the last key of one block and the
  first key of the next one is no longer than the last key, is not below any key of the first block
  and is below every key of the second.
\<close>

theorem bytewise_separator_separates:
  assumes "BytewiseCompare last_key first_key < 0"
    and "\<forall>k \<in> set block1. BytewiseCompare k last_key \<le> 0"
    and "\<forall>k \<in> set block2. BytewiseCompare first_key k \<le> 0"
  shows "(\<forall>k \<in> set block1. BytewiseCompare k (BytewiseFindShortestSeparator last_key first_key) \<le> 0) \<and>
         (\<forall>k \<in> set block2. BytewiseCompare (BytewiseFindShortestSeparator last_key first_key) k < 0) \<and>
         length (BytewiseFindShortestSeparator last_key first_key) \<le> length last_key"
proof -
  define d where "d = diff_loop last_key first_key 0 (min (length last_key) (length first_key))"
  have "length (increment_first_non_ff last_key (d + 1)) \<le> length last_key"
    by (cases rule: increment_first_non_ff_cases [of last_key "d + 1"]) auto
  then have "length (BytewiseFindShortestSeparator last_key first_key) \<le> length last_key"
    by (auto simp: BytewiseFindShortestSeparator_def Let_def d_def)
  with bytewise.separates_blocks [OF assms] show ?thesis by blast
qed

theorem bytewise_separator_separates_witness:
  "BytewiseFindShortestSeparator [1, 5, 9, 9] [1, 8, 2] = [1, 6] \<and>
   BytewiseCompare [1, 5, 9, 9] (BytewiseFindShortestSeparator [1, 5, 9, 9] [1, 8, 2]) \<le> 0 \<and>
   BytewiseCompare (BytewiseFindShortestSeparator [1, 5, 9, 9] [1, 8, 2]) [1, 8, 2] < 0"
proof -
  have c: "BytewiseCompare [1, 5, 9, 9] [1, 8, 2] < 0"
    "BytewiseCompare [1, 5, 9, 9] [1, 5, 9, 9] \<le> 0" "BytewiseCompare [1, 8, 2] [1, 8, 2] \<le> 0"
    by code_simp+
  have "BytewiseFindShortestSeparator [1, 5, 9, 9] [1, 8, 2] = [1, 6]" by code_simp
  with bytewise_separator_separates [of "[1, 5, 9, 9]" "[1, 8, 2]" "[[1, 5, 9, 9]]" "[[1, 8, 2]]"] c
  show ?thesis by simp
qed

text \<open>
  The same for the reverse bytewise comparator, in its own order.
\<close>

theorem reverse_bytewise_separator_separates:
  assumes "ReverseBytewiseCompare last_key first_key < 0"
    and "\<forall>k \<in> set block1. ReverseBytewiseCompare k last_key \<le> 0"
    and "\<forall>k \<in> set block2. ReverseBytewiseCompare first_key k \<le> 0"
  shows "(\<forall>k \<in> set block1.
            ReverseBytewiseCompare k (ReverseBytewiseFindShortestSeparator last_key first_key) \<le> 0) \<and>
         (\<forall>k \<in> set block2.
            ReverseBytewiseCompare (ReverseBytewiseFindShortestSeparator last_key first_key) k < 0) \<and>
         length (ReverseBytewiseFindShortestSeparator last_key first_key) \<le> length last_key"
  using reverse_bytewise.separates_blocks [OF assms]
  by (auto simp: ReverseBytewiseFindShortestSeparator_def Let_def)

theorem reverse_bytewise_separator_separates_witness:
  "ReverseBytewiseFindShortestSeparator [1, 8, 2] [1, 5, 9] = [1, 8] \<and>
   ReverseBytewiseCompare (ReverseBytewiseFindShortestSeparator [1, 8, 2] [1, 5, 9]) [1, 5, 9] < 0"
proof -
  have c: "ReverseBytewiseCompare [1, 8, 2] [1, 5, 9] < 0"
    "ReverseBytewiseCompare [1, 5, 9] [1, 5, 9] \<le> 0" by code_simp+
  have "ReverseBytewiseFindShortestSeparator [1, 8, 2] [1, 5, 9] = [1, 8]" by code_simp
  with reverse_bytewise_separator_separates [of "[1, 8, 2]" "[1, 5, 9]" "[]" "[[1, 5, 9]]"] c
  show ?thesis by simp
qed

text \<open>
  \<^verbatim>\<open>IsSameLengthImmediateSuccessor(s, t)\<close> holds exactly when both keys have the same
  non-zero length and \<open>t\<close>, read as a big-endian number, is \<open>s\<close> plus one.
\<close>

theorem immediate_successor_iff:
  "IsSameLengthImmediateSuccessor s t \<longleftrightarrow>
     s \<noteq> [] \<and> length s = length t \<and> be_value t = be_value s + 1"
proof (cases "length s = length t \<and> s \<noteq> []")
  case False
  then show ?thesis by (auto simp: IsSameLengthImmediateSuccessor_def)
next
  case True
  define d where "d = diff_loop s t 0 (min (length s) (length t))"
  have d: "Slice_difference_offset s t = d"
    using True by (simp add: Slice_difference_offset_def d_def)
  show ?thesis
  proof (cases "d < length s")
    case False
    then have "take d s = take d t" "take d s = s" "take d t = t"
      using diff_loop_take [of "min (length s) (length t)" s t] True by (simp_all add: d_def)
    then have "s = t" by simp
    with False True d show ?thesis by (simp add: IsSameLengthImmediateSuccessor_def)
  next
    case dl: True
    then have "d < min (length s) (length t)" using True by simp
    from split_at_diff [OF d_def [symmetric] this] obtain p x s' y t' where
      st: "s = p @ x # s'" "t = p @ y # t'" and p: "x \<noteq> y" "length p = d" "x = s ! d" "y = t ! d" .
    have len: "length s' = length t'" using True st by simp
    have tl: "drop (d + 1) s = s'" "drop (d + 1) t = t'" using st p(2) by auto
    have "unat x + 1 = unat y \<Longrightarrow> x \<noteq> 0xff"
      using unsigned_less [of y, where 'a = nat] by (auto simp: word_unat_eq_iff)
    then have "IsSameLengthImmediateSuccessor s t \<longleftrightarrow> unat x + 1 = unat y \<and> successor_tail s t (d + 1)"
      using True dl d by (auto simp: IsSameLengthImmediateSuccessor_def Let_def p(3,4) [symmetric])
    moreover have "successor_tail s t (d + 1) \<longleftrightarrow> (\<forall>x \<in> set s'. x = 0xff) \<and> (\<forall>y \<in> set t'. y = 0)"
      using successor_tail_iff [of s t "d + 1"] True unfolding tl by blast
    moreover have "be_value t = be_value s + 1 \<longleftrightarrow>
        unat y = unat x + 1 \<and> (\<forall>z \<in> set t'. z = 0) \<and> (\<forall>z \<in> set s'. z = 0xff)"
      using immediate_successor_step [OF len p(1), of p] by (simp only: st)
    ultimately show ?thesis using True by metis
  qed
qed

text \<open>
  C39: the reverse comparator inherits \<^verbatim>\<open>IsSameLengthImmediateSuccessor\<close> from the bytewise
  one, so the key it calls the successor of \<open>s\<close> comes \<^emph>\<open>before\<close> \<open>s\<close> in the reverse order.
\<close>

theorem reverse_successor_precedes:
  assumes "IsSameLengthImmediateSuccessor s t"
  shows "ReverseBytewiseCompare t s < 0"
proof -
  define d where "d = diff_loop s t 0 (min (length s) (length t))"
  have d: "Slice_difference_offset s t = d" "length s = length t" "d < length s"
    and xy: "unat (s ! d) + 1 = unat (t ! d)"
    using assms
    by (auto simp: IsSameLengthImmediateSuccessor_def Slice_difference_offset_def Let_def d_def split: if_splits)
  then have "d < min (length s) (length t)" by simp
  from split_at_diff [OF d_def [symmetric] this] obtain p x s' y t' where
    st: "s = p @ x # s'" "t = p @ y # t'" and p: "x = s ! d" "y = t ! d" .
  have "x < y" using xy by (simp add: p word_less_nat_alt)
  then have "s < t" by (simp only: st append_less_append_iff) simp
  then show ?thesis
    using Slice_compare_swap [of t s] by (simp add: ReverseBytewiseCompare_def Slice_compare_iffs)
qed

theorem reverse_successor_precedes_witness:
  "IsSameLengthImmediateSuccessor [1, 255] [2, 0] \<and> ReverseBytewiseCompare [2, 0] [1, 255] < 0"
proof -
  have h: "IsSameLengthImmediateSuccessor [1, 255] [2, 0]" by code_simp
  show ?thesis using h reverse_successor_precedes [OF h] by blast
qed

end
