(* ===== verification/Status.thy ===== *)
theory Status
  imports Rocks_Prelude
begin

text \<open>
  The result type of the library: \<^verbatim>\<open>include/rocksdb/status.h\<close> and
  \<^verbatim>\<open>util/status.cc\<close>.  A status is a code, a subcode, a severity and an optional message.  The
  message is a C string, so a copy of it (\<^verbatim>\<open>CopyState\<close>) and its printing stop at the first NUL
  character; the model keeps the whole allocated array and cuts it where the code does.
\<close>

section \<open>Definitions\<close>

datatype Code = kOk | kNotFound | kCorruption | kNotSupported | kInvalidArgument | kIOError
  | kMergeInProgress | kIncomplete | kShutdownInProgress | kTimedOut | kAborted | kBusy | kExpired
  | kTryAgain | kCompactionTooLarge | kColumnFamilyDropped | kMaxCode

datatype SubCode = kNone | kMutexTimeout | kLockTimeout | kLockLimit | kNoSpace | kDeadlock
  | kStaleFile | kMemoryLimit | kSpaceLimit | kPathNotFound | KMergeOperandsInsufficientCapacity
  | kManualCompactionPaused | kMaxSubCode

datatype Severity = kNoError | kSoftError | kHardError | kFatalError | kUnrecoverableError | kMaxSeverity

record Status =
  code :: Code
  subcode :: SubCode
  sev :: Severity
  state :: "string option"

definition Status_OK :: Status where
  "Status_OK = \<lparr>code = kOk, subcode = kNone, sev = kNoError, state = None\<rparr>"

definition Status_of_subcode :: "Code \<Rightarrow> SubCode \<Rightarrow> Status" where
  "Status_of_subcode c sc = \<lparr>code = c, subcode = sc, sev = kNoError, state = None\<rparr>"

text \<open>The constructor with a message joins its two parts with a colon.\<close>

definition Status_of_message :: "Code \<Rightarrow> SubCode \<Rightarrow> string \<Rightarrow> string \<Rightarrow> Status" where
  "Status_of_message c sc msg msg2 =
     \<lparr>code = c, subcode = sc, sev = kNoError,
      state = Some (if length msg2 > 0 then msg @ '': '' @ msg2 else msg)\<rparr>"

definition Status_Corruption :: "string \<Rightarrow> Status" where
  "Status_Corruption msg = Status_of_message kCorruption kNone msg []"

definition Status_NotFound :: Status where
  "Status_NotFound = Status_of_subcode kNotFound kNone"

definition Status_InvalidArgument :: "string \<Rightarrow> Status" where
  "Status_InvalidArgument msg = Status_of_message kInvalidArgument kNone msg []"

definition Status_NotSupported :: "string \<Rightarrow> Status" where
  "Status_NotSupported msg = Status_of_message kNotSupported kNone msg []"

definition Status_Incomplete :: "string \<Rightarrow> Status" where
  "Status_Incomplete msg = Status_of_message kIncomplete kNone msg []"

definition Status_NoSpace :: Status where
  "Status_NoSpace = Status_of_subcode kIOError kNoSpace"

definition Status_MemoryLimit :: Status where
  "Status_MemoryLimit = Status_of_subcode kAborted kMemoryLimit"

definition Status_SpaceLimit :: Status where
  "Status_SpaceLimit = Status_of_subcode kIOError kSpaceLimit"

definition Status_PathNotFound :: Status where
  "Status_PathNotFound = Status_of_subcode kIOError kPathNotFound"

definition ok :: "Status \<Rightarrow> bool" where
  "ok s \<longleftrightarrow> code s = kOk"

definition IsLockLimit :: "Status \<Rightarrow> bool" where
  "IsLockLimit s \<longleftrightarrow> code s = kAborted \<and> subcode s = kLockLimit"

definition IsDeadlock :: "Status \<Rightarrow> bool" where
  "IsDeadlock s \<longleftrightarrow> code s = kBusy \<and> subcode s = kDeadlock"

definition IsNoSpace :: "Status \<Rightarrow> bool" where
  "IsNoSpace s \<longleftrightarrow> code s = kIOError \<and> subcode s = kNoSpace"

definition IsMemoryLimit :: "Status \<Rightarrow> bool" where
  "IsMemoryLimit s \<longleftrightarrow> code s = kAborted \<and> subcode s = kMemoryLimit"

definition IsPathNotFound :: "Status \<Rightarrow> bool" where
  "IsPathNotFound s \<longleftrightarrow> code s = kIOError \<and> subcode s = kPathNotFound"

definition IsManualCompactionPaused :: "Status \<Rightarrow> bool" where
  "IsManualCompactionPaused s \<longleftrightarrow> code s = kIncomplete \<and> subcode s = kManualCompactionPaused"

text \<open>The C string in an array: the characters before the terminator.\<close>

definition c_str :: "string \<Rightarrow> string" where
  "c_str s = takeWhile (\<lambda>c. c \<noteq> CHR 0x00) s"

definition CopyState :: "string \<Rightarrow> string" where
  "CopyState st = c_str st"

definition Status_copy :: "Status \<Rightarrow> Status" where
  "Status_copy s = \<lparr>code = code s, subcode = subcode s, sev = sev s, state = map_option CopyState (state s)\<rparr>"

definition Status_with_severity :: "Status \<Rightarrow> Severity \<Rightarrow> Status" where
  "Status_with_severity s sv = \<lparr>code = code s, subcode = subcode s, sev = sv, state = map_option CopyState (state s)\<rparr>"

text \<open>Move assignment between distinct objects: the new value of the target and of the source.\<close>

definition Status_move :: "Status \<Rightarrow> Status \<times> Status" where
  "Status_move s =
     (\<lparr>code = code s, subcode = subcode s, sev = sev s, state = state s\<rparr>,
      \<lparr>code = kOk, subcode = kNone, sev = kNoError, state = None\<rparr>)"

definition Status_eq :: "Status \<Rightarrow> Status \<Rightarrow> bool" where
  "Status_eq s rhs \<longleftrightarrow> code s = code rhs"

fun msgs :: "SubCode \<Rightarrow> string" where
  "msgs kNone = ''''"
| "msgs kMutexTimeout = ''Timeout Acquiring Mutex''"
| "msgs kLockTimeout = ''Timeout waiting to lock key''"
| "msgs kLockLimit = ''Failed to acquire lock due to max_num_locks limit''"
| "msgs kNoSpace = ''No space left on device''"
| "msgs kDeadlock = ''Deadlock''"
| "msgs kStaleFile = ''Stale file handle''"
| "msgs kMemoryLimit = ''Memory limit reached''"
| "msgs kSpaceLimit = ''Space limit reached''"
| "msgs kPathNotFound = ''No such file or directory''"
| "msgs KMergeOperandsInsufficientCapacity = ''Insufficient capacity for merge operands''"
| "msgs kManualCompactionPaused = ''Manual compaction paused''"
| "msgs kMaxSubCode = ''''"

text \<open>The switch of \<^verbatim>\<open>ToString\<close>; the last two codes take its default branch, which prints the
  number of the code.\<close>

fun type_string :: "Code \<Rightarrow> string" where
  "type_string kOk = ''OK''"
| "type_string kNotFound = ''NotFound: ''"
| "type_string kCorruption = ''Corruption: ''"
| "type_string kNotSupported = ''Not implemented: ''"
| "type_string kInvalidArgument = ''Invalid argument: ''"
| "type_string kIOError = ''IO error: ''"
| "type_string kMergeInProgress = ''Merge in progress: ''"
| "type_string kIncomplete = ''Result incomplete: ''"
| "type_string kShutdownInProgress = ''Shutdown in progress: ''"
| "type_string kTimedOut = ''Operation timed out: ''"
| "type_string kAborted = ''Operation aborted: ''"
| "type_string kBusy = ''Resource busy: ''"
| "type_string kExpired = ''Operation expired: ''"
| "type_string kTryAgain = ''Operation failed. Try again.: ''"
| "type_string kColumnFamilyDropped = ''Column family dropped: ''"
| "type_string kCompactionTooLarge = ''Unknown code(14): ''"
| "type_string kMaxCode = ''Unknown code(16): ''"

definition Status_ToString :: "Status \<Rightarrow> string" where
  "Status_ToString s =
     (if code s = kOk then ''OK''
      else
        (let result = type_string (code s);
             result = (if subcode s \<noteq> kNone then result @ msgs (subcode s) else result)
         in case state s of None \<Rightarrow> result | Some st \<Rightarrow> result @ c_str st))"

section \<open>Lemmas\<close>

lemma c_str_idem [simp]: "c_str (c_str s) = c_str s"
  by (simp add: c_str_def)

lemma type_string_prefix_free:
  "type_string c @ r = type_string c' @ r' \<Longrightarrow> c \<noteq> kOk \<Longrightarrow> c' \<noteq> kOk \<Longrightarrow> c = c'"
  by (cases c; cases c'; simp)

lemma Status_ToString_type:
  "code s \<noteq> kOk \<Longrightarrow> \<exists>r. Status_ToString s = type_string (code s) @ r"
  by (auto simp: Status_ToString_def Let_def split: option.splits)

lemma type_string_not_OK: "c \<noteq> kOk \<Longrightarrow> type_string c @ r \<noteq> ''OK''"
  by (cases c) simp_all

section \<open>Properties\<close>

text \<open>The printed form of a status determines its code (messages and subcodes included), and
  only a successful status prints as \<^verbatim>\<open>OK\<close>.\<close>

theorem status_string_determines_code:
  "Status_ToString s = Status_ToString t \<longrightarrow> code s = code t"
proof (cases "code s = kOk \<or> code t = kOk")
  case True
  then show ?thesis
    using Status_ToString_type [of s] Status_ToString_type [of t] type_string_not_OK
    by (auto simp: Status_ToString_def [of s] Status_ToString_def [of t]) (metis Status_ToString_def)+
next
  case False
  then show ?thesis
    using Status_ToString_type [of s] Status_ToString_type [of t] type_string_prefix_free by metis
qed

theorem status_string_determines_code_witness:
  "code (Status_Corruption ''bad block'') = code (Status_copy (Status_Corruption ''bad block''))"
  using status_string_determines_code
    [of "Status_Corruption ''bad block''" "Status_copy (Status_Corruption ''bad block'')"]
  by (simp add: Status_ToString_def Status_copy_def CopyState_def Status_Corruption_def Status_of_message_def c_str_def)

text \<open>Copying a status keeps its code, its subcode, its severity and its printed form, even when
  the message is cut at a NUL character, and copying twice adds nothing.\<close>

theorem status_copy_faithful:
  "Status_ToString (Status_copy s) = Status_ToString s \<and> Status_eq (Status_copy s) s \<and>
   sev (Status_copy s) = sev s \<and> Status_copy (Status_copy s) = Status_copy s"
  by (simp add: Status_ToString_def Status_copy_def CopyState_def Status_eq_def Let_def
      option.map_comp comp_def split: option.splits)

end
