(* ===== verification/Block_Iter.thy ===== *)
theory Block_Iter
  imports Block_Builder Comparator Status
begin

text \<open>
  The reader of data blocks: \<^verbatim>\<open>table/block_based/block.h/.cc\<close>.  The theory has the entry
  decoders, the class \<^verbatim>\<open>Block\<close> with the interpretation of its trailer, and the whole
  \<^verbatim>\<open>DataBlockIter\<close>: parsing, the binary search over the restart array, all seeks, backward
  iteration with its cache of decoded entries, and the point lookup through the hash index.

  The block contents are one byte list; a \<^verbatim>\<open>Slice\<close> into it is an offset and a length, and
  offsets are naturals with the 32-bit truncation written out where the code casts.
  \<^verbatim>\<open>IterKey\<close> and the internal key format live in \<^verbatim>\<open>db/dbformat.h\<close>, which is not part of
  the repository: they are the record \<open>dbformat\<close>, an argument of the definitions.  Loops that run
  forever on some corrupt inputs are partial functions into \<open>option\<close>.
\<close>

section \<open>What the reader uses of the key format\<close>

record 'k dbformat =
  ik_new :: 'k
  ik_Clear :: "'k \<Rightarrow> 'k"
  ik_Size :: "'k \<Rightarrow> nat"
  ik_SetKey :: "bytes \<Rightarrow> 'k \<Rightarrow> 'k"
  ik_TrimAppend :: "nat \<Rightarrow> bytes \<Rightarrow> 'k \<Rightarrow> 'k"
  ik_GetKey :: "'k \<Rightarrow> bytes"
  ik_GetInternalKey :: "'k \<Rightarrow> bytes"
  ik_GetUserKey :: "'k \<Rightarrow> bytes"
  ik_IsKeyPinned :: "'k \<Rightarrow> bool"
  ik_OwnKey :: "'k \<Rightarrow> 'k"
  ik_UpdateInternalKey :: "u64 \<Rightarrow> byte \<Rightarrow> 'k \<Rightarrow> 'k"
  ExtractUserKey :: "bytes \<Rightarrow> bytes"
  ExtractValueType :: "bytes \<Rightarrow> byte"
  kDisableGlobalSequenceNumber :: u64
  point_types :: "byte list"

section \<open>Entry decoders\<close>

text \<open>The common part of \<^verbatim>\<open>DecodeEntry\<close> and \<^verbatim>\<open>CheckAndDecodeEntry\<close>: a fast path for
  three one-byte lengths, else three varints.  The result is the offset of the key delta and the three
  lengths.\<close>

definition decode_entry_lengths :: "bytes \<Rightarrow> nat \<Rightarrow> nat \<Rightarrow> (nat \<times> u32 \<times> u32 \<times> u32) option" where
  "decode_entry_lengths data p limit =
     (let shared = ucast (data ! p); non_shared = ucast (data ! (p + 1)); value_length = ucast (data ! (p + 2))
      in if (shared OR non_shared OR value_length) < (128 :: u32)
         then Some (p + 3, shared, non_shared, value_length)
         else case GetVarint32Ptr (subslice data p (limit - p)) of
                None \<Rightarrow> None
              | Some (shared, r) \<Rightarrow>
                  (case GetVarint32Ptr r of
                     None \<Rightarrow> None
                   | Some (non_shared, r) \<Rightarrow>
                       (case GetVarint32Ptr r of
                          None \<Rightarrow> None
                        | Some (value_length, r) \<Rightarrow> Some (limit - length r, shared, non_shared, value_length))))"

definition DecodeEntry :: "bytes \<Rightarrow> nat \<Rightarrow> nat \<Rightarrow> (nat \<times> u32 \<times> u32 \<times> u32) option" where
  "DecodeEntry data p limit = decode_entry_lengths data p limit"

definition CheckAndDecodeEntry :: "bytes \<Rightarrow> nat \<Rightarrow> nat \<Rightarrow> (nat \<times> u32 \<times> u32 \<times> u32) option" where
  "CheckAndDecodeEntry data p limit =
     (if limit < p + 3 then None
      else case decode_entry_lengths data p limit of
             None \<Rightarrow> None
           | Some (p, shared, non_shared, value_length) \<Rightarrow>
               if (of_nat (limit - p) :: u32) < non_shared + value_length then None
               else Some (p, shared, non_shared, value_length))"

definition DecodeKey :: "bytes \<Rightarrow> nat \<Rightarrow> nat \<Rightarrow> (nat \<times> u32 \<times> u32) option" where
  "DecodeKey data p limit =
     (case DecodeEntry data p limit of
        None \<Rightarrow> None
      | Some (p, shared, non_shared, value_length) \<Rightarrow> Some (p, shared, non_shared))"

definition DecodeKeyV4 :: "bytes \<Rightarrow> nat \<Rightarrow> nat \<Rightarrow> (nat \<times> u32 \<times> u32) option" where
  "DecodeKeyV4 data p limit =
     (if limit < p + 3 then None
      else
        (let shared = ucast (data ! p); non_shared = ucast (data ! (p + 1))
         in if (shared OR non_shared) < (128 :: u32) then Some (p + 2, shared, non_shared)
            else case GetVarint32Ptr (subslice data p (limit - p)) of
                   None \<Rightarrow> None
                 | Some (shared, r) \<Rightarrow>
                     (case GetVarint32Ptr r of
                        None \<Rightarrow> None
                      | Some (non_shared, r) \<Rightarrow> Some (limit - length r, shared, non_shared))))"

section \<open>The iterator\<close>

record CachedPrevEntry =
  pe_offset :: nat
  pe_key_ptr :: "bytes option"
  pe_key_offset :: nat
  pe_key_size :: nat
  pe_value :: "nat \<times> nat"

record 'k DataBlockIter =
  it_data :: "bytes option"
  it_num_restarts :: nat
  it_restart_index :: nat
  it_restarts :: nat
  it_current :: nat
  it_key :: 'k
  it_value :: "nat \<times> nat"
  it_status :: Status
  it_key_pinned :: bool
  it_global_seqno :: u64
  it_prev_entries_keys_buff :: bytes
  it_prev_entries :: "CachedPrevEntry list"
  it_prev_entries_idx :: int
  it_hash_index :: "u16 option"

definition DataBlockIter_new :: "'k dbformat \<Rightarrow> 'k DataBlockIter" where
  "DataBlockIter_new F =
     \<lparr>it_data = None, it_num_restarts = 0, it_restart_index = 0, it_restarts = 0, it_current = 0,
      it_key = ik_new F, it_value = (0, 0), it_status = Status_OK, it_key_pinned = False,
      it_global_seqno = 0, it_prev_entries_keys_buff = [], it_prev_entries = [],
      it_prev_entries_idx = -1, it_hash_index = None\<rparr>"

definition DataBlockIter_Initialize ::
  "bytes \<Rightarrow> nat \<Rightarrow> nat \<Rightarrow> u64 \<Rightarrow> u16 option \<Rightarrow> 'k DataBlockIter \<Rightarrow> 'k DataBlockIter" where
  "DataBlockIter_Initialize data restarts_off num_restarts global_seqno hash_index it =
     it\<lparr>it_data := Some data, it_restarts := restarts_off, it_num_restarts := num_restarts,
        it_current := restarts_off, it_restart_index := num_restarts, it_global_seqno := global_seqno,
        it_hash_index := hash_index\<rparr>"

definition DataBlockIter_Invalidate :: "Status \<Rightarrow> 'k DataBlockIter \<Rightarrow> 'k DataBlockIter" where
  "DataBlockIter_Invalidate s it =
     it\<lparr>it_data := None, it_current := it_restarts it, it_status := s,
        it_prev_entries_keys_buff := [], it_prev_entries := [], it_prev_entries_idx := -1\<rparr>"

definition it_Valid :: "'k DataBlockIter \<Rightarrow> bool" where
  "it_Valid it \<longleftrightarrow> it_current it < it_restarts it"

abbreviation it_contents :: "'k DataBlockIter \<Rightarrow> bytes" where
  "it_contents it \<equiv> the (it_data it)"

definition it_value_bytes :: "'k DataBlockIter \<Rightarrow> bytes" where
  "it_value_bytes it = subslice (it_contents it) (fst (it_value it)) (snd (it_value it))"

definition NextEntryOffset :: "'k DataBlockIter \<Rightarrow> nat" where
  "NextEntryOffset it = (fst (it_value it) + snd (it_value it)) mod 2 ^ 32"

definition GetRestartPoint :: "'k DataBlockIter \<Rightarrow> nat \<Rightarrow> nat" where
  "GetRestartPoint it index = unat (DecodeFixed32 (drop (it_restarts it + index * 4) (it_contents it)))"

definition SeekToRestartPoint :: "'k dbformat \<Rightarrow> nat \<Rightarrow> 'k DataBlockIter \<Rightarrow> 'k DataBlockIter" where
  "SeekToRestartPoint F index it =
     it\<lparr>it_key := ik_Clear F (it_key it), it_restart_index := index,
        it_value := (GetRestartPoint it index, 0)\<rparr>"

definition CorruptionError :: "'k dbformat \<Rightarrow> 'k DataBlockIter \<Rightarrow> 'k DataBlockIter" where
  "CorruptionError F it =
     it\<lparr>it_current := it_restarts it, it_restart_index := it_num_restarts it,
        it_status := Status_Corruption ''bad entry in block'', it_key := ik_Clear F (it_key it),
        it_value := (0, 0)\<rparr>"

text \<open>The loop that moves \<^verbatim>\<open>restart_index_\<close> forward after an entry with a whole key.\<close>

function advance_restart_index :: "'k DataBlockIter \<Rightarrow> nat \<Rightarrow> nat" where
  "advance_restart_index it ri =
     (if ri + 1 < it_num_restarts it \<and> GetRestartPoint it (ri + 1) < it_current it
      then advance_restart_index it (ri + 1) else ri)"
  by pat_completeness auto
termination
  by (relation "measure (\<lambda>(it, ri). it_num_restarts it - ri)") auto

declare advance_restart_index.simps [simp del]

text \<open>The key update of an iterator with a global sequence number.\<close>

definition apply_global_seqno :: "'k dbformat \<Rightarrow> 'k DataBlockIter \<Rightarrow> 'k DataBlockIter" where
  "apply_global_seqno F it =
     (if it_global_seqno it \<noteq> kDisableGlobalSequenceNumber F then
        (let value_type = ExtractValueType F (ik_GetKey F (it_key it));
             it = (if it_key_pinned it
                   then it\<lparr>it_key := ik_OwnKey F (it_key it), it_key_pinned := False\<rparr> else it)
         in it\<lparr>it_key := ik_UpdateInternalKey F (it_global_seqno it) value_type (it_key it)\<rparr>)
      else it)"

definition ParseNextDataKey ::
  "'k dbformat \<Rightarrow> (bytes \<Rightarrow> nat \<Rightarrow> nat \<Rightarrow> (nat \<times> u32 \<times> u32 \<times> u32) option) \<Rightarrow> nat option \<Rightarrow>
   'k DataBlockIter \<Rightarrow> bool \<times> 'k DataBlockIter" where
  "ParseNextDataKey F DecodeEntryFunc lim it =
     (let it = it\<lparr>it_current := NextEntryOffset it\<rparr>;
          p = it_current it;
          limit = (case lim of None \<Rightarrow> it_restarts it | Some l \<Rightarrow> l)
      in if p \<ge> limit
         then (False, it\<lparr>it_current := it_restarts it, it_restart_index := it_num_restarts it\<rparr>)
         else case DecodeEntryFunc (it_contents it) p limit of
                None \<Rightarrow> (False, CorruptionError F it)
              | Some (p, shared, non_shared, value_length) \<Rightarrow>
                  if ik_Size F (it_key it) < unat shared then (False, CorruptionError F it)
                  else
                    (let delta = subslice (it_contents it) p (unat non_shared);
                         it = (if shared = 0
                               then it\<lparr>it_key := ik_SetKey F delta (it_key it), it_key_pinned := True\<rparr>
                               else it\<lparr>it_key := ik_TrimAppend F (unat shared) delta (it_key it),
                                       it_key_pinned := False\<rparr>);
                         it = apply_global_seqno F it;
                         it = it\<lparr>it_value := (p + unat non_shared, unat value_length)\<rparr>;
                         it = (if shared = 0
                               then it\<lparr>it_restart_index := advance_restart_index it (it_restart_index it)\<rparr>
                               else it)
                     in (True, it)))"

definition DataBlockIter_Next :: "'k dbformat \<Rightarrow> 'k DataBlockIter \<Rightarrow> 'k DataBlockIter" where
  "DataBlockIter_Next F it = snd (ParseNextDataKey F DecodeEntry None it)"

definition DataBlockIter_NextOrReport :: "'k dbformat \<Rightarrow> 'k DataBlockIter \<Rightarrow> 'k DataBlockIter" where
  "DataBlockIter_NextOrReport F it = snd (ParseNextDataKey F CheckAndDecodeEntry None it)"

text \<open>The binary search over the restart array.  The inner \<open>None\<close> is the corruption exit.\<close>

partial_function (option) BinarySeek_loop ::
  "(bytes \<Rightarrow> nat \<Rightarrow> nat \<Rightarrow> (nat \<times> u32 \<times> u32) option) \<Rightarrow> (bytes \<Rightarrow> bytes \<Rightarrow> int) \<Rightarrow> bytes \<Rightarrow> 'k DataBlockIter \<Rightarrow>
   nat \<Rightarrow> nat \<Rightarrow> nat option option" where
  [code]: "BinarySeek_loop DecodeKeyFunc cmp target it left right =
     (if left < right then
        (let mid = ((left + right + 1) mod 2 ^ 32) div 2;
             region_offset = GetRestartPoint it mid
         in case DecodeKeyFunc (it_contents it) region_offset (it_restarts it) of
              None \<Rightarrow> Some None
            | Some (key_ptr, shared, non_shared) \<Rightarrow>
                if shared \<noteq> 0 then Some None
                else
                  (let mid_key = subslice (it_contents it) key_ptr (unat non_shared);
                       c = cmp mid_key target
                   in if c < 0 then BinarySeek_loop DecodeKeyFunc cmp target it mid right
                      else if c > 0 then BinarySeek_loop DecodeKeyFunc cmp target it left (mid - 1)
                      else BinarySeek_loop DecodeKeyFunc cmp target it mid mid))
      else Some (Some left))"

definition BinarySeek ::
  "'k dbformat \<Rightarrow> (bytes \<Rightarrow> nat \<Rightarrow> nat \<Rightarrow> (nat \<times> u32 \<times> u32) option) \<Rightarrow> (bytes \<Rightarrow> bytes \<Rightarrow> int) \<Rightarrow> bytes \<Rightarrow> nat \<Rightarrow> nat \<Rightarrow>
   'k DataBlockIter \<Rightarrow> (nat option \<times> 'k DataBlockIter) option" where
  "BinarySeek F DecodeKeyFunc cmp target left right it =
     (case BinarySeek_loop DecodeKeyFunc cmp target it left right of
        None \<Rightarrow> None
      | Some None \<Rightarrow> Some (None, CorruptionError F it)
      | Some (Some index) \<Rightarrow> Some (Some index, it))"

text \<open>\<^verbatim>\<open>while (ParseNextDataKey<DecodeEntry>() && Compare(key_, seek_key) < 0) {}\<close>\<close>

partial_function (option) linear_seek ::
  "'k dbformat \<Rightarrow> (bytes \<Rightarrow> bytes \<Rightarrow> int) \<Rightarrow> bytes \<Rightarrow> 'k DataBlockIter \<Rightarrow> 'k DataBlockIter option" where
  [code]: "linear_seek F cmp target it =
     (let (parsed, it) = ParseNextDataKey F DecodeEntry None it
      in if parsed \<and> cmp (ik_GetInternalKey F (it_key it)) target < 0
         then linear_seek F cmp target it else Some it)"

definition DataBlockIter_Seek ::
  "'k dbformat \<Rightarrow> (bytes \<Rightarrow> bytes \<Rightarrow> int) \<Rightarrow> bytes \<Rightarrow> 'k DataBlockIter \<Rightarrow> 'k DataBlockIter option" where
  "DataBlockIter_Seek F cmp target it =
     (if it_data it = None then Some it
      else case BinarySeek F DecodeKey cmp target 0 (it_num_restarts it - 1) it of
             None \<Rightarrow> None
           | Some (None, it) \<Rightarrow> Some it
           | Some (Some index, it) \<Rightarrow> linear_seek F cmp target (SeekToRestartPoint F index it))"

definition DataBlockIter_SeekToFirst :: "'k dbformat \<Rightarrow> 'k DataBlockIter \<Rightarrow> 'k DataBlockIter" where
  "DataBlockIter_SeekToFirst F it =
     (if it_data it = None then it
      else snd (ParseNextDataKey F DecodeEntry None (SeekToRestartPoint F 0 it)))"

definition DataBlockIter_SeekToFirstOrReport :: "'k dbformat \<Rightarrow> 'k DataBlockIter \<Rightarrow> 'k DataBlockIter" where
  "DataBlockIter_SeekToFirstOrReport F it =
     (if it_data it = None then it
      else snd (ParseNextDataKey F CheckAndDecodeEntry None (SeekToRestartPoint F 0 it)))"

text \<open>\<^verbatim>\<open>while (ParseNextDataKey<DecodeEntry>() && NextEntryOffset() < restarts_) {}\<close>\<close>

partial_function (option) skip_to_last :: "'k dbformat \<Rightarrow> 'k DataBlockIter \<Rightarrow> 'k DataBlockIter option" where
  [code]: "skip_to_last F it =
     (let (parsed, it) = ParseNextDataKey F DecodeEntry None it
      in if parsed \<and> NextEntryOffset it < it_restarts it then skip_to_last F it else Some it)"

definition DataBlockIter_SeekToLast :: "'k dbformat \<Rightarrow> 'k DataBlockIter \<Rightarrow> 'k DataBlockIter option" where
  "DataBlockIter_SeekToLast F it =
     (if it_data it = None then Some it
      else skip_to_last F (SeekToRestartPoint F (it_num_restarts it - 1) it))"

text \<open>Backward iteration.  The first loop looks for a restart point before the current entry; \<open>None\<close>
  is its early return.\<close>

fun restart_before :: "'k DataBlockIter \<Rightarrow> nat \<Rightarrow> nat \<Rightarrow> nat option" where
  "restart_before it original 0 = (if GetRestartPoint it 0 \<ge> original then None else Some 0)"
| "restart_before it original (Suc ri) =
     (if GetRestartPoint it (Suc ri) \<ge> original then restart_before it original ri else Some (Suc ri))"

definition cache_entry :: "'k dbformat \<Rightarrow> 'k DataBlockIter \<Rightarrow> 'k DataBlockIter" where
  "cache_entry F it =
     (let current_key = ik_GetKey F (it_key it)
      in if ik_IsKeyPinned F (it_key it)
         then it\<lparr>it_prev_entries := it_prev_entries it @
                [\<lparr>pe_offset = it_current it, pe_key_ptr = Some current_key, pe_key_offset = 0,
                  pe_key_size = length current_key, pe_value = it_value it\<rparr>]\<rparr>
         else it\<lparr>it_prev_entries_keys_buff := it_prev_entries_keys_buff it @ current_key,
                it_prev_entries := it_prev_entries it @
                [\<lparr>pe_offset = it_current it, pe_key_ptr = None,
                  pe_key_offset = length (it_prev_entries_keys_buff it),
                  pe_key_size = length current_key, pe_value = it_value it\<rparr>]\<rparr>)"

partial_function (option) cache_until :: "'k dbformat \<Rightarrow> nat \<Rightarrow> 'k DataBlockIter \<Rightarrow> 'k DataBlockIter option" where
  [code]: "cache_until F original it =
     (let (parsed, it) = ParseNextDataKey F DecodeEntry None it
      in if \<not> parsed then Some it
         else (let it = cache_entry F it
               in if NextEntryOffset it < original then cache_until F original it else Some it))"

definition cached_key :: "'k DataBlockIter \<Rightarrow> CachedPrevEntry \<Rightarrow> bytes" where
  "cached_key it e =
     (case pe_key_ptr e of
        Some ptr \<Rightarrow> take (pe_key_size e) ptr
      | None \<Rightarrow> subslice (it_prev_entries_keys_buff it) (pe_key_offset e) (pe_key_size e))"

definition DataBlockIter_Prev :: "'k dbformat \<Rightarrow> 'k DataBlockIter \<Rightarrow> 'k DataBlockIter option" where
  "DataBlockIter_Prev F it =
     (if it_prev_entries_idx it > 0 \<and>
         pe_offset (it_prev_entries it ! nat (it_prev_entries_idx it)) = it_current it
      then
        (let idx = it_prev_entries_idx it - 1;
             e = it_prev_entries it ! nat idx
         in Some (it\<lparr>it_prev_entries_idx := idx, it_key_pinned := (pe_key_ptr e \<noteq> None),
                     it_current := pe_offset e, it_key := ik_SetKey F (cached_key it e) (it_key it),
                     it_value := pe_value e\<rparr>))
      else
        (let it = it\<lparr>it_prev_entries_idx := -1, it_prev_entries := [], it_prev_entries_keys_buff := []\<rparr>;
             original = it_current it
         in case restart_before it original (it_restart_index it) of
              None \<Rightarrow> Some (it\<lparr>it_current := it_restarts it, it_restart_index := it_num_restarts it\<rparr>)
            | Some ri \<Rightarrow>
                (case cache_until F original (SeekToRestartPoint F ri it) of
                   None \<Rightarrow> None
                 | Some it \<Rightarrow> Some (it\<lparr>it_prev_entries_idx := int (length (it_prev_entries it)) - 1\<rparr>))))"

partial_function (option) prev_while_greater ::
  "'k dbformat \<Rightarrow> (bytes \<Rightarrow> bytes \<Rightarrow> int) \<Rightarrow> bytes \<Rightarrow> 'k DataBlockIter \<Rightarrow> 'k DataBlockIter option" where
  [code]: "prev_while_greater F cmp target it =
     (if it_Valid it \<and> cmp (ik_GetInternalKey F (it_key it)) target > 0
      then (case DataBlockIter_Prev F it of
              None \<Rightarrow> None
            | Some it \<Rightarrow> prev_while_greater F cmp target it)
      else Some it)"

definition DataBlockIter_SeekForPrev ::
  "'k dbformat \<Rightarrow> (bytes \<Rightarrow> bytes \<Rightarrow> int) \<Rightarrow> bytes \<Rightarrow> 'k DataBlockIter \<Rightarrow> 'k DataBlockIter option" where
  "DataBlockIter_SeekForPrev F cmp target it =
     (if it_data it = None then Some it
      else case BinarySeek F DecodeKey cmp target 0 (it_num_restarts it - 1) it of
             None \<Rightarrow> None
           | Some (None, it) \<Rightarrow> Some it
           | Some (Some index, it) \<Rightarrow>
               (case linear_seek F cmp target (SeekToRestartPoint F index it) of
                  None \<Rightarrow> None
                | Some it \<Rightarrow>
                    if \<not> it_Valid it then DataBlockIter_SeekToLast F it
                    else prev_while_greater F cmp target it))"

text \<open>The point lookup: the restart interval comes from the hash index, and the linear search stays
  inside it.\<close>

partial_function (option) interval_seek ::
  "'k dbformat \<Rightarrow> (bytes \<Rightarrow> bytes \<Rightarrow> int) \<Rightarrow> bytes \<Rightarrow> nat \<Rightarrow> 'k DataBlockIter \<Rightarrow> 'k DataBlockIter option" where
  [code]: "interval_seek F cmp target limit it =
     (let (parsed, it) = ParseNextDataKey F DecodeEntry (Some limit) it
      in if \<not> parsed \<or> cmp (ik_GetInternalKey F (it_key it)) target \<ge> 0 then Some it
         else interval_seek F cmp target limit it)"

definition SeekForGetImpl ::
  "'k dbformat \<Rightarrow> (bytes \<Rightarrow> bytes \<Rightarrow> int) \<Rightarrow> (bytes \<Rightarrow> bytes \<Rightarrow> int) \<Rightarrow> u16 \<Rightarrow> bytes \<Rightarrow> 'k DataBlockIter \<Rightarrow>
   (bool \<times> 'k DataBlockIter) option" where
  "SeekForGetImpl F cmp ucmp hash_index target it =
     (let target_user_key = ExtractUserKey F target;
          map_offset = (it_restarts it + it_num_restarts it * 4) mod 2 ^ 32;
          entry = HashIndex_Lookup hash_index (it_contents it) map_offset target_user_key
      in if entry = kCollision then map_option (Pair True) (DataBlockIter_Seek F cmp target it)
         else
           (let entry = (if entry = kNoEntry then of_nat (it_num_restarts it - 1) else entry);
                restart_index = unat entry;
                it = SeekToRestartPoint F restart_index it;
                limit = (if it_restart_index it + 1 < it_num_restarts it
                         then GetRestartPoint it (it_restart_index it + 1) else it_restarts it)
            in case interval_seek F cmp target limit it of
                 None \<Rightarrow> None
               | Some it \<Rightarrow>
                   if it_current it = it_restarts it then Some (True, it)
                   else if ucmp (ik_GetUserKey F (it_key it)) target_user_key \<noteq> 0 then Some (False, it)
                   else if ExtractValueType F (ik_GetKey F (it_key it)) \<notin> set (point_types F)
                   then map_option (Pair True) (DataBlockIter_Seek F cmp target it)
                   else Some (True, it)))"

definition DataBlockIter_SeekForGet ::
  "'k dbformat \<Rightarrow> (bytes \<Rightarrow> bytes \<Rightarrow> int) \<Rightarrow> (bytes \<Rightarrow> bytes \<Rightarrow> int) \<Rightarrow> bytes \<Rightarrow> 'k DataBlockIter \<Rightarrow>
   (bool \<times> 'k DataBlockIter) option" where
  "DataBlockIter_SeekForGet F cmp ucmp target it =
     (case it_hash_index it of
        None \<Rightarrow> map_option (Pair True) (DataBlockIter_Seek F cmp target it)
      | Some h \<Rightarrow> SeekForGetImpl F cmp ucmp h target it)"

section \<open>The block\<close>

record Block =
  bl_data :: bytes
  bl_size :: nat
  bl_restart_offset :: u32
  bl_num_restarts :: u32
  bl_num_buckets :: u16

definition Block_NumRestarts :: "bytes \<Rightarrow> nat \<Rightarrow> u32" where
  "Block_NumRestarts data sz =
     (let block_footer = DecodeFixed32 (drop (sz - 4) data)
      in if sz > kMaxBlockSizeSupportedByHashIndex then block_footer
         else snd (UnPackIndexTypeAndNumRestarts block_footer))"

definition Block_IndexType :: "bytes \<Rightarrow> nat \<Rightarrow> DataBlockIndexType" where
  "Block_IndexType data sz =
     (if sz > kMaxBlockSizeSupportedByHashIndex then kDataBlockBinarySearch
      else fst (UnPackIndexTypeAndNumRestarts (DecodeFixed32 (drop (sz - 4) data))))"

definition Block_new :: "bytes \<Rightarrow> Block" where
  "Block_new contents =
     (let sz = length contents;
          b = \<lparr>bl_data = contents, bl_size = sz, bl_restart_offset = 0, bl_num_restarts = 0, bl_num_buckets = 0\<rparr>
      in if sz < 4 then b\<lparr>bl_size := 0\<rparr>
         else
           (let b = b\<lparr>bl_num_restarts := Block_NumRestarts contents sz\<rparr> in
            case Block_IndexType contents sz of
              kDataBlockBinarySearch \<Rightarrow>
                (let b = b\<lparr>bl_restart_offset :=
                         ucast ((ucast (of_nat sz :: u32) :: u64) - ucast (1 + bl_num_restarts b) * 4)\<rparr>
                 in if (ucast (bl_restart_offset b) :: u64) > of_nat sz - 4 then b\<lparr>bl_size := 0\<rparr> else b)
            | kDataBlockBinaryAndHash \<Rightarrow>
                if sz < 4 + 2 then b\<lparr>bl_size := 0\<rparr>
                else
                  (let (num_buckets, map_offset) = HashIndex_Initialize contents (of_nat (sz - 4));
                       b = b\<lparr>bl_num_buckets := num_buckets,
                             bl_restart_offset := ucast ((ucast map_offset :: u64) - ucast (bl_num_restarts b) * 4)\<rparr>
                   in if bl_restart_offset b > ucast map_offset then b\<lparr>bl_size := 0\<rparr> else b)))"

definition Block_NewDataIterator :: "'k dbformat \<Rightarrow> u64 \<Rightarrow> Block \<Rightarrow> 'k DataBlockIter" where
  "Block_NewDataIterator F global_seqno b =
     (let ret_iter = DataBlockIter_new F
      in if bl_size b < 2 * 4 then DataBlockIter_Invalidate (Status_Corruption ''bad block contents'') ret_iter
         else if bl_num_restarts b = 0 then DataBlockIter_Invalidate Status_OK ret_iter
         else DataBlockIter_Initialize (bl_data b) (unat (bl_restart_offset b)) (unat (bl_num_restarts b))
                global_seqno (if bl_num_buckets b \<noteq> 0 then Some (bl_num_buckets b) else None) ret_iter)"

end
