(* ===== verification/Block_Layout.thy ===== *)
theory Block_Layout
  imports Block_Iter
begin

text \<open>
  What the iterator of \<open>Block_Iter\<close> reads on a well-formed block: the offsets of the entries,
  decoding one entry, the restart array, and one step of \<^verbatim>\<open>ParseNextDataKey\<close>.  The predicate
  \<open>block_layout\<close> is the layout that \<open>Block_Builder\<close> is shown to produce.
\<close>

section \<open>Decoding an entry\<close>

text \<open>The three varints, without the fast path.\<close>

definition decode_entry_slow :: "bytes \<Rightarrow> nat \<Rightarrow> nat \<Rightarrow> (nat \<times> u32 \<times> u32 \<times> u32) option" where
  "decode_entry_slow data p limit =
     (case GetVarint32Ptr (subslice data p (limit - p)) of
        None \<Rightarrow> None
      | Some (shared, r) \<Rightarrow>
          (case GetVarint32Ptr r of
             None \<Rightarrow> None
           | Some (non_shared, r) \<Rightarrow>
               (case GetVarint32Ptr r of
                  None \<Rightarrow> None
                | Some (value_length, r) \<Rightarrow> Some (limit - length r, shared, non_shared, value_length))))"

lemma GetVarint32Ptr_single: "(ucast b :: u32) < 128 \<Longrightarrow> GetVarint32Ptr (b # r) = Some (ucast b, r)"
  using drop_bit_eq_0_bit [of 7 "ucast b :: u32" 7]
  by (simp add: GetVarint32Ptr_def and_128_eq_0_iff word_less_128_iff)

lemma or_less_128: "((a :: u32) OR b) < 128 \<longleftrightarrow> a < 128 \<and> b < 128"
proof -
  have "drop_bit 7 (a OR b) = 0 \<longleftrightarrow> drop_bit 7 a = 0 \<and> drop_bit 7 b = 0"
    by (simp add: drop_bit_or or_eq_0_iff)
  then show ?thesis by (simp add: word_less_128_iff)
qed

lemma decode_entry_lengths_slow:
  assumes "p + 3 \<le> limit" and "limit \<le> length data"
  shows "decode_entry_lengths data p limit = decode_entry_slow data p limit"
proof -
  obtain b0 b1 b2 r where d: "subslice data p (limit - p) = b0 # b1 # b2 # r"
  proof -
    have "3 \<le> length (subslice data p (limit - p))" using assms by (simp add: subslice_def)
    then show ?thesis using that by (auto simp: numeral_3_eq_3 Suc_le_length_iff)
  qed
  have nth: "subslice data p (limit - p) ! i = data ! (p + i)" if "i < 3" for i
    using assms that by (simp add: subslice_def)
  have b: "data ! p = b0" "data ! (p + 1) = b1" "data ! (p + 2) = b2"
    using nth [of 0] nth [of 1] nth [of 2] d by simp_all
  have "length (subslice data p (limit - p)) = limit - p" using assms by (simp add: subslice_def)
  then have len: "length r + 3 = limit - p" by (simp add: d)
  show ?thesis
    using len assms(1)
    by (auto simp: decode_entry_lengths_def decode_entry_slow_def d b b [simplified] or_less_128 GetVarint32Ptr_single Let_def)
qed

lemma length_EncodeVarint32_pos: "1 \<le> length (EncodeVarint32 v)"
  by (simp add: EncodeVarint32_def Let_def)

section \<open>Offsets\<close>

lemma length_entry_bytes: "length (entry_bytes e) \<ge> 3 + (length (e_key e) - e_shared e) + length (e_value e)"
  using length_EncodeVarint32_pos [of "of_nat (e_shared e)"]
    length_EncodeVarint32_pos [of "of_nat (length (e_key e) - e_shared e)"]
    length_EncodeVarint32_pos [of "of_nat (length (e_value e))"]
  by (simp add: entry_bytes_def)

lemma entry_offset_Suc: "j < length es \<Longrightarrow> entry_offset es (Suc j) = entry_offset es j + length (entry_bytes (es ! j))"
  by (simp add: entry_offset_def take_Suc_conv_app_nth)

lemma entry_offset_less_Suc: "j < length es \<Longrightarrow> entry_offset es j + 3 \<le> entry_offset es (Suc j)"
  using length_entry_bytes [of "es ! j"] by (simp add: entry_offset_Suc)

lemma entry_offset_less:
  assumes "i < j" and "j \<le> length es"
  shows "entry_offset es i < entry_offset es j"
  using assms
proof (induction j)
  case (Suc j)
  then show ?case using entry_offset_less_Suc [of j es] by (cases "i = j") auto
qed simp

lemma entry_offset_less_iff:
  "i \<le> length es \<Longrightarrow> j \<le> length es \<Longrightarrow> entry_offset es i < entry_offset es j \<longleftrightarrow> i < j"
  by (metis entry_offset_less linorder_neqE_nat order_less_asym order_less_irrefl)

lemma entry_offset_eq_iff:
  "i \<le> length es \<Longrightarrow> j \<le> length es \<Longrightarrow> entry_offset es i = entry_offset es j \<longleftrightarrow> i = j"
  by (metis entry_offset_less linorder_neqE_nat order_less_irrefl)

lemma entry_offset_le: "j \<le> length es \<Longrightarrow> entry_offset es j \<le> length (entries_bytes es)"
  by (metis entry_offset_length entry_offset_less le_neq_implies_less order.strict_implies_order order_refl)

lemma drop_entries_bytes:
  assumes "j < length es"
  shows "drop (entry_offset es j) (entries_bytes es) =
    entry_bytes (es ! j) @ drop (entry_offset es (Suc j)) (entries_bytes es)"
proof -
  have "entries_bytes es = entries_bytes (take j es) @ entry_bytes (es ! j) @ entries_bytes (drop (Suc j) es)"
    using assms by (metis append_assoc entries_bytes_simps(2,3) id_take_nth_drop append_Cons append_Nil)
  then show ?thesis
    using assms by (simp add: entry_offset_Suc) (simp add: entry_offset_def)
qed

text \<open>A decoded key is never longer than the part of the block that spells it out.\<close>

lemma length_e_key_le:
  assumes "entries_chained es" and "j < length es"
  shows "length (e_key (es ! j)) \<le> entry_offset es (Suc j)"
  using assms(2)
proof (induction j)
  case 0
  then have "e_shared (es ! 0) = 0" using assms(1) by (auto simp: entries_chained_def)
  then show ?case using length_entry_bytes [of "es ! 0"] 0 by (simp add: entry_offset_Suc)
next
  case (Suc j)
  then have "e_shared (es ! Suc j) \<le> length (e_key (es ! j))"
    using assms(1) by (force simp: entries_chained_def)
  moreover have "length (e_key (es ! j)) \<le> entry_offset es (Suc j)" using Suc by simp
  ultimately show ?case using length_entry_bytes [of "es ! Suc j"] Suc.prems by (simp add: entry_offset_Suc)
qed

section \<open>The layout a reader relies on\<close>

definition block_layout :: "bytes \<Rightarrow> block_entry list \<Rightarrow> nat list \<Rightarrow> bool" where
  "block_layout data es rs \<longleftrightarrow>
     (\<exists>rest. data = entries_bytes es @ concat (map (\<lambda>r. EncodeFixed32 (of_nat (entry_offset es r))) rs) @ rest) \<and>
     entries_chained es \<and> restarts_ok es rs \<and> length data < 2 ^ 32"

lemma block_layout_length: "block_layout data es rs \<Longrightarrow> length (entries_bytes es) + 4 * length rs \<le> length data"
  by (auto simp: block_layout_def length_concat_EncodeFixed32)

lemma decode_layout_entry:
  assumes "block_layout data es rs" and "j < length es"
    and "entry_offset es (Suc j) \<le> limit" and "limit \<le> length data"
  defines "e \<equiv> es ! j"
  shows "decode_entry_lengths data (entry_offset es j) limit =
     Some (entry_offset es (Suc j) - length (e_value e) - (length (e_key e) - e_shared e),
           of_nat (e_shared e), of_nat (length (e_key e) - e_shared e), of_nat (length (e_value e)))"
proof -
  let ?o = "entry_offset es j"
  obtain rest where "data = entries_bytes es @ rest" using assms(1) by (auto simp: block_layout_def)
  then have "drop ?o data = entry_bytes e @ drop (entry_offset es (Suc j)) data"
    using drop_entries_bytes [OF assms(2)] entry_offset_le [of j es] entry_offset_le [of "Suc j" es] assms(2)
    by (simp add: e_def)
  then have sub: "subslice data ?o (limit - ?o) =
      entry_bytes e @ take (limit - entry_offset es (Suc j)) (drop (entry_offset es (Suc j)) data)"
    using entry_offset_Suc [OF assms(2)] assms(3) by (simp add: subslice_def e_def)
  have enc: "GetVarint32Ptr (EncodeVarint32 v @ r) = Some (v, r)" for v r
    using GetVarint32_Encode by (simp add: GetVarint32_def)
  have "decode_entry_lengths data ?o limit = decode_entry_slow data ?o limit"
    using entry_offset_less_Suc [OF assms(2)] assms(3,4) by (intro decode_entry_lengths_slow) simp_all
  also have "\<dots> = Some (entry_offset es (Suc j) - length (e_value e) - (length (e_key e) - e_shared e),
           of_nat (e_shared e), of_nat (length (e_key e) - e_shared e), of_nat (length (e_value e)))"
    using assms(3,4)
    unfolding decode_entry_slow_def sub entry_bytes_def append_assoc enc option.case prod.case
    by (simp add: min_absorb2 diff_le_mono add.commute)
  finally show ?thesis .
qed

text \<open>The key delta and the value of an entry, as slices of the block.\<close>

lemma layout_slices:
  assumes "block_layout data es rs" and "j < length es"
  defines "e \<equiv> es ! j"
  shows "subslice data (entry_offset es (Suc j) - length (e_value e)) (length (e_value e)) = e_value e"
    "subslice data (entry_offset es (Suc j) - length (e_value e) - (length (e_key e) - e_shared e))
       (length (e_key e) - e_shared e) = drop (e_shared e) (e_key e)"
proof -
  let ?o = "entry_offset es j"
  define h where "h = EncodeVarint32 (of_nat (e_shared e)) @ EncodeVarint32 (of_nat (length (e_key e) - e_shared e)) @
     EncodeVarint32 (of_nat (length (e_value e)))"
  obtain rest where "data = entries_bytes es @ rest" using assms(1) by (auto simp: block_layout_def)
  then have d: "drop ?o data = h @ drop (e_shared e) (e_key e) @ e_value e @ drop (entry_offset es (Suc j)) data"
    using drop_entries_bytes [OF assms(2)] entry_offset_le [of j es] entry_offset_le [of "Suc j" es] assms(2)
    by (simp add: e_def h_def entry_bytes_def)
  have o: "entry_offset es (Suc j) = ?o + length h + (length (e_key e) - e_shared e) + length (e_value e)"
    using entry_offset_Suc [OF assms(2)] by (simp add: e_def h_def entry_bytes_def)
  have dd: "drop (?o + n) data = drop n (drop ?o data)" for n by (simp add: add.commute)
  show "subslice data (entry_offset es (Suc j) - length (e_value e)) (length (e_value e)) = e_value e"
    unfolding subslice_def o
    using dd [of "length h + (length (e_key e) - e_shared e)"] d by (simp add: add.assoc)
  show "subslice data (entry_offset es (Suc j) - length (e_value e) - (length (e_key e) - e_shared e))
       (length (e_key e) - e_shared e) = drop (e_shared e) (e_key e)"
    unfolding subslice_def o using dd [of "length h"] d by simp
qed

lemma concat_EncodeFixed32_nth:
  "i < length rs \<Longrightarrow> DecodeFixed32 (drop (i * 4) (concat (map (\<lambda>r. EncodeFixed32 (f r)) rs) @ rest)) = f (rs ! i)"
proof (induction rs arbitrary: i)
  case (Cons r rs)
  then show ?case by (cases i) (simp_all add: DecodeFixed32_Encode)
qed simp

lemma layout_restart_point:
  assumes "block_layout data es rs" and "i < length rs"
  shows "unat (DecodeFixed32 (drop (length (entries_bytes es) + i * 4) data)) = entry_offset es (rs ! i)"
proof -
  obtain rest where d: "data = entries_bytes es @ concat (map (\<lambda>r. EncodeFixed32 (of_nat (entry_offset es r))) rs) @ rest"
    using assms(1) by (auto simp: block_layout_def)
  have "rs ! i \<le> length es"
    using assms by (auto simp: block_layout_def restarts_ok_def dest!: bspec [OF _ nth_mem])
  then have "entry_offset es (rs ! i) < 2 ^ 32"
    using entry_offset_le [of "rs ! i" es] block_layout_length [OF assms(1)] assms(1) by (auto simp: block_layout_def)
  then show ?thesis
    using concat_EncodeFixed32_nth [OF assms(2), of "\<lambda>r. of_nat (entry_offset es r)" rest]
    by (simp add: d unat_of_nat_u32)
qed

section \<open>Iterator states\<close>

text \<open>What the reader relies on of \<^verbatim>\<open>IterKey\<close>: \<^verbatim>\<open>SetKey\<close> and
  \<^verbatim>\<open>TrimAppend\<close> replace and extend the key, \<^verbatim>\<open>Size\<close> and the getters describe it.\<close>

definition IterKey_contract :: "'k dbformat \<Rightarrow> bool" where
  "IterKey_contract F \<longleftrightarrow>
     (\<forall>k. ik_Size F k = length (ik_GetKey F k) \<and> ik_GetInternalKey F k = ik_GetKey F k \<and>
          ik_GetKey F (ik_Clear F k) = [] \<and>
          (\<forall>s. ik_GetKey F (ik_SetKey F s k) = s) \<and>
          (\<forall>n s. n \<le> length (ik_GetKey F k) \<longrightarrow>
             ik_GetKey F (ik_TrimAppend F n s k) = take n (ik_GetKey F k) @ s))"

lemma IterKey_contractD:
  assumes "IterKey_contract F"
  shows "ik_Size F k = length (ik_GetKey F k)" "ik_GetInternalKey F k = ik_GetKey F k"
    "ik_GetKey F (ik_Clear F k) = []" "ik_GetKey F (ik_SetKey F s k) = s"
    "n \<le> length (ik_GetKey F k) \<Longrightarrow> ik_GetKey F (ik_TrimAppend F n s k) = take n (ik_GetKey F k) @ s"
  using assms by (simp_all add: IterKey_contract_def)

text \<open>The iterator reads this block, without a global sequence number.\<close>

definition reads_block :: "'k dbformat \<Rightarrow> bytes \<Rightarrow> block_entry list \<Rightarrow> nat list \<Rightarrow> 'k DataBlockIter \<Rightarrow> bool" where
  "reads_block F data es rs it \<longleftrightarrow>
     IterKey_contract F \<and> block_layout data es rs \<and> it_data it = Some data \<and>
     it_restarts it = length (entries_bytes es) \<and> it_num_restarts it = length rs \<and>
     it_global_seqno it = kDisableGlobalSequenceNumber F"

text \<open>Positioned at entry \<open>j\<close>; about to parse entry \<open>j\<close>.\<close>

definition value_slice :: "block_entry list \<Rightarrow> nat \<Rightarrow> nat \<times> nat" where
  "value_slice es j = (entry_offset es (Suc j) - length (e_value (es ! j)), length (e_value (es ! j)))"

definition at_entry :: "'k dbformat \<Rightarrow> block_entry list \<Rightarrow> nat list \<Rightarrow> 'k DataBlockIter \<Rightarrow> nat \<Rightarrow> bool" where
  "at_entry F es rs it j \<longleftrightarrow>
     j < length es \<and> it_current it = entry_offset es j \<and> ik_GetKey F (it_key it) = e_key (es ! j) \<and>
     it_value it = value_slice es j \<and> it_restart_index it < length rs"

definition before_entry :: "'k dbformat \<Rightarrow> block_entry list \<Rightarrow> nat list \<Rightarrow> 'k DataBlockIter \<Rightarrow> nat \<Rightarrow> bool" where
  "before_entry F es rs it j \<longleftrightarrow>
     j \<le> length es \<and> fst (it_value it) + snd (it_value it) = entry_offset es j \<and>
     (j < length es \<longrightarrow>
        e_shared (es ! j) \<le> length (ik_GetKey F (it_key it)) \<and>
        take (e_shared (es ! j)) (ik_GetKey F (it_key it)) = take (e_shared (es ! j)) (e_key (es ! j))) \<and>
     it_restart_index it < length rs"

lemma GetRestartPoint_layout:
  "reads_block F data es rs it \<Longrightarrow> i < length rs \<Longrightarrow> GetRestartPoint it i = entry_offset es (rs ! i)"
  using layout_restart_point by (fastforce simp: GetRestartPoint_def reads_block_def)

lemma restart_entry:
  assumes "block_layout data es rs" and "i < length rs"
  shows "rs ! i \<le> length es" and "rs ! i < length es \<Longrightarrow> e_shared (es ! (rs ! i)) = 0"
    and "es \<noteq> [] \<Longrightarrow> rs ! i < length es"
  using assms by (auto simp: block_layout_def restarts_ok_def dest!: bspec [OF _ nth_mem])

lemma SeekToRestartPoint_before:
  assumes "reads_block F data es rs it" and "i < length rs"
  shows "before_entry F es rs (SeekToRestartPoint F i it) (rs ! i)"
  using assms GetRestartPoint_layout [OF assms] restart_entry [of data es rs i]
  by (auto simp: before_entry_def SeekToRestartPoint_def reads_block_def)

lemma reads_block_SeekToRestartPoint [simp]:
  "reads_block F data es rs (SeekToRestartPoint F i it) = reads_block F data es rs it"
  by (simp add: reads_block_def SeekToRestartPoint_def)

lemma entry_offset_value: "j < length es \<Longrightarrow> length (e_value (es ! j)) \<le> entry_offset es (Suc j)"
  using length_entry_bytes [of "es ! j"] by (simp add: entry_offset_Suc)

lemma at_entry_before_next:
  assumes "at_entry F es rs it j" and "entries_chained es"
  shows "before_entry F es rs it (Suc j)"
proof -
  have "e_shared (es ! Suc j) \<le> length (e_key (es ! j)) \<and>
      take (e_shared (es ! Suc j)) (e_key (es ! j)) = take (e_shared (es ! Suc j)) (e_key (es ! Suc j))"
    if "Suc j < length es"
    using assms(2) that unfolding entries_chained_def by (metis diff_Suc_1 nat.simps(3))
  then show ?thesis
    using assms(1) entry_offset_value [of j es]
    by (auto simp: at_entry_def before_entry_def value_slice_def)
qed

lemma layout_offset_less: "reads_block F data es rs it \<Longrightarrow> j \<le> length es \<Longrightarrow> entry_offset es j < 2 ^ 32"
  using entry_offset_le [of j es] block_layout_length [of data es rs]
  by (fastforce simp: reads_block_def block_layout_def)

lemma before_entry_NextEntryOffset:
  assumes "reads_block F data es rs it" and "before_entry F es rs it j"
  shows "NextEntryOffset it = entry_offset es j"
  using assms layout_offset_less [OF assms(1), of j] by (simp add: NextEntryOffset_def before_entry_def)

lemma advance_restart_index_less:
  "ri < it_num_restarts it \<Longrightarrow> advance_restart_index it ri < it_num_restarts it"
proof (induction it ri rule: advance_restart_index.induct)
  case (1 it ri)
  then show ?case by (subst advance_restart_index.simps) simp
qed

text \<open>Parsing moves from before an entry to that entry and changes nothing else.\<close>

lemma Parse_entry:
  assumes "reads_block F data es rs it" and "before_entry F es rs it j" and "j < length es"
    and "case lim of None \<Rightarrow> True | Some l \<Rightarrow> entry_offset es (Suc j) \<le> l \<and> l \<le> length data"
  shows "\<exists>k pinned ri. ParseNextDataKey F DecodeEntry lim it =
     (True, it\<lparr>it_current := entry_offset es j, it_key := k, it_key_pinned := pinned,
              it_value := value_slice es j, it_restart_index := ri\<rparr>) \<and>
     ik_GetKey F k = e_key (es ! j) \<and> ri < length rs"
proof -
  let ?e = "es ! j"
  let ?l = "case lim of None \<Rightarrow> length (entries_bytes es) | Some l \<Rightarrow> l"
  note F = assms(1) [unfolded reads_block_def]
  note K = IterKey_contractD [OF F [THEN conjunct1]]
  have lay: "block_layout data es rs" using F by blast
  have ch: "entries_chained es" using lay by (simp add: block_layout_def)
  have l: "entry_offset es (Suc j) \<le> ?l" "?l \<le> length data"
    using assms(3,4) entry_offset_le [of "Suc j" es] block_layout_length [OF lay] by (auto split: option.splits)
  have dec: "DecodeEntry data (entry_offset es j) ?l =
     Some (entry_offset es (Suc j) - length (e_value ?e) - (length (e_key ?e) - e_shared ?e),
           of_nat (e_shared ?e), of_nat (length (e_key ?e) - e_shared ?e), of_nat (length (e_value ?e)))"
    unfolding DecodeEntry_def by (rule decode_layout_entry [OF lay assms(3) l])
  have lt: "\<not> ?l \<le> entry_offset es j" using l(1) entry_offset_less_Suc [OF assms(3)] by simp
  have key: "e_shared ?e \<le> length (e_key ?e)" using ch assms(3) by (simp add: entries_chained_def)
  have big: "length (e_key ?e) < 2 ^ 32" "length (e_value ?e) < 2 ^ 32"
    using length_e_key_le [OF ch assms(3)] entry_offset_value [OF assms(3)] layout_offset_less [OF assms(1), of "Suc j"] assms(3)
    by linarith+
  have un: "unat (of_nat (e_shared ?e) :: u32) = e_shared ?e"
    "unat (of_nat (length (e_key ?e) - e_shared ?e) :: u32) = length (e_key ?e) - e_shared ?e"
    "unat (of_nat (length (e_value ?e)) :: u32) = length (e_value ?e)"
    by (rule unat_of_nat_u32, use big key in linarith)+
  have z: "(of_nat (e_shared ?e) :: u32) = 0 \<longleftrightarrow> e_shared ?e = 0"
    using un(1) unat_eq_0 [of "of_nat (e_shared ?e) :: u32"] by simp
  note sl = layout_slices [OF lay assms(3)]
  have voff: "entry_offset es (Suc j) - length (e_value ?e) - (length (e_key ?e) - e_shared ?e) +
      (length (e_key ?e) - e_shared ?e) = entry_offset es (Suc j) - length (e_value ?e)"
    using length_entry_bytes [of ?e] entry_offset_Suc [OF assms(3)] by simp
  have next_off: "NextEntryOffset it = entry_offset es j"
    by (rule before_entry_NextEntryOffset [OF assms(1,2)])
  have sh: "e_shared ?e \<le> length (ik_GetKey F (it_key it))"
      "take (e_shared ?e) (ik_GetKey F (it_key it)) = take (e_shared ?e) (e_key ?e)"
    and ri: "it_restart_index it < length rs"
    using assms(2,3) by (simp_all add: before_entry_def)
  have lim: "(case lim of None \<Rightarrow> it_restarts (it\<lparr>it_current := x\<rparr>) | Some l \<Rightarrow> l) = ?l" for x using F by (simp split: option.split)
  have data: "the (it_data it) = data" and off: "it_global_seqno it = kDisableGlobalSequenceNumber F"
    and num: "it_num_restarts it = length rs" using F by simp_all
  show ?thesis
  proof (cases "e_shared ?e = 0")
    case True
    let ?k = "ik_SetKey F (e_key ?e) (it_key it)"
    let ?it = "it\<lparr>it_current := entry_offset es j, it_key := ?k, it_key_pinned := True, it_value := value_slice es j\<rparr>"
    have "ParseNextDataKey F DecodeEntry lim it =
        (True, ?it\<lparr>it_restart_index := advance_restart_index ?it (it_restart_index it)\<rparr>)"
      using lt dec un sl voff True
      by (simp add: ParseNextDataKey_def Let_def next_off lim data off apply_global_seqno_def value_slice_def K)
    moreover have "advance_restart_index ?it (it_restart_index it) < length rs"
      using advance_restart_index_less [of "it_restart_index it" ?it] ri num by simp
    ultimately show ?thesis using K(4) by fastforce
  next
    case False
    let ?k = "ik_TrimAppend F (e_shared ?e) (drop (e_shared ?e) (e_key ?e)) (it_key it)"
    have "ParseNextDataKey F DecodeEntry lim it =
        (True, it\<lparr>it_current := entry_offset es j, it_key := ?k, it_key_pinned := False, it_value := value_slice es j,
                  it_restart_index := it_restart_index it\<rparr>)"
      using lt dec un sl voff False sh(1) z
      by (simp add: ParseNextDataKey_def Let_def next_off lim data off apply_global_seqno_def value_slice_def K)
    moreover have "ik_GetKey F ?k = e_key ?e" using K(5) [OF sh(1)] sh(2) by simp
    ultimately show ?thesis using ri by blast
  qed
qed

lemma Parse_end:
  assumes "reads_block F data es rs it" and "before_entry F es rs it (length es)"
  shows "ParseNextDataKey F DecodeEntry None it =
     (False, it\<lparr>it_current := length (entries_bytes es), it_restart_index := length rs\<rparr>)"
  using before_entry_NextEntryOffset [OF assms] assms(1)
  by (simp add: ParseNextDataKey_def Let_def reads_block_def)

end
