(* ===== verification/Block_Cursor.thy ===== *)
theory Block_Cursor
  imports Block_Layout
begin

text \<open>
  The refinement between the data block iterator and an abstract cursor over the sorted list of entries.
  The relation \<open>it_rel\<close> ties an iterator to an entry number; every operation of the iterator keeps
  it, including the cache that backward iteration fills, so any sequence of calls behaves like the cursor.
\<close>

section \<open>The simulation relation\<close>

text \<open>The cache of decoded entries that backward iteration keeps.\<close>

definition cached_entry_ok :: "block_entry list \<Rightarrow> bytes \<Rightarrow> CachedPrevEntry \<Rightarrow> nat \<Rightarrow> bool" where
  "cached_entry_ok es buff e m \<longleftrightarrow>
     m < length es \<and> pe_offset e = entry_offset es m \<and> pe_value e = value_slice es m \<and>
     (case pe_key_ptr e of
        Some ptr \<Rightarrow> take (pe_key_size e) ptr = e_key (es ! m)
      | None \<Rightarrow> pe_key_offset e + pe_key_size e \<le> length buff \<and>
                subslice buff (pe_key_offset e) (pe_key_size e) = e_key (es ! m))"

definition cache_from :: "block_entry list \<Rightarrow> 'k DataBlockIter \<Rightarrow> nat \<Rightarrow> bool" where
  "cache_from es it a \<longleftrightarrow>
     (\<forall>i < length (it_prev_entries it).
        cached_entry_ok es (it_prev_entries_keys_buff it) (it_prev_entries it ! i) (a + i))"

definition cache_ok :: "block_entry list \<Rightarrow> 'k DataBlockIter \<Rightarrow> bool" where
  "cache_ok es it \<longleftrightarrow> (\<exists>a. cache_from es it a) \<and> it_prev_entries_idx it < int (length (it_prev_entries it))"

lemma cached_key_ok: "cached_entry_ok es (it_prev_entries_keys_buff it) e m \<Longrightarrow> cached_key it e = e_key (es ! m)"
  by (auto simp: cached_entry_ok_def cached_key_def split: option.splits)

lemma cached_entry_ok_append:
  "cached_entry_ok es buff e m \<Longrightarrow> cached_entry_ok es (buff @ buff2) e m"
  by (auto simp: cached_entry_ok_def subslice_def split: option.splits)

lemma cache_entry_extends:
  assumes "at_entry F es rs it m" and "cache_from es it a" and "m = a + length (it_prev_entries it)"
  shows "cache_from es (cache_entry F it) a"
    "length (it_prev_entries (cache_entry F it)) = Suc (length (it_prev_entries it))"
  using assms
  by (auto simp: cache_from_def cache_entry_def Let_def nth_append less_Suc_eq at_entry_def
      cached_entry_ok_append, auto simp: cached_entry_ok_def subslice_def)

lemma cache_entry_keeps [simp]:
  "at_entry F es rs (cache_entry F it) j = at_entry F es rs it j"
  "reads_block F data es rs (cache_entry F it) = reads_block F data es rs it"
  "it_status (cache_entry F it) = it_status it"
  "it_hash_index (cache_entry F it) = it_hash_index it"
  by (auto simp: cache_entry_def Let_def at_entry_def reads_block_def)

text \<open>The abstract cursor: an entry number, or the number of entries when the iterator is invalid.\<close>

definition it_rel ::
  "'k dbformat \<Rightarrow> bytes \<Rightarrow> block_entry list \<Rightarrow> nat list \<Rightarrow> 'k DataBlockIter \<Rightarrow> nat \<Rightarrow> bool" where
  "it_rel F data es rs it j \<longleftrightarrow>
     reads_block F data es rs it \<and> cache_ok es it \<and> it_status it = Status_OK \<and>
     (if j < length es then at_entry F es rs it j
      else j = length es \<and> it_current it = length (entries_bytes es))"

lemma it_rel_Valid: "it_rel F data es rs it j \<Longrightarrow> it_Valid it \<longleftrightarrow> j < length es"
  using entry_offset_less [of j "length es" es]
  by (auto simp: it_rel_def it_Valid_def reads_block_def at_entry_def split: if_splits)

lemma it_rel_value:
  "it_rel F data es rs it j \<Longrightarrow> j < length es \<Longrightarrow> it_value_bytes it = e_value (es ! j)"
  using layout_slices(1) [of data es rs j]
  by (simp add: it_rel_def it_value_bytes_def reads_block_def at_entry_def value_slice_def)

text \<open>One parse, seen from the cursor.\<close>

lemma Parse_it_rel:
  assumes "reads_block F data es rs it" and "before_entry F es rs it j" and "cache_ok es it"
    and "it_status it = Status_OK"
  obtains it' where "ParseNextDataKey F DecodeEntry None it = (j < length es, it')" and "it_rel F data es rs it' j"
    and "it_prev_entries it' = it_prev_entries it"
    and "it_prev_entries_keys_buff it' = it_prev_entries_keys_buff it"
proof (cases "j < length es")
  case True
  obtain k pinned ri where "ParseNextDataKey F DecodeEntry None it =
     (True, it\<lparr>it_current := entry_offset es j, it_key := k, it_key_pinned := pinned,
              it_value := value_slice es j, it_restart_index := ri\<rparr>)"
     "ik_GetKey F k = e_key (es ! j)" "ri < length rs"
    using Parse_entry [OF assms(1,2) True, of None] by auto
  then show ?thesis
    using True assms that
    by (auto simp: it_rel_def reads_block_def cache_ok_def cache_from_def at_entry_def)
next
  case False
  then have j: "j = length es" using assms(2) by (simp add: before_entry_def)
  show ?thesis
    using Parse_end [OF assms(1)] assms j that
    by (auto simp: it_rel_def reads_block_def cache_ok_def cache_from_def)
qed

lemma it_relD:
  assumes "it_rel F data es rs it j"
  shows "reads_block F data es rs it" "cache_ok es it" "it_status it = Status_OK"
    "block_layout data es rs" "it_data it = Some data" "it_num_restarts it = length rs"
    "it_restarts it = length (entries_bytes es)" "IterKey_contract F"
  using assms by (simp_all add: it_rel_def reads_block_def)

lemma it_rel_before_Suc:
  assumes "it_rel F data es rs it j" and "j < length es"
  shows "before_entry F es rs it (Suc j)"
  using assms at_entry_before_next by (fastforce simp: it_rel_def reads_block_def block_layout_def)

lemma Next_it_rel:
  assumes "it_rel F data es rs it j" and "j < length es"
  shows "it_rel F data es rs (DataBlockIter_Next F it) (Suc j)"
proof -
  obtain it' where "ParseNextDataKey F DecodeEntry None it = (Suc j < length es, it')" "it_rel F data es rs it' (Suc j)"
    using Parse_it_rel [OF it_relD(1) [OF assms(1)] it_rel_before_Suc [OF assms] it_relD(2,3) [OF assms(1)]] by blast
  then show ?thesis by (simp add: DataBlockIter_Next_def)
qed

lemma cache_ok_SeekToRestartPoint [simp]:
  "cache_ok es (SeekToRestartPoint F i it) = cache_ok es it"
  "it_status (SeekToRestartPoint F i it) = it_status it"
  by (simp_all add: cache_ok_def cache_from_def SeekToRestartPoint_def)

lemma layout_rs_0: "block_layout data es rs \<Longrightarrow> rs \<noteq> [] \<and> rs ! 0 = 0"
  by (auto simp: block_layout_def restarts_ok_def hd_conv_nth)

text \<open>Iterators that are ready for a seek: any state related to some position.\<close>

lemma SeekToFirst_it_rel:
  assumes "it_rel F data es rs it j"
  shows "it_rel F data es rs (DataBlockIter_SeekToFirst F it) 0"
proof -
  note it = it_relD [OF assms]
  let ?it = "SeekToRestartPoint F 0 it"
  have b: "before_entry F es rs ?it 0"
    using SeekToRestartPoint_before [OF it(1), of 0] layout_rs_0 [OF it(4)] by simp
  obtain it' where "ParseNextDataKey F DecodeEntry None ?it = (0 < length es, it')" "it_rel F data es rs it' 0"
    using Parse_it_rel [of F data es rs ?it 0] b it by auto
  then show ?thesis using it(5) by (simp add: DataBlockIter_SeekToFirst_def)
qed

lemma skip_to_last_it_rel:
  assumes "reads_block F data es rs it" and "before_entry F es rs it j" and "cache_ok es it"
    and "it_status it = Status_OK" and "j < length es"
  shows "\<exists>it'. skip_to_last F it = Some it' \<and> it_rel F data es rs it' (length es - 1)"
  using assms
proof (induction "length es - j" arbitrary: it j)
  case (Suc n)
  obtain it1 where 1: "ParseNextDataKey F DecodeEntry None it = (j < length es, it1)" "it_rel F data es rs it1 j"
    using Parse_it_rel [OF Suc.prems(1-4)] by blast
  have b: "before_entry F es rs it1 (Suc j)" using it_rel_before_Suc [OF 1(2) Suc.prems(5)] .
  have rd: "reads_block F data es rs it1" "cache_ok es it1" "it_status it1 = Status_OK"
    using 1(2) by (simp_all add: it_rel_def)
  have off: "NextEntryOffset it1 = entry_offset es (Suc j)" "it_restarts it1 = entry_offset es (length es)"
    using before_entry_NextEntryOffset [OF rd(1) b] rd(1) by (simp_all add: reads_block_def)
  show ?case
  proof (cases "Suc j < length es")
    case True
    then have "skip_to_last F it = skip_to_last F it1"
      using 1(1) off entry_offset_less [of "Suc j" "length es" es] Suc.prems(5)
      by (subst skip_to_last.simps) (simp add: Let_def)
    then show ?thesis using Suc.hyps(1) [OF _ rd(1) b rd(2,3) True] Suc.hyps(2) by simp
  next
    case False
    then have j: "j = length es - 1" "Suc j = length es" using Suc.prems(5) by simp_all
    then have "skip_to_last F it = Some it1"
      using 1(1) off by (subst skip_to_last.simps) (simp add: Let_def)
    then show ?thesis using 1(2) j by simp
  qed
qed simp

lemma SeekToLast_it_rel:
  assumes "it_rel F data es rs it j"
  shows "\<exists>it'. DataBlockIter_SeekToLast F it = Some it' \<and> it_rel F data es rs it' (length es - 1)"
proof -
  have rd: "reads_block F data es rs it" "cache_ok es it" "it_status it = Status_OK"
    using assms by (simp_all add: it_rel_def)
  then have lay: "block_layout data es rs" "it_data it = Some data" "it_num_restarts it = length rs"
    by (simp_all add: reads_block_def)
  let ?i = "length rs - 1"
  let ?it = "SeekToRestartPoint F ?i it"
  have i: "?i < length rs" using layout_rs_0 [OF lay(1)] by simp
  have b: "before_entry F es rs ?it (rs ! ?i)" by (rule SeekToRestartPoint_before [OF rd(1) i])
  show ?thesis
  proof (cases "rs ! ?i < length es")
    case True
    then show ?thesis using skip_to_last_it_rel [of F data es rs ?it, OF _ b] rd lay
      by (simp add: DataBlockIter_SeekToLast_def)
  next
    case False
    then have es: "es = []" using restart_entry(3) [OF lay(1) i] by auto
    then have "rs ! ?i = length es" using restart_entry(1) [OF lay(1) i] by simp
    then have "ParseNextDataKey F DecodeEntry None ?it = (False, ?it\<lparr>it_current := length (entries_bytes es), it_restart_index := length rs\<rparr>)"
      using Parse_end [of F data es rs ?it] rd(1) b by simp
    then have "skip_to_last F ?it = Some (?it\<lparr>it_current := length (entries_bytes es), it_restart_index := length rs\<rparr>)"
      by (subst skip_to_last.simps) simp
    then show ?thesis using rd lay es
      by (auto simp: DataBlockIter_SeekToLast_def it_rel_def reads_block_def cache_ok_def cache_from_def SeekToRestartPoint_def)
  qed
qed

section \<open>Backward iteration\<close>

lemma restart_before_layout:
  assumes "reads_block F data es rs it" and "ri < length rs" and "j \<le> length es"
  shows "case restart_before it (entry_offset es j) ri of
           None \<Rightarrow> j = 0
         | Some r \<Rightarrow> r < length rs \<and> rs ! r < j"
  using assms(2)
proof (induction ri)
  case 0
  have "rs ! 0 = 0" using layout_rs_0 assms(1) by (auto simp: reads_block_def)
  then show ?case using GetRestartPoint_layout [OF assms(1) 0] 0 entry_offset_less_iff [of 0 es j] assms(3) by auto
next
  case (Suc ri)
  have "rs ! Suc ri \<le> length es" using restart_entry(1) Suc.prems assms(1) by (auto simp: reads_block_def)
  then show ?case
    using GetRestartPoint_layout [OF assms(1) Suc.prems] Suc entry_offset_less_iff [of "rs ! Suc ri" es j] assms(3)
    by (auto simp: not_le split: option.splits)
qed

lemma cache_until_layout:
  assumes "reads_block F data es rs it" and "before_entry F es rs it m" and "cache_ok es it"
    and "it_status it = Status_OK" and "m < j" and "j \<le> length es"
    and "cache_from es it a" and "m = a + length (it_prev_entries it)"
  shows "\<exists>it'. cache_until F (entry_offset es j) it = Some it' \<and> it_rel F data es rs it' (j - 1) \<and>
     cache_from es it' a"
  using assms
proof (induction "j - m" arbitrary: it m)
  case (Suc n)
  have m: "m < length es" using Suc.prems(5,6) by simp
  obtain it1 where 1: "ParseNextDataKey F DecodeEntry None it = (m < length es, it1)" "it_rel F data es rs it1 m"
      "it_prev_entries it1 = it_prev_entries it" "it_prev_entries_keys_buff it1 = it_prev_entries_keys_buff it"
    using Parse_it_rel [OF Suc.prems(1-4)] by blast
  let ?it = "cache_entry F it1"
  have at: "at_entry F es rs it1 m" using 1(2) m by (simp add: it_rel_def)
  have c: "cache_from es it1 a" "m = a + length (it_prev_entries it1)"
    using Suc.prems(7,8) 1(3,4) by (simp_all add: cache_from_def)
  note cache = cache_entry_extends [OF at c]
  have "it_prev_entries_idx ?it = it_prev_entries_idx it1" by (simp add: cache_entry_def Let_def)
  moreover have "it_prev_entries_idx it1 < int (length (it_prev_entries it1))"
    using it_relD(2) [OF 1(2)] by (simp add: cache_ok_def)
  ultimately have ok: "cache_ok es ?it" using cache by (auto simp: cache_ok_def)
  have rel: "it_rel F data es rs ?it m" using ok 1(2) m by (simp add: it_rel_def)
  have b: "before_entry F es rs ?it (Suc m)" by (rule it_rel_before_Suc [OF rel m])
  have off: "NextEntryOffset ?it = entry_offset es (Suc m)"
    by (rule before_entry_NextEntryOffset [OF it_relD(1) [OF rel] b])
  show ?case
  proof (cases "Suc m < j")
    case True
    then have "cache_until F (entry_offset es j) it = cache_until F (entry_offset es j) ?it"
      using 1(1) m off entry_offset_less [of "Suc m" j es] Suc.prems(6)
      by (subst cache_until.simps) (simp add: Let_def)
    then show ?thesis
      using Suc.hyps(1) [OF _ it_relD(1) [OF rel] b ok it_relD(3) [OF rel] True Suc.prems(6) cache(1)]
        Suc.hyps(2) cache(2) c(2) by simp
  next
    case False
    then have j: "Suc m = j" "j - 1 = m" using Suc.prems(5) by simp_all
    then have "cache_until F (entry_offset es j) it = Some ?it"
      using 1(1) m off by (subst cache_until.simps) (simp add: Let_def)
    then show ?thesis using rel cache(1) j by simp
  qed
qed simp

lemma Prev_it_rel:
  assumes "it_rel F data es rs it j" and "j < length es"
  shows "\<exists>it'. DataBlockIter_Prev F it = Some it' \<and> it_rel F data es rs it' (if j = 0 then length es else j - 1)"
proof -
  note it = it_relD [OF assms(1)]
  have at: "at_entry F es rs it j" using assms by (simp add: it_rel_def)
  let ?idx = "it_prev_entries_idx it"
  show ?thesis
  proof (cases "?idx > 0 \<and> pe_offset (it_prev_entries it ! nat ?idx) = it_current it")
    case True
    obtain a where a: "cache_from es it a" and lt: "?idx < int (length (it_prev_entries it))"
      using it(2) by (auto simp: cache_ok_def)
    let ?i = "nat ?idx"
    have i: "?i < length (it_prev_entries it)" "nat (?idx - 1) = ?i - 1" "0 < ?i" using lt True by auto
    have e: "cached_entry_ok es (it_prev_entries_keys_buff it) (it_prev_entries it ! ?i) (a + ?i)"
      using a i(1) by (simp add: cache_from_def)
    then have j: "a + ?i = j"
      using True at entry_offset_eq_iff [of "a + ?i" es j] by (simp add: cached_entry_ok_def at_entry_def)
    let ?e = "it_prev_entries it ! (?i - 1)"
    have e': "cached_entry_ok es (it_prev_entries_keys_buff it) ?e (j - 1)"
      using a [unfolded cache_from_def, rule_format, of "?i - 1"] i j by (simp add: add.commute)
    let ?it = "it\<lparr>it_prev_entries_idx := ?idx - 1, it_key_pinned := (pe_key_ptr ?e \<noteq> None),
        it_current := pe_offset ?e, it_key := ik_SetKey F (cached_key it ?e) (it_key it), it_value := pe_value ?e\<rparr>"
    have "DataBlockIter_Prev F it = Some ?it" using True i(2) by (simp add: DataBlockIter_Prev_def Let_def)
    moreover have "at_entry F es rs ?it (j - 1)"
      using e' at cached_key_ok [OF e'] IterKey_contractD(4) [OF it(8)]
      by (simp add: cached_entry_ok_def at_entry_def)
    moreover have "cache_ok es ?it" using a lt by (auto simp: cache_ok_def cache_from_def)
    moreover have "j \<noteq> 0" "j - 1 < length es" using j i assms(2) by simp_all
    ultimately show ?thesis using it(1,3) by (simp add: it_rel_def reads_block_def)
  next
    case False
    let ?it = "it\<lparr>it_prev_entries_idx := -1, it_prev_entries := [], it_prev_entries_keys_buff := []\<rparr>"
    have cur: "it_current it = entry_offset es j" and ri: "it_restart_index it < length rs"
      using at by (simp_all add: at_entry_def)
    have rd: "reads_block F data es rs ?it" "cache_ok es ?it" "cache_from es ?it a" for a
      using it(1) by (simp_all add: reads_block_def cache_ok_def cache_from_def)
    have prev: "DataBlockIter_Prev F it =
        (case restart_before ?it (entry_offset es j) (it_restart_index it) of
           None \<Rightarrow> Some (?it\<lparr>it_current := it_restarts it, it_restart_index := it_num_restarts it\<rparr>)
         | Some ri \<Rightarrow>
             (case cache_until F (entry_offset es j) (SeekToRestartPoint F ri ?it) of
                None \<Rightarrow> None
              | Some it \<Rightarrow> Some (it\<lparr>it_prev_entries_idx := int (length (it_prev_entries it)) - 1\<rparr>)))"
      unfolding DataBlockIter_Prev_def if_not_P [OF False] by (simp add: Let_def cur cong: option.case_cong)
    show ?thesis
    proof (cases "restart_before ?it (entry_offset es j) (it_restart_index it)")
      case None
      then have "j = 0" using restart_before_layout [OF rd(1) ri, of j] assms(2) by simp
      then show ?thesis using prev None it rd(1,2)
        by (auto simp: it_rel_def reads_block_def cache_ok_def cache_from_def)
    next
      case (Some r)
      then have r: "r < length rs" "rs ! r < j" using restart_before_layout [OF rd(1) ri, of j] assms(2) by simp_all
      let ?s = "SeekToRestartPoint F r ?it"
      have "cache_from es ?s (rs ! r)" "rs ! r = rs ! r + length (it_prev_entries ?s)"
        by (simp_all add: cache_from_def SeekToRestartPoint_def)
      then obtain it' where it': "cache_until F (entry_offset es j) ?s = Some it'" "it_rel F data es rs it' (j - 1)"
        using cache_until_layout [of F data es rs ?s "rs ! r" j "rs ! r"] rd(1,2) it(3) r assms(2)
          SeekToRestartPoint_before [OF rd(1) r(1)] by auto
      then show ?thesis using prev Some r(2) assms(2)
        by (auto simp: it_rel_def reads_block_def cache_ok_def cache_from_def at_entry_def)
    qed
  qed
qed

section \<open>Seeking\<close>

text \<open>Keys in strictly increasing order, as the builder requires.\<close>

definition keys_sorted :: "(bytes \<Rightarrow> bytes \<Rightarrow> int) \<Rightarrow> bytes list \<Rightarrow> bool" where
  "keys_sorted cmp ks \<longleftrightarrow> (\<forall>i j. i < j \<and> j < length ks \<longrightarrow> cmp (ks ! i) (ks ! j) < 0)"

text \<open>Where a seek must land: the first key that is not less than the target.\<close>

definition lower_bound :: "(bytes \<Rightarrow> bytes \<Rightarrow> int) \<Rightarrow> bytes \<Rightarrow> bytes list \<Rightarrow> nat" where
  "lower_bound cmp target ks = length (takeWhile (\<lambda>k. cmp k target < 0) ks)"

text \<open>Where a backward seek must land: the last key that is not greater than the target, or past the
  end when there is none.\<close>

definition upper_bound_prev :: "(bytes \<Rightarrow> bytes \<Rightarrow> int) \<Rightarrow> bytes \<Rightarrow> bytes list \<Rightarrow> nat" where
  "upper_bound_prev cmp target ks =
     (let j = length (takeWhile (\<lambda>k. cmp k target \<le> 0) ks) in if j = 0 then length ks else j - 1)"

lemma length_takeWhile_eqI:
  assumes "\<forall>i < j. P (xs ! i)" and "j \<le> length xs" and "j < length xs \<Longrightarrow> \<not> P (xs ! j)"
  shows "length (takeWhile P xs) = j"
proof -
  have "takeWhile P xs = take j xs"
  proof (cases "j < length xs")
    case True
    then have "xs = take j xs @ xs ! j # drop (Suc j) xs" by (simp add: id_take_nth_drop)
    then show ?thesis
      using assms True by (metis (no_types, lifting) in_set_conv_nth length_take min.absorb4 nth_take takeWhile_tail takeWhile_eq_all_conv)
  next
    case False
    then show ?thesis using assms by (auto simp: in_set_conv_nth)
  qed
  then show ?thesis using assms(2) by simp
qed

lemma DecodeKey_restart:
  assumes "reads_block F data es rs it" and "i < length rs" and "es \<noteq> []"
  shows "DecodeKey data (entry_offset es (rs ! i)) (it_restarts it) =
     Some (entry_offset es (Suc (rs ! i)) - length (e_value (es ! (rs ! i))) - length (e_key (es ! (rs ! i))),
           0, of_nat (length (e_key (es ! (rs ! i)))))"
    and "subslice data (entry_offset es (Suc (rs ! i)) - length (e_value (es ! (rs ! i))) - length (e_key (es ! (rs ! i))))
       (unat (of_nat (length (e_key (es ! (rs ! i)))) :: u32)) = e_key (es ! (rs ! i))"
proof -
  have lay: "block_layout data es rs" and res: "it_restarts it = length (entries_bytes es)"
    using assms(1) by (simp_all add: reads_block_def)
  note r = restart_entry(3) [OF lay assms(2,3)] restart_entry(2) [OF lay assms(2)]
  have sh: "e_shared (es ! (rs ! i)) = 0" using r by simp
  have "entry_offset es (Suc (rs ! i)) \<le> it_restarts it" "it_restarts it \<le> length data"
    using entry_offset_le [of "Suc (rs ! i)" es] r(1) block_layout_length [OF lay] res by simp_all
  then show "DecodeKey data (entry_offset es (rs ! i)) (it_restarts it) =
     Some (entry_offset es (Suc (rs ! i)) - length (e_value (es ! (rs ! i))) - length (e_key (es ! (rs ! i))),
           0, of_nat (length (e_key (es ! (rs ! i)))))"
    using decode_layout_entry [OF lay r(1), of "it_restarts it"] sh
    by (simp add: DecodeKey_def DecodeEntry_def)
  have "length (e_key (es ! (rs ! i))) < 2 ^ 32"
    using length_e_key_le [OF _ r(1)] layout_offset_less [OF assms(1), of "Suc (rs ! i)"] r(1) lay
    by (fastforce simp: block_layout_def)
  then show "subslice data (entry_offset es (Suc (rs ! i)) - length (e_value (es ! (rs ! i))) - length (e_key (es ! (rs ! i))))
       (unat (of_nat (length (e_key (es ! (rs ! i)))) :: u32)) = e_key (es ! (rs ! i))"
    using layout_slices(2) [OF lay r(1)] sh by (simp add: unat_of_nat_u32)
qed

lemma BinarySeek_loop_layout:
  assumes "reads_block F data es rs it" and "left \<le> right" and "right < length rs"
    and "left = 0 \<or> cmp (e_key (es ! (rs ! left))) target \<le> 0" and "es \<noteq> []"
  shows "\<exists>i. BinarySeek_loop DecodeKey cmp target it left right = Some (Some i) \<and> i < length rs \<and>
     (i = 0 \<or> cmp (e_key (es ! (rs ! i))) target \<le> 0)"
  using assms
proof (induction "right - left" arbitrary: left right rule: less_induct)
  case less
  show ?case
  proof (cases "left < right")
    case False
    then show ?thesis using less.prems by (subst BinarySeek_loop.simps) auto
  next
    case True
    have "4 * length rs < 2 ^ 32"
      using block_layout_length [of data es rs] less.prems(1) by (auto simp: reads_block_def block_layout_def)
    then have "left + right + 1 < 2 ^ 32" using less.prems(2,3) by simp
    then have mod: "(left + right + 1) mod 2 ^ 32 = left + right + 1" by (rule mod_less)
    define mid where "mid = (left + right + 1) div 2"
    have mid: "left < mid" "mid \<le> right" "mid < length rs" using True less.prems(3) by (auto simp: mid_def)
    let ?c = "cmp (e_key (es ! (rs ! mid))) target"
    have data: "it_contents it = data" using less.prems(1) by (simp add: reads_block_def)
    have step: "BinarySeek_loop DecodeKey cmp target it left right =
        (if ?c < 0 then BinarySeek_loop DecodeKey cmp target it mid right
         else if ?c > 0 then BinarySeek_loop DecodeKey cmp target it left (mid - 1)
         else BinarySeek_loop DecodeKey cmp target it mid mid)"
      using True
      by (subst BinarySeek_loop.simps)
        (simp only: mod Let_def GetRestartPoint_layout [OF less.prems(1) mid(3)] data if_True option.case prod.case
          DecodeKey_restart [OF less.prems(1) mid(3) less.prems(5)] simp_thms if_False refl flip: mid_def)
    consider "?c < 0" | "?c > 0" | "?c = 0" by linarith
    then show ?thesis
    proof cases
      case 1
      then show ?thesis using less.hyps [of right mid] less.prems mid step True by simp
    next
      case 2
      then show ?thesis using less.hyps [of "mid - 1" left] less.prems mid step True by simp
    next
      case 3
      then have "BinarySeek_loop DecodeKey cmp target it mid mid = Some (Some mid)"
        by (subst BinarySeek_loop.simps) simp
      then show ?thesis using 3 step mid by simp
    qed
  qed
qed

lemma linear_seek_it_rel:
  assumes "reads_block F data es rs it" and "before_entry F es rs it m" and "cache_ok es it"
    and "it_status it = Status_OK" and "\<forall>i < m. cmp (e_key (es ! i)) target < 0"
  shows "\<exists>it'. linear_seek F cmp target it = Some it' \<and>
     it_rel F data es rs it' (lower_bound cmp target (map e_key es))"
  using assms
proof (induction "length es - m" arbitrary: it m rule: less_induct)
  case less
  have m: "m \<le> length es" using less.prems(2) by (simp add: before_entry_def)
  obtain it1 where 1: "ParseNextDataKey F DecodeEntry None it = (m < length es, it1)" "it_rel F data es rs it1 m"
    using Parse_it_rel [OF less.prems(1-4)] by blast
  note it1 = it_relD [OF 1(2)]
  show ?case
  proof (cases "m < length es \<and> cmp (e_key (es ! m)) target < 0")
    case True
    then have key: "ik_GetInternalKey F (it_key it1) = e_key (es ! m)"
      using 1(2) IterKey_contractD(2) [OF it1(8)] by (simp add: it_rel_def at_entry_def)
    then have "linear_seek F cmp target it = linear_seek F cmp target it1"
      using 1(1) True by (subst linear_seek.simps) simp
    moreover have "\<forall>i < Suc m. cmp (e_key (es ! i)) target < 0" using less.prems(5) True less_Suc_eq by auto
    ultimately show ?thesis
      using less.hyps [OF _ it1(1) it_rel_before_Suc [OF 1(2)] it1(2,3)] True by auto
  next
    case False
    have "lower_bound cmp target (map e_key es) = m"
      unfolding lower_bound_def using less.prems(5) m False by (intro length_takeWhile_eqI) auto
    moreover have "linear_seek F cmp target it = Some it1"
    proof (cases "m < length es")
      case True
      then have "ik_GetInternalKey F (it_key it1) = e_key (es ! m)"
        using 1(2) IterKey_contractD(2) [OF it1(8)] by (simp add: it_rel_def at_entry_def)
      then show ?thesis using 1(1) True False by (subst linear_seek.simps) simp
    qed (use 1(1) in \<open>subst linear_seek.simps, simp\<close>)
    ultimately show ?thesis using 1(2) by simp
  qed
qed

text \<open>Both seeks start with the binary search and the linear search from the restart point it finds.\<close>

lemma binary_then_linear:
  assumes "it_rel F data es rs it j" and "key_comparator cmp" and "keys_sorted cmp (map e_key es)"
  shows "\<exists>i it'. BinarySeek F DecodeKey cmp target 0 (it_num_restarts it - 1) it = Some (Some i, it) \<and>
     linear_seek F cmp target (SeekToRestartPoint F i it) = Some it' \<and>
     it_rel F data es rs it' (lower_bound cmp target (map e_key es))"
proof -
  note it = it_relD [OF assms(1)]
  have rs: "rs \<noteq> []" using layout_rs_0 [OF it(4)] by simp
  have "\<exists>i. BinarySeek_loop DecodeKey cmp target it 0 (length rs - 1) = Some (Some i) \<and> i < length rs \<and>
      (\<forall>m < rs ! i. cmp (e_key (es ! m)) target < 0)"
  proof (cases "es = []")
    case True
    then have "\<forall>r \<in> set rs. r = 0" "sorted_wrt (<) rs" using it(4) by (auto simp: block_layout_def restarts_ok_def)
    then have one: "length rs = 1"
      using rs by (cases rs; cases "tl rs") auto
    moreover have "rs ! 0 = 0" using layout_rs_0 [OF it(4)] by simp
    ultimately show ?thesis by (intro exI [of _ 0]) (simp, subst BinarySeek_loop.simps, simp)
  next
    case False
    obtain i where i: "BinarySeek_loop DecodeKey cmp target it 0 (length rs - 1) = Some (Some i)" "i < length rs"
        "i = 0 \<or> cmp (e_key (es ! (rs ! i))) target \<le> 0"
      using BinarySeek_loop_layout [OF it(1), of 0 "length rs - 1" cmp target] rs False by auto
    have "cmp (e_key (es ! m)) target < 0" if m: "m < rs ! i" for m
    proof -
      have "i \<noteq> 0" using m layout_rs_0 [OF it(4)] by (cases i) auto
      moreover have "cmp (e_key (es ! m)) (e_key (es ! (rs ! i))) < 0"
        using assms(3) m restart_entry(3) [OF it(4) i(2) False] by (auto simp: keys_sorted_def)
      ultimately show ?thesis using i(3) key_comparator.cmp_less_le [OF assms(2)] by blast
    qed
    then show ?thesis using i by blast
  qed
  then obtain i where i: "BinarySeek_loop DecodeKey cmp target it 0 (length rs - 1) = Some (Some i)" "i < length rs"
      "\<forall>m < rs ! i. cmp (e_key (es ! m)) target < 0" by blast
  have "BinarySeek F DecodeKey cmp target 0 (it_num_restarts it - 1) it = Some (Some i, it)"
    using i(1) it(6) by (simp add: BinarySeek_def)
  moreover have "\<exists>it'. linear_seek F cmp target (SeekToRestartPoint F i it) = Some it' \<and>
      it_rel F data es rs it' (lower_bound cmp target (map e_key es))"
    using linear_seek_it_rel [of F data es rs "SeekToRestartPoint F i it", OF _ SeekToRestartPoint_before [OF it(1) i(2)]]
      i(3) it by simp
  ultimately show ?thesis by blast
qed

lemma Seek_it_rel:
  assumes "it_rel F data es rs it j" and "key_comparator cmp" and "keys_sorted cmp (map e_key es)"
  shows "\<exists>it'. DataBlockIter_Seek F cmp target it = Some it' \<and>
     it_rel F data es rs it' (lower_bound cmp target (map e_key es))"
  using binary_then_linear [OF assms, of target] it_relD(5) [OF assms(1)] by (auto simp: DataBlockIter_Seek_def)

lemma lower_bound_le: "lower_bound cmp target ks \<le> length ks"
  by (simp add: lower_bound_def length_takeWhile_le)

lemma lower_bound_nth:
  "i < lower_bound cmp target ks \<Longrightarrow> cmp (ks ! i) target < 0"
  "lower_bound cmp target ks < length ks \<Longrightarrow> \<not> cmp (ks ! lower_bound cmp target ks) target < 0"
  using nth_length_takeWhile [of "\<lambda>k. cmp k target < 0" ks]
  by (auto simp: lower_bound_def) (metis nth_mem set_takeWhileD takeWhile_nth)

lemma upper_bound_prev_cases:
  assumes "key_comparator cmp" and "keys_sorted cmp ks" and "j = lower_bound cmp target ks"
  shows "upper_bound_prev cmp target ks =
    (if j < length ks \<and> cmp (ks ! j) target = 0 then j else if j = 0 then length ks else j - 1)"
proof -
  have le: "j \<le> length ks" using lower_bound_le assms(3) by simp
  have below: "cmp (ks ! i) target \<le> 0" if "i < j" for i using lower_bound_nth(1) [of i cmp target ks] that assms(3) by simp
  show ?thesis
  proof (cases "j < length ks \<and> cmp (ks ! j) target = 0")
    case True
    have "length (takeWhile (\<lambda>k. cmp k target \<le> 0) ks) = Suc j"
    proof (rule length_takeWhile_eqI)
      show "\<forall>i < Suc j. cmp (ks ! i) target \<le> 0" using below True less_Suc_eq by auto
      show "\<not> cmp (ks ! Suc j) target \<le> 0" if "Suc j < length ks"
      proof
        assume "cmp (ks ! Suc j) target \<le> 0"
        moreover have "cmp target (ks ! j) \<le> 0"
          using True key_comparator.cmp_sym [OF assms(1), of target "ks ! j"]
            key_comparator.cmp_sym [OF assms(1), of "ks ! j" target] by linarith
        ultimately have "cmp (ks ! Suc j) (ks ! j) \<le> 0" by (rule key_comparator.cmp_trans [OF assms(1)])
        moreover have "cmp (ks ! j) (ks ! Suc j) < 0" using assms(2) that by (simp add: keys_sorted_def)
        ultimately show False using key_comparator.cmp_sym [OF assms(1), of "ks ! Suc j" "ks ! j"]
          key_comparator.cmp_sym [OF assms(1), of "ks ! j" "ks ! Suc j"] by linarith
      qed
    qed (use True in simp)
    then show ?thesis using True by (simp add: upper_bound_prev_def Let_def)
  next
    case False
    have "length (takeWhile (\<lambda>k. cmp k target \<le> 0) ks) = j"
      using below le False lower_bound_nth(2) [of cmp target ks] assms(3)
      by (intro length_takeWhile_eqI) (auto simp: not_less)
    then show ?thesis using False by (auto simp: upper_bound_prev_def Let_def)
  qed
qed

lemma it_rel_key:
  assumes "it_rel F data es rs it j" and "j < length es"
  shows "ik_GetKey F (it_key it) = e_key (es ! j)" and "ik_GetInternalKey F (it_key it) = e_key (es ! j)"
  using assms IterKey_contractD(2) [OF it_relD(8) [OF assms(1)]] by (simp_all add: it_rel_def at_entry_def)

lemma SeekForPrev_it_rel:
  assumes "it_rel F data es rs it j" and "key_comparator cmp" and "keys_sorted cmp (map e_key es)"
  shows "\<exists>it'. DataBlockIter_SeekForPrev F cmp target it = Some it' \<and>
     it_rel F data es rs it' (upper_bound_prev cmp target (map e_key es))"
proof -
  let ?ks = "map e_key es" and ?p = "lower_bound cmp target (map e_key es)"
  obtain i it1 where 1: "BinarySeek F DecodeKey cmp target 0 (it_num_restarts it - 1) it = Some (Some i, it)"
      "linear_seek F cmp target (SeekToRestartPoint F i it) = Some it1" "it_rel F data es rs it1 ?p"
    using binary_then_linear [OF assms, of target] by blast
  have sfp: "DataBlockIter_SeekForPrev F cmp target it =
      (if \<not> it_Valid it1 then DataBlockIter_SeekToLast F it1 else prev_while_greater F cmp target it1)"
    using 1(1,2) it_relD(5) [OF assms(1)] by (simp add: DataBlockIter_SeekForPrev_def)
  note ub = upper_bound_prev_cases [OF assms(2,3) refl, of target]
  have stop: "prev_while_greater F cmp target it' = Some it'"
    if "it_rel F data es rs it' m" "m < length es \<Longrightarrow> cmp (e_key (es ! m)) target \<le> 0" for it' m
  proof (cases "m < length es")
    case True
    then show ?thesis using that it_rel_key(2) [OF that(1) True] by (subst prev_while_greater.simps) simp
  next
    case False
    then show ?thesis using it_rel_Valid [OF that(1)] by (subst prev_while_greater.simps) simp
  qed
  show ?thesis
  proof (cases "?p < length es")
    case False
    then have "?p = length es" using lower_bound_le [of cmp target ?ks] by simp
    moreover obtain it2 where "DataBlockIter_SeekToLast F it1 = Some it2" "it_rel F data es rs it2 (length es - 1)"
      using SeekToLast_it_rel [OF 1(3)] by blast
    ultimately show ?thesis using sfp it_rel_Valid [OF 1(3)] ub by (cases "length es = 0") auto
  next
    case True
    have ge: "\<not> cmp (e_key (es ! ?p)) target < 0" using lower_bound_nth(2) [of cmp target ?ks] True by simp
    have sfp': "DataBlockIter_SeekForPrev F cmp target it = prev_while_greater F cmp target it1"
      using sfp it_rel_Valid [OF 1(3)] True by simp
    show ?thesis
    proof (cases "cmp (e_key (es ! ?p)) target = 0")
      case eq: True
      then have "prev_while_greater F cmp target it1 = Some it1" by (intro stop [OF 1(3)]) simp
      then show ?thesis using sfp' 1(3) ub eq True by simp
    next
      case False
      obtain it2 where it2: "DataBlockIter_Prev F it1 = Some it2"
          "it_rel F data es rs it2 (if ?p = 0 then length es else ?p - 1)"
        using Prev_it_rel [OF 1(3) True] by blast
      have "prev_while_greater F cmp target it1 = prev_while_greater F cmp target it2"
        using it_rel_Valid [OF 1(3)] True it_rel_key(2) [OF 1(3) True] ge False it2(1)
        by (subst prev_while_greater.simps) simp
      also have "\<dots> = Some it2"
      proof (rule stop [OF it2(2)])
        assume *: "(if ?p = 0 then length es else ?p - 1) < length es"
        then have "?p - 1 < ?p" by (auto split: if_splits)
        then show "cmp (e_key (es ! (if ?p = 0 then length es else ?p - 1))) target \<le> 0"
          using lower_bound_nth(1) [of "?p - 1" cmp target ?ks] True * by (auto split: if_splits)
      qed
      finally show ?thesis using sfp' it2(2) ub False True by (auto split: if_splits)
    qed
  qed
qed

section \<open>Opening a finished block\<close>

lemma Finish_layout:
  assumes "builder_inv D U b es rs" and "length (fst (BlockBuilder_Finish D b)) < 2 ^ 32"
  shows "block_layout (fst (BlockBuilder_Finish D b)) es rs"
proof -
  have "entries_chained es" "restarts_ok es rs" using assms(1) by (simp_all add: builder_inv_def)
  moreover have "\<exists>rest. fst (BlockBuilder_Finish D b) =
      (entries_bytes es @ concat (map (\<lambda>r. EncodeFixed32 (of_nat (entry_offset es r))) rs)) @ rest"
    unfolding Finish_bytes [OF assms(1)] by (auto simp: HashIndexBuilder_Finish_def PutFixed16_def Let_def)
  ultimately show ?thesis using assms(2) by (auto simp: block_layout_def)
qed

text \<open>The offset of the restart array, computed from the size with 64-bit and 32-bit wrap-around.\<close>

lemma restart_offset_word:
  assumes "a + 4 * n < 2 ^ 32"
  shows "ucast ((ucast (of_nat (a + 4 * n) :: u32) :: u64) - ucast (of_nat n :: u32) * 4) = (of_nat a :: u32)"
proof -
  have u: "ucast (of_nat m :: u32) = (of_nat m :: u64)" if "m < 2 ^ 32" for m
    using that by (simp add: unsigned_of_nat take_bit_nat_eq_self word_unat_eq_iff unsigned_ucast_eq)
  have "(ucast (of_nat (a + 4 * n) :: u32) :: u64) - ucast (of_nat n :: u32) * 4 = of_nat a"
    using assms by (subst u, simp, subst u, simp) simp
  then show ?thesis using assms by (simp add: word_unat_eq_iff unsigned_ucast_eq unsigned_of_nat)
qed

lemma Block_new_search:
  assumes "length body = a + 4 * n" and "a + 4 * n + 4 < 2 ^ 32" and "0 < n"
  defines "data \<equiv> body @ EncodeFixed32 (PackIndexTypeAndNumRestarts kDataBlockBinarySearch (of_nat n))"
  shows "Block_new data = \<lparr>bl_data = data, bl_size = length data, bl_restart_offset = of_nat a,
     bl_num_restarts = of_nat n, bl_num_buckets = 0\<rparr>"
proof -
  have len: "length data = a + 4 * n + 4" using assms(1) by (simp add: data_def)
  have foot: "DecodeFixed32 (drop (length data - 4) data) = of_nat n"
    using DecodeFixed32_Encode [of "PackIndexTypeAndNumRestarts kDataBlockBinarySearch (of_nat n)" "[]"] assms(1)
    by (simp add: data_def PackIndexTypeAndNumRestarts_def Let_def)
  have "unat (of_nat n :: u32) < 2 ^ 31" using assms(2) by (simp add: unat_of_nat_u32)
  then have unpack: "UnPackIndexTypeAndNumRestarts (of_nat n) = (kDataBlockBinarySearch, of_nat n)"
    using UnPack_Pack [of "of_nat n" kDataBlockBinarySearch] by (simp add: PackIndexTypeAndNumRestarts_def)
  have num: "Block_NumRestarts data (length data) = of_nat n"
    unfolding Block_NumRestarts_def foot Let_def by (simp add: unpack)
  have ty: "Block_IndexType data (length data) = kDataBlockBinarySearch"
    unfolding Block_IndexType_def foot by (simp add: unpack)
  have "a + 4 * (1 + n) < 2 ^ 32" using assms(2) by simp
  from restart_offset_word [OF this]
  have off: "ucast ((ucast (of_nat (length data) :: u32) :: u64) - ucast (1 + of_nat n :: u32) * 4) = (of_nat a :: u32)"
    unfolding len by (simp add: algebra_simps)
  have "\<not> (ucast (of_nat a :: u32) :: u64) > of_nat (length data) - 4"
  proof -
    have "(of_nat (length data) - 4 :: u64) = of_nat (a + 4 * n)" unfolding len by simp
    moreover have "unat (of_nat (a + 4 * n) :: u64) = a + 4 * n"
      using assms(2) by (simp only: unsigned_of_nat) (simp add: take_bit_nat_eq_self)
    moreover have "unat (ucast (of_nat a :: u32) :: u64) = a"
      using assms(2) by (simp add: unsigned_ucast_eq unsigned_of_nat take_bit_nat_eq_self)
    ultimately show ?thesis by (simp only: word_less_nat_alt)
  qed
  moreover have "\<not> length data < 4" using len by simp
  ultimately show ?thesis by (simp add: Block_new_def Let_def num ty off)
qed

lemma Block_new_hash:
  assumes "length body = a + 4 * n" and "0 < n"
    and "snd ` set (hash_and_restart_pairs h) \<subseteq> {0..253}"
    and "length (HashIndexBuilder_Finish D h body) + 4 \<le> kMaxBlockSizeSupportedByHashIndex"
  defines "data \<equiv> HashIndexBuilder_Finish D h body @
      EncodeFixed32 (PackIndexTypeAndNumRestarts kDataBlockBinaryAndHash (of_nat n))"
  shows "Block_new data = \<lparr>bl_data = data, bl_size = length data, bl_restart_offset = of_nat a,
     bl_num_restarts = of_nat n, bl_num_buckets = num_buckets_of D h\<rparr>"
proof -
  let ?F = "HashIndexBuilder_Finish D h body"
  have len: "length data = length ?F + 4" by (simp add: data_def)
  have sz: "\<not> length data > kMaxBlockSizeSupportedByHashIndex" using assms(4) len by simp
  have F: "length ?F = a + 4 * n + (2 + unat (num_buckets_of D h))"
    using length_Finish [OF assms(3)] assms(1) by (simp add: EstimateSize_eq)
  have lt: "length ?F < 2 ^ 16" using assms(4) by (simp add: kMaxBlockSizeSupportedByHashIndex_def)
  have foot: "DecodeFixed32 (drop (length data - 4) data) = PackIndexTypeAndNumRestarts kDataBlockBinaryAndHash (of_nat n)"
    using DecodeFixed32_Encode [of "PackIndexTypeAndNumRestarts kDataBlockBinaryAndHash (of_nat n)" "[]"]
    by (simp add: data_def)
  have "unat (of_nat n :: u32) < 2 ^ 31" using lt F by (simp add: unat_of_nat_u32)
  note unpack = UnPack_Pack [OF this]
  have num: "Block_NumRestarts data (length data) = of_nat n"
    unfolding Block_NumRestarts_def foot Let_def using sz by (simp add: unpack)
  have ty: "Block_IndexType data (length data) = kDataBlockBinaryAndHash"
    unfolding Block_IndexType_def foot using sz by (simp add: unpack)
  have init: "HashIndex_Initialize data (of_nat (length data - 4)) = (num_buckets_of D h, of_nat (a + 4 * n))"
    using Initialize_Finish [OF assms(3) lt] len assms(1) by (simp add: data_def)
  have small: "a + 4 * n < 2 ^ 16" using lt F by simp
  have c16: "ucast (of_nat (a + 4 * n) :: u16) = (of_nat (a + 4 * n) :: u32)"
    "ucast (of_nat (a + 4 * n) :: u16) = (ucast (of_nat (a + 4 * n) :: u32) :: u64)"
    using small by (simp_all only: word_unat_eq_iff unsigned_ucast_eq unsigned_of_nat) (simp_all add: take_bit_nat_eq_self)
  have off: "ucast ((ucast (of_nat (a + 4 * n) :: u16) :: u64) - ucast (of_nat n :: u32) * 4) = (of_nat a :: u32)"
    unfolding c16(2) using small by (intro restart_offset_word) simp
  have "\<not> (of_nat a :: u32) > ucast (of_nat (a + 4 * n) :: u16)"
  proof -
    have "unat (of_nat (a + 4 * n) :: u32) = a + 4 * n" "unat (of_nat a :: u32) = a"
      using small by (intro unat_of_nat_u32, simp)+
    then show ?thesis unfolding c16(1) by (simp only: word_less_nat_alt)
  qed
  moreover have "\<not> length data < 4" "\<not> length data < 6" using len F by simp_all
  ultimately show ?thesis
    by (simp add: Block_new_def Let_def num ty init off del: of_nat_diff of_nat_add of_nat_mult)
qed

lemma NewDataIterator_it_rel:
  assumes "IterKey_contract F" and "builder_inv D U b es rs" and "length (fst (BlockBuilder_Finish D b)) < 2 ^ 32"
  shows "it_rel F (fst (BlockBuilder_Finish D b)) es rs
     (Block_NewDataIterator F (kDisableGlobalSequenceNumber F) (Block_new (fst (BlockBuilder_Finish D b)))) (length es)"
proof -
  let ?data = "fst (BlockBuilder_Finish D b)"
  let ?body = "entries_bytes es @ concat (map (\<lambda>r. EncodeFixed32 (of_nat (entry_offset es r))) rs)"
  note lay = Finish_layout [OF assms(2,3)]
  have n: "0 < length rs" using layout_rs_0 [OF lay] by simp
  have body: "length ?body = length (entries_bytes es) + 4 * length rs" by (simp add: length_concat_EncodeFixed32)
  have "\<exists>nb. Block_new ?data = \<lparr>bl_data = ?data, bl_size = length ?data,
      bl_restart_offset = of_nat (length (entries_bytes es)), bl_num_restarts = of_nat (length rs), bl_num_buckets = nb\<rparr>"
  proof (cases "writes_hash_index D b")
    case True
    then have "snd ` set (hash_and_restart_pairs (hash_index_builder b)) \<subseteq> {0..253}"
      using assms(2) by (intro hash_pairs_range) (auto simp: builder_inv_def writes_hash_index_def)
    moreover have "length (HashIndexBuilder_Finish D (hash_index_builder b) ?body) + 4 \<le> kMaxBlockSizeSupportedByHashIndex"
      using length_BlockBuilder_Finish [OF assms(2)] True unfolding Finish_bytes [OF assms(2)]
      by (simp add: writes_hash_index_def)
    ultimately show ?thesis
      using Block_new_hash [OF body n] True unfolding Finish_bytes [OF assms(2)] by simp blast
  next
    case False
    have "length (entries_bytes es) + 4 * length rs + 4 < 2 ^ 32"
      using assms(3) False unfolding Finish_bytes [OF assms(2)] by (simp add: length_concat_EncodeFixed32)
    then show ?thesis
      using Block_new_search [OF body _ n] False unfolding Finish_bytes [OF assms(2)] by simp
  qed
  then obtain nb where blk: "Block_new ?data = \<lparr>bl_data = ?data, bl_size = length ?data,
      bl_restart_offset = of_nat (length (entries_bytes es)), bl_num_restarts = of_nat (length rs), bl_num_buckets = nb\<rparr>"
    by blast
  have "length ?data \<ge> length (entries_bytes es) + 4 * length rs + 4"
    unfolding Finish_bytes [OF assms(2)]
    by (auto simp: length_concat_EncodeFixed32 HashIndexBuilder_Finish_def PutFixed16_def Let_def)
  then have "length ?data \<ge> 8" "length rs < 2 ^ 32" "length (entries_bytes es) < 2 ^ 32"
    using n assms(3) by linarith+
  then have sz: "length ?data \<ge> 8" "unat (of_nat (length rs) :: u32) = length rs"
      "unat (of_nat (length (entries_bytes es)) :: u32) = length (entries_bytes es)"
    by (simp_all only: unat_of_nat_u32)
  then have "(of_nat (length rs) :: u32) \<noteq> 0" using n by auto
  then show ?thesis
    using sz lay assms(1)
    by (simp add: it_rel_def reads_block_def blk Block_NewDataIterator_def Let_def DataBlockIter_Initialize_def
        DataBlockIter_new_def cache_ok_def cache_from_def)
qed

section \<open>The iterator as a cursor over the sorted entries\<close>

datatype iter_op = Op_SeekToFirst | Op_SeekToLast | Op_Seek bytes | Op_SeekForPrev bytes | Op_Next | Op_Prev

text \<open>A client calls \<^verbatim>\<open>Next\<close> and \<^verbatim>\<open>Prev\<close> only on a valid iterator.\<close>

fun iter_step ::
  "'k dbformat \<Rightarrow> (bytes \<Rightarrow> bytes \<Rightarrow> int) \<Rightarrow> iter_op \<Rightarrow> 'k DataBlockIter \<Rightarrow> 'k DataBlockIter option" where
  "iter_step F cmp Op_SeekToFirst it = Some (DataBlockIter_SeekToFirst F it)"
| "iter_step F cmp Op_SeekToLast it = DataBlockIter_SeekToLast F it"
| "iter_step F cmp (Op_Seek target) it = DataBlockIter_Seek F cmp target it"
| "iter_step F cmp (Op_SeekForPrev target) it = DataBlockIter_SeekForPrev F cmp target it"
| "iter_step F cmp Op_Next it = (if it_Valid it then Some (DataBlockIter_Next F it) else Some it)"
| "iter_step F cmp Op_Prev it = (if it_Valid it then DataBlockIter_Prev F it else Some it)"

fun iter_run ::
  "'k dbformat \<Rightarrow> (bytes \<Rightarrow> bytes \<Rightarrow> int) \<Rightarrow> iter_op list \<Rightarrow> 'k DataBlockIter \<Rightarrow> 'k DataBlockIter option" where
  "iter_run F cmp [] it = Some it"
| "iter_run F cmp (op # ops) it =
     (case iter_step F cmp op it of None \<Rightarrow> None | Some it \<Rightarrow> iter_run F cmp ops it)"

definition it_view :: "'k dbformat \<Rightarrow> 'k DataBlockIter \<Rightarrow> (bytes \<times> bytes) option" where
  "it_view F it = (if it_Valid it then Some (ik_GetKey F (it_key it), it_value_bytes it) else None)"

text \<open>The specification: a position in the list of entries.\<close>

fun cursor_step :: "(bytes \<Rightarrow> bytes \<Rightarrow> int) \<Rightarrow> bytes list \<Rightarrow> nat \<Rightarrow> iter_op \<Rightarrow> nat" where
  "cursor_step cmp ks j Op_SeekToFirst = 0"
| "cursor_step cmp ks j Op_SeekToLast = length ks - 1"
| "cursor_step cmp ks j (Op_Seek target) = lower_bound cmp target ks"
| "cursor_step cmp ks j (Op_SeekForPrev target) = upper_bound_prev cmp target ks"
| "cursor_step cmp ks j Op_Next = (if j < length ks then j + 1 else j)"
| "cursor_step cmp ks j Op_Prev = (if j < length ks then (if j = 0 then length ks else j - 1) else j)"

definition cursor_run :: "(bytes \<Rightarrow> bytes \<Rightarrow> int) \<Rightarrow> bytes list \<Rightarrow> iter_op list \<Rightarrow> nat" where
  "cursor_run cmp ks ops = foldl (cursor_step cmp ks) (length ks) ops"

definition cursor_view :: "(bytes \<times> bytes) list \<Rightarrow> nat \<Rightarrow> (bytes \<times> bytes) option" where
  "cursor_view kvs j = (if j < length kvs then Some (kvs ! j) else None)"

lemma iter_step_it_rel:
  assumes "it_rel F data es rs it j" and "key_comparator cmp" and "keys_sorted cmp (map e_key es)"
  shows "\<exists>it'. iter_step F cmp op it = Some it' \<and> it_rel F data es rs it' (cursor_step cmp (map e_key es) j op)"
proof (cases op)
  case Op_Next
  then show ?thesis using Next_it_rel [OF assms(1)] it_rel_Valid [OF assms(1)] assms(1) by auto
next
  case Op_Prev
  then show ?thesis using Prev_it_rel [OF assms(1)] it_rel_Valid [OF assms(1)] assms(1) by auto
next
  case Op_SeekToLast
  then show ?thesis using SeekToLast_it_rel [OF assms(1)] by simp
qed (use SeekToFirst_it_rel [OF assms(1)] Seek_it_rel [OF assms] SeekForPrev_it_rel [OF assms] in auto)

lemma iter_run_it_rel:
  assumes "it_rel F data es rs it j" and "key_comparator cmp" and "keys_sorted cmp (map e_key es)"
  shows "\<exists>it'. iter_run F cmp ops it = Some it' \<and>
     it_rel F data es rs it' (foldl (cursor_step cmp (map e_key es)) j ops)"
  using assms(1)
proof (induction ops arbitrary: it j)
  case (Cons op ops)
  obtain it1 where "iter_step F cmp op it = Some it1" "it_rel F data es rs it1 (cursor_step cmp (map e_key es) j op)"
    using iter_step_it_rel [OF Cons.prems assms(2,3)] by blast
  then show ?case using Cons.IH by fastforce
qed auto

lemma it_rel_view:
  assumes "it_rel F data es rs it j"
  shows "it_view F it = cursor_view (map (\<lambda>e. (e_key e, e_value e)) es) j"
  using it_rel_Valid [OF assms] it_rel_key(1) [OF assms] it_rel_value [OF assms]
  by (simp add: it_view_def cursor_view_def)

lemma built_block_it_rel:
  assumes "IterKey_contract F" and "BlockBuilder_new D interval use_delta False index_type ratio = Some b0"
    and "BlockBuilder_Adds D U kvs b0 = Some b" and "length (fst (BlockBuilder_Finish D b)) < 2 ^ 32"
  shows "\<exists>es rs. map (\<lambda>e. (e_key e, e_value e)) es = kvs \<and>
     it_rel F (fst (BlockBuilder_Finish D b)) es rs
       (Block_NewDataIterator F (kDisableGlobalSequenceNumber F) (Block_new (fst (BlockBuilder_Finish D b)))) (length es)"
proof -
  obtain es rs where "map (\<lambda>e. (e_key e, e_value e)) es = kvs" "builder_inv D U b es rs"
    using Adds_builder_inv [OF new_builder_inv [OF assms(2)], of U kvs] assms(3) by auto
  then show ?thesis using NewDataIterator_it_rel [OF assms(1) _ assms(4)] by blast
qed

section \<open>Properties\<close>

text \<open>C1: A data block iterator is a faithful cursor.  Build a block from any keys in increasing order
  (any restart interval, with or without delta encoding and hash index) that stays below 4 GiB, open it,
  and call \<^verbatim>\<open>SeekToFirst\<close>, \<^verbatim>\<open>SeekToLast\<close>, \<^verbatim>\<open>Seek\<close>,
  \<^verbatim>\<open>SeekForPrev\<close>, \<^verbatim>\<open>Next\<close> and \<^verbatim>\<open>Prev\<close> in any order: every call returns, and
  the iterator is at all times valid exactly when the abstract cursor points to an entry, with that entry's
  key and value.\<close>

theorem block_iterator_refines_cursor:
  assumes "IterKey_contract F" and "key_comparator cmp"
    and "BlockBuilder_new D interval use_delta False index_type ratio = Some b0"
    and "BlockBuilder_Adds D U kvs b0 = Some b" and "length (fst (BlockBuilder_Finish D b)) < 2 ^ 32"
    and "keys_sorted cmp (map fst kvs)"
  shows "\<exists>it. iter_run F cmp ops
       (Block_NewDataIterator F (kDisableGlobalSequenceNumber F) (Block_new (fst (BlockBuilder_Finish D b)))) = Some it \<and>
     it_view F it = cursor_view kvs (cursor_run cmp (map fst kvs) ops)"
proof -
  obtain es rs where es: "map (\<lambda>e. (e_key e, e_value e)) es = kvs" and rel: "it_rel F (fst (BlockBuilder_Finish D b)) es rs
       (Block_NewDataIterator F (kDisableGlobalSequenceNumber F) (Block_new (fst (BlockBuilder_Finish D b)))) (length es)"
    using built_block_it_rel [OF assms(1,3,4,5)] by blast
  have ks: "map e_key es = map fst kvs" by (simp add: es [symmetric] comp_def)
  then have len: "length es = length (map fst kvs)" by (metis length_map)
  obtain it where "iter_run F cmp ops (Block_NewDataIterator F (kDisableGlobalSequenceNumber F)
        (Block_new (fst (BlockBuilder_Finish D b)))) = Some it"
      and it: "it_rel F (fst (BlockBuilder_Finish D b)) es rs it (cursor_run cmp (map fst kvs) ops)"
    using iter_run_it_rel [OF rel assms(2), of ops] assms(6) unfolding ks len cursor_run_def by blast
  then show ?thesis using it_rel_view [OF it] unfolding es by blast
qed

text \<open>A key format in which an \<^verbatim>\<open>IterKey\<close> is its bytes, and a small block.\<close>

definition plain_dbformat :: "bytes dbformat" where
  "plain_dbformat =
     \<lparr>ik_new = [], ik_Clear = (\<lambda>k. []), ik_Size = length, ik_SetKey = (\<lambda>s k. s),
      ik_TrimAppend = (\<lambda>n s k. take n k @ s), ik_GetKey = id, ik_GetInternalKey = id,
      ik_GetUserKey = (\<lambda>k. take (length k - 8) k), ik_IsKeyPinned = (\<lambda>k. False), ik_OwnKey = id,
      ik_UpdateInternalKey = (\<lambda>seq t k. take (length k - 8) k @ EncodeFixed64 (push_bit 8 seq OR ucast t)),
      ExtractUserKey = (\<lambda>k. take (length k - 8) k), ExtractValueType = (\<lambda>k. k ! (length k - 8)),
      kDisableGlobalSequenceNumber = -1, point_types = [0, 1]\<rparr>"

lemma plain_dbformat_contract: "IterKey_contract plain_dbformat"
  by (simp add: IterKey_contract_def plain_dbformat_def)

definition example_entries :: "(bytes \<times> bytes) list" where
  "example_entries = [([97], [1]), ([97, 98], [2, 2]), ([97, 99], [3])]"

definition example_builder :: "int BlockBuilder" where
  "example_builder = the (BlockBuilder_new int_double 2 True False kDataBlockBinarySearch 1)"

definition example_block :: bytes where
  "example_block =
     [0, 1, 1, 97, 1, 1, 1, 2, 98, 2, 2, 0, 2, 1, 97, 99, 3, 0, 0, 0, 0, 11, 0, 0, 0, 2, 0, 0, 0]"

lemma example_block_built:
  "\<exists>b. BlockBuilder_Adds int_double id example_entries example_builder = Some b \<and>
       fst (BlockBuilder_Finish int_double b) = example_block"
proof -
  have "map_option (\<lambda>b. fst (BlockBuilder_Finish int_double b))
      (BlockBuilder_Adds int_double id example_entries example_builder) = Some example_block"
    by code_simp
  then show ?thesis by auto
qed

lemma example_keys_sorted: "keys_sorted BytewiseCompare (map fst example_entries)"
  by (auto simp: keys_sorted_def example_entries_def BytewiseCompare_def Slice_compare_iffs less_Suc_eq numeral_3_eq_3)

lemma example_builder_new:
  "BlockBuilder_new int_double 2 True False kDataBlockBinarySearch 1 = Some example_builder"
  by (simp add: example_builder_def BlockBuilder_new_def Let_def)

theorem block_iterator_refines_cursor_witness:
  "\<exists>it. iter_run plain_dbformat BytewiseCompare [Op_Seek [97, 97], Op_Next, Op_Prev, Op_Prev]
         (Block_NewDataIterator plain_dbformat (kDisableGlobalSequenceNumber plain_dbformat) (Block_new example_block)) = Some it \<and>
     it_view plain_dbformat it = Some ([97], [1])"
proof -
  obtain b where b: "BlockBuilder_Adds int_double id example_entries example_builder = Some b"
      "fst (BlockBuilder_Finish int_double b) = example_block" using example_block_built by blast
  have len: "length (fst (BlockBuilder_Finish int_double b)) < 2 ^ 32" by (simp add: b(2) example_block_def)
  have "cursor_view example_entries (cursor_run BytewiseCompare (map fst example_entries)
      [Op_Seek [97, 97], Op_Next, Op_Prev, Op_Prev]) = Some ([97], [1])"
    by (simp add: cursor_view_def cursor_run_def example_entries_def lower_bound_def BytewiseCompare_def Slice_compare_iffs)
  then show ?thesis
    using block_iterator_refines_cursor [OF plain_dbformat_contract bytewise.key_comparator_axioms example_builder_new
        b(1) len example_keys_sorted, of "[Op_Seek [97, 97], Op_Next, Op_Prev, Op_Prev]"]
    by (simp only: b(2))
qed

text \<open>C5: \<^verbatim>\<open>Seek\<close> finds what a linear search finds: on a block built from keys in increasing
  order, seeking ends at the first entry whose key is not less than the target, and leaves the iterator
  invalid with status OK when there is none.\<close>

theorem block_seek_finds_first:
  assumes "IterKey_contract F" and "key_comparator cmp"
    and "BlockBuilder_new D interval use_delta False index_type ratio = Some b0"
    and "BlockBuilder_Adds D U kvs b0 = Some b" and "length (fst (BlockBuilder_Finish D b)) < 2 ^ 32"
    and "keys_sorted cmp (map fst kvs)"
  shows "\<exists>it. DataBlockIter_Seek F cmp target
       (Block_NewDataIterator F (kDisableGlobalSequenceNumber F) (Block_new (fst (BlockBuilder_Finish D b)))) = Some it \<and>
     it_view F it = find (\<lambda>(k, v). cmp k target \<ge> 0) kvs \<and> it_status it = Status_OK"
proof -
  obtain es rs where es: "map (\<lambda>e. (e_key e, e_value e)) es = kvs" and rel: "it_rel F (fst (BlockBuilder_Finish D b)) es rs
       (Block_NewDataIterator F (kDisableGlobalSequenceNumber F) (Block_new (fst (BlockBuilder_Finish D b)))) (length es)"
    using built_block_it_rel [OF assms(1,3,4,5)] by blast
  have ks: "map e_key es = map fst kvs" by (simp add: es [symmetric] comp_def)
  then obtain it where it: "DataBlockIter_Seek F cmp target
       (Block_NewDataIterator F (kDisableGlobalSequenceNumber F) (Block_new (fst (BlockBuilder_Finish D b)))) = Some it"
      "it_rel F (fst (BlockBuilder_Finish D b)) es rs it (lower_bound cmp target (map fst kvs))"
    using Seek_it_rel [OF rel assms(2), of target] assms(6) by auto
  have "cursor_view kvs (lower_bound cmp target (map fst kvs)) = find (\<lambda>(k, v). cmp k target \<ge> 0) kvs"
    by (induction kvs) (auto simp: cursor_view_def lower_bound_def)
  then show ?thesis using it it_rel_view [OF it(2)] it_relD(3) [OF it(2)] es by simp
qed

theorem block_seek_finds_first_witness:
  "\<exists>it. DataBlockIter_Seek plain_dbformat BytewiseCompare [97, 98, 1]
         (Block_NewDataIterator plain_dbformat (kDisableGlobalSequenceNumber plain_dbformat) (Block_new example_block)) = Some it \<and>
     it_view plain_dbformat it = Some ([97, 99], [3])"
proof -
  obtain b where b: "BlockBuilder_Adds int_double id example_entries example_builder = Some b"
      "fst (BlockBuilder_Finish int_double b) = example_block" using example_block_built by blast
  have len: "length (fst (BlockBuilder_Finish int_double b)) < 2 ^ 32" by (simp add: b(2) example_block_def)
  have "find (\<lambda>(k, v). BytewiseCompare k [97, 98, 1] \<ge> 0) example_entries = Some ([97, 99], [3])"
    by (simp add: example_entries_def BytewiseCompare_def Slice_compare_iffs flip: not_less)
  then show ?thesis
    using block_seek_finds_first [OF plain_dbformat_contract bytewise.key_comparator_axioms example_builder_new
        b(1) len example_keys_sorted, of "[97, 98, 1]"]
    by (simp only: b(2)) blast
qed

text \<open>The fast path of the entry decoder, which reads three one-byte lengths without decoding
  varints, returns what decoding the three varints returns, for every input with at least three bytes
  before the limit.\<close>

theorem decode_entry_fast_path:
  assumes "p + 3 \<le> limit" and "limit \<le> length data"
  shows "DecodeEntry data p limit = decode_entry_slow data p limit"
  unfolding DecodeEntry_def by (rule decode_entry_lengths_slow [OF assms])

theorem decode_entry_fast_path_witness:
  "DecodeEntry example_block 0 17 = decode_entry_slow example_block 0 17"
  by (rule decode_entry_fast_path) (simp_all add: example_block_def)


end
