(* ===== verification/Heap.thy ===== *)
theory Heap
  imports Comparator "HOL-Library.Multiset"
begin

text \<open>
  The binary heap of merging iterators: \<^verbatim>\<open>util/heap.h\<close>.  The heap keeps its elements in an
  array and caches in \<^verbatim>\<open>root_cmp_cache_\<close> which child of the root is larger, to save a comparison
  when the root is replaced.  The comparison is the interface \<open>heap_order\<close>, a strict weak order; it
  is interpreted for the two iterator comparators of \<^verbatim>\<open>table/iter_heap.h\<close>.  A cache entry that
  pointed to the root itself would make \<^verbatim>\<open>downheap\<close> run forever, so that loop is a partial function
  and its termination is part of the invariant proof.
\<close>

section \<open>Definitions\<close>

definition kMaxSizet :: nat where
  "kMaxSizet = 2 ^ 64 - 1"

record 'a BinaryHeap =
  heap_data :: "'a list"
  root_cmp_cache :: nat

definition BinaryHeap_new :: "'a BinaryHeap" where
  "BinaryHeap_new = \<lparr>heap_data = [], root_cmp_cache = kMaxSizet\<rparr>"

definition get_parent :: "nat \<Rightarrow> nat" where
  "get_parent index = (index - 1) div 2"

definition get_left :: "nat \<Rightarrow> nat" where
  "get_left index = 2 * index + 1"

definition get_right :: "nat \<Rightarrow> nat" where
  "get_right index = 2 * index + 2"

text \<open>The loop of \<^verbatim>\<open>upheap\<close>: the array and the place where \<open>v\<close> goes.\<close>

function upheap_loop :: "('a \<Rightarrow> 'a \<Rightarrow> bool) \<Rightarrow> 'a \<Rightarrow> 'a list \<Rightarrow> nat \<Rightarrow> 'a list \<times> nat" where
  "upheap_loop cmp v data index =
     (if index > 0 then
        (let parent = get_parent index in
         if \<not> cmp (data ! parent) v then (data, index)
         else upheap_loop cmp v (data[index := data ! parent]) parent)
      else (data, index))"
  by pat_completeness auto
termination
  by (relation "measure (\<lambda>(cmp, v, data, index). index)") (auto simp: get_parent_def)

declare upheap_loop.simps [simp del]

definition upheap :: "('a \<Rightarrow> 'a \<Rightarrow> bool) \<Rightarrow> nat \<Rightarrow> 'a BinaryHeap \<Rightarrow> 'a BinaryHeap" where
  "upheap cmp index h =
     (let v = heap_data h ! index;
          (data, index) = upheap_loop cmp v (heap_data h) index
      in \<lparr>heap_data = data[index := v], root_cmp_cache = kMaxSizet\<rparr>)"

partial_function (option) downheap_loop ::
  "('a \<Rightarrow> 'a \<Rightarrow> bool) \<Rightarrow> nat \<Rightarrow> 'a \<Rightarrow> 'a list \<Rightarrow> nat \<Rightarrow> nat \<Rightarrow> ('a list \<times> nat \<times> nat) option" where
  [code]: "downheap_loop cmp cache v data index picked_child =
     (let left_child = get_left index in
      if left_child \<ge> length data then Some (data, index, picked_child)
      else
        (let right_child = left_child + 1;
             picked_child = left_child;
             picked_child =
               (if index = 0 \<and> cache < length data then cache
                else if right_child < length data \<and> cmp (data ! left_child) (data ! right_child) then right_child
                else picked_child)
         in if \<not> cmp v (data ! picked_child) then Some (data, index, picked_child)
            else downheap_loop cmp cache v (data[index := data ! picked_child]) picked_child picked_child))"

definition downheap :: "('a \<Rightarrow> 'a \<Rightarrow> bool) \<Rightarrow> nat \<Rightarrow> 'a BinaryHeap \<Rightarrow> 'a BinaryHeap option" where
  "downheap cmp index h =
     (let v = heap_data h ! index
      in case downheap_loop cmp (root_cmp_cache h) v (heap_data h) index kMaxSizet of
           None \<Rightarrow> None
         | Some (data, index, picked_child) \<Rightarrow>
             Some \<lparr>heap_data = data[index := v],
                   root_cmp_cache = (if index = 0 then picked_child else kMaxSizet)\<rparr>)"

definition heap_push :: "('a \<Rightarrow> 'a \<Rightarrow> bool) \<Rightarrow> 'a \<Rightarrow> 'a BinaryHeap \<Rightarrow> 'a BinaryHeap" where
  "heap_push cmp v h =
     (let h = h\<lparr>heap_data := heap_data h @ [v]\<rparr> in upheap cmp (length (heap_data h) - 1) h)"

definition heap_top :: "'a BinaryHeap \<Rightarrow> 'a" where
  "heap_top h = hd (heap_data h)"

definition heap_replace_top :: "('a \<Rightarrow> 'a \<Rightarrow> bool) \<Rightarrow> 'a \<Rightarrow> 'a BinaryHeap \<Rightarrow> 'a BinaryHeap option" where
  "heap_replace_top cmp v h = downheap cmp 0 (h\<lparr>heap_data := (heap_data h)[0 := v]\<rparr>)"

definition heap_pop :: "('a \<Rightarrow> 'a \<Rightarrow> bool) \<Rightarrow> 'a BinaryHeap \<Rightarrow> 'a BinaryHeap option" where
  "heap_pop cmp h =
     (let data = (heap_data h)[0 := last (heap_data h)];
          h = h\<lparr>heap_data := butlast data\<rparr>
      in if heap_data h \<noteq> [] then downheap cmp 0 h else Some (h\<lparr>root_cmp_cache := kMaxSizet\<rparr>))"

definition heap_clear :: "'a BinaryHeap \<Rightarrow> 'a BinaryHeap" where
  "heap_clear h = \<lparr>heap_data = [], root_cmp_cache = kMaxSizet\<rparr>"

definition heap_empty :: "'a BinaryHeap \<Rightarrow> bool" where
  "heap_empty h \<longleftrightarrow> heap_data h = []"

text \<open>The iterator comparators of \<^verbatim>\<open>table/iter_heap.h\<close>, on the keys of the iterators they compare.\<close>

definition MaxIteratorComparator :: "(bytes \<Rightarrow> bytes \<Rightarrow> int) \<Rightarrow> ('i \<Rightarrow> bytes) \<Rightarrow> 'i \<Rightarrow> 'i \<Rightarrow> bool" where
  "MaxIteratorComparator Compare key a b \<longleftrightarrow> Compare (key a) (key b) < 0"

definition MinIteratorComparator :: "(bytes \<Rightarrow> bytes \<Rightarrow> int) \<Rightarrow> ('i \<Rightarrow> bytes) \<Rightarrow> 'i \<Rightarrow> 'i \<Rightarrow> bool" where
  "MinIteratorComparator Compare key a b \<longleftrightarrow> Compare (key a) (key b) > 0"

section \<open>The heap property\<close>

locale heap_order =
  fixes cmp :: "'a \<Rightarrow> 'a \<Rightarrow> bool"
  assumes asym: "cmp a b \<Longrightarrow> \<not> cmp b a"
    and neg_trans: "\<not> cmp a b \<Longrightarrow> \<not> cmp b c \<Longrightarrow> \<not> cmp a c"
begin

lemma irrefl: "\<not> cmp a a"
  using asym by blast

lemma not_cmp_of_cmp: "cmp a b \<Longrightarrow> \<not> cmp c b \<Longrightarrow> \<not> cmp c a"
  using asym neg_trans by blast

end

text \<open>No child is larger than its parent.\<close>

definition is_heap :: "('a \<Rightarrow> 'a \<Rightarrow> bool) \<Rightarrow> 'a list \<Rightarrow> bool" where
  "is_heap cmp xs \<longleftrightarrow> (\<forall>i. 0 < i \<and> i < length xs \<longrightarrow> \<not> cmp (xs ! get_parent i) (xs ! i))"

text \<open>A heap except for the edge above \<open>k\<close> (while an element rises), and except for the edges below
  \<open>k\<close> (while an element sinks).\<close>

definition heap_but_above :: "('a \<Rightarrow> 'a \<Rightarrow> bool) \<Rightarrow> 'a list \<Rightarrow> nat \<Rightarrow> bool" where
  "heap_but_above cmp xs k \<longleftrightarrow>
     (\<forall>i. 0 < i \<and> i < length xs \<and> i \<noteq> k \<longrightarrow> \<not> cmp (xs ! get_parent i) (xs ! i)) \<and>
     (\<forall>i. 0 < k \<and> 0 < i \<and> i < length xs \<and> get_parent i = k \<longrightarrow> \<not> cmp (xs ! get_parent k) (xs ! i))"

definition heap_but_below :: "('a \<Rightarrow> 'a \<Rightarrow> bool) \<Rightarrow> 'a list \<Rightarrow> nat \<Rightarrow> bool" where
  "heap_but_below cmp xs k \<longleftrightarrow>
     (\<forall>i. 0 < i \<and> i < length xs \<and> get_parent i \<noteq> k \<longrightarrow> \<not> cmp (xs ! get_parent i) (xs ! i)) \<and>
     (\<forall>i. 0 < k \<and> 0 < i \<and> i < length xs \<and> get_parent i = k \<longrightarrow> \<not> cmp (xs ! get_parent k) (xs ! i))"

text \<open>The cache, when in range, names a largest child of the root.\<close>

definition root_cache_ok :: "('a \<Rightarrow> 'a \<Rightarrow> bool) \<Rightarrow> 'a list \<Rightarrow> nat \<Rightarrow> bool" where
  "root_cache_ok cmp xs cache \<longleftrightarrow>
     (cache < length xs \<longrightarrow> 0 < cache \<and> get_parent cache = 0 \<and>
        (\<forall>i. 0 < i \<and> i < length xs \<and> get_parent i = 0 \<longrightarrow> \<not> cmp (xs ! cache) (xs ! i)))"

definition heap_inv :: "('a \<Rightarrow> 'a \<Rightarrow> bool) \<Rightarrow> 'a BinaryHeap \<Rightarrow> bool" where
  "heap_inv cmp h \<longleftrightarrow> is_heap cmp (heap_data h) \<and> root_cache_ok cmp (heap_data h) (root_cmp_cache h) \<and>
     length (heap_data h) < kMaxSizet"

lemma get_parent_less: "0 < i \<Longrightarrow> get_parent i < i"
  by (simp add: get_parent_def)

lemma get_parent_child:
  "0 < i \<Longrightarrow> get_parent i = k \<longleftrightarrow> i = get_left k \<or> i = get_right k"
  by (auto simp: get_parent_def get_left_def get_right_def)

lemma swap_update: "i < length xs \<Longrightarrow> j < length xs \<Longrightarrow> i \<noteq> j \<Longrightarrow>
    xs[i := xs ! j, j := xs ! i] ! m = (if m = i then xs ! j else if m = j then xs ! i else xs ! m)"
  by (auto simp: nth_list_update)

context heap_order
begin

text \<open>One step up and one step down.\<close>

lemma rise_step:
  assumes heap: "heap_but_above cmp xs k" and "0 < k" "k < length xs" and "cmp (xs ! get_parent k) (xs ! k)"
  shows "heap_but_above cmp (xs[k := xs ! get_parent k, get_parent k := xs ! k]) (get_parent k)"
proof -
  let ?p = "get_parent k"
  let ?ys = "xs[k := xs ! ?p, ?p := xs ! k]"
  have p: "?p < k" "?p < length xs" "?p \<noteq> k" using get_parent_less [of k] assms(2,3) by auto
  have nth: "?ys ! m = (if m = k then xs ! ?p else if m = ?p then xs ! k else xs ! m)" for m
    using swap_update [of k xs ?p m] p assms(3) by auto
  have ok: "\<not> cmp (xs ! get_parent i) (xs ! i)" if "0 < i" "i < length xs" "i \<noteq> k" for i
    using heap that by (simp add: heap_but_above_def)
  have ok2: "\<not> cmp (xs ! ?p) (xs ! i)" if "0 < i" "i < length xs" "get_parent i = k" for i
    using heap that assms(2) by (simp add: heap_but_above_def)
  show ?thesis
    unfolding heap_but_above_def
  proof (intro conjI allI impI)
    fix i assume i: "0 < i \<and> i < length ?ys \<and> i \<noteq> ?p"
    show "\<not> cmp (?ys ! get_parent i) (?ys ! i)"
    proof (cases "i = k")
      case True
      then show ?thesis using nth p(3) asym [OF assms(4)] by simp
    next
      case False
      then have 1: "\<not> cmp (xs ! get_parent i) (xs ! i)" using ok i by simp
      consider "get_parent i = k" | "get_parent i = ?p" | "get_parent i \<noteq> k" "get_parent i \<noteq> ?p" by blast
      then show ?thesis
      proof cases
        case 1
        then show ?thesis using ok2 i nth False by simp
      next
        case 2
        then show ?thesis using 1 nth False i p(3) neg_trans [OF asym [OF assms(4)]] by simp
      qed (use 1 nth False i in simp)
    qed
  next
    fix i assume i: "0 < ?p \<and> 0 < i \<and> i < length ?ys \<and> get_parent i = ?p"
    have pp: "\<not> cmp (xs ! get_parent ?p) (xs ! ?p)" using ok [of ?p] i p by simp
    have "get_parent ?p \<noteq> k" "get_parent ?p \<noteq> ?p" using get_parent_less [of ?p] i p by auto
    then have g: "?ys ! get_parent ?p = xs ! get_parent ?p" using nth by simp
    show "\<not> cmp (?ys ! get_parent ?p) (?ys ! i)"
    proof (cases "i = k")
      case True
      then show ?thesis using pp g nth by simp
    next
      case False
      then have "i \<noteq> ?p" using get_parent_less [of i] i by auto
      then show ?thesis using False g nth pp ok [of i] i neg_trans by simp
    qed
  qed
qed

lemma rise_stop:
  assumes "heap_but_above cmp xs k" and "k = 0 \<or> \<not> cmp (xs ! get_parent k) (xs ! k)"
  shows "is_heap cmp xs"
  using assms by (auto simp: is_heap_def heap_but_above_def)

lemma sink_step:
  assumes heap: "heap_but_below cmp xs k" and "0 < c" "c < length xs" "get_parent c = k"
    and max: "\<And>i. 0 < i \<Longrightarrow> i < length xs \<Longrightarrow> get_parent i = k \<Longrightarrow> \<not> cmp (xs ! c) (xs ! i)"
    and "cmp (xs ! k) (xs ! c)"
  shows "heap_but_below cmp (xs[k := xs ! c, c := xs ! k]) c"
proof -
  let ?ys = "xs[k := xs ! c, c := xs ! k]"
  have k: "k < c" "k < length xs" "k \<noteq> c" using get_parent_less [of c] assms(2-4) by auto
  have nth: "?ys ! m = (if m = k then xs ! c else if m = c then xs ! k else xs ! m)" for m
    using swap_update [of k xs c m] k assms(3) by auto
  have ok: "\<not> cmp (xs ! get_parent i) (xs ! i)" if "0 < i" "i < length xs" "get_parent i \<noteq> k" for i
    using heap that by (simp add: heap_but_below_def)
  show ?thesis
    unfolding heap_but_below_def
  proof (intro conjI allI impI)
    fix i assume i: "0 < i \<and> i < length ?ys \<and> get_parent i \<noteq> c"
    show "\<not> cmp (?ys ! get_parent i) (?ys ! i)"
    proof (cases "get_parent i = k")
      case True
      then show ?thesis using nth max [of i] i asym [OF assms(6)] get_parent_less [of i] k
        by (cases "i = c") auto
    next
      case pk: False
      show ?thesis
      proof (cases "i = k")
        case True
        then have "\<not> cmp (xs ! get_parent k) (xs ! c)"
          using heap i assms(2-4) by (simp add: heap_but_below_def)
        then show ?thesis using True nth pk i by simp
      next
        case False
        moreover have "i \<noteq> c" using pk assms(4) by auto
        ultimately show ?thesis using nth pk i ok [of i] by simp
      qed
    qed
  next
    fix i assume i: "0 < c \<and> 0 < i \<and> i < length ?ys \<and> get_parent i = c"
    then have "i \<noteq> k" "i \<noteq> c" "\<not> cmp (xs ! c) (xs ! i)"
      using get_parent_less [of i] k ok [of i] by auto
    then show "\<not> cmp (?ys ! get_parent c) (?ys ! i)" using nth assms(4) by simp
  qed
qed

lemma sink_stop:
  assumes "heap_but_below cmp xs k"
    and "\<And>i. 0 < i \<Longrightarrow> i < length xs \<Longrightarrow> get_parent i = k \<Longrightarrow> \<not> cmp (xs ! k) (xs ! i)"
  shows "is_heap cmp xs"
  using assms by (auto simp: is_heap_def heap_but_below_def)

text \<open>The two loops.\<close>

lemma upheap_loop_heap:
  assumes "heap_but_above cmp (data[index := v]) index" and "index < length data"
    and "upheap_loop cmp v data index = (data', index')"
  shows "is_heap cmp (data'[index' := v]) \<and> mset (data'[index' := v]) = mset (data[index := v]) \<and>
    length data' = length data"
  using assms
proof (induction index arbitrary: data rule: less_induct)
  case (less index)
  let ?ys = "data[index := v]"
  let ?p = "get_parent index"
  show ?case
  proof (cases "0 < index \<and> cmp (data ! ?p) v")
    case False
    then have r: "upheap_loop cmp v data index = (data, index)"
      by (subst upheap_loop.simps) (auto simp: Let_def)
    have "index = 0 \<or> \<not> cmp (?ys ! ?p) (?ys ! index)"
      using False less.prems(2) get_parent_less [of index] by auto
    then have "is_heap cmp ?ys" by (rule rise_stop [OF less.prems(1)])
    then show ?thesis using r less.prems(3) by simp
  next
    case True
    have p: "?p < index" "?p < length data" using get_parent_less [of index] True less.prems(2) by simp_all
    let ?d = "data[index := data ! ?p]"
    have step: "upheap_loop cmp v data index = upheap_loop cmp v ?d ?p"
      using True by (subst upheap_loop.simps) (simp add: Let_def)
    have ys: "?ys[index := ?ys ! ?p, ?p := ?ys ! index] = ?d[?p := v]"
      using p less.prems(2) by simp
    have "heap_but_above cmp (?d[?p := v]) ?p"
      using rise_step [OF less.prems(1)] True p less.prems(2) unfolding ys by simp
    moreover have "mset (?d[?p := v]) = mset ?ys"
      unfolding ys [symmetric] using mset_swap [of ?p ?ys index] p less.prems(2) by simp
    ultimately show ?thesis using less.IH [OF p(1), of ?d] p less.prems(3) step by simp
  qed
qed

text \<open>The child that \<^verbatim>\<open>downheap\<close> picks, from the cache or by a comparison, is a largest one.\<close>

lemma picked_child_max:
  assumes "get_left k < length xs" and "k = 0 \<longrightarrow> root_cache_ok cmp xs cache"
  defines "c \<equiv> if k = 0 \<and> cache < length xs then cache
              else if get_left k + 1 < length xs \<and> cmp (xs ! get_left k) (xs ! (get_left k + 1)) then get_left k + 1
              else get_left k"
  shows "0 < c" "c < length xs" "get_parent c = k"
    and "0 < i \<Longrightarrow> i < length xs \<Longrightarrow> get_parent i = k \<Longrightarrow> \<not> cmp (xs ! c) (xs ! i)"
proof -
  have r: "get_right k = get_left k + 1" by (simp add: get_left_def get_right_def)
  have "0 < c \<and> c < length xs \<and> get_parent c = k \<and>
      (\<forall>i. 0 < i \<and> i < length xs \<and> get_parent i = k \<longrightarrow> \<not> cmp (xs ! c) (xs ! i))"
  proof (cases "k = 0 \<and> cache < length xs")
    case True
    then show ?thesis using assms(2) by (auto simp: root_cache_ok_def c_def)
  next
    case False
    then have c: "c = (if get_left k + 1 < length xs \<and> cmp (xs ! get_left k) (xs ! (get_left k + 1))
        then get_left k + 1 else get_left k)" by (simp only: c_def if_False)
    have pos: "0 < get_left k" "get_parent (get_left k) = k" "get_parent (get_left k + 1) = k"
      by (auto simp: get_left_def get_parent_def)
    have ch: "i = get_left k \<or> i = get_left k + 1" if "0 < i" "get_parent i = k" for i
      using get_parent_child [of i k] that r by simp
    have "\<not> cmp (xs ! c) (xs ! i)" if "0 < i" "i < length xs" "get_parent i = k" for i
      using ch [OF that(1,3)] that(2) irrefl asym by (auto simp: c)
    then show ?thesis using assms(1) pos by (simp add: c)
  qed
  then show "0 < c" "c < length xs" "get_parent c = k"
    "0 < i \<Longrightarrow> i < length xs \<Longrightarrow> get_parent i = k \<Longrightarrow> \<not> cmp (xs ! c) (xs ! i)" by blast+
qed

lemma downheap_loop_heap:
  assumes "heap_but_below cmp (data[index := v]) index" and "index < length data"
    and "index = 0 \<longrightarrow> root_cache_ok cmp (data[index := v]) cache"
    and "index = 0 \<longrightarrow> picked = kMaxSizet" and "length data < kMaxSizet"
  shows "\<exists>data' index' picked'. downheap_loop cmp cache v data index picked = Some (data', index', picked') \<and>
    is_heap cmp (data'[index' := v]) \<and> mset (data'[index' := v]) = mset (data[index := v]) \<and>
    length data' = length data \<and> (index' = 0 \<longrightarrow> root_cache_ok cmp (data'[index' := v]) picked')"
  using assms
proof (induction "length data - index" arbitrary: data index picked rule: less_induct)
  case less
  let ?ys = "data[index := v]"
  show ?case
  proof (cases "get_left index \<ge> length data")
    case True
    then have "downheap_loop cmp cache v data index picked = Some (data, index, picked)"
      by (subst downheap_loop.simps) (simp add: Let_def)
    moreover have "is_heap cmp ?ys"
      using True by (intro sink_stop [OF less.prems(1)]) (auto simp: get_parent_child get_left_def get_right_def)
    ultimately show ?thesis using less.prems(4,5) by (auto simp: root_cache_ok_def)
  next
    case False
    define c where "c = (if index = 0 \<and> cache < length ?ys then cache
              else if get_left index + 1 < length ?ys \<and> cmp (?ys ! get_left index) (?ys ! (get_left index + 1))
              then get_left index + 1 else get_left index)"
    have "get_left index < length ?ys" using False by simp
    note c = picked_child_max [OF this less.prems(3), folded c_def]
    have ne: "get_left index \<noteq> index" "get_left index + 1 \<noteq> index" by (simp_all add: get_left_def)
    have lt: "index < c" "c < length data" using get_parent_less [OF c(1)] c(2,3) by simp_all
    then have val: "data ! c = ?ys ! c" by simp
    have pick: "(if index = 0 \<and> cache < length data then cache
              else if get_left index + 1 < length data \<and> cmp (data ! get_left index) (data ! (get_left index + 1))
              then get_left index + 1 else get_left index) = c"
      using ne by (simp add: c_def)
    have step: "downheap_loop cmp cache v data index picked =
        (if \<not> cmp v (?ys ! c) then Some (data, index, c)
         else downheap_loop cmp cache v (data[index := ?ys ! c]) c c)"
      using False by (subst downheap_loop.simps) (simp only: Let_def pick val if_False)
    show ?thesis
    proof (cases "cmp v (?ys ! c)")
      case False
      then have no: "\<not> cmp (?ys ! index) (?ys ! i)" if "0 < i" "i < length ?ys" "get_parent i = index" for i
        using neg_trans [OF False c(4) [OF that]] less.prems(2) by simp
      have "is_heap cmp ?ys" by (rule sink_stop [OF less.prems(1) no])
      moreover have "index = 0 \<longrightarrow> root_cache_ok cmp ?ys c" using c by (auto simp: root_cache_ok_def)
      ultimately show ?thesis using step False by auto
    next
      case True
      let ?d = "data[index := ?ys ! c]"
      have ys: "?ys[index := ?ys ! c, c := ?ys ! index] = ?d[c := v]" using lt less.prems(2) by simp
      have "cmp (?ys ! index) (?ys ! c)" using True less.prems(2) by simp
      from sink_step [OF less.prems(1) c(1) c(2) c(3) c(4) this]
      have hb: "heap_but_below cmp (?d[c := v]) c" unfolding ys .
      have ms: "mset (?d[c := v]) = mset ?ys"
        unfolding ys [symmetric] using mset_swap [of c ?ys index] lt less.prems(2) by simp
      have "length ?d - c < length data - index" "c < length ?d" "length ?d < kMaxSizet"
        using lt less.prems(2,5) by simp_all
      from less.hyps [OF this(1) hb this(2) _ _ this(3)] c(1)
      show ?thesis using True step ms by (auto simp del: neq0_conv)
    qed
  qed
qed

text \<open>The operations.\<close>

lemma root_cache_ok_max: "length xs < kMaxSizet \<Longrightarrow> root_cache_ok cmp xs kMaxSizet"
  by (simp add: root_cache_ok_def)

lemma push_heap:
  assumes "heap_inv cmp h" and "length (heap_data h) + 1 < kMaxSizet"
  shows "heap_inv cmp (heap_push cmp v h) \<and> mset (heap_data (heap_push cmp v h)) = add_mset v (mset (heap_data h))"
proof -
  let ?xs = "heap_data h"
  obtain d i where l: "upheap_loop cmp v (?xs @ [v]) (length ?xs) = (d, i)" by fastforce
  have "heap_but_above cmp ((?xs @ [v])[length ?xs := v]) (length ?xs)"
    unfolding heap_but_above_def
  proof (intro conjI allI impI)
    fix i assume i: "0 < i \<and> i < length ((?xs @ [v])[length ?xs := v]) \<and> i \<noteq> length ?xs"
    then have "i < length ?xs" "get_parent i < length ?xs" using get_parent_less [of i] by auto
    then show "\<not> cmp ((?xs @ [v])[length ?xs := v] ! get_parent i) ((?xs @ [v])[length ?xs := v] ! i)"
      using assms(1) i by (simp add: heap_inv_def is_heap_def nth_append)
  next
    fix i assume "0 < length ?xs \<and> 0 < i \<and> i < length ((?xs @ [v])[length ?xs := v]) \<and> get_parent i = length ?xs"
    then have False using get_parent_less [of i] by simp
    then show "\<not> cmp ((?xs @ [v])[length ?xs := v] ! get_parent (length ?xs)) ((?xs @ [v])[length ?xs := v] ! i)" ..
  qed
  then have "is_heap cmp (d[i := v])" "mset (d[i := v]) = mset (?xs @ [v])" "length d = length ?xs + 1"
    using upheap_loop_heap [of "?xs @ [v]" "length ?xs" v d i] l by simp_all
  moreover have "heap_push cmp v h = \<lparr>heap_data = d[i := v], root_cmp_cache = kMaxSizet\<rparr>"
    using l by (simp add: heap_push_def upheap_def Let_def)
  ultimately show ?thesis using assms(2) root_cache_ok_max by (simp add: heap_inv_def)
qed

text \<open>Placing any element at the root and sinking it.\<close>

lemma downheap_root:
  assumes "heap_but_below cmp xs 0" and "root_cache_ok cmp xs cache" and "length xs < kMaxSizet" and "xs \<noteq> []"
  shows "\<exists>h'. downheap cmp 0 \<lparr>heap_data = xs[0 := v], root_cmp_cache = cache\<rparr> = Some h' \<and> heap_inv cmp h' \<and>
     mset (heap_data h') = mset (xs[0 := v])"
proof -
  have nz: "xs[0 := v] ! i = xs ! i" if "0 < i" for i using that by simp
  have hb: "heap_but_below cmp (xs[0 := v]) 0"
    using assms(1) by (auto simp: heap_but_below_def nz)
  have rc: "root_cache_ok cmp (xs[0 := v]) cache"
    using assms(2) by (auto simp: root_cache_ok_def nz)
  obtain d i p where r: "downheap_loop cmp cache v (xs[0 := v]) 0 kMaxSizet = Some (d, i, p)" "is_heap cmp (d[i := v])"
      "mset (d[i := v]) = mset (xs[0 := v])" "length d = length xs" "i = 0 \<longrightarrow> root_cache_ok cmp (d[i := v]) p"
    using downheap_loop_heap [of "xs[0 := v]" 0 v cache kMaxSizet] hb rc assms(3,4) by auto
  have "downheap cmp 0 \<lparr>heap_data = xs[0 := v], root_cmp_cache = cache\<rparr> =
      Some \<lparr>heap_data = d[i := v], root_cmp_cache = (if i = 0 then p else kMaxSizet)\<rparr>"
    using r(1) assms(4) by (simp add: downheap_def Let_def)
  moreover have "root_cache_ok cmp (d[i := v]) (if i = 0 then p else kMaxSizet)"
    using r(4,5) assms(3) root_cache_ok_max [of "d[i := v]"] by simp
  ultimately show ?thesis using r assms(3) by (simp add: heap_inv_def)
qed

text \<open>The elements of a merging iterator's heap are compared by keys that change while the iterator moves.  It is enough
  that the order of the elements below the top is the one the heap was built with.\<close>

lemma tail_heap:
  assumes "heap_inv cmp0 h" and "heap_data h = x # xs" and "\<And>a b. a \<in> set xs \<Longrightarrow> b \<in> set xs \<Longrightarrow> cmp a b = cmp0 a b"
    and "k \<le> length xs"
  shows "heap_but_below cmp (take (Suc k) (x # xs)) 0" "root_cache_ok cmp (take (Suc k) (x # xs)) (root_cmp_cache h)"
proof -
  let ?ys = "take (Suc k) (x # xs)"
  have len: "length ?ys = Suc k" using assms(4) by simp
  have same: "cmp (?ys ! a) (?ys ! b) = cmp0 ((x # xs) ! a) ((x # xs) ! b)" if "0 < a" "a < Suc k" "0 < b" "b < Suc k" for a b
    using that assms(3) [of "xs ! (a - 1)" "xs ! (b - 1)"] assms(4) by (cases a; cases b) simp_all
  have heap: "\<not> cmp0 ((x # xs) ! get_parent i) ((x # xs) ! i)" if "0 < i" "i < Suc k" for i
    using assms(1,2,4) that by (simp add: heap_inv_def is_heap_def)
  show "heap_but_below cmp ?ys 0"
    unfolding heap_but_below_def len
  proof (intro conjI allI impI)
    fix i
    assume i: "0 < i \<and> i < Suc k \<and> get_parent i \<noteq> 0"
    then show "\<not> cmp (?ys ! get_parent i) (?ys ! i)"
      using same [of "get_parent i" i] heap [of i] get_parent_less [of i] by simp
  qed simp
  have cache: "root_cache_ok cmp0 (x # xs) (root_cmp_cache h)" using assms(1,2) by (simp add: heap_inv_def)
  show "root_cache_ok cmp ?ys (root_cmp_cache h)"
    unfolding root_cache_ok_def len
  proof (intro impI conjI allI)
    assume c: "root_cmp_cache h < Suc k"
    then have c': "0 < root_cmp_cache h" "get_parent (root_cmp_cache h) = 0"
      using cache assms(4) by (simp_all add: root_cache_ok_def)
    then show "0 < root_cmp_cache h" "get_parent (root_cmp_cache h) = 0" .
    fix i
    assume i: "0 < i \<and> i < Suc k \<and> get_parent i = 0"
    then have "\<not> cmp0 ((x # xs) ! root_cmp_cache h) ((x # xs) ! i)"
      using cache c assms(4) by (simp add: root_cache_ok_def del: nth_Cons_pos)
    then show "\<not> cmp (?ys ! root_cmp_cache h) (?ys ! i)" using same [OF c'(1) c, of i] i by simp
  qed
qed

lemma replace_top_changed:
  assumes "heap_inv cmp0 h" and "heap_data h = x # xs" and "\<And>a b. a \<in> set xs \<Longrightarrow> b \<in> set xs \<Longrightarrow> cmp a b = cmp0 a b"
  shows "\<exists>h'. heap_replace_top cmp v h = Some h' \<and> heap_inv cmp h' \<and> mset (heap_data h') = add_mset v (mset xs)"
proof -
  have "h\<lparr>heap_data := (heap_data h)[0 := v]\<rparr> = \<lparr>heap_data = (heap_data h)[0 := v], root_cmp_cache = root_cmp_cache h\<rparr>"
    by simp
  then have "heap_replace_top cmp v h =
      downheap cmp 0 \<lparr>heap_data = (heap_data h)[0 := v], root_cmp_cache = root_cmp_cache h\<rparr>"
    by (simp only: heap_replace_top_def)
  moreover have "length (heap_data h) < kMaxSizet" using assms(1) by (simp add: heap_inv_def)
  ultimately show ?thesis
    using downheap_root [of "heap_data h" "root_cmp_cache h" v] tail_heap [OF assms, of "length xs"] assms(2) by simp
qed

lemma pop_changed:
  assumes "heap_inv cmp0 h" and "heap_data h = x # xs" and "\<And>a b. a \<in> set xs \<Longrightarrow> b \<in> set xs \<Longrightarrow> cmp a b = cmp0 a b"
  shows "\<exists>h'. heap_pop cmp h = Some h' \<and> heap_inv cmp h' \<and> mset (heap_data h') = mset xs"
proof (cases "xs = []")
  case True
  then show ?thesis using assms root_cache_ok_max
    by (auto simp: heap_pop_def heap_inv_def is_heap_def Let_def)
next
  case False
  let ?ys = "x # butlast xs"
  have xs: "xs = butlast xs @ [last xs]" using False by simp
  have ys: "take (Suc (length xs - 1)) (x # xs) = ?ys" by (simp add: butlast_conv_take)
  have "length ?ys < kMaxSizet" using assms(1,2) False by (cases xs) (simp_all add: heap_inv_def)
  then obtain h' where h': "downheap cmp 0 \<lparr>heap_data = ?ys[0 := last xs], root_cmp_cache = root_cmp_cache h\<rparr> = Some h'"
      "heap_inv cmp h'" "mset (heap_data h') = mset (?ys[0 := last xs])"
    using downheap_root [of ?ys "root_cmp_cache h" "last xs"] tail_heap [OF assms, of "length xs - 1"] ys by auto
  have "heap_pop cmp h = downheap cmp 0 \<lparr>heap_data = ?ys[0 := last xs], root_cmp_cache = root_cmp_cache h\<rparr>"
    using False assms(2) by (cases h) (simp add: heap_pop_def Let_def)
  moreover have "mset (last xs # butlast xs) = mset xs"
    using xs by (metis mset_append add_mset_add_single mset.simps(2) mset.simps(1))
  ultimately show ?thesis using h' by simp
qed

lemma replace_top_heap:
  assumes "heap_inv cmp h" and "heap_data h \<noteq> []"
  shows "\<exists>h'. heap_replace_top cmp v h = Some h' \<and> heap_inv cmp h' \<and>
     mset (heap_data h') = add_mset v (mset (heap_data h) - {#heap_top h#})"
  using replace_top_changed [OF assms(1), of "hd (heap_data h)" "tl (heap_data h)" v] assms(2)
  by (cases "heap_data h") (auto simp: heap_top_def)

lemma pop_heap:
  assumes "heap_inv cmp h" and "heap_data h \<noteq> []"
  shows "\<exists>h'. heap_pop cmp h = Some h' \<and> heap_inv cmp h' \<and>
     mset (heap_data h') = mset (heap_data h) - {#heap_top h#}"
  using pop_changed [OF assms(1), of "hd (heap_data h)" "tl (heap_data h)"] assms(2)
  by (cases "heap_data h") (auto simp: heap_top_def)

lemma top_is_maximal:
  assumes "is_heap cmp xs" and "i < length xs"
  shows "\<not> cmp (xs ! 0) (xs ! i)"
  using assms(2)
proof (induction i rule: less_induct)
  case (less i)
  show ?case
  proof (cases "i = 0")
    case True
    then show ?thesis using irrefl by simp
  next
    case False
    then have p: "get_parent i < i" "\<not> cmp (xs ! get_parent i) (xs ! i)"
      using get_parent_less [of i] assms(1) less.prems by (auto simp: is_heap_def)
    then show ?thesis using less.IH [OF p(1)] less.prems neg_trans by force
  qed
qed

lemma heap_top_maximal:
  assumes "heap_inv cmp h" and "x \<in> set (heap_data h)"
  shows "\<not> cmp (heap_top h) x"
proof -
  have "heap_data h \<noteq> []" using assms(2) by auto
  then show ?thesis
    using assms top_is_maximal [of "heap_data h"]
    by (auto simp: heap_inv_def heap_top_def in_set_conv_nth hd_conv_nth)
qed

lemma new_heap: "heap_inv cmp BinaryHeap_new"
  by (simp add: heap_inv_def BinaryHeap_new_def is_heap_def root_cache_ok_def kMaxSizet_def)

end

section \<open>The comparators of iterators\<close>

lemma heap_order_of_Compare:
  assumes "key_comparator Compare"
  shows "heap_order (MaxIteratorComparator Compare key)" and "heap_order (MinIteratorComparator Compare key)"
proof -
  have cmp: "Compare a b < 0 \<longleftrightarrow> \<not> Compare b a \<le> 0" "Compare a b > 0 \<longleftrightarrow> \<not> Compare a b \<le> 0" for a b
    using key_comparator.cmp_sym [OF assms, of a b] by linarith+
  note le = key_comparator.cmp_trans [OF assms] key_comparator.cmp_total [OF assms]
  show "heap_order (MaxIteratorComparator Compare key)" "heap_order (MinIteratorComparator Compare key)"
    by (unfold_locales; unfold MaxIteratorComparator_def MinIteratorComparator_def cmp; use le in blast)+
qed

interpretation bytewise_min_heap: heap_order "MinIteratorComparator BytewiseCompare key" for key
  by (rule heap_order_of_Compare(2) [OF bytewise.key_comparator_axioms])

interpretation bytewise_max_heap: heap_order "MaxIteratorComparator BytewiseCompare key" for key
  by (rule heap_order_of_Compare(1) [OF bytewise.key_comparator_axioms])

section \<open>Properties\<close>

text \<open>C13: The binary heap is a priority queue for every strict weak order: in a well-formed heap (heap
  order, and the cached root child is a largest one) no element is larger than the top, and
  \<^verbatim>\<open>pop\<close>, \<^verbatim>\<open>replace_top\<close> and \<^verbatim>\<open>push\<close> terminate, keep the heap
  well-formed (with the cache), and remove, exchange or add exactly one element.\<close>

theorem heap_is_priority_queue:
  assumes "heap_order cmp" and "heap_inv cmp h" and "heap_data h \<noteq> []" and "length (heap_data h) + 1 < kMaxSizet"
  shows "(\<forall>x \<in> set (heap_data h). \<not> cmp (heap_top h) x) \<and>
    (\<exists>h'. heap_pop cmp h = Some h' \<and> heap_inv cmp h' \<and> mset (heap_data h') = mset (heap_data h) - {#heap_top h#}) \<and>
    (\<exists>h'. heap_replace_top cmp v h = Some h' \<and> heap_inv cmp h' \<and>
       mset (heap_data h') = add_mset v (mset (heap_data h) - {#heap_top h#})) \<and>
    heap_inv cmp (heap_push cmp v h) \<and> mset (heap_data (heap_push cmp v h)) = add_mset v (mset (heap_data h))"
  using heap_order.heap_top_maximal [OF assms(1,2)] heap_order.pop_heap [OF assms(1-3)]
    heap_order.replace_top_heap [OF assms(1-3), of v] heap_order.push_heap [OF assms(1,2,4), of v]
  by blast

definition example_heap :: "bytes BinaryHeap" where
  "example_heap = heap_push (MinIteratorComparator BytewiseCompare id) [3]
     (heap_push (MinIteratorComparator BytewiseCompare id) [5] BinaryHeap_new)"

theorem heap_is_priority_queue_witness:
  "\<exists>h'. heap_pop (MinIteratorComparator BytewiseCompare id) example_heap = Some h' \<and>
     mset (heap_data h') = mset (heap_data example_heap) - {#heap_top example_heap#}"
proof -
  let ?h1 = "heap_push (MinIteratorComparator BytewiseCompare id) [5] BinaryHeap_new"
  have big: "length (heap_data h) + 1 < kMaxSizet" if "mset (heap_data h) = add_mset a (mset xs)" "length xs < 9"
    for h :: "bytes BinaryHeap" and a xs
    using that size_mset [of "heap_data h"] by (simp add: kMaxSizet_def)
  have 1: "heap_inv (MinIteratorComparator BytewiseCompare id) ?h1" "mset (heap_data ?h1) = add_mset [5] (mset [])"
    using bytewise_min_heap.push_heap [OF bytewise_min_heap.new_heap, of id "[5]"]
    by (simp_all add: BinaryHeap_new_def kMaxSizet_def)
  then have 2: "heap_inv (MinIteratorComparator BytewiseCompare id) example_heap"
      "mset (heap_data example_heap) = add_mset [3] (mset [[5]])"
    using bytewise_min_heap.push_heap [OF 1(1) big [OF 1(2)], of "[3]"] by (simp_all add: example_heap_def)
  have "length (heap_data example_heap) + 1 < kMaxSizet" by (rule big [OF 2(2)]) simp
  moreover have "heap_data example_heap \<noteq> []" using 2(2) by auto
  ultimately show ?thesis
    using heap_is_priority_queue [OF bytewise_min_heap.heap_order_axioms 2(1)] by blast
qed

end
