(* ===== verification/Lru_Table.thy ===== *)
theory Lru_Table
  imports Hashing Slice
begin

text \<open>
  The entries of the block cache and its hash table: \<^verbatim>\<open>struct LRUHandle\<close> and
  \<^verbatim>\<open>class LRUHandleTable\<close> of \<^verbatim>\<open>cache/lru_cache.h/.cc\<close>.  A handle lives at an address
  in an explicit store (its key bytes, and its \<^verbatim>\<open>value\<close> and \<^verbatim>\<open>deleter\<close> as the identities of
  what they point to); the table is an array of chains of addresses (the lists linked by
  \<^verbatim>\<open>next_hash\<close>).  The interface \<open>handle_table\<close> states what the cache shard relies on: the
  table is a partial map from a key with its hash to a handle.
\<close>

section \<open>Handles\<close>

type_synonym addr = nat

record LRUHandle =
  h_value :: nat
  h_deleter :: "nat option"
  h_charge :: nat
  h_key :: bytes
  h_hash :: u32
  h_refs :: nat
  h_flags :: byte

type_synonym store = "addr \<rightharpoonup> LRUHandle"

definition IN_CACHE :: byte where
  "IN_CACHE = push_bit 0 1"

definition IS_HIGH_PRI :: byte where
  "IS_HIGH_PRI = push_bit 1 1"

definition IN_HIGH_PRI_POOL :: byte where
  "IN_HIGH_PRI_POOL = push_bit 2 1"

definition HAS_HIT :: byte where
  "HAS_HIT = push_bit 3 1"

definition handle_Ref :: "LRUHandle \<Rightarrow> LRUHandle" where
  "handle_Ref h = h\<lparr>h_refs := h_refs h + 1\<rparr>"

definition handle_Unref :: "LRUHandle \<Rightarrow> bool \<times> LRUHandle" where
  "handle_Unref h = (let h = h\<lparr>h_refs := h_refs h - 1\<rparr> in (h_refs h = 0, h))"

definition HasRefs :: "LRUHandle \<Rightarrow> bool" where
  "HasRefs h \<longleftrightarrow> h_refs h > 0"

definition InCache :: "LRUHandle \<Rightarrow> bool" where
  "InCache h \<longleftrightarrow> h_flags h AND IN_CACHE \<noteq> 0"

definition IsHighPri :: "LRUHandle \<Rightarrow> bool" where
  "IsHighPri h \<longleftrightarrow> h_flags h AND IS_HIGH_PRI \<noteq> 0"

definition InHighPriPool :: "LRUHandle \<Rightarrow> bool" where
  "InHighPriPool h \<longleftrightarrow> h_flags h AND IN_HIGH_PRI_POOL \<noteq> 0"

definition HasHit :: "LRUHandle \<Rightarrow> bool" where
  "HasHit h \<longleftrightarrow> h_flags h AND HAS_HIT \<noteq> 0"

definition SetInCache :: "bool \<Rightarrow> LRUHandle \<Rightarrow> LRUHandle" where
  "SetInCache in_cache h =
     (if in_cache then h\<lparr>h_flags := h_flags h OR IN_CACHE\<rparr> else h\<lparr>h_flags := h_flags h AND NOT IN_CACHE\<rparr>)"

definition SetPriority :: "bool \<Rightarrow> LRUHandle \<Rightarrow> LRUHandle" where
  "SetPriority high h =
     (if high then h\<lparr>h_flags := h_flags h OR IS_HIGH_PRI\<rparr> else h\<lparr>h_flags := h_flags h AND NOT IS_HIGH_PRI\<rparr>)"

definition SetInHighPriPool :: "bool \<Rightarrow> LRUHandle \<Rightarrow> LRUHandle" where
  "SetInHighPriPool in_high_pri_pool h =
     (if in_high_pri_pool then h\<lparr>h_flags := h_flags h OR IN_HIGH_PRI_POOL\<rparr>
      else h\<lparr>h_flags := h_flags h AND NOT IN_HIGH_PRI_POOL\<rparr>)"

definition SetHit :: "LRUHandle \<Rightarrow> LRUHandle" where
  "SetHit h = h\<lparr>h_flags := h_flags h OR HAS_HIT\<rparr>"

text \<open>\<^verbatim>\<open>sizeof(LRUHandle)\<close> on a 64-bit platform.\<close>

definition sizeof_LRUHandle :: nat where
  "sizeof_LRUHandle = 72"

definition CalcTotalCharge :: "bool \<Rightarrow> LRUHandle \<Rightarrow> nat" where
  "CalcTotalCharge full_charge_metadata h =
     (let meta_charge = (if full_charge_metadata then sizeof_LRUHandle - 1 + length (h_key h) else 0)
      in h_charge h + meta_charge)"

section \<open>The hash table\<close>

record LRUHandleTable =
  t_list :: "addr list list"
  t_elems :: nat

definition bucket_index :: "nat \<Rightarrow> u32 \<Rightarrow> nat" where
  "bucket_index len hash = unat (hash AND of_nat (len - 1))"

text \<open>The position in its chain of the entry with a key and hash, or the end of the chain: the slot
  that \<^verbatim>\<open>FindPointer\<close> returns.\<close>

definition FindPointer :: "store \<Rightarrow> LRUHandleTable \<Rightarrow> bytes \<Rightarrow> u32 \<Rightarrow> nat \<times> nat" where
  "FindPointer st t key hash =
     (let i = bucket_index (length (t_list t)) hash
      in (i, length (takeWhile (\<lambda>a. h_hash (the (st a)) \<noteq> hash \<or> key \<noteq> h_key (the (st a))) (t_list t ! i))))"

definition slot :: "LRUHandleTable \<Rightarrow> nat \<times> nat \<Rightarrow> addr option" where
  "slot t = (\<lambda>(i, p). if p < length (t_list t ! i) then Some (t_list t ! i ! p) else None)"

definition Table_Lookup :: "store \<Rightarrow> LRUHandleTable \<Rightarrow> bytes \<Rightarrow> u32 \<Rightarrow> addr option" where
  "Table_Lookup st t key hash = slot t (FindPointer st t key hash)"

text \<open>The size of the new array: the first \<open>16 * 2 ^ k\<close> that is at least 1.5 times the number of
  elements.\<close>

function resize_length :: "nat \<Rightarrow> nat \<Rightarrow> nat" where
  "resize_length k elems =
     (let new_length = 16 * 2 ^ k in if 2 * new_length < 3 * elems then resize_length (k + 1) elems else new_length)"
  by pat_completeness auto
termination
  by (relation "measure (\<lambda>(k, elems). 3 * elems - 32 * 2 ^ k)") (auto intro!: diff_less_mono2)

declare resize_length.simps [simp del]

definition push_handle :: "store \<Rightarrow> addr list list \<Rightarrow> addr \<Rightarrow> addr list list" where
  "push_handle st new_list a =
     (let i = bucket_index (length new_list) (h_hash (the (st a)))
      in new_list[i := a # (new_list ! i)])"

definition Table_Resize :: "store \<Rightarrow> LRUHandleTable \<Rightarrow> LRUHandleTable" where
  "Table_Resize st t =
     (let new_length = resize_length 0 (t_elems t)
      in t\<lparr>t_list := foldl (foldl (push_handle st)) (replicate new_length []) (t_list t)\<rparr>)"

definition Table_new :: LRUHandleTable where
  "Table_new = Table_Resize Map.empty \<lparr>t_list = [], t_elems = 0\<rparr>"

definition Table_Insert :: "store \<Rightarrow> addr \<Rightarrow> LRUHandleTable \<Rightarrow> addr option \<times> LRUHandleTable" where
  "Table_Insert st a t =
     (let (i, p) = FindPointer st t (h_key (the (st a))) (h_hash (the (st a)));
          old = slot t (i, p);
          chain = t_list t ! i;
          t = t\<lparr>t_list := (t_list t)[i := take p chain @ a # drop (Suc p) chain]\<rparr>
      in if old = None then
           (let t = t\<lparr>t_elems := t_elems t + 1\<rparr>
            in (old, if t_elems t > length (t_list t) then Table_Resize st t else t))
         else (old, t))"

definition Table_Remove :: "store \<Rightarrow> bytes \<Rightarrow> u32 \<Rightarrow> LRUHandleTable \<Rightarrow> addr option \<times> LRUHandleTable" where
  "Table_Remove st key hash t =
     (let (i, p) = FindPointer st t key hash;
          res = slot t (i, p);
          chain = t_list t ! i
      in if res \<noteq> None
         then (res, t\<lparr>t_list := (t_list t)[i := take p chain @ drop (Suc p) chain], t_elems := t_elems t - 1\<rparr>)
         else (res, t))"

section \<open>Flags\<close>

lemma and_push_bit_1: "(x :: byte) AND push_bit i 1 \<noteq> 0 \<longleftrightarrow> i < 8 \<and> bit x i"
proof
  assume "x AND push_bit i 1 \<noteq> 0"
  then obtain n where "bit (x AND push_bit i 1) n" by (metis bit_0_eq bit_eq_iff bot_apply bot_bool_def)
  then show "i < 8 \<and> bit x i" by (auto simp: bit_simps)
next
  assume "i < 8 \<and> bit x i"
  then have "bit (x AND push_bit i 1) i" by (auto simp: bit_simps)
  then show "x AND push_bit i 1 \<noteq> 0" by (metis bit_0_eq bot_apply bot_bool_def)
qed

lemmas flag_defs = IN_CACHE_def IS_HIGH_PRI_def IN_HIGH_PRI_POOL_def HAS_HIT_def

lemma flags_simps [simp]:
  "InCache (SetInCache b h) = b" "InCache (SetPriority b h) = InCache h"
  "InCache (SetInHighPriPool b h) = InCache h" "InCache (SetHit h) = InCache h"
  "InCache (handle_Ref h) = InCache h" "InCache (h\<lparr>h_refs := n\<rparr>) = InCache h"
  "InHighPriPool (SetInCache b h) = InHighPriPool h" "InHighPriPool (SetPriority b h) = InHighPriPool h"
  "InHighPriPool (SetInHighPriPool b h) = b" "InHighPriPool (SetHit h) = InHighPriPool h"
  "InHighPriPool (handle_Ref h) = InHighPriPool h" "InHighPriPool (h\<lparr>h_refs := n\<rparr>) = InHighPriPool h"
  unfolding InCache_def InHighPriPool_def flag_defs and_push_bit_1
    SetInCache_def SetPriority_def SetInHighPriPool_def SetHit_def handle_Ref_def
  by (auto simp: bit_simps simp del: push_bit_of_1)

lemma flags_keep [simp]:
  "h_refs (SetInCache b h) = h_refs h" "h_refs (SetPriority b h) = h_refs h"
  "h_refs (SetInHighPriPool b h) = h_refs h" "h_refs (SetHit h) = h_refs h"
  "h_key (SetInCache b h) = h_key h" "h_key (SetPriority b h) = h_key h"
  "h_key (SetInHighPriPool b h) = h_key h" "h_key (SetHit h) = h_key h" "h_key (handle_Ref h) = h_key h"
  "h_hash (SetInCache b h) = h_hash h" "h_hash (SetPriority b h) = h_hash h"
  "h_hash (SetInHighPriPool b h) = h_hash h" "h_hash (SetHit h) = h_hash h" "h_hash (handle_Ref h) = h_hash h"
  "CalcTotalCharge p (SetInCache b h) = CalcTotalCharge p h" "CalcTotalCharge p (SetPriority b h) = CalcTotalCharge p h"
  "CalcTotalCharge p (SetInHighPriPool b h) = CalcTotalCharge p h" "CalcTotalCharge p (SetHit h) = CalcTotalCharge p h"
  "CalcTotalCharge p (handle_Ref h) = CalcTotalCharge p h" "CalcTotalCharge p (h\<lparr>h_refs := n\<rparr>) = CalcTotalCharge p h"
  by (simp_all add: SetInCache_def SetPriority_def SetInHighPriPool_def SetHit_def handle_Ref_def CalcTotalCharge_def)

section \<open>The table as a map\<close>

definition matches :: "store \<Rightarrow> bytes \<Rightarrow> u32 \<Rightarrow> addr \<Rightarrow> bool" where
  "matches st key hash a \<longleftrightarrow> h_hash (the (st a)) = hash \<and> h_key (the (st a)) = key"

definition table_set :: "LRUHandleTable \<Rightarrow> addr set" where
  "table_set t = set (concat (t_list t))"

text \<open>Every handle is in the chain its hash selects, no handle occurs twice, no two handles have the same
  key and hash, and the element count is right.\<close>

definition chains_ok :: "store \<Rightarrow> addr list list \<Rightarrow> bool" where
  "chains_ok st cs \<longleftrightarrow>
     (\<forall>i < length cs. \<forall>a \<in> set (cs ! i). bucket_index (length cs) (h_hash (the (st a))) = i) \<and>
     (\<forall>i < length cs. distinct (cs ! i))"

definition table_inv :: "store \<Rightarrow> LRUHandleTable \<Rightarrow> bool" where
  "table_inv st t \<longleftrightarrow>
     t_list t \<noteq> [] \<and> chains_ok st (t_list t) \<and> t_elems t = length (concat (t_list t)) \<and>
     (\<forall>a \<in> table_set t. \<forall>b \<in> table_set t. matches st (h_key (the (st b))) (h_hash (the (st b))) a \<longrightarrow> a = b)"

lemma bucket_index_less: "0 < len \<Longrightarrow> bucket_index len hash < len"
proof -
  assume "0 < len"
  have "unat (hash AND of_nat (len - 1)) \<le> unat (of_nat (len - 1) :: u32)"
    by (metis and.commute word_and_le1 word_le_nat_alt)
  also have "\<dots> \<le> len - 1" by (simp only: unsigned_of_nat) (simp add: take_bit_nat_less_eq_self)
  finally show ?thesis using \<open>0 < len\<close> by (simp add: bucket_index_def)
qed

lemma chains_ok_elem:
  assumes "chains_ok st cs" and "a \<in> set (concat cs)" and "cs \<noteq> []"
  shows "a \<in> set (cs ! bucket_index (length cs) (h_hash (the (st a))))"
proof -
  obtain i where "i < length cs" "a \<in> set (cs ! i)" using assms(2) by (auto simp: in_set_conv_nth) (metis in_set_conv_nth)
  then show ?thesis using assms(1) by (auto simp: chains_ok_def)
qed

lemma length_takeWhile_less: "\<exists>x \<in> set xs. \<not> P x \<Longrightarrow> length (takeWhile P xs) < length xs"
  by (induction xs) auto

lemma slot_FindPointer_Some:
  assumes "table_inv st t"
  shows "Table_Lookup st t key hash = Some a \<longleftrightarrow> a \<in> table_set t \<and> matches st key hash a"
proof -
  let ?i = "bucket_index (length (t_list t)) hash"
  let ?P = "\<lambda>a. h_hash (the (st a)) \<noteq> hash \<or> key \<noteq> h_key (the (st a))"
  let ?c = "t_list t ! ?i"
  have i: "?i < length (t_list t)" using assms bucket_index_less by (simp add: table_inv_def)
  have sub: "set ?c \<subseteq> table_set t" by (auto simp: table_set_def intro!: bexI [OF _ nth_mem [OF i]])
  have lk: "Table_Lookup st t key hash =
      (if length (takeWhile ?P ?c) < length ?c then Some (?c ! length (takeWhile ?P ?c)) else None)"
    by (simp add: Table_Lookup_def FindPointer_def slot_def Let_def)
  show ?thesis
  proof
    assume "Table_Lookup st t key hash = Some a"
    then have lt: "length (takeWhile ?P ?c) < length ?c" and a: "a = ?c ! length (takeWhile ?P ?c)"
      using lk by (auto split: if_splits)
    have "\<not> ?P a" using nth_length_takeWhile [OF lt] a by simp
    moreover have "a \<in> set ?c" using lt a by simp
    ultimately show "a \<in> table_set t \<and> matches st key hash a" using sub by (auto simp: matches_def)
  next
    assume a: "a \<in> table_set t \<and> matches st key hash a"
    then have "a \<in> set ?c" "\<not> ?P a"
      using chains_ok_elem [of st "t_list t" a] assms by (auto simp: table_inv_def table_set_def matches_def)
    then have lt: "length (takeWhile ?P ?c) < length ?c" by (intro length_takeWhile_less) blast
    define b where "b = ?c ! length (takeWhile ?P ?c)"
    have "\<not> ?P b" using nth_length_takeWhile [OF lt] by (simp add: b_def)
    moreover have "b \<in> table_set t" using lt sub by (auto simp: b_def)
    ultimately have "b = a" using assms a by (auto simp: table_inv_def matches_def)
    then show "Table_Lookup st t key hash = Some a" using lk lt by (simp add: b_def)
  qed
qed

lemma Table_Lookup_None:
  assumes "table_inv st t"
  shows "Table_Lookup st t key hash = None \<longleftrightarrow> (\<forall>a \<in> table_set t. \<not> matches st key hash a)"
  using slot_FindPointer_Some [OF assms, of key hash] by (metis not_None_eq)

lemma concat_split: "i < length cs \<Longrightarrow> concat cs = concat (take i cs) @ cs ! i @ concat (drop (Suc i) cs)"
  by (metis append_Cons concat.simps(2) concat_append id_take_nth_drop)

lemma concat_update: "i < length cs \<Longrightarrow> concat (cs[i := c]) = concat (take i cs) @ c @ concat (drop (Suc i) cs)"
  by (simp add: upd_conv_take_nth_drop)

text \<open>The handles of the other chains.\<close>

lemma other_chains_disjoint:
  assumes "chains_ok st cs" and "i < length cs"
  shows "set (cs ! i) \<inter> set (concat (take i cs) @ concat (drop (Suc i) cs)) = {}"
proof -
  have "bucket_index (length cs) (h_hash (the (st a))) \<noteq> i"
    if a: "a \<in> set (concat (take i cs) @ concat (drop (Suc i) cs))" for a
  proof -
    obtain j where "j < length cs" "j \<noteq> i" "a \<in> set (cs ! j)"
    proof -
      from a consider c where "c \<in> set (take i cs)" "a \<in> set c" | c where "c \<in> set (drop (Suc i) cs)" "a \<in> set c" by auto
      then show ?thesis
      proof cases
        case 1
        then obtain j where "j < i" "j < length cs" "c = cs ! j" by (auto simp: in_set_conv_nth)
        then show ?thesis using that [of j] 1 by simp
      next
        case 2
        then obtain j where "j < length cs - Suc i" "c = cs ! (Suc i + j)" by (auto simp: in_set_conv_nth)
        then show ?thesis using that [of "Suc i + j"] 2 by simp
      qed
    qed
    then show ?thesis using assms(1) by (auto simp: chains_ok_def)
  qed
  then show ?thesis using assms by (auto simp: chains_ok_def)
qed

lemma chains_ok_update:
  assumes "chains_ok st cs" and "i < length cs" and "distinct c"
    and "\<forall>a \<in> set c. bucket_index (length cs) (h_hash (the (st a))) = i"
  shows "chains_ok st (cs[i := c])"
  using assms by (auto simp: chains_ok_def nth_list_update)

lemma push_handle_ok:
  assumes "chains_ok st cs" and "cs \<noteq> []" and "a \<notin> set (concat cs)"
  shows "chains_ok st (push_handle st cs a)" "set (concat (push_handle st cs a)) = insert a (set (concat cs))"
    "length (concat (push_handle st cs a)) = Suc (length (concat cs))" "length (push_handle st cs a) = length cs"
proof -
  let ?i = "bucket_index (length cs) (h_hash (the (st a)))"
  have i: "?i < length cs" using assms(2) by (simp add: bucket_index_less)
  have p: "push_handle st cs a = cs[?i := a # (cs ! ?i)]" by (simp add: push_handle_def Let_def)
  have "a \<notin> set (cs ! ?i)" using assms(3) nth_mem [OF i] by auto
  then show "chains_ok st (push_handle st cs a)"
    unfolding p using assms(1) i by (intro chains_ok_update) (auto simp: chains_ok_def)
  show "set (concat (push_handle st cs a)) = insert a (set (concat cs))"
    "length (concat (push_handle st cs a)) = Suc (length (concat cs))" "length (push_handle st cs a) = length cs"
    unfolding p concat_update [OF i] concat_split [OF i] by auto
qed

lemma foldl_foldl_concat: "foldl (foldl f) z xss = foldl f z (concat xss)"
  by (induction xss arbitrary: z) simp_all

lemma foldl_push_handle:
  assumes "chains_ok st cs" and "cs \<noteq> []" and "distinct xs" and "set xs \<inter> set (concat cs) = {}"
  shows "chains_ok st (foldl (push_handle st) cs xs) \<and>
     set (concat (foldl (push_handle st) cs xs)) = set xs \<union> set (concat cs) \<and>
     length (concat (foldl (push_handle st) cs xs)) = length xs + length (concat cs) \<and>
     foldl (push_handle st) cs xs \<noteq> []"
  using assms
proof (induction xs arbitrary: cs)
  case (Cons x xs)
  have x: "x \<notin> set (concat cs)" using Cons.prems(4) by auto
  note p = push_handle_ok [OF Cons.prems(1,2) x]
  have "push_handle st cs x \<noteq> []" using p(4) Cons.prems(2) by auto
  moreover have "set xs \<inter> set (concat (push_handle st cs x)) = {}" using p(2) Cons.prems(3,4) by auto
  ultimately show ?case using Cons.IH [OF p(1)] Cons.prems(3) p(2,3) by auto
qed simp

lemma resize_length_pos: "0 < resize_length k elems"
proof (induction k elems rule: resize_length.induct)
  case (1 k elems)
  then show ?case by (subst resize_length.simps) (simp add: Let_def)
qed

lemma distinct_concat_chains:
  assumes "chains_ok st cs"
  shows "distinct (concat cs)"
proof -
  have "distinct (concat (take n cs))" if "n \<le> length cs" for n
    using that
  proof (induction n)
    case (Suc n)
    have "set (cs ! n) \<inter> set (concat (take n cs)) = {}"
      using other_chains_disjoint [OF assms, of n] Suc.prems by auto
    then show ?case using Suc assms by (simp add: take_Suc_conv_app_nth chains_ok_def Int_commute)
  qed simp
  from this [of "length cs"] show ?thesis by simp
qed

lemma Table_Resize_ok:
  assumes "chains_ok st (t_list t)" and "t_elems t = length (concat (t_list t))"
  shows "chains_ok st (t_list (Table_Resize st t))" "table_set (Table_Resize st t) = table_set t"
    "t_list (Table_Resize st t) \<noteq> []" "t_elems (Table_Resize st t) = length (concat (t_list (Table_Resize st t)))"
proof -
  let ?n = "resize_length 0 (t_elems t)"
  have e: "concat (replicate ?n []) = ([] :: addr list)" by (induction ?n) auto
  have "chains_ok st (replicate ?n [])" by (simp add: chains_ok_def)
  then have "chains_ok st (t_list (Table_Resize st t)) \<and> table_set (Table_Resize st t) = table_set t \<and>
    t_list (Table_Resize st t) \<noteq> [] \<and> t_elems (Table_Resize st t) = length (concat (t_list (Table_Resize st t)))"
    using foldl_push_handle [of st "replicate ?n []" "concat (t_list t)"] distinct_concat_chains [OF assms(1)]
      resize_length_pos [of 0 "t_elems t"] assms(2) e
    by (simp add: Table_Resize_def foldl_foldl_concat table_set_def Let_def)
  then show "chains_ok st (t_list (Table_Resize st t))" "table_set (Table_Resize st t) = table_set t"
    "t_list (Table_Resize st t) \<noteq> []" "t_elems (Table_Resize st t) = length (concat (t_list (Table_Resize st t)))"
    by blast+
qed

section \<open>The interface\<close>

definition h_key_of :: "store \<Rightarrow> addr \<Rightarrow> bytes" where
  "h_key_of st a = h_key (the (st a))"

definition h_hash_of :: "store \<Rightarrow> addr \<Rightarrow> u32" where
  "h_hash_of st a = h_hash (the (st a))"

locale handle_table =
  fixes tinv :: "store \<Rightarrow> 't \<Rightarrow> bool"
    and entries :: "'t \<Rightarrow> addr set"
    and lookup :: "store \<Rightarrow> 't \<Rightarrow> bytes \<Rightarrow> u32 \<Rightarrow> addr option"
    and insert_handle :: "store \<Rightarrow> addr \<Rightarrow> 't \<Rightarrow> addr option \<times> 't"
    and remove_handle :: "store \<Rightarrow> bytes \<Rightarrow> u32 \<Rightarrow> 't \<Rightarrow> addr option \<times> 't"
  assumes lookup_iff: "tinv st t \<Longrightarrow> lookup st t key hash = Some a \<longleftrightarrow> a \<in> entries t \<and> matches st key hash a"
    and insert_result: "fst (insert_handle st a t) = lookup st t (h_key_of st a) (h_hash_of st a)"
    and insert_inv: "tinv st t \<Longrightarrow> a \<notin> entries t \<Longrightarrow> tinv st (snd (insert_handle st a t))"
    and insert_entries: "tinv st t \<Longrightarrow> a \<notin> entries t \<Longrightarrow>
       entries (snd (insert_handle st a t)) =
         insert a (entries t - set_option (lookup st t (h_key_of st a) (h_hash_of st a)))"
    and remove_result: "fst (remove_handle st key hash t) = lookup st t key hash"
    and remove_inv: "tinv st t \<Longrightarrow> tinv st (snd (remove_handle st key hash t))"
    and remove_entries: "tinv st t \<Longrightarrow>
       entries (snd (remove_handle st key hash t)) = entries t - set_option (lookup st t key hash)"
    and tinv_cong: "tinv st t \<Longrightarrow> \<forall>a \<in> entries t. h_key_of st' a = h_key_of st a \<and> h_hash_of st' a = h_hash_of st a \<Longrightarrow>
       tinv st' t"
    and tinv_unique: "tinv st t \<Longrightarrow> a \<in> entries t \<Longrightarrow> b \<in> entries t \<Longrightarrow>
       matches st (h_key_of st b) (h_hash_of st b) a \<Longrightarrow> a = b"
begin

lemma lookup_None: "tinv st t \<Longrightarrow> lookup st t key hash = None \<longleftrightarrow> (\<forall>a \<in> entries t. \<not> matches st key hash a)"
  using lookup_iff [of st t key hash] by (metis not_None_eq)

lemma lookup_self: "tinv st t \<Longrightarrow> a \<in> entries t \<Longrightarrow> lookup st t (h_key_of st a) (h_hash_of st a) = Some a"
  using lookup_iff by (simp add: matches_def h_key_of_def h_hash_of_def)

text \<open>An inserted handle is found under its key, every other key as before; a removed key is gone.\<close>

lemma lookup_insert:
  assumes "tinv st t" and "a \<notin> entries t"
  shows "lookup st (snd (insert_handle st a t)) key hash = (if matches st key hash a then Some a else lookup st t key hash)"
proof -
  note i = insert_inv [OF assms] insert_entries [OF assms]
  show ?thesis
  proof (cases "matches st key hash a")
    case True
    then show ?thesis using lookup_iff [OF i(1)] i(2) by auto
  next
    case False
    have "lookup st (snd (insert_handle st a t)) key hash = Some b \<longleftrightarrow> lookup st t key hash = Some b" for b
    proof -
      have "matches st key hash b \<Longrightarrow> lookup st t (h_key_of st a) (h_hash_of st a) \<noteq> Some b"
        using False lookup_iff [OF assms(1)] by (auto simp: matches_def h_key_of_def h_hash_of_def)
      then show ?thesis using lookup_iff [OF i(1)] lookup_iff [OF assms(1)] i(2) False by auto
    qed
    then show ?thesis using False by (metis (no_types) not_None_eq)
  qed
qed

lemma lookup_remove:
  assumes "tinv st t"
  shows "lookup st (snd (remove_handle st key hash t)) key' hash' =
    (if key' = key \<and> hash' = hash then None else lookup st t key' hash')"
proof -
  note r = remove_inv [OF assms, of key hash] remove_entries [OF assms, of key hash]
  have "lookup st (snd (remove_handle st key hash t)) key' hash' = Some b \<longleftrightarrow>
      lookup st t key' hash' = Some b \<and> \<not> (key' = key \<and> hash' = hash)" for b
    using lookup_iff [OF r(1)] lookup_iff [OF assms] r(2) by (auto simp: matches_def)
  then show ?thesis by (metis not_None_eq)
qed

end

lemma bucket_of_handle:
  assumes "table_inv st t" and "i < length (t_list t)" and "a \<in> set (t_list t ! i)"
  shows "bucket_index (length (t_list t)) (h_hash (the (st a))) = i"
  using assms by (auto simp: table_inv_def chains_ok_def)

text \<open>Replacing the chain of a key: the parts of the table that stay.\<close>

lemma table_parts:
  assumes "table_inv st t" and "i < length (t_list t)"
  defines "others \<equiv> set (concat (take i (t_list t)) @ concat (drop (Suc i) (t_list t)))"
  shows "table_set t = set (t_list t ! i) \<union> others" "set (t_list t ! i) \<inter> others = {}"
    "set (concat ((t_list t)[i := c])) = set c \<union> others"
    "length (concat ((t_list t)[i := c])) + length (t_list t ! i) = length (concat (t_list t)) + length c"
proof -
  have ok: "chains_ok st (t_list t)" using assms(1) by (simp add: table_inv_def)
  show "table_set t = set (t_list t ! i) \<union> others"
    unfolding table_set_def concat_split [OF assms(2)] others_def by auto
  show "set (t_list t ! i) \<inter> others = {}" unfolding others_def by (rule other_chains_disjoint [OF ok assms(2)])
  show "set (concat ((t_list t)[i := c])) = set c \<union> others"
    unfolding concat_update [OF assms(2)] others_def by auto
  show "length (concat ((t_list t)[i := c])) + length (t_list t ! i) = length (concat (t_list t)) + length c"
    unfolding concat_update [OF assms(2)] by (simp add: concat_split [OF assms(2)])
qed

lemma FindPointer_props:
  assumes "table_inv st t" and "FindPointer st t key hash = (i, p)"
  shows "i < length (t_list t)" "i = bucket_index (length (t_list t)) hash" "p \<le> length (t_list t ! i)"
    "Table_Lookup st t key hash = (if p < length (t_list t ! i) then Some (t_list t ! i ! p) else None)"
  using assms bucket_index_less [of "length (t_list t)" hash]
  by (auto simp: FindPointer_def Let_def table_inv_def length_takeWhile_le Table_Lookup_def slot_def)

lemma set_replace_nth:
  assumes "distinct c" and "p < length c"
  shows "set (take p c @ a # drop (Suc p) c) = insert a (set c - {c ! p})"
    "set (take p c @ drop (Suc p) c) = set c - {c ! p}"
    "a \<notin> set c \<Longrightarrow> distinct (take p c @ a # drop (Suc p) c)" "distinct (take p c @ drop (Suc p) c)"
proof -
  have c: "c = take p c @ c ! p # drop (Suc p) c" using assms(2) by (simp add: id_take_nth_drop)
  have d: "distinct (take p c @ c ! p # drop (Suc p) c)" using assms(1) c by simp
  have s: "set c = set (take p c @ c ! p # drop (Suc p) c)" using c by simp
  show "set (take p c @ a # drop (Suc p) c) = insert a (set c - {c ! p})"
    "set (take p c @ drop (Suc p) c) = set c - {c ! p}" using d unfolding s by auto
  show "distinct (take p c @ drop (Suc p) c)" using d by simp
  show "distinct (take p c @ a # drop (Suc p) c)" if "a \<notin> set c" using d that unfolding s by simp
qed

lemma table_inv_Remove:
  assumes "table_inv st t"
  shows "table_inv st (snd (Table_Remove st key hash t))"
    "table_set (snd (Table_Remove st key hash t)) = table_set t - set_option (Table_Lookup st t key hash)"
proof -
  obtain i p where fp: "FindPointer st t key hash = (i, p)" by fastforce
  note f = FindPointer_props [OF assms fp]
  let ?c = "t_list t ! i"
  have ok: "chains_ok st (t_list t)" using assms by (simp add: table_inv_def)
  have dist: "distinct ?c" using ok f(1) by (simp add: chains_ok_def)
  have "table_inv st (snd (Table_Remove st key hash t)) \<and>
    table_set (snd (Table_Remove st key hash t)) = table_set t - set_option (Table_Lookup st t key hash)"
  proof (cases "p < length ?c")
    case False
    then show ?thesis using f(4) fp assms by (simp add: Table_Remove_def slot_def)
  next
    case True
    let ?c' = "take p ?c @ drop (Suc p) ?c"
    let ?t = "t\<lparr>t_list := (t_list t)[i := ?c'], t_elems := t_elems t - 1\<rparr>"
    have r: "snd (Table_Remove st key hash t) = ?t" using True fp by (simp add: Table_Remove_def slot_def Let_def)
    note s = set_replace_nth [OF dist True]
    note parts = table_parts [OF assms f(1)]
    have "chains_ok st (t_list ?t)"
      using chains_ok_update [OF ok f(1) s(4)] s(2) bucket_of_handle [OF assms f(1)] by simp
    moreover have set: "table_set ?t = table_set t - {?c ! p}"
      using parts(1,2) parts(3) [of ?c'] s(2) nth_mem [OF True] by (auto simp: table_set_def)
    moreover have "t_elems ?t = length (concat (t_list ?t))"
      using parts(4) [of ?c'] assms True by (simp add: table_inv_def)
    ultimately show ?thesis using assms f(4) True unfolding r by (auto simp: table_inv_def)
  qed
  then show "table_inv st (snd (Table_Remove st key hash t))"
    "table_set (snd (Table_Remove st key hash t)) = table_set t - set_option (Table_Lookup st t key hash)" by blast+
qed

lemma table_inv_Insert:
  assumes "table_inv st t" and "a \<notin> table_set t"
  shows "table_inv st (snd (Table_Insert st a t))"
    "table_set (snd (Table_Insert st a t)) =
       insert a (table_set t - set_option (Table_Lookup st t (h_key_of st a) (h_hash_of st a)))"
proof -
  let ?key = "h_key (the (st a))" and ?hash = "h_hash (the (st a))"
  obtain i p where fp: "FindPointer st t ?key ?hash = (i, p)" by fastforce
  note f = FindPointer_props [OF assms(1) fp]
  let ?c = "t_list t ! i"
  let ?c' = "take p ?c @ a # drop (Suc p) ?c"
  let ?old = "Table_Lookup st t ?key ?hash"
  let ?cs = "(t_list t)[i := ?c']"
  have ok: "chains_ok st (t_list t)" using assms(1) by (simp add: table_inv_def)
  have dist: "distinct ?c" using ok f(1) by (simp add: chains_ok_def)
  note parts = table_parts [OF assms(1) f(1)]
  have a: "a \<notin> set ?c" using assms(2) parts(1) by auto
  have c': "distinct ?c' \<and> set ?c' = insert a (set ?c - set_option ?old) \<and>
      length ?c' = length ?c + (if ?old = None then 1 else 0)"
  proof (cases "p < length ?c")
    case True
    then have "?old = Some (?c ! p)" using f(4) by simp
    then show ?thesis using set_replace_nth [OF dist True] a True by simp
  next
    case False
    then have "?old = None" "p = length ?c" using f(3,4) by simp_all
    then show ?thesis using a dist by simp
  qed
  have cok: "chains_ok st ?cs"
  proof (rule chains_ok_update [OF ok f(1)])
    show "\<forall>x \<in> set ?c'. bucket_index (length (t_list t)) (h_hash (the (st x))) = i"
      using c' bucket_of_handle [OF assms(1) f(1)] f(2) by auto
  qed (use c' in blast)
  have old: "set_option ?old \<subseteq> set ?c" using f(4) by auto
  then have set: "set (concat ?cs) = insert a (table_set t - set_option ?old)"
    unfolding parts(3) using c' parts(1,2) by auto
  have len: "length (concat ?cs) = t_elems t + (if ?old = None then 1 else 0)"
    using parts(4) [of ?c'] c' assms(1) by (simp add: table_inv_def)
  have uniq: "x = y" if "x \<in> set (concat ?cs)" "y \<in> set (concat ?cs)" "matches st (h_key (the (st y))) (h_hash (the (st y))) x" for x y
  proof -
    have no: "\<not> matches st ?key ?hash z" if "z \<in> table_set t - set_option ?old" for z
      using that slot_FindPointer_Some [OF assms(1), of ?key ?hash z] by auto
    show ?thesis
    proof (cases "x = a \<or> y = a")
      case True
      then have "matches st ?key ?hash x" "matches st ?key ?hash y" using that(3) by (auto simp: matches_def)
      then show ?thesis using no that(1,2) True unfolding set by blast
    next
      case False
      then show ?thesis using that assms(1) unfolding set by (simp add: table_inv_def)
    qed
  qed
  have base: "table_inv st t' \<and> table_set t' = insert a (table_set t - set_option ?old)"
    if "t_list t' = ?cs" "t_elems t' = t_elems t + (if ?old = None then 1 else 0)" for t' :: LRUHandleTable
  proof -
    have ts: "table_set t' = set (concat ?cs)" unfolding table_set_def that(1) ..
    have "?cs \<noteq> []" using f(1) by auto
    then have "table_inv st t'" using cok len [symmetric] uniq unfolding table_inv_def ts that by blast
    then show ?thesis using ts set by simp
  qed
  let ?t = "t\<lparr>t_list := ?cs\<rparr>"
  have ins: "snd (Table_Insert st a t) =
      (if ?old = None then
         (if t_elems t + 1 > length ?cs then Table_Resize st (?t\<lparr>t_elems := t_elems t + 1\<rparr>) else ?t\<lparr>t_elems := t_elems t + 1\<rparr>)
       else ?t)"
    using fp by (simp add: Table_Insert_def Table_Lookup_def Let_def)
  have "table_inv st (snd (Table_Insert st a t)) \<and>
    table_set (snd (Table_Insert st a t)) = insert a (table_set t - set_option ?old)"
  proof (cases "?old = None \<and> t_elems t + 1 > length ?cs")
    case True
    let ?u = "?t\<lparr>t_elems := t_elems t + 1\<rparr>"
    have u: "table_inv st ?u" "table_set ?u = insert a (table_set t - set_option ?old)" using base [of ?u] True by simp_all
    then have "chains_ok st (t_list ?u)" "t_elems ?u = length (concat (t_list ?u))" by (simp_all add: table_inv_def)
    note rs = Table_Resize_ok [OF this]
    have "table_inv st (Table_Resize st ?u)" using rs u(1) by (simp add: table_inv_def)
    then show ?thesis using ins True rs(2) u(2) by simp
  next
    case False
    then show ?thesis using ins base [of ?t] base [of "?t\<lparr>t_elems := t_elems t + 1\<rparr>"] by (cases "?old = None") auto
  qed
  then show "table_inv st (snd (Table_Insert st a t))"
    "table_set (snd (Table_Insert st a t)) =
       insert a (table_set t - set_option (Table_Lookup st t (h_key_of st a) (h_hash_of st a)))"
    by (simp_all add: h_key_of_def h_hash_of_def)
qed

lemma table_inv_distinct:
  assumes "table_inv st t"
  shows "distinct (concat (t_list t))"
proof -
  have ok: "chains_ok st (t_list t)" using assms by (simp add: table_inv_def)
  have "distinct (concat (take n (t_list t)))" if "n \<le> length (t_list t)" for n
    using that
  proof (induction n)
    case (Suc n)
    then have n: "n < length (t_list t)" by simp
    have "set (t_list t ! n) \<inter> set (concat (take n (t_list t))) = {}"
      using other_chains_disjoint [OF ok n] by auto
    moreover have "distinct (t_list t ! n)" using ok n by (simp add: chains_ok_def)
    ultimately show ?case using Suc n by (simp add: take_Suc_conv_app_nth) blast
  qed simp
  from this [of "length (t_list t)"] show ?thesis by simp
qed

interpretation lru_table: handle_table table_inv table_set Table_Lookup Table_Insert Table_Remove
proof
  fix st t a key hash
  show "fst (Table_Insert st a t) = Table_Lookup st t (h_key_of st a) (h_hash_of st a)"
    by (auto simp: Table_Insert_def Table_Lookup_def h_key_of_def h_hash_of_def Let_def split: prod.splits)
  show "fst (Table_Remove st key hash t) = Table_Lookup st t key hash"
    by (auto simp: Table_Remove_def Table_Lookup_def Let_def split: prod.splits)
  assume inv: "table_inv st t"
  show "Table_Lookup st t key hash = Some a \<longleftrightarrow> a \<in> table_set t \<and> matches st key hash a"
    by (rule slot_FindPointer_Some [OF inv])
  show "table_inv st (snd (Table_Remove st key hash t))"
    "table_set (snd (Table_Remove st key hash t)) = table_set t - set_option (Table_Lookup st t key hash)"
    by (rule table_inv_Remove [OF inv])+
  assume "a \<notin> table_set t"
  then show "table_inv st (snd (Table_Insert st a t))"
    "table_set (snd (Table_Insert st a t)) =
       insert a (table_set t - set_option (Table_Lookup st t (h_key_of st a) (h_hash_of st a)))"
    by (rule table_inv_Insert [OF inv])+
next
  fix st st' t
  assume inv: "table_inv st t"
    and eq: "\<forall>a \<in> table_set t. h_key_of st' a = h_key_of st a \<and> h_hash_of st' a = h_hash_of st a"
  have "set (t_list t ! i) \<subseteq> table_set t" if "i < length (t_list t)" for i
    using table_parts(1) [OF inv that] by auto
  then show "table_inv st' t"
    using inv eq by (simp add: table_inv_def chains_ok_def matches_def h_key_of_def h_hash_of_def subset_iff)
next
  fix st t a b
  assume "table_inv st t" "a \<in> table_set t" "b \<in> table_set t" "matches st (h_key_of st b) (h_hash_of st b) a"
  then show "a = b" by (simp add: table_inv_def h_key_of_def h_hash_of_def)
qed

lemma table_inv_new: "table_inv st Table_new" "table_set Table_new = {}"
proof -
  let ?t = "\<lparr>t_list = [], t_elems = 0\<rparr>"
  have "chains_ok st' (t_list ?t)" for st' by (simp add: chains_ok_def)
  note rs = Table_Resize_ok [of Map.empty ?t, OF this]
  show set: "table_set Table_new = {}" using rs(2) by (simp add: Table_new_def table_set_def)
  have "table_inv Map.empty Table_new" using rs set by (simp add: table_inv_def Table_new_def)
  then show "table_inv st Table_new" by (rule lru_table.tinv_cong) (simp add: set)
qed

end
