(* ===== verification/Lru_Cache.thy ===== *)
theory Lru_Cache
  imports Lru_Table Status "HOL-Library.Monad_Syntax"
begin

text \<open>
  One shard of the block cache: \<^verbatim>\<open>LRUCacheShard\<close> of \<^verbatim>\<open>cache/lru_cache.h/.cc\<close>.  The evictable
  handles form a circular doubly linked list through the sentinel \<^verbatim>\<open>lru_\<close> (address 0), oldest first,
  with the head of the low-priority pool at \<^verbatim>\<open>lru_low_pri_\<close>; the fields \<^verbatim>\<open>next\<close> and \<^verbatim>\<open>prev\<close>
  are two partial maps, None being the null pointer.

  An operation returns None when an \<^verbatim>\<open>assert\<close> fails, a null or freed handle is read, a handle is freed
  twice, or a loop does not end.  \<^verbatim>\<open>size_t\<close> and reference counts are natural numbers: the charges of
  the entries a process can hold sum to less than \<open>2 ^ 64\<close>.  The pool ratio is a \<^verbatim>\<open>double\<close>, whose
  operations are an argument (\<open>pool_ops\<close>).
\<close>

section \<open>State\<close>

text \<open>What the shard uses of \<^verbatim>\<open>double\<close>: the product of a size with a ratio, the comparison of a size with a
  pool capacity, and the test whether a ratio is positive.\<close>

record 'd pool_ops =
  p_zero :: 'd
  p_times :: "nat \<Rightarrow> 'd \<Rightarrow> 'd"
  p_less :: "'d \<Rightarrow> nat \<Rightarrow> bool"
  p_positive :: "'d \<Rightarrow> bool"

record 'd LRUCacheShard =
  capacity :: nat
  high_pri_pool_usage :: nat
  strict_capacity_limit :: bool
  high_pri_pool_ratio :: 'd
  high_pri_pool_capacity :: 'd
  lru_next :: "addr \<rightharpoonup> addr"
  lru_prev :: "addr \<rightharpoonup> addr"
  lru_low_pri :: addr
  lru_table :: LRUHandleTable
  usage :: nat
  lru_usage :: nat
  full_charge_metadata :: bool
  handles :: store
  deleter_calls :: "(nat \<times> bytes \<times> nat) list"

abbreviation lru :: addr where
  "lru \<equiv> 0"

abbreviation set_handle :: "addr \<Rightarrow> LRUHandle \<Rightarrow> 'd LRUCacheShard \<Rightarrow> 'd LRUCacheShard" where
  "set_handle e h s \<equiv> s\<lparr>handles := (handles s)(e \<mapsto> h)\<rparr>"

definition total_charge :: "'d LRUCacheShard \<Rightarrow> LRUHandle \<Rightarrow> nat" where
  "total_charge s h = CalcTotalCharge (full_charge_metadata s) h"

text \<open>\<^verbatim>\<open>LRUHandle::Free\<close>: the deleter is called on the key and the value, and the memory is given back.\<close>

definition Free :: "addr \<Rightarrow> 'd LRUCacheShard \<Rightarrow> 'd LRUCacheShard option" where
  "Free e s = do {
     h \<leftarrow> handles s e;
     assert (h_refs h = 0);
     let s = (case h_deleter h of None \<Rightarrow> s
              | Some d \<Rightarrow> s\<lparr>deleter_calls := deleter_calls s @ [(d, h_key h, h_value h)]\<rparr>);
     Some (s\<lparr>handles := (handles s)(e := None)\<rparr>)
   }"

fun Free_all :: "addr list \<Rightarrow> 'd LRUCacheShard \<Rightarrow> 'd LRUCacheShard option" where
  "Free_all [] s = Some s"
| "Free_all (e # es) s = do { s \<leftarrow> Free e s; Free_all es s }"

section \<open>The list\<close>

definition LRU_Remove :: "addr \<Rightarrow> 'd LRUCacheShard \<Rightarrow> 'd LRUCacheShard option" where
  "LRU_Remove e s = do {
     n \<leftarrow> lru_next s e;
     p \<leftarrow> lru_prev s e;
     let s = (if lru_low_pri s = e then s\<lparr>lru_low_pri := p\<rparr> else s);
     let s = s\<lparr>lru_prev := (lru_prev s)(n := lru_prev s e)\<rparr>;
     p \<leftarrow> lru_prev s e;
     let s = s\<lparr>lru_next := (lru_next s)(p := lru_next s e)\<rparr>;
     let s = s\<lparr>lru_next := (lru_next s)(e := None), lru_prev := (lru_prev s)(e := None)\<rparr>;
     h \<leftarrow> handles s e;
     let charge = total_charge s h;
     assert (lru_usage s \<ge> charge);
     let s = s\<lparr>lru_usage := lru_usage s - charge\<rparr>;
     if InHighPriPool h then do {
       assert (high_pri_pool_usage s \<ge> charge);
       Some (s\<lparr>high_pri_pool_usage := high_pri_pool_usage s - charge\<rparr>)
     } else Some s
   }"

partial_function (option) MaintainPoolSize :: "'d pool_ops \<Rightarrow> 'd LRUCacheShard \<Rightarrow> 'd LRUCacheShard option" where
  [code]: "MaintainPoolSize ops s =
     (if p_less ops (high_pri_pool_capacity s) (high_pri_pool_usage s) then do {
        low \<leftarrow> lru_next s (lru_low_pri s);
        let s = s\<lparr>lru_low_pri := low\<rparr>;
        assert (lru_low_pri s \<noteq> lru);
        h \<leftarrow> handles s low;
        let h = SetInHighPriPool False h;
        let s = set_handle low h s;
        let charge = total_charge s h;
        assert (high_pri_pool_usage s \<ge> charge);
        MaintainPoolSize ops (s\<lparr>high_pri_pool_usage := high_pri_pool_usage s - charge\<rparr>)
      } else Some s)"

definition LRU_Insert :: "'d pool_ops \<Rightarrow> addr \<Rightarrow> 'd LRUCacheShard \<Rightarrow> 'd LRUCacheShard option" where
  "LRU_Insert ops e s = do {
     assert (lru_next s e = None);
     assert (lru_prev s e = None);
     h \<leftarrow> handles s e;
     let charge = total_charge s h;
     s \<leftarrow> (if p_positive ops (high_pri_pool_ratio s) \<and> (IsHighPri h \<or> HasHit h) then do {
             let s = s\<lparr>lru_next := (lru_next s)(e \<mapsto> lru)\<rparr>;
             let s = s\<lparr>lru_prev := (lru_prev s)(e := lru_prev s lru)\<rparr>;
             p \<leftarrow> lru_prev s e;
             let s = s\<lparr>lru_next := (lru_next s)(p \<mapsto> e)\<rparr>;
             n \<leftarrow> lru_next s e;
             let s = s\<lparr>lru_prev := (lru_prev s)(n \<mapsto> e)\<rparr>;
             let s = set_handle e (SetInHighPriPool True h) s;
             let s = s\<lparr>high_pri_pool_usage := high_pri_pool_usage s + charge\<rparr>;
             MaintainPoolSize ops s
           } else do {
             let s = s\<lparr>lru_next := (lru_next s)(e := lru_next s (lru_low_pri s))\<rparr>;
             let s = s\<lparr>lru_prev := (lru_prev s)(e \<mapsto> lru_low_pri s)\<rparr>;
             p \<leftarrow> lru_prev s e;
             let s = s\<lparr>lru_next := (lru_next s)(p \<mapsto> e)\<rparr>;
             n \<leftarrow> lru_next s e;
             let s = s\<lparr>lru_prev := (lru_prev s)(n \<mapsto> e)\<rparr>;
             let s = set_handle e (SetInHighPriPool False h) s;
             Some (s\<lparr>lru_low_pri := e\<rparr>)
           });
     Some (s\<lparr>lru_usage := lru_usage s + charge\<rparr>)
   }"

text \<open>The body shared by \<^verbatim>\<open>EvictFromLRU\<close> and \<^verbatim>\<open>EraseUnRefEntries\<close>: the oldest entry leaves
  the list, the table and the usage.\<close>

definition evict_oldest :: "addr \<Rightarrow> 'd LRUCacheShard \<Rightarrow> 'd LRUCacheShard option" where
  "evict_oldest old s = do {
     h \<leftarrow> handles s old;
     assert (InCache h \<and> \<not> HasRefs h);
     s \<leftarrow> LRU_Remove old s;
     let s = s\<lparr>lru_table := snd (Table_Remove (handles s) (h_key h) (h_hash h) (lru_table s))\<rparr>;
     let h = SetInCache False h;
     let s = set_handle old h s;
     let charge = total_charge s h;
     assert (usage s \<ge> charge);
     Some (s\<lparr>usage := usage s - charge\<rparr>)
   }"

partial_function (option) EvictFromLRU ::
  "nat \<Rightarrow> addr list \<Rightarrow> 'd LRUCacheShard \<Rightarrow> (addr list \<times> 'd LRUCacheShard) option" where
  [code]: "EvictFromLRU charge deleted s =
     (if usage s + charge > capacity s \<and> lru_next s lru \<noteq> Some lru then do {
        old \<leftarrow> lru_next s lru;
        s \<leftarrow> evict_oldest old s;
        EvictFromLRU charge (deleted @ [old]) s
      } else Some (deleted, s))"

partial_function (option) erase_unref_loop ::
  "addr list \<Rightarrow> 'd LRUCacheShard \<Rightarrow> (addr list \<times> 'd LRUCacheShard) option" where
  [code]: "erase_unref_loop deleted s =
     (if lru_next s lru \<noteq> Some lru then do {
        old \<leftarrow> lru_next s lru;
        s \<leftarrow> evict_oldest old s;
        erase_unref_loop (deleted @ [old]) s
      } else Some (deleted, s))"

section \<open>The operations\<close>

definition EraseUnRefEntries :: "'d LRUCacheShard \<Rightarrow> 'd LRUCacheShard option" where
  "EraseUnRefEntries s = do { (last_reference_list, s) \<leftarrow> erase_unref_loop [] s; Free_all last_reference_list s }"

definition SetCapacity :: "'d pool_ops \<Rightarrow> nat \<Rightarrow> 'd LRUCacheShard \<Rightarrow> 'd LRUCacheShard option" where
  "SetCapacity ops cap s = do {
     let s = s\<lparr>capacity := cap\<rparr>;
     let s = s\<lparr>high_pri_pool_capacity := p_times ops (capacity s) (high_pri_pool_ratio s)\<rparr>;
     (last_reference_list, s) \<leftarrow> EvictFromLRU 0 [] s;
     Free_all last_reference_list s
   }"

definition LRUCacheShard_new :: "'d pool_ops \<Rightarrow> nat \<Rightarrow> bool \<Rightarrow> 'd \<Rightarrow> bool \<Rightarrow> 'd LRUCacheShard option" where
  "LRUCacheShard_new ops cap strict ratio full =
     SetCapacity ops cap
       \<lparr>capacity = 0, high_pri_pool_usage = 0, strict_capacity_limit = strict, high_pri_pool_ratio = ratio,
        high_pri_pool_capacity = p_zero ops, lru_next = [lru \<mapsto> lru], lru_prev = [lru \<mapsto> lru], lru_low_pri = lru,
        lru_table = Table_new, usage = 0, lru_usage = 0, full_charge_metadata = full,
        handles = Map.empty, deleter_calls = []\<rparr>"

definition SetStrictCapacityLimit :: "bool \<Rightarrow> 'd LRUCacheShard \<Rightarrow> 'd LRUCacheShard" where
  "SetStrictCapacityLimit strict s = s\<lparr>strict_capacity_limit := strict\<rparr>"

definition Lookup :: "bytes \<Rightarrow> u32 \<Rightarrow> 'd LRUCacheShard \<Rightarrow> (addr option \<times> 'd LRUCacheShard) option" where
  "Lookup key hash s =
     (case Table_Lookup (handles s) (lru_table s) key hash of
        None \<Rightarrow> Some (None, s)
      | Some e \<Rightarrow> do {
          h \<leftarrow> handles s e;
          assert (InCache h);
          s \<leftarrow> (if \<not> HasRefs h then LRU_Remove e s else Some s);
          Some (Some e, set_handle e (SetHit (handle_Ref h)) s)
        })"

definition Ref :: "addr \<Rightarrow> 'd LRUCacheShard \<Rightarrow> (bool \<times> 'd LRUCacheShard) option" where
  "Ref e s = do {
     h \<leftarrow> handles s e;
     assert (HasRefs h);
     Some (True, set_handle e (handle_Ref h) s)
   }"

definition SetHighPriorityPoolRatio :: "'d pool_ops \<Rightarrow> 'd \<Rightarrow> 'd LRUCacheShard \<Rightarrow> 'd LRUCacheShard option" where
  "SetHighPriorityPoolRatio ops ratio s = do {
     let s = s\<lparr>high_pri_pool_ratio := ratio\<rparr>;
     let s = s\<lparr>high_pri_pool_capacity := p_times ops (capacity s) (high_pri_pool_ratio s)\<rparr>;
     MaintainPoolSize ops s
   }"

definition Release :: "'d pool_ops \<Rightarrow> addr option \<Rightarrow> bool \<Rightarrow> 'd LRUCacheShard \<Rightarrow> (bool \<times> 'd LRUCacheShard) option" where
  "Release ops handle force_erase s =
     (case handle of
        None \<Rightarrow> Some (False, s)
      | Some e \<Rightarrow> do {
          h \<leftarrow> handles s e;
          assert (h_refs h > 0);
          let (last_reference, h) = handle_Unref h;
          let s = set_handle e h s;
          (last_reference, s) \<leftarrow>
            (if last_reference \<and> InCache h then
               (if usage s > capacity s \<or> force_erase then do {
                  assert (lru_next s lru = Some lru \<or> force_erase);
                  let s = s\<lparr>lru_table := snd (Table_Remove (handles s) (h_key h) (h_hash h) (lru_table s))\<rparr>;
                  Some (last_reference, set_handle e (SetInCache False h) s)
                } else do {
                  s \<leftarrow> LRU_Insert ops e s;
                  Some (False, s)
                })
             else Some (last_reference, s));
          s \<leftarrow> (if last_reference then do {
                  let charge = total_charge s h;
                  assert (usage s \<ge> charge);
                  Some (s\<lparr>usage := usage s - charge\<rparr>)
                } else Some s);
          s \<leftarrow> (if last_reference then Free e s else Some s);
          Some (last_reference, s)
        })"

text \<open>The address of the new entry is the allocator's choice and comes as an argument.\<close>

definition new_handle :: "bytes \<Rightarrow> u32 \<Rightarrow> nat \<Rightarrow> nat \<Rightarrow> nat option \<Rightarrow> bool \<Rightarrow> LRUHandle" where
  "new_handle key hash val charge deleter high =
     SetPriority high (SetInCache True
       \<lparr>h_value = val, h_deleter = deleter, h_charge = charge, h_key = key, h_hash = hash, h_refs = 0, h_flags = 0\<rparr>)"

text \<open>The part of \<^verbatim>\<open>Insert\<close> that handles the entry the new one replaced in the table.\<close>

definition replace_old ::
  "addr option \<Rightarrow> addr list \<Rightarrow> 'd LRUCacheShard \<Rightarrow> (addr list \<times> 'd LRUCacheShard) option" where
  "replace_old old last_reference_list s =
     (case old of None \<Rightarrow> Some (last_reference_list, s)
      | Some a \<Rightarrow> do {
          g \<leftarrow> handles s a;
          assert (InCache g);
          let g = SetInCache False g;
          let s = set_handle a g s;
          if \<not> HasRefs g then do {
            s \<leftarrow> LRU_Remove a s;
            let old_charge = total_charge s g;
            assert (usage s \<ge> old_charge);
            Some (last_reference_list @ [a], s\<lparr>usage := usage s - old_charge\<rparr>)
          } else Some (last_reference_list, s)
        })"

definition Insert ::
  "'d pool_ops \<Rightarrow> addr \<Rightarrow> bytes \<Rightarrow> u32 \<Rightarrow> nat \<Rightarrow> nat \<Rightarrow> nat option \<Rightarrow> bool \<Rightarrow> bool \<Rightarrow> 'd LRUCacheShard \<Rightarrow>
     (Status \<times> addr option \<times> 'd LRUCacheShard) option" where
  "Insert ops e key hash val charge deleter want_handle high s = do {
     let h = new_handle key hash val charge deleter high;
     let s = set_handle e h s;
     let charge = total_charge s h;
     (last_reference_list, s) \<leftarrow> EvictFromLRU charge [] s;
     if usage s + charge > capacity s \<and> (strict_capacity_limit s \<or> \<not> want_handle) then
       (if \<not> want_handle then do {
          s \<leftarrow> Free_all (last_reference_list @ [e]) (set_handle e (SetInCache False h) s);
          Some (Status_OK, None, s)
        } else do {
          s \<leftarrow> Free_all last_reference_list (s\<lparr>handles := (handles s)(e := None)\<rparr>);
          Some (Status_Incomplete ''Insert failed due to LRU cache being full.'', None, s)
        })
     else do {
       let (old, table) = Table_Insert (handles s) e (lru_table s);
       let s = s\<lparr>lru_table := table, usage := usage s + charge\<rparr>;
       (last_reference_list, s) \<leftarrow> replace_old old last_reference_list s;
       (handle, s) \<leftarrow>
         (if \<not> want_handle then do {
            s \<leftarrow> LRU_Insert ops e s;
            Some (None, s)
          } else Some (Some e, set_handle e (handle_Ref h) s));
       s \<leftarrow> Free_all last_reference_list s;
       Some (Status_OK, handle, s)
     }
   }"

definition Erase :: "bytes \<Rightarrow> u32 \<Rightarrow> 'd LRUCacheShard \<Rightarrow> 'd LRUCacheShard option" where
  "Erase key hash s =
     (let (e, table) = Table_Remove (handles s) key hash (lru_table s); s = s\<lparr>lru_table := table\<rparr>
      in case e of None \<Rightarrow> Some s
         | Some e \<Rightarrow> do {
             h \<leftarrow> handles s e;
             assert (InCache h);
             let h = SetInCache False h;
             let s = set_handle e h s;
             if \<not> HasRefs h then do {
               s \<leftarrow> LRU_Remove e s;
               let charge = total_charge s h;
               assert (usage s \<ge> charge);
               Free e (s\<lparr>usage := usage s - charge\<rparr>)
             } else Some s
           })"

definition GetUsage :: "'d LRUCacheShard \<Rightarrow> nat" where
  "GetUsage s = usage s"

definition GetPinnedUsage :: "'d LRUCacheShard \<Rightarrow> nat option" where
  "GetPinnedUsage s = do { assert (usage s \<ge> lru_usage s); Some (usage s - lru_usage s) }"

definition GetHighPriPoolRatio :: "'d LRUCacheShard \<Rightarrow> 'd" where
  "GetHighPriPoolRatio s = high_pri_pool_ratio s"

text \<open>The calls of the callback, in order: the value and the charge of every entry of the table.\<close>

fun apply_to_chain :: "store \<Rightarrow> addr list \<Rightarrow> (nat \<times> nat) list option" where
  "apply_to_chain st [] = Some []"
| "apply_to_chain st (a # as) = do {
     h \<leftarrow> st a;
     assert (InCache h);
     calls \<leftarrow> apply_to_chain st as;
     Some ((h_value h, h_charge h) # calls)
   }"

definition ApplyToAllCacheEntries :: "'d LRUCacheShard \<Rightarrow> (nat \<times> nat) list option" where
  "ApplyToAllCacheEntries s = apply_to_chain (handles s) (concat (t_list (lru_table s)))"

partial_function (option) lru_size_loop :: "'d LRUCacheShard \<Rightarrow> addr \<Rightarrow> nat \<Rightarrow> nat option" where
  [code]: "lru_size_loop s lru_handle lru_size =
     (if lru_handle \<noteq> lru then do { n \<leftarrow> lru_next s lru_handle; lru_size_loop s n (lru_size + 1) }
      else Some lru_size)"

definition TEST_GetLRUSize :: "'d LRUCacheShard \<Rightarrow> nat option" where
  "TEST_GetLRUSize s = do { h \<leftarrow> lru_next s lru; lru_size_loop s h 0 }"

end
