(* ===== verification/Lru_Invariant.thy ===== *)
theory Lru_Invariant
  imports Lru_Cache
begin

text \<open>
  The invariant of a cache shard and its list operations.  The ghost lists \<open>lo\<close> and \<open>hi\<close> are the
  two pools, oldest entry first.
\<close>

section \<open>Rings\<close>

text \<open>The pointers lead from \<open>a\<close> through \<open>xs\<close> to \<open>b\<close>, and back.\<close>

fun links :: "(addr \<rightharpoonup> addr) \<Rightarrow> (addr \<rightharpoonup> addr) \<Rightarrow> addr \<Rightarrow> addr list \<Rightarrow> addr \<Rightarrow> bool" where
  "links nx pv a [] b \<longleftrightarrow> nx a = Some b \<and> pv b = Some a"
| "links nx pv a (x # xs) b \<longleftrightarrow> nx a = Some x \<and> pv x = Some a \<and> links nx pv x xs b"

definition ring :: "(addr \<rightharpoonup> addr) \<Rightarrow> (addr \<rightharpoonup> addr) \<Rightarrow> addr list \<Rightarrow> bool" where
  "ring nx pv xs \<longleftrightarrow> links nx pv lru xs lru \<and> distinct (lru # xs)"

lemma links_append [simp]: "links nx pv a (xs @ x # ys) b \<longleftrightarrow> links nx pv a xs x \<and> links nx pv x ys b"
  by (induction xs arbitrary: a) auto

lemma links_upd_next [simp]: "u \<noteq> a \<Longrightarrow> u \<notin> set xs \<Longrightarrow> links (nx(u := v)) pv a xs b = links nx pv a xs b"
  by (induction xs arbitrary: a) auto

lemma links_upd_prev [simp]: "u \<noteq> b \<Longrightarrow> u \<notin> set xs \<Longrightarrow> links nx (pv(u := v)) a xs b = links nx pv a xs b"
  by (induction xs arbitrary: a) auto

lemma links_last: "links nx pv a xs b \<Longrightarrow> nx (last (a # xs)) = Some b \<and> pv b = Some (last (a # xs))"
  by (induction xs arbitrary: a) auto

lemma links_hd: "links nx pv a xs b \<Longrightarrow> nx a = Some (hd (xs @ [b])) \<and> pv (hd (xs @ [b])) = Some a"
  by (cases xs) auto

lemma last_Cons_in: "last (a # xs) \<in> set (a # xs)"
  by (rule last_in_set) simp

lemma ring_at:
  assumes "ring nx pv (as @ e # bs)"
  shows "nx e = Some (hd (bs @ [lru]))" "pv e = Some (last (lru # as))"
    "e \<noteq> lru" "hd (bs @ [lru]) \<noteq> e" "last (lru # as) \<noteq> e"
proof -
  have l: "links nx pv lru as e" "links nx pv e bs lru" and d: "distinct (lru # as @ e # bs)"
    using assms by (auto simp: ring_def)
  show "nx e = Some (hd (bs @ [lru]))" "pv e = Some (last (lru # as))"
    using links_hd [OF l(2)] links_last [OF l(1)] by auto
  show "e \<noteq> lru" "hd (bs @ [lru]) \<noteq> e" using d by (cases bs; auto)+
  show "last (lru # as) \<noteq> e" using d by auto
qed

lemma ring_remove:
  assumes "ring nx pv (as @ e # bs)"
  defines "p \<equiv> last (lru # as)" and "n \<equiv> hd (bs @ [lru])"
  shows "ring (nx(p \<mapsto> n, e := None)) (pv(n \<mapsto> p, e := None)) (as @ bs)"
proof -
  have l: "links nx pv lru as e" "links nx pv e bs lru" and d: "distinct (lru # as @ e # bs)"
    using assms(1) by (auto simp: ring_def)
  show ?thesis
    using l d unfolding p_def n_def ring_def
    by (cases as rule: rev_cases; cases bs) (auto simp: fun_upd_twist)
qed

lemma ring_insert:
  assumes "ring nx pv (as @ bs)" and "e \<notin> set (as @ bs)" and "e \<noteq> lru"
  defines "p \<equiv> last (lru # as)" and "n \<equiv> hd (bs @ [lru])"
  shows "ring (nx(e \<mapsto> n, p \<mapsto> e)) (pv(e \<mapsto> p, n \<mapsto> e)) (as @ e # bs)"
  using assms(1-3) unfolding p_def n_def ring_def
  by (cases as rule: rev_cases; cases bs) auto

lemma ring_between:
  assumes "ring nx pv (as @ bs)"
  shows "nx (last (lru # as)) = Some (hd (bs @ [lru]))" "pv (hd (bs @ [lru])) = Some (last (lru # as))"
proof -
  have "nx (last (lru # as)) = Some (hd (bs @ [lru])) \<and> pv (hd (bs @ [lru])) = Some (last (lru # as))"
    using assms unfolding ring_def by (cases as rule: rev_cases; cases bs) auto
  then show "nx (last (lru # as)) = Some (hd (bs @ [lru]))" "pv (hd (bs @ [lru])) = Some (last (lru # as))" by auto
qed

section \<open>The list invariant\<close>

definition in_cache :: "store \<Rightarrow> addr \<Rightarrow> bool" where
  "in_cache st a \<longleftrightarrow> (\<exists>h. st a = Some h \<and> InCache h)"

definition in_pool :: "store \<Rightarrow> addr \<Rightarrow> bool" where
  "in_pool st a \<longleftrightarrow> (\<exists>h. st a = Some h \<and> InHighPriPool h)"

definition refs_of :: "store \<Rightarrow> addr \<Rightarrow> nat" where
  "refs_of st a = h_refs (the (st a))"

definition charge_of :: "'d LRUCacheShard \<Rightarrow> addr \<Rightarrow> nat" where
  "charge_of s a = total_charge s (the (handles s a))"

definition charges :: "'d LRUCacheShard \<Rightarrow> addr list \<Rightarrow> nat" where
  "charges s as = sum_list (map (charge_of s) as)"

definition pools_inv :: "'d LRUCacheShard \<Rightarrow> addr list \<Rightarrow> addr list \<Rightarrow> bool" where
  "pools_inv s lo hi \<longleftrightarrow>
     ring (lru_next s) (lru_prev s) (lo @ hi) \<and> lru_low_pri s = last (lru # lo) \<and>
     (\<forall>a. a \<noteq> lru \<and> a \<notin> set (lo @ hi) \<longrightarrow> lru_next s a = None \<and> lru_prev s a = None) \<and>
     set (lo @ hi) \<subseteq> dom (handles s) \<and>
     (\<forall>a \<in> set lo. \<not> in_pool (handles s) a) \<and> (\<forall>a \<in> set hi. in_pool (handles s) a) \<and>
     high_pri_pool_usage s = charges s hi"

definition list_inv :: "'d LRUCacheShard \<Rightarrow> addr list \<Rightarrow> addr list \<Rightarrow> bool" where
  "list_inv s lo hi \<longleftrightarrow> pools_inv s lo hi \<and> lru_usage s = charges s (lo @ hi)"

lemmas list_inv_defs = list_inv_def pools_inv_def

text \<open>Handles that differ in the flag of their pool only.\<close>

definition same_entries :: "store \<Rightarrow> store \<Rightarrow> bool" where
  "same_entries st st' \<longleftrightarrow>
     (\<forall>a. map_option (SetInHighPriPool False) (st' a) = map_option (SetInHighPriPool False) (st a))"

text \<open>Everything outside the list.\<close>

definition other_state :: "'d LRUCacheShard \<Rightarrow> nat \<times> bool \<times> 'd \<times> 'd \<times> LRUHandleTable \<times> nat \<times> bool \<times> (nat \<times> bytes \<times> nat) list" where
  "other_state s = (capacity s, strict_capacity_limit s, high_pri_pool_ratio s, high_pri_pool_capacity s,
     lru_table s, usage s, full_charge_metadata s, deleter_calls s)"

lemma charges_simps [simp]:
  "charges s [] = 0" "charges s (a # as) = charge_of s a + charges s as" "charges s (as @ bs) = charges s as + charges s bs"
  by (simp_all add: charges_def)

lemma charges_cong: "(\<And>a. a \<in> set as \<Longrightarrow> charge_of s' a = charge_of s a) \<Longrightarrow> charges s' as = charges s as"
  by (simp add: charges_def cong: map_cong)

lemma list_inv_ring: "list_inv s lo hi \<Longrightarrow> ring (lru_next s) (lru_prev s) (lo @ hi)"
  by (simp add: list_inv_defs)

lemma list_inv_dom: "list_inv s lo hi \<Longrightarrow> set (lo @ hi) \<subseteq> dom (handles s)"
  by (simp add: list_inv_defs)

lemma list_inv_oldest: "list_inv s lo hi \<Longrightarrow> lru_next s lru = Some (hd (lo @ hi @ [lru]))"
  using ring_between(1) [of "lru_next s" "lru_prev s" "[]" "lo @ hi"] by (simp add: list_inv_defs)

lemma list_inv_nonempty:
  assumes "list_inv s lo hi"
  shows "lru_next s lru = Some lru \<longleftrightarrow> lo @ hi = []"
proof (cases "lo @ hi")
  case (Cons a l)
  have "distinct (lru # (lo @ hi))" using list_inv_ring [OF assms] by (simp add: ring_def)
  then have "a \<noteq> lru" unfolding Cons by auto
  moreover have "lru_next s lru = Some a"
    using list_inv_oldest [OF assms] Cons by (simp flip: append_assoc)
  ultimately show ?thesis using Cons by simp
qed (use list_inv_oldest [OF assms] in auto)

lemma remove1_middle: "e \<notin> set as \<Longrightarrow> remove1 e (as @ e # bs) = as @ bs"
  by (induction as) auto

lemma split_unique: "xs @ e # ys = as @ e # bs \<Longrightarrow> distinct (as @ e # bs) \<Longrightarrow> xs = as \<and> ys = bs"
  using append_Cons_eq_iff [of e as bs xs ys] by auto

text \<open>A handle that is not in the list may change; a handle in the list may change in all but its charge and
  its pool.\<close>

lemma list_inv_handles:
  assumes "list_inv s lo hi" and "lru_next s' = lru_next s" "lru_prev s' = lru_prev s" "lru_low_pri s' = lru_low_pri s"
    "lru_usage s' = lru_usage s" "high_pri_pool_usage s' = high_pri_pool_usage s"
    and "\<And>a. a \<in> set (lo @ hi) \<Longrightarrow> a \<in> dom (handles s') \<and> charge_of s' a = charge_of s a \<and>
      in_pool (handles s') a = in_pool (handles s) a"
  shows "list_inv s' lo hi"
proof -
  have "charges s' (lo @ hi) = charges s (lo @ hi)" "charges s' hi = charges s hi"
    by (intro charges_cong; use assms(7) in simp)+
  then show ?thesis using assms unfolding list_inv_defs by auto
qed

section \<open>Removal from the list\<close>

lemma LRU_Remove_list:
  assumes inv: "list_inv s lo hi" and e: "e \<in> set (lo @ hi)"
  obtains s' where "LRU_Remove e s = Some s'" "list_inv s' (remove1 e lo) (remove1 e hi)"
    "handles s' = handles s" "other_state s' = other_state s"
proof -
  obtain as bs where ab: "lo @ hi = as @ e # bs" using split_list [OF e] by blast
  have r: "ring (lru_next s) (lru_prev s) (as @ e # bs)" using list_inv_ring [OF inv] ab by simp
  note at = ring_at [OF r]
  define p n where "p = last (lru # as)" and "n = hd (bs @ [lru])"
  obtain h where h: "handles s e = Some h" using inv e by (auto simp: list_inv_defs)
  have ch: "charge_of s e = total_charge s h" and pool: "in_pool (handles s) e = InHighPriPool h"
    by (simp_all add: charge_of_def in_pool_def h)
  have d: "distinct (lo @ hi)" using r ab by (simp add: ring_def)
  have le: "total_charge s h \<le> lru_usage s" using inv ab ch by (simp add: list_inv_defs)
  have in_hi: "e \<in> set hi \<longleftrightarrow> InHighPriPool h" using inv e pool d by (auto simp: list_inv_defs)
  have le_hi: "total_charge s h \<le> high_pri_pool_usage s" if "InHighPriPool h"
  proof -
    have "e \<in> set hi" using that in_hi by simp
    then obtain cs ds where "hi = cs @ e # ds" using split_list by fastforce
    then show ?thesis using inv ch by (simp add: list_inv_defs)
  qed
  define s' where "s' = s\<lparr>lru_low_pri := (if lru_low_pri s = e then p else lru_low_pri s),
      lru_next := (lru_next s)(p \<mapsto> n, e := None), lru_prev := (lru_prev s)(n \<mapsto> p, e := None),
      lru_usage := lru_usage s - total_charge s h,
      high_pri_pool_usage := (if InHighPriPool h then high_pri_pool_usage s - total_charge s h else high_pri_pool_usage s)\<rparr>"
  have run: "LRU_Remove e s = Some s'"
    using at h le le_hi unfolding LRU_Remove_def s'_def p_def [symmetric] n_def [symmetric]
    by (simp add: total_charge_def Let_def)
  have others: "handles s' = handles s" "other_state s' = other_state s" by (simp_all add: s'_def other_state_def)
  then have ch': "charges s' as = charges s as" for as
    by (intro charges_cong) (simp add: charge_of_def total_charge_def other_state_def)
  have ring': "ring (lru_next s') (lru_prev s') (as @ bs)"
    using ring_remove [OF r] by (simp add: s'_def p_def n_def)
  have null: "lru_next s' a = None \<and> lru_prev s' a = None" if "a \<noteq> lru" "a \<notin> set (as @ bs)" for a
  proof -
    have "p = lru \<or> p \<in> set as" "n = lru \<or> n \<in> set bs" using last_Cons_in [of lru as] by (auto simp: p_def n_def hd_append)
    then show ?thesis using that inv ab by (auto simp: s'_def list_inv_defs)
  qed
  have ea: "e \<notin> set as" "e \<notin> set bs" using d ab by auto
  have "list_inv s' (remove1 e lo) (remove1 e hi)"
  proof (cases "e \<in> set lo")
    case True
    then obtain l where l: "lo = as @ e # l" "bs = l @ hi"
    proof -
      obtain l1 l2 where lo: "lo = l1 @ e # l2" using split_list [OF True] by blast
      then have "l1 @ e # (l2 @ hi) = as @ e # bs" using ab by simp
      from split_unique [OF this d [unfolded ab]] have "l1 = as" "l2 @ hi = bs" by blast+
      then show ?thesis using that lo by simp
    qed
    then have rem: "remove1 e lo = as @ l" "remove1 e hi = hi" using ea by (simp_all add: remove1_middle remove1_idem)
    have low: "lru_low_pri s' = last (lru # as @ l)"
      using inv l ea by (cases l rule: rev_cases) (auto simp: list_inv_defs s'_def p_def)
    have "\<not> InHighPriPool h" using in_hi l ea by auto
    then have use: "lru_usage s' = charges s (as @ bs)" "high_pri_pool_usage s' = charges s hi"
      using inv l ch by (simp_all add: list_inv_defs s'_def)
    show ?thesis unfolding list_inv_defs rem
      using ring' null low use inv l others(1) by (auto simp: list_inv_defs ch')
  next
    case False
    then obtain l where l: "hi = l @ e # bs" "as = lo @ l"
    proof -
      obtain l1 l2 where hi: "hi = l1 @ e # l2" using split_list e False by fastforce
      then have "(lo @ l1) @ e # l2 = as @ e # bs" using ab by simp
      from split_unique [OF this d [unfolded ab]] have "lo @ l1 = as" "l2 = bs" by blast+
      then show ?thesis using that hi by simp
    qed
    then have rem: "remove1 e hi = l @ bs" "remove1 e lo = lo" using ea False by (simp_all add: remove1_middle remove1_idem)
    have "lru_low_pri s \<noteq> e" using inv False last_Cons_in [of lru lo] at(3) by (auto simp: list_inv_defs)
    then have low: "lru_low_pri s' = last (lru # lo)" using inv by (simp add: list_inv_defs s'_def)
    have "InHighPriPool h" using in_hi l by auto
    then have use: "lru_usage s' = charges s (as @ bs)" "high_pri_pool_usage s' = charges s (l @ bs)"
      using inv l ch by (simp_all add: list_inv_defs s'_def)
    show ?thesis unfolding list_inv_defs rem
      using ring' null low use inv l others(1) by (auto simp: list_inv_defs ch')
  qed
  then show ?thesis using that run others by blast
qed


section \<open>The pools\<close>

lemma same_entries_refl [simp]: "same_entries st st"
  by (simp add: same_entries_def)

lemma same_entries_trans: "same_entries st st' \<Longrightarrow> same_entries st' st'' \<Longrightarrow> same_entries st st''"
  by (simp add: same_entries_def)

lemma SetInHighPriPool_twice [simp]: "SetInHighPriPool b (SetInHighPriPool c h) = SetInHighPriPool b h"
  by (cases h) (auto simp: SetInHighPriPool_def flag_defs bit_eq_iff bit_simps)

lemma same_entries_upd: "st a = Some h \<Longrightarrow> same_entries st (st(a \<mapsto> SetInHighPriPool b h))"
  by (simp add: same_entries_def)

lemma same_entries_D:
  assumes "same_entries st st'" and "st a = Some h"
  obtains h' where "st' a = Some h'" "SetInHighPriPool False h' = SetInHighPriPool False h"
proof -
  have "map_option (SetInHighPriPool False) (st' a) = Some (SetInHighPriPool False h)"
    using assms by (simp add: same_entries_def)
  then show ?thesis using that by auto
qed

lemma SetInHighPriPool_eqD:
  assumes "SetInHighPriPool False h' = SetInHighPriPool False h"
  shows "InCache h' = InCache h" "h_refs h' = h_refs h" "h_key h' = h_key h" "h_hash h' = h_hash h"
    "CalcTotalCharge p h' = CalcTotalCharge p h" "h_value h' = h_value h" "h_deleter h' = h_deleter h"
proof -
  have "InCache (SetInHighPriPool False h') = InCache (SetInHighPriPool False h)"
    "h_refs (SetInHighPriPool False h') = h_refs (SetInHighPriPool False h)"
    "h_key (SetInHighPriPool False h') = h_key (SetInHighPriPool False h)"
    "h_hash (SetInHighPriPool False h') = h_hash (SetInHighPriPool False h)"
    "CalcTotalCharge p (SetInHighPriPool False h') = CalcTotalCharge p (SetInHighPriPool False h)"
    "h_value (SetInHighPriPool False h') = h_value (SetInHighPriPool False h)"
    "h_deleter (SetInHighPriPool False h') = h_deleter (SetInHighPriPool False h)"
    using assms by simp_all
  then show "InCache h' = InCache h" "h_refs h' = h_refs h" "h_key h' = h_key h" "h_hash h' = h_hash h"
    "CalcTotalCharge p h' = CalcTotalCharge p h" "h_value h' = h_value h" "h_deleter h' = h_deleter h"
    by simp_all (simp_all add: SetInHighPriPool_def)
qed

lemma same_entries_dom: "same_entries st st' \<Longrightarrow> dom st' = dom st"
  unfolding same_entries_def by (metis (no_types, lifting) domIff map_option_is_None set_eqI)

lemma same_entries_charge:
  assumes "same_entries (handles s) (handles s')" and "full_charge_metadata s' = full_charge_metadata s"
    and "a \<in> dom (handles s)"
  shows "charge_of s' a = charge_of s a"
proof -
  obtain h where h: "handles s a = Some h" using assms(3) by blast
  obtain h' where h': "handles s' a = Some h'" "SetInHighPriPool False h' = SetInHighPriPool False h"
    using same_entries_D [OF assms(1) h] .
  show ?thesis using SetInHighPriPool_eqD(5) [OF h'(2)] assms(2) h h'(1) by (simp add: charge_of_def total_charge_def)
qed

lemma MaintainPoolSize_list:
  assumes "pools_inv s lo hi" and "\<not> p_less ops (high_pri_pool_capacity s) 0"
  shows "\<exists>s' k. MaintainPoolSize ops s = Some s' \<and> pools_inv s' (lo @ take k hi) (drop k hi) \<and>
    same_entries (handles s) (handles s') \<and> other_state s' = other_state s \<and> lru_usage s' = lru_usage s \<and>
    \<not> p_less ops (high_pri_pool_capacity s) (high_pri_pool_usage s')"
  using assms
proof (induction hi arbitrary: s lo)
  case Nil
  then have "\<not> p_less ops (high_pri_pool_capacity s) (high_pri_pool_usage s)" by (simp add: pools_inv_def)
  then have "MaintainPoolSize ops s = Some s" by (subst MaintainPoolSize.simps) simp
  then show ?case using Nil.prems \<open>\<not> p_less _ _ (high_pri_pool_usage s)\<close> by (intro exI [of _ s] exI [of _ 0]) simp
next
  case (Cons a hi)
  show ?case
  proof (cases "p_less ops (high_pri_pool_capacity s) (high_pri_pool_usage s)")
    case False
    then have "MaintainPoolSize ops s = Some s" by (subst MaintainPoolSize.simps) simp
    then show ?thesis using Cons.prems False by (intro exI [of _ s] exI [of _ 0]) simp
  next
    case True
    have r: "ring (lru_next s) (lru_prev s) (lo @ a # hi)" and low: "lru_low_pri s = last (lru # lo)"
      using Cons.prems(1) by (simp_all add: pools_inv_def)
    obtain h where h: "handles s a = Some h" using Cons.prems(1) by (auto simp: pools_inv_def)
    have nx: "lru_next s (lru_low_pri s) = Some a" using ring_between(1) [OF r] low by simp
    have a0: "a \<noteq> lru" using ring_at(3) [OF r] .
    have anew: "a \<notin> set lo" "a \<notin> set hi" using r by (auto simp: ring_def)
    have le: "total_charge s h \<le> high_pri_pool_usage s"
      using Cons.prems(1) h by (simp add: pools_inv_def charge_of_def)
    define t where "t = s\<lparr>lru_low_pri := a, handles := (handles s)(a \<mapsto> SetInHighPriPool False h),
       high_pri_pool_usage := high_pri_pool_usage s - total_charge s h\<rparr>"
    have run: "MaintainPoolSize ops s = MaintainPoolSize ops t"
      by (subst MaintainPoolSize.simps) (use a0 le in \<open>simp add: True nx h t_def total_charge_def Let_def\<close>)
    have same: "same_entries (handles s) (handles t)" using same_entries_upd [of "handles s" a h] h by (simp add: t_def)
    have other: "other_state t = other_state s" "lru_usage t = lru_usage s" by (simp_all add: t_def other_state_def)
    have ch: "charge_of t b = charge_of s b" for b
      by (simp add: t_def charge_of_def total_charge_def h)
    then have chs: "charges t bs = charges s bs" for bs by (intro charges_cong)
    have tinv: "pools_inv t (lo @ [a]) hi"
      using Cons.prems(1) anew h unfolding pools_inv_def chs
      by (auto simp: t_def in_pool_def charge_of_def)
    have "\<not> p_less ops (high_pri_pool_capacity t) 0" using Cons.prems(2) by (simp add: t_def)
    from Cons.IH [OF tinv this] obtain s' k where s': "MaintainPoolSize ops t = Some s'"
      "pools_inv s' ((lo @ [a]) @ take k hi) (drop k hi)" "same_entries (handles t) (handles s')"
      "other_state s' = other_state t" "lru_usage s' = lru_usage t"
      "\<not> p_less ops (high_pri_pool_capacity t) (high_pri_pool_usage s')" by blast
    then show ?thesis using run other same_entries_trans [OF same s'(3)]
      by (intro exI [of _ s'] exI [of _ "Suc k"]) (simp add: t_def)
  qed
qed

section \<open>Insertion into the list\<close>

text \<open>A new member of the list: its links, its flag and the usage of its pool are set.\<close>

lemma pools_inv_insert:
  assumes inv: "pools_inv s lo hi" and new: "e \<notin> set (lo @ hi)" "e \<noteq> lru" and h: "handles s e = Some h"
    and at: "as @ bs = lo @ hi" and pools: "if b then lo' = lo \<and> hi' = hi @ [e] else lo' = lo @ [e] \<and> hi' = hi"
    and eq: "lo' @ hi' = as @ e # bs"
    and p: "p = last (lru # as)" and n: "n = hd (bs @ [lru])"
    and t: "lru_next t = (lru_next s)(e \<mapsto> n, p \<mapsto> e)" "lru_prev t = (lru_prev s)(e \<mapsto> p, n \<mapsto> e)"
      "lru_low_pri t = last (lru # lo')" "handles t = (handles s)(e \<mapsto> SetInHighPriPool b h)"
      "high_pri_pool_usage t = high_pri_pool_usage s + (if b then total_charge s h else 0)"
      "full_charge_metadata t = full_charge_metadata s"
  shows "pools_inv t lo' hi'" "charges t (lo' @ hi') = charges s (lo @ hi) + total_charge s h"
proof -
  have r: "ring (lru_next s) (lru_prev s) (as @ bs)" using inv at by (simp add: pools_inv_def)
  have e: "e \<notin> set (as @ bs)" using new(1) at by simp
  have r': "ring (lru_next t) (lru_prev t) (lo' @ hi')" using ring_insert [OF r e new(2)] t p n eq by simp
  have ends: "p = lru \<or> p \<in> set (lo' @ hi')" "n = lru \<or> n \<in> set (lo' @ hi')"
    using last_Cons_in [of lru as] unfolding eq by (auto simp: p n hd_append)
  have s': "set (lo' @ hi') = insert e (set (lo @ hi))" using eq at by (metis list.set(2) set_append Un_insert_right)
  have null: "\<forall>a. a \<noteq> lru \<and> a \<notin> set (lo' @ hi') \<longrightarrow> lru_next t a = None \<and> lru_prev t a = None"
    using inv ends s' unfolding t(1,2) pools_inv_def by auto
  have ch: "charge_of t a = (if a = e then total_charge s h else charge_of s a)" for a
    using t h by (simp add: charge_of_def total_charge_def)
  have chs: "charges t xs = charges s xs" if "e \<notin> set xs" for xs using that by (intro charges_cong) (auto simp: ch)
  show "charges t (lo' @ hi') = charges s (lo @ hi) + total_charge s h"
    using pools new(1) by (auto simp: ch chs split: if_splits)
  show "pools_inv t lo' hi'" unfolding pools_inv_def
    using r' null pools new(1) inv t(3-5) by (auto simp: pools_inv_def in_pool_def ch chs split: if_splits)
qed

lemma LRU_Insert_list:
  assumes inv: "list_inv s lo hi" and new: "e \<notin> set (lo @ hi)" "e \<noteq> lru" and h: "handles s e = Some h"
    and nonneg: "\<not> p_less ops (high_pri_pool_capacity s) 0"
  obtains s' lo' hi' where "LRU_Insert ops e s = Some s'" "list_inv s' lo' hi'"
    "same_entries (handles s) (handles s')" "other_state s' = other_state s"
    "lo' @ hi' = lo @ hi @ [e] \<or> lo' = lo @ [e] \<and> hi' = hi"
proof -
  have pinv: "pools_inv s lo hi" and use: "lru_usage s = charges s (lo @ hi)" using inv by (simp_all add: list_inv_def)
  have r: "ring (lru_next s) (lru_prev s) (lo @ hi)" using pinv by (simp add: pools_inv_def)
  have null: "lru_next s e = None" "lru_prev s e = None" using pinv new by (auto simp: pools_inv_def)
  have low: "lru_low_pri s = last (lru # lo)" using pinv by (simp add: pools_inv_def)
  have low_e: "lru_low_pri s \<noteq> e" using last_Cons_in [of lru lo] new unfolding low by auto
  show ?thesis
  proof (cases "p_positive ops (high_pri_pool_ratio s) \<and> (IsHighPri h \<or> HasHit h)")
    case True
    let ?p = "last (lru # lo @ hi)"
    define t where "t = s\<lparr>lru_next := (lru_next s)(e \<mapsto> lru, ?p \<mapsto> e), lru_prev := (lru_prev s)(e \<mapsto> ?p, lru \<mapsto> e),
       handles := (handles s)(e \<mapsto> SetInHighPriPool True h),
       high_pri_pool_usage := high_pri_pool_usage s + total_charge s h\<rparr>"
    have pv: "lru_prev s lru = Some ?p" using ring_between(2) [of "lru_next s" "lru_prev s" "lo @ hi" "[]"] r by simp
    have pe: "?p \<noteq> e" using last_Cons_in [of lru "lo @ hi"] new by auto
    have run: "LRU_Insert ops e s = map_option (\<lambda>t. t\<lparr>lru_usage := lru_usage t + total_charge s h\<rparr>) (MaintainPoolSize ops t)"
      unfolding LRU_Insert_def using null h True pv pe new(2)
      by (cases "MaintainPoolSize ops t") (simp_all add: t_def total_charge_def Let_def del: last.simps)
    note t = pools_inv_insert [OF pinv new h, where as = "lo @ hi" and bs = "[]" and b = True and lo' = lo
        and hi' = "hi @ [e]" and t = t, OF _ _ _ refl refl]
    have tinv: "pools_inv t lo (hi @ [e])" "charges t (lo @ hi @ [e]) = charges s (lo @ hi) + total_charge s h"
      by (rule t; simp add: t_def low)+
    have "\<not> p_less ops (high_pri_pool_capacity t) 0" using nonneg by (simp add: t_def)
    from MaintainPoolSize_list [OF tinv(1) this] obtain u k where u: "MaintainPoolSize ops t = Some u"
      "pools_inv u (lo @ take k (hi @ [e])) (drop k (hi @ [e]))" "same_entries (handles t) (handles u)"
      "other_state u = other_state t" "lru_usage u = lru_usage t" by blast
    define lo' hi' where "lo' = lo @ take k (hi @ [e])" and "hi' = drop k (hi @ [e])"
    have eq: "lo' @ hi' = lo @ hi @ [e]" unfolding lo'_def hi'_def append_assoc append_take_drop_id ..
    have uinv: "pools_inv u lo' hi'" using u(2) by (simp only: lo'_def hi'_def)
    let ?u = "u\<lparr>lru_usage := lru_usage u + total_charge s h\<rparr>"
    have chu: "charges ?u xs = charges u xs" for xs
      by (intro charges_cong) (simp add: charge_of_def total_charge_def)
    have "full_charge_metadata u = full_charge_metadata t" using u(4) by (simp add: other_state_def)
    moreover have "set (lo @ hi @ [e]) \<subseteq> dom (handles t)" using tinv(1) by (auto simp: pools_inv_def)
    ultimately have "charges u (lo @ hi @ [e]) = charges t (lo @ hi @ [e])"
      using same_entries_charge [OF u(3)] by (intro charges_cong) blast
    then have "lru_usage ?u = charges ?u (lo' @ hi')" using u(5) use tinv(2) unfolding chu eq by (simp add: t_def)
    moreover have "pools_inv ?u lo' hi'" using uinv unfolding pools_inv_def chu by simp
    ultimately have "list_inv ?u lo' hi'" unfolding list_inv_def by blast
    moreover have "same_entries (handles s) (handles ?u)"
      using same_entries_trans [OF _ u(3)] same_entries_upd [of "handles s" e h] h by (simp add: t_def)
    moreover have "other_state ?u = other_state s" using u(4) by (simp add: t_def other_state_def)
    ultimately show ?thesis using that [of ?u lo' hi'] run u(1) eq by simp
  next
    case False
    let ?n = "hd (hi @ [lru])" and ?p = "last (lru # lo)"
    define t where "t = s\<lparr>lru_next := (lru_next s)(e \<mapsto> ?n, ?p \<mapsto> e), lru_prev := (lru_prev s)(e \<mapsto> ?p, ?n \<mapsto> e),
       handles := (handles s)(e \<mapsto> SetInHighPriPool False h), lru_low_pri := e\<rparr>"
    have nx: "lru_next s ?p = Some ?n" using ring_between(1) [OF r] .
    have run: "LRU_Insert ops e s = Some (t\<lparr>lru_usage := lru_usage s + total_charge s h\<rparr>)"
      unfolding LRU_Insert_def using null h False nx low low_e
      by (auto simp: t_def total_charge_def Let_def simp del: last.simps)
    note t = pools_inv_insert [OF pinv new h, where as = lo and bs = hi and b = False and lo' = "lo @ [e]"
        and hi' = hi and t = "t\<lparr>lru_usage := lru_usage s + total_charge s h\<rparr>", OF _ _ _ refl refl]
    have "pools_inv (t\<lparr>lru_usage := lru_usage s + total_charge s h\<rparr>) (lo @ [e]) hi"
      "charges (t\<lparr>lru_usage := lru_usage s + total_charge s h\<rparr>) ((lo @ [e]) @ hi) = charges s (lo @ hi) + total_charge s h"
      by (rule t; simp add: t_def)+
    then have "list_inv (t\<lparr>lru_usage := lru_usage s + total_charge s h\<rparr>) (lo @ [e]) hi"
      unfolding list_inv_def using use by (simp add: t_def)
    moreover have "same_entries (handles s) (handles (t\<lparr>lru_usage := lru_usage s + total_charge s h\<rparr>))"
      using same_entries_upd [of "handles s" e h] h by (simp add: t_def)
    moreover have "other_state (t\<lparr>lru_usage := lru_usage s + total_charge s h\<rparr>) = other_state s" by (simp add: t_def other_state_def)
    ultimately show ?thesis using that run by blast
  qed
qed

end
