(* ===== verification/Lru_Evict.thy ===== *)
theory Lru_Evict
  imports Lru_Invariant
begin

text \<open>
  The entries of a cache shard: which are in the table, which are on the list, and what the usage counts.
  Entries that are being created or wait to be freed are exempt (the set \<open>X\<close>).  Freeing and eviction.
\<close>

section \<open>The entry invariant\<close>

definition cache_inv :: "'d LRUCacheShard \<Rightarrow> addr set \<Rightarrow> addr set \<Rightarrow> bool" where
  "cache_inv s L X \<longleftrightarrow>
     finite (dom (handles s)) \<and> lru \<notin> dom (handles s) \<and> X \<subseteq> dom (handles s) \<and>
     table_inv (handles s) (lru_table s) \<and>
     table_set (lru_table s) = {a. a \<notin> X \<and> in_cache (handles s) a} \<and>
     L = {a. a \<notin> X \<and> in_cache (handles s) a \<and> refs_of (handles s) a = 0} \<and>
     (\<forall>a \<in> dom (handles s) - X. in_cache (handles s) a \<or> refs_of (handles s) a > 0) \<and>
     usage s = (\<Sum>a \<in> dom (handles s) - X. charge_of s a)"

lemma cache_inv_D:
  assumes "cache_inv s L X"
  shows "finite (dom (handles s))" "lru \<notin> dom (handles s)" "X \<subseteq> dom (handles s)"
    "table_inv (handles s) (lru_table s)" "table_set (lru_table s) = {a. a \<notin> X \<and> in_cache (handles s) a}"
    "L = {a. a \<notin> X \<and> in_cache (handles s) a \<and> refs_of (handles s) a = 0}"
    "\<forall>a \<in> dom (handles s) - X. in_cache (handles s) a \<or> refs_of (handles s) a > 0"
    "usage s = (\<Sum>a \<in> dom (handles s) - X. charge_of s a)"
  by (insert assms, unfold cache_inv_def) (elim conjE, assumption)+

definition config :: "'d LRUCacheShard \<Rightarrow> nat \<times> bool \<times> 'd \<times> 'd \<times> bool" where
  "config s = (capacity s, strict_capacity_limit s, high_pri_pool_ratio s, high_pri_pool_capacity s, full_charge_metadata s)"

lemma other_state_config: "other_state s' = other_state s \<Longrightarrow> config s' = config s"
  by (simp add: other_state_def config_def)

lemma other_state_D:
  assumes "other_state s' = other_state s"
  shows "lru_table s' = lru_table s" "usage s' = usage s" "full_charge_metadata s' = full_charge_metadata s"
    "deleter_calls s' = deleter_calls s" "capacity s' = capacity s" "high_pri_pool_capacity s' = high_pri_pool_capacity s"
    "strict_capacity_limit s' = strict_capacity_limit s" "high_pri_pool_ratio s' = high_pri_pool_ratio s"
  using assms by (simp_all add: other_state_def)

text \<open>Two stores that agree on the keys, the hashes, the charges, the reference counts and the cache flags.\<close>

lemma cache_inv_cong:
  assumes "cache_inv s L X" and "dom (handles s') = dom (handles s)" "lru_table s' = lru_table s" "usage s' = usage s"
    and "\<And>a. a \<in> dom (handles s) \<Longrightarrow> h_key_of (handles s') a = h_key_of (handles s) a \<and>
      h_hash_of (handles s') a = h_hash_of (handles s) a \<and> charge_of s' a = charge_of s a \<and>
      in_cache (handles s') a = in_cache (handles s) a \<and> refs_of (handles s') a = refs_of (handles s) a"
  shows "cache_inv s' L X"
proof -
  have ic: "in_cache (handles s') a = in_cache (handles s) a" for a
    using assms(5) [of a] assms(2) by (cases "a \<in> dom (handles s)") (auto simp: in_cache_def domIff)
  have sub: "table_set (lru_table s) \<subseteq> dom (handles s)" using assms(1) by (auto simp: cache_inv_def in_cache_def)
  have "table_inv (handles s') (lru_table s)"
  proof (rule lru_table.tinv_cong [of "handles s"])
    show "table_inv (handles s) (lru_table s)" using assms(1) by (simp add: cache_inv_def)
  qed (use assms(5) sub in blast)
  moreover have "(\<Sum>a \<in> dom (handles s) - X. charge_of s' a) = (\<Sum>a \<in> dom (handles s) - X. charge_of s a)"
    using assms(5) by (intro sum.cong) auto
  moreover have "{a. a \<notin> X \<and> in_cache (handles s) a \<and> refs_of (handles s') a = 0} =
      {a. a \<notin> X \<and> in_cache (handles s) a \<and> refs_of (handles s) a = 0}"
    using assms(5) by (auto simp: in_cache_def domIff)
  ultimately show ?thesis using assms(1,5) unfolding cache_inv_def assms(2-4) ic by auto
qed

lemma same_entries_kept:
  assumes "same_entries st st'" and "a \<in> dom st"
  shows "h_key_of st' a = h_key_of st a" "h_hash_of st' a = h_hash_of st a"
    "in_cache st' a = in_cache st a" "refs_of st' a = refs_of st a"
proof -
  obtain h where h: "st a = Some h" using assms(2) by blast
  obtain h' where h': "st' a = Some h'" "SetInHighPriPool False h' = SetInHighPriPool False h"
    using same_entries_D [OF assms(1) h] .
  show "h_key_of st' a = h_key_of st a" "h_hash_of st' a = h_hash_of st a"
    "in_cache st' a = in_cache st a" "refs_of st' a = refs_of st a"
    using SetInHighPriPool_eqD [OF h'(2)] h h'(1) by (simp_all add: h_key_of_def h_hash_of_def in_cache_def refs_of_def)
qed

lemma cache_inv_same_entries:
  assumes "cache_inv s L X" and "same_entries (handles s) (handles s')" and "other_state s' = other_state s"
  shows "cache_inv s' L X"
  by (rule cache_inv_cong [OF assms(1) same_entries_dom [OF assms(2)]])
    (use other_state_D [OF assms(3)] same_entries_kept [OF assms(2)] same_entries_charge [OF assms(2)] in simp_all)

lemma cache_inv_disjoint: "cache_inv s L X \<Longrightarrow> L \<inter> X = {}" "cache_inv s L X \<Longrightarrow> L \<subseteq> dom (handles s)"
  by (auto simp: cache_inv_def in_cache_def)

text \<open>The handle of an entry that is on the table is what a lookup of its key finds.\<close>

lemma table_remove_own:
  assumes "cache_inv s L X" and "a \<in> table_set (lru_table s)" and "handles s a = Some h"
  shows "Table_Lookup (handles s) (lru_table s) (h_key h) (h_hash h) = Some a"
    "table_inv (handles s) (snd (Table_Remove (handles s) (h_key h) (h_hash h) (lru_table s)))"
    "table_set (snd (Table_Remove (handles s) (h_key h) (h_hash h) (lru_table s))) = table_set (lru_table s) - {a}"
proof -
  have inv: "table_inv (handles s) (lru_table s)" using assms(1) by (simp add: cache_inv_def)
  show l: "Table_Lookup (handles s) (lru_table s) (h_key h) (h_hash h) = Some a"
    using lru_table.lookup_self [OF inv assms(2)] assms(3) by (simp add: h_key_of_def h_hash_of_def)
  show "table_inv (handles s) (snd (Table_Remove (handles s) (h_key h) (h_hash h) (lru_table s)))"
    by (rule lru_table.remove_inv [OF inv])
  show "table_set (snd (Table_Remove (handles s) (h_key h) (h_hash h) (lru_table s))) = table_set (lru_table s) - {a}"
    using lru_table.remove_entries [OF inv, of "h_key h" "h_hash h"] l by simp
qed

text \<open>An entry leaves the cache: it is off the table, its charge is taken off and its handle may change in
  all but key, hash and charge.\<close>

lemma charge_le_usage:
  assumes "cache_inv s L X" and "e \<in> dom (handles s) - X"
  shows "charge_of s e \<le> usage s"
proof -
  have "finite (dom (handles s) - X)" using assms(1) by (simp add: cache_inv_def)
  then have "charge_of s e \<le> (\<Sum>a \<in> dom (handles s) - X. charge_of s a)" using assms(2) by (rule member_le_sum [rotated 2]) simp_all
  then show ?thesis using assms(1) by (simp add: cache_inv_def)
qed

lemma cache_inv_drop:
  assumes inv: "cache_inv s L X" and e: "e \<in> dom (handles s) - X" and h: "handles s e = Some h"
    and h': "handles s' = (handles s)(e \<mapsto> h')" "h_key h' = h_key h" "h_hash h' = h_hash h"
      "CalcTotalCharge (full_charge_metadata s) h' = CalcTotalCharge (full_charge_metadata s) h"
    and t: "table_inv (handles s) (lru_table s')" "table_set (lru_table s') = table_set (lru_table s) - {e}"
    and u: "usage s' = usage s - charge_of s e" "full_charge_metadata s' = full_charge_metadata s"
  shows "cache_inv s' (L - {e}) (insert e X)"
proof -
  have fin: "finite (dom (handles s) - X)" using inv by (simp add: cache_inv_def)
  have dom: "dom (handles s') = dom (handles s)" using h h'(1) by auto
  have "table_inv (handles s') (lru_table s')"
    by (rule lru_table.tinv_cong [OF t(1)]) (use h h' in \<open>auto simp: h_key_of_def h_hash_of_def\<close>)
  moreover have ic: "in_cache (handles s') a = in_cache (handles s) a" "refs_of (handles s') a = refs_of (handles s) a"
    if "a \<noteq> e" for a using that h'(1) by (simp_all add: in_cache_def refs_of_def)
  moreover have "usage s' = (\<Sum>a \<in> dom (handles s') - insert e X. charge_of s' a)"
  proof -
    have "charge_of s' a = charge_of s a" for a
      using h h' u(2) by (simp add: charge_of_def total_charge_def)
    moreover have "usage s = charge_of s e + (\<Sum>a \<in> dom (handles s) - X - {e}. charge_of s a)"
      using inv sum.remove [OF fin e] by (simp add: cache_inv_def)
    moreover have "dom (handles s) - X - {e} = dom (handles s) - insert e X" by blast
    ultimately show ?thesis using u(1) dom by simp
  qed
  moreover have "table_set (lru_table s') = {a. a \<notin> insert e X \<and> in_cache (handles s') a}"
    using inv ic t(2) by (auto simp: cache_inv_def)
  moreover have "L - {e} = {a. a \<notin> insert e X \<and> in_cache (handles s') a \<and> refs_of (handles s') a = 0}"
    using inv ic by (auto simp: cache_inv_def)
  moreover have "\<forall>a \<in> dom (handles s') - insert e X. in_cache (handles s') a \<or> refs_of (handles s') a > 0"
    using inv ic dom by (auto simp: cache_inv_def)
  ultimately show ?thesis using inv e dom unfolding cache_inv_def by auto
qed

section \<open>Freeing\<close>

lemma shard_delete:
  assumes "cache_inv s L X" and "list_inv s lo hi" and "L = set (lo @ hi)" and "e \<in> X"
    and f: "handles s' = (handles s)(e := None)" "lru_table s' = lru_table s" "usage s' = usage s"
      "lru_next s' = lru_next s" "lru_prev s' = lru_prev s" "lru_low_pri s' = lru_low_pri s"
      "lru_usage s' = lru_usage s" "high_pri_pool_usage s' = high_pri_pool_usage s" "full_charge_metadata s' = full_charge_metadata s"
  shows "cache_inv s' L (X - {e})" "list_inv s' lo hi"
proof -
  have ch: "charge_of s' a = charge_of s a" if "a \<noteq> e" for a using that f by (simp add: charge_of_def total_charge_def)
  have eL: "e \<notin> L" using cache_inv_disjoint(1) [OF assms(1)] assms(4) by blast
  have dom: "dom (handles s') = dom (handles s) - {e}" using f(1) by auto
  have ic: "in_cache (handles s') a = in_cache (handles s) a" "refs_of (handles s') a = refs_of (handles s) a"
    "in_pool (handles s') a = in_pool (handles s) a" if "a \<noteq> e" for a
    using that f(1) by (simp_all add: in_cache_def refs_of_def in_pool_def)
  have nc: "\<not> in_cache (handles s') e" using f(1) by (simp add: in_cache_def)
  show "list_inv s' lo hi"
  proof (rule list_inv_handles [OF assms(2) f(4-8)])
    fix a assume a: "a \<in> set (lo @ hi)"
    then have "a \<noteq> e" "a \<in> dom (handles s)" using eL cache_inv_disjoint(2) [OF assms(1)] unfolding assms(3) by blast+
    then show "a \<in> dom (handles s') \<and> charge_of s' a = charge_of s a \<and> in_pool (handles s') a = in_pool (handles s) a"
      using dom ch ic(3) by simp
  qed
  show "cache_inv s' L (X - {e})"
  proof -
    have tab: "table_set (lru_table s) = {a. a \<notin> X \<and> in_cache (handles s) a}" using assms(1) by (simp add: cache_inv_def)
    have "table_inv (handles s') (lru_table s)"
      by (rule lru_table.tinv_cong [of "handles s"])
        (use assms(1,4) tab f(1) in \<open>auto simp: cache_inv_def h_key_of_def h_hash_of_def\<close>)
    moreover have "dom (handles s') - (X - {e}) = dom (handles s) - X" using dom assms(4) by blast
    moreover have "(\<Sum>a \<in> dom (handles s) - X. charge_of s' a) = (\<Sum>a \<in> dom (handles s) - X. charge_of s a)"
    proof (intro sum.cong refl)
      fix a assume "a \<in> dom (handles s) - X"
      then show "charge_of s' a = charge_of s a" using assms(4) by (intro ch) blast
    qed
    moreover have "{a. a \<notin> X - {e} \<and> in_cache (handles s') a} = {a. a \<notin> X \<and> in_cache (handles s) a}"
    proof (intro Collect_cong)
      fix a show "(a \<notin> X - {e} \<and> in_cache (handles s') a) = (a \<notin> X \<and> in_cache (handles s) a)"
        using ic [of a] nc assms(4) by (cases "a = e") auto
    qed
    moreover have "L = {a. a \<notin> X - {e} \<and> in_cache (handles s') a \<and> refs_of (handles s') a = 0}"
    proof -
      have "L = {a. a \<notin> X \<and> in_cache (handles s) a \<and> refs_of (handles s) a = 0}" using assms(1) by (simp add: cache_inv_def)
      also have "\<dots> = {a. a \<notin> X - {e} \<and> in_cache (handles s') a \<and> refs_of (handles s') a = 0}"
      proof (intro Collect_cong)
        fix a show "(a \<notin> X \<and> in_cache (handles s) a \<and> refs_of (handles s) a = 0) =
          (a \<notin> X - {e} \<and> in_cache (handles s') a \<and> refs_of (handles s') a = 0)"
          using ic [of a] nc assms(4) by (cases "a = e") auto
      qed
      finally show ?thesis .
    qed
    moreover have "\<forall>a \<in> dom (handles s) - X. in_cache (handles s') a \<or> refs_of (handles s') a > 0"
    proof
      fix a assume a: "a \<in> dom (handles s) - X"
      then have "a \<noteq> e" using assms(4) by blast
      then show "in_cache (handles s') a \<or> refs_of (handles s') a > 0" using ic a assms(1) by (simp add: cache_inv_def)
    qed
    ultimately show ?thesis
      using assms(1) tab unfolding cache_inv_def f(2,3) by (simp only: dom) blast
  qed
qed

lemma Free_ok:
  assumes "cache_inv s L X" and "list_inv s lo hi" and "L = set (lo @ hi)" and "e \<in> X" and "refs_of (handles s) e = 0"
  obtains s' where "Free e s = Some s'" "cache_inv s' L (X - {e})" "list_inv s' lo hi"
    "handles s' = (handles s)(e := None)" "config s' = config s" "usage s' = usage s"
proof -
  have "e \<in> dom (handles s)" using assms(1,4) by (auto simp: cache_inv_def)
  then obtain h where h: "handles s e = Some h" by blast
  define s' where "s' = (case h_deleter h of None \<Rightarrow> s
     | Some d \<Rightarrow> s\<lparr>deleter_calls := deleter_calls s @ [(d, h_key h, h_value h)]\<rparr>)\<lparr>handles := (handles s)(e := None)\<rparr>"
  have run: "Free e s = Some s'"
    using h assms(5) by (cases "h_deleter h") (simp_all add: Free_def s'_def refs_of_def)
  have f: "handles s' = (handles s)(e := None)" "lru_table s' = lru_table s" "usage s' = usage s"
      "lru_next s' = lru_next s" "lru_prev s' = lru_prev s" "lru_low_pri s' = lru_low_pri s"
      "lru_usage s' = lru_usage s" "high_pri_pool_usage s' = high_pri_pool_usage s" "full_charge_metadata s' = full_charge_metadata s"
      and c: "config s' = config s"
    by (cases "h_deleter h"; simp add: s'_def config_def)+
  show ?thesis using that [OF run shard_delete [OF assms(1-4) f] f(1) c f(3)] .
qed

lemma Free_all_ok:
  assumes "cache_inv s L X" and "list_inv s lo hi" and "L = set (lo @ hi)" and "set es \<subseteq> X" and "distinct es"
    and "\<forall>e \<in> set es. refs_of (handles s) e = 0"
  shows "\<exists>s'. Free_all es s = Some s' \<and> cache_inv s' L (X - set es) \<and> list_inv s' lo hi \<and>
    handles s' = handles s |` (- set es) \<and> config s' = config s \<and> usage s' = usage s"
  using assms
proof (induction es arbitrary: s X)
  case Nil
  then show ?case by (simp add: restrict_map_def)
next
  case (Cons e es)
  have "e \<in> X" "refs_of (handles s) e = 0" using Cons.prems by simp_all
  from Free_ok [OF Cons.prems(1-3) this] obtain t where t: "Free e s = Some t" "cache_inv t L (X - {e})"
    "list_inv t lo hi" "handles t = (handles s)(e := None)" "config t = config s" "usage t = usage s" .
  have "set es \<subseteq> X - {e}" "distinct es" using Cons.prems(4,5) by auto
  moreover have "\<forall>e \<in> set es. refs_of (handles t) e = 0"
  proof
    fix a assume "a \<in> set es"
    then show "refs_of (handles t) a = 0" using Cons.prems(5,6) t(4) by (cases "a = e") (simp_all add: refs_of_def)
  qed
  ultimately obtain s' where s': "Free_all es t = Some s'" "cache_inv s' L (X - {e} - set es)" "list_inv s' lo hi"
    "handles s' = handles t |` (- set es)" "config s' = config t" "usage s' = usage t"
    using Cons.IH [OF t(2,3) Cons.prems(3)] by blast
  have "handles s' = handles s |` (- set (e # es))" unfolding s'(4) t(4) by (rule ext) (simp add: restrict_map_def)
  moreover have "X - {e} - set es = X - set (e # es)" by auto
  ultimately show ?case using t s' by simp
qed

section \<open>Eviction\<close>

text \<open>The state of a shard between two operations, with the entries \<open>X\<close> on their way in or out.\<close>

definition shard_at :: "'d LRUCacheShard \<Rightarrow> addr list \<Rightarrow> addr list \<Rightarrow> addr set \<Rightarrow> bool" where
  "shard_at s lo hi X \<longleftrightarrow> list_inv s lo hi \<and> cache_inv s (set (lo @ hi)) X"

lemma evict_oldest_ok:
  assumes inv: "shard_at s lo hi X" and l: "lo @ hi = old # rest"
  obtains s' lo' hi' where "evict_oldest old s = Some s'" "shard_at s' lo' hi' (insert old X)" "lo' @ hi' = rest"
    "config s' = config s" "usage s' = usage s - charge_of s old" "charge_of s old \<le> usage s"
    "handles s' = (handles s)(old := map_option (SetInCache False) (handles s old))"
    "refs_of (handles s) old = 0" "old \<notin> X" "charge_of s' = charge_of s" "deleter_calls s' = deleter_calls s"
proof -
  have li: "list_inv s lo hi" and ci: "cache_inv s (set (lo @ hi)) X" using inv by (simp_all add: shard_at_def)
  have old: "old \<in> set (lo @ hi)" by (simp add: l)
  then have o: "old \<notin> X" "in_cache (handles s) old" "refs_of (handles s) old = 0"
    using ci unfolding cache_inv_def by blast+
  then obtain h where h: "handles s old = Some h" "InCache h" by (auto simp: in_cache_def)
  have dX: "old \<in> dom (handles s) - X" using h o by blast
  have tab: "old \<in> table_set (lru_table s)" using ci o by (simp add: cache_inv_def)
  note rem = table_remove_own [OF ci tab h(1)]
  obtain t where t: "LRU_Remove old s = Some t" "list_inv t (remove1 old lo) (remove1 old hi)"
    "handles t = handles s" "other_state t = other_state s" using LRU_Remove_list [OF li old] .
  note ot = other_state_D [OF t(4)]
  have ch: "charge_of s old = total_charge s h" by (simp add: charge_of_def h)
  have le: "total_charge s h \<le> usage s" using charge_le_usage [OF ci dX] ch by simp
  define s' where "s' = t\<lparr>lru_table := snd (Table_Remove (handles s) (h_key h) (h_hash h) (lru_table s)),
     handles := (handles s)(old \<mapsto> SetInCache False h), usage := usage s - total_charge s h\<rparr>"
  have r0: "\<not> HasRefs h" using o(3) h by (simp add: refs_of_def HasRefs_def)
  have run: "evict_oldest old s = Some s'"
    unfolding evict_oldest_def using h r0 t le ot by (simp add: s'_def total_charge_def Let_def)
  have d: "distinct (lo @ hi)" using list_inv_ring [OF li] by (simp add: ring_def)
  have rest: "remove1 old lo @ remove1 old hi = rest"
  proof (cases lo)
    case Nil then show ?thesis using l by simp
  next
    case (Cons a as)
    then have "old \<notin> set hi" "a = old" using l d by auto
    then show ?thesis using l Cons by (simp add: remove1_idem)
  qed
  have setr: "set rest = set (lo @ hi) - {old}" using d l by auto
  have chs: "charge_of s' = charge_of s"
    using ot h by (simp add: s'_def charge_of_def total_charge_def fun_eq_iff)
  have "list_inv s' (remove1 old lo) (remove1 old hi)"
  proof (rule list_inv_handles [OF t(2)])
    fix a assume "a \<in> set (remove1 old lo @ remove1 old hi)"
    then have a: "a \<noteq> old" "a \<in> set (lo @ hi)" unfolding rest setr by auto
    moreover have "charge_of t a = charge_of s a" using t(3) ot by (simp add: charge_of_def total_charge_def)
    ultimately show "a \<in> dom (handles s') \<and> charge_of s' a = charge_of t a \<and> in_pool (handles s') a = in_pool (handles t) a"
      using chs t(3) cache_inv_disjoint(2) [OF ci] by (auto simp: s'_def in_pool_def)
  qed (simp_all add: s'_def)
  moreover have "cache_inv s' (set (lo @ hi) - {old}) (insert old X)"
    by (rule cache_inv_drop [OF ci dX h(1), where h' = "SetInCache False h"])
      (use rem ot ch in \<open>simp_all add: s'_def\<close>)
  ultimately have "shard_at s' (remove1 old lo) (remove1 old hi) (insert old X)" by (simp add: shard_at_def rest setr del: set_append)
  moreover have "config s' = config s" using other_state_config [OF t(4)] by (simp add: s'_def config_def)
  ultimately show ?thesis
    using that run rest le ch o(1,3) chs h(1) ot by (simp add: s'_def)
qed

text \<open>What an eviction that removes the \<open>k\<close> oldest entries leaves behind.\<close>

definition evicted :: "nat \<Rightarrow> nat \<Rightarrow> 'd LRUCacheShard \<Rightarrow> addr list \<Rightarrow> 'd LRUCacheShard \<Rightarrow> bool" where
  "evicted c k s l s' \<longleftrightarrow>
     k \<le> length l \<and> config s' = config s \<and> deleter_calls s' = deleter_calls s \<and>
     usage s' + charges s (take k l) = usage s \<and> (usage s' + c \<le> capacity s \<or> k = length l) \<and>
     (\<forall>j < k. usage s - charges s (take j l) + c > capacity s) \<and>
     handles s' = (\<lambda>a. if a \<in> set (take k l) then map_option (SetInCache False) (handles s a) else handles s a) \<and>
     (\<forall>a \<in> set (take k l). refs_of (handles s) a = 0) \<and> charge_of s' = charge_of s"

lemma config_capacity: "config s' = config s \<Longrightarrow> capacity s' = capacity s"
  by (simp add: config_def)

lemma evicted_none: "usage s + c \<le> capacity s \<or> l = [] \<Longrightarrow> evicted c 0 s l s"
  by (auto simp: evicted_def)

lemma evicted_one:
  assumes t: "config t = config s" "usage t = usage s - charge_of s old" "charge_of s old \<le> usage s"
    "handles t = (handles s)(old := map_option (SetInCache False) (handles s old))"
    "refs_of (handles s) old = 0" "charge_of t = charge_of s" "deleter_calls t = deleter_calls s"
    and more: "evicted c k t rest s'" and big: "usage s + c > capacity s" and d: "old \<notin> set rest"
  shows "evicted c (Suc k) s (old # rest) s'"
proof -
  have chs: "charges t xs = charges s xs" for xs by (intro charges_cong) (simp add: t(6))
  have cap: "capacity t = capacity s" using t(1) by (rule config_capacity)
  have nin: "old \<notin> set (take k rest)" using d by (meson in_set_takeD)
  have "usage s' + charges s (take (Suc k) (old # rest)) = usage s"
  proof -
    have "usage s' + charges t (take k rest) = usage t" using more by (simp add: evicted_def)
    then show ?thesis using t(2,3) by (simp add: chs)
  qed
  moreover have "\<forall>j < Suc k. usage s - charges s (take j (old # rest)) + c > capacity s"
  proof (intro allI impI)
    fix j assume "j < Suc k"
    then show "usage s - charges s (take j (old # rest)) + c > capacity s"
      using more big t(2) cap by (cases j) (simp_all add: evicted_def chs)
  qed
  moreover have "handles s' = (\<lambda>a. if a \<in> set (take (Suc k) (old # rest)) then map_option (SetInCache False) (handles s a) else handles s a)"
    using more t(4) nin by (auto simp: evicted_def fun_eq_iff)
  moreover have "\<forall>a \<in> set (take (Suc k) (old # rest)). refs_of (handles s) a = 0"
  proof
    fix a assume a: "a \<in> set (take (Suc k) (old # rest))"
    show "refs_of (handles s) a = 0"
    proof (cases "a = old")
      case False
      then have "refs_of (handles t) a = 0" using more a by (simp add: evicted_def)
      then show ?thesis using t(4) False by (simp add: refs_of_def)
    qed (use t(5) in simp)
  qed
  ultimately show ?thesis using more t(1,6,7) cap unfolding evicted_def by auto
qed

lemma EvictFromLRU_ok:
  assumes "shard_at s lo hi X"
  shows "\<exists>s' lo' hi' k. EvictFromLRU c D s = Some (D @ take k (lo @ hi), s') \<and>
    shard_at s' lo' hi' (X \<union> set (take k (lo @ hi))) \<and> lo' @ hi' = drop k (lo @ hi) \<and>
    X \<inter> set (lo @ hi) = {} \<and> evicted c k s (lo @ hi) s'"
  using assms
proof (induction "lo @ hi" arbitrary: lo hi X s D)
  case Nil
  have li: "list_inv s lo hi" using Nil.prems by (simp add: shard_at_def)
  have "EvictFromLRU c D s = Some (D, s)"
    using list_inv_nonempty [OF li] Nil.hyps by (subst EvictFromLRU.simps) simp
  then show ?case using Nil evicted_none [of s c "lo @ hi"]
    by (intro exI [of _ s] exI [of _ lo] exI [of _ hi] exI [of _ 0]) simp
next
  case (Cons old rest)
  have li: "list_inv s lo hi" and ci: "cache_inv s (set (lo @ hi)) X" using Cons.prems by (simp_all add: shard_at_def)
  have disj: "X \<inter> set (lo @ hi) = {}" using cache_inv_disjoint(1) [OF ci] by blast
  have eq: "lo @ hi = old # rest" using Cons.hyps(2) by simp
  have d: "old \<notin> set rest" using list_inv_ring [OF li] unfolding ring_def eq by simp
  show ?case
  proof (cases "usage s + c \<le> capacity s")
    case True
    then have "EvictFromLRU c D s = Some (D, s)" by (subst EvictFromLRU.simps) simp
    then show ?thesis using Cons.prems evicted_none [of s c "lo @ hi"] True disj
      by (intro exI [of _ s] exI [of _ lo] exI [of _ hi] exI [of _ 0]) simp
  next
    case False
    obtain t lo1 hi1 where t: "evict_oldest old s = Some t" "shard_at t lo1 hi1 (insert old X)" "lo1 @ hi1 = rest"
      "config t = config s" "usage t = usage s - charge_of s old" "charge_of s old \<le> usage s"
      "handles t = (handles s)(old := map_option (SetInCache False) (handles s old))"
      "refs_of (handles s) old = 0" "old \<notin> X" "charge_of t = charge_of s" "deleter_calls t = deleter_calls s"
      using evict_oldest_ok [OF Cons.prems eq] .
    have nx: "lru_next s lru = Some old" using list_inv_oldest [OF li] eq by (simp flip: append_assoc)
    have "lru_next s lru \<noteq> Some lru" using list_inv_nonempty [OF li] eq by simp
    then have run: "EvictFromLRU c D s = EvictFromLRU c (D @ [old]) t"
      using False nx t(1) by (subst EvictFromLRU.simps) simp
    obtain s' lo' hi' k where s': "EvictFromLRU c (D @ [old]) t = Some ((D @ [old]) @ take k rest, s')"
      "shard_at s' lo' hi' (insert old X \<union> set (take k rest))" "lo' @ hi' = drop k rest"
      "insert old X \<inter> set rest = {}" "evicted c k t rest s'"
      using Cons.hyps(1) [OF t(3) [symmetric] t(2), of "D @ [old]"] unfolding t(3) by blast
    have "evicted c (Suc k) s (old # rest) s'" by (rule evicted_one [OF t(4-8,10,11) s'(5)]) (use False d in auto)
    moreover have "insert old X \<union> set (take k rest) = X \<union> set (take (Suc k) (old # rest))" by auto
    ultimately show ?thesis unfolding eq using run s' disj eq
      by (intro exI [of _ s'] exI [of _ lo'] exI [of _ hi'] exI [of _ "Suc k"]) simp
  qed
qed

lemma erase_unref_loop_evicts:
  assumes "shard_at s lo hi X"
  shows "erase_unref_loop D s = EvictFromLRU (Suc (capacity s)) D s"
  using assms
proof (induction "lo @ hi" arbitrary: lo hi X s D)
  case Nil
  have li: "list_inv s lo hi" using Nil.prems by (simp add: shard_at_def)
  show ?case using list_inv_nonempty [OF li] Nil.hyps
    by (subst EvictFromLRU.simps, subst erase_unref_loop.simps) simp
next
  case (Cons old rest)
  have li: "list_inv s lo hi" using Cons.prems by (simp add: shard_at_def)
  have eq: "lo @ hi = old # rest" using Cons.hyps(2) by simp
  obtain t lo1 hi1 where t: "evict_oldest old s = Some t" "shard_at t lo1 hi1 (insert old X)" "lo1 @ hi1 = rest"
    "config t = config s" using evict_oldest_ok [OF Cons.prems eq] by metis
  have nx: "lru_next s lru = Some old" using list_inv_oldest [OF li] eq by (simp flip: append_assoc)
  have "lru_next s lru \<noteq> Some lru" using list_inv_nonempty [OF li] eq by simp
  then show ?case using nx t(1) Cons.hyps(1) [OF t(3) [symmetric] t(2)] config_capacity [OF t(4)]
    by (subst EvictFromLRU.simps, subst erase_unref_loop.simps) simp
qed

end
