(* ===== verification/Lru_Shard.thy ===== *)
theory Lru_Shard
  imports Lru_Evict
begin

text \<open>
  The operations of a cache shard keep its invariant and never fail an assertion, read a freed handle or
  free one twice.
\<close>

section \<open>Changes of one entry\<close>

text \<open>The part of a changed state that depends on one handle.\<close>

lemma store_upd_facts:
  assumes "handles s' = (handles s)(e \<mapsto> h')"
  shows "a \<noteq> e \<Longrightarrow> in_cache (handles s') a = in_cache (handles s) a"
    "a \<noteq> e \<Longrightarrow> refs_of (handles s') a = refs_of (handles s) a"
    "in_cache (handles s') e = InCache h'" "refs_of (handles s') e = h_refs h'"
  using assms by (simp_all add: in_cache_def refs_of_def)

lemma charge_upd:
  assumes "handles s' = (handles s)(e \<mapsto> h')" and "handles s e = Some h" and "full_charge_metadata s' = full_charge_metadata s"
    and "CalcTotalCharge (full_charge_metadata s) h' = CalcTotalCharge (full_charge_metadata s) h"
  shows "charge_of s' = charge_of s"
  using assms by (simp add: charge_of_def total_charge_def fun_eq_iff)

lemma table_inv_upd:
  assumes "table_inv (handles s) t" and "handles s' = (handles s)(e \<mapsto> h')" and "handles s e = Some h"
    and "h_key h' = h_key h" "h_hash h' = h_hash h"
  shows "table_inv (handles s') t"
  by (rule lru_table.tinv_cong [OF assms(1)]) (use assms in \<open>auto simp: h_key_of_def h_hash_of_def\<close>)

lemma cache_inv_refs:
  assumes inv: "cache_inv s L X" and e: "e \<notin> X" and h: "handles s e = Some h"
    and h': "handles s' = (handles s)(e \<mapsto> h')" "h_key h' = h_key h" "h_hash h' = h_hash h"
      "CalcTotalCharge (full_charge_metadata s) h' = CalcTotalCharge (full_charge_metadata s) h"
      "InCache h' = InCache h" "InCache h' \<or> h_refs h' > 0"
    and u: "usage s' = usage s" "full_charge_metadata s' = full_charge_metadata s" "lru_table s' = lru_table s"
    and L': "L' = (if InCache h \<and> h_refs h' = 0 then insert e L else L - {e})"
  shows "cache_inv s' L' X"
proof -
  note f = store_upd_facts [OF h'(1)]
  have ch: "charge_of s' = charge_of s" by (rule charge_upd [OF h'(1) h u(2) h'(4)])
  have dom: "dom (handles s') = dom (handles s)" using h h'(1) by auto
  have ie: "in_cache (handles s) e = InCache h" using h by (simp add: in_cache_def)
  have ic: "in_cache (handles s') a = in_cache (handles s) a" for a using f(1,3) ie h'(5) by (cases "a = e") auto
  have "table_inv (handles s') (lru_table s)"
    by (rule table_inv_upd [OF _ h'(1) h h'(2,3)]) (use inv in \<open>simp add: cache_inv_def\<close>)
  moreover have "L' = {a. a \<notin> X \<and> in_cache (handles s) a \<and> refs_of (handles s') a = 0}"
  proof (rule set_eqI)
    fix a
    have "a \<in> L \<longleftrightarrow> a \<notin> X \<and> in_cache (handles s) a \<and> refs_of (handles s) a = 0" using inv by (simp add: cache_inv_def)
    then show "a \<in> L' \<longleftrightarrow> a \<in> {a. a \<notin> X \<and> in_cache (handles s) a \<and> refs_of (handles s') a = 0}"
      using f ie e by (cases "a = e") (auto simp: L')
  qed
  moreover have "\<forall>a \<in> dom (handles s) - X. in_cache (handles s) a \<or> refs_of (handles s') a > 0"
  proof
    fix a assume a: "a \<in> dom (handles s) - X"
    show "in_cache (handles s) a \<or> refs_of (handles s') a > 0"
    proof (cases "a = e")
      case True then show ?thesis using ie h'(5,6) f(4) by simp
    next
      case False
      have "in_cache (handles s) a \<or> refs_of (handles s) a > 0" by (rule bspec [OF cache_inv_D(7) [OF inv] a])
      then show ?thesis using f(2) [OF False] by simp
    qed
  qed
  ultimately show ?thesis using cache_inv_D(1-3,5,8) [OF inv] unfolding cache_inv_def dom ic u ch
    by (intro conjI) assumption+
qed

text \<open>A pinned entry leaves the table and stays alive.\<close>

lemma cache_inv_uncache:
  assumes inv: "cache_inv s L X" and e: "e \<notin> X" and h: "handles s e = Some h" and refs: "h_refs h > 0"
    and h': "handles s' = (handles s)(e \<mapsto> SetInCache False h)"
    and u: "usage s' = usage s" "full_charge_metadata s' = full_charge_metadata s"
    and t: "table_inv (handles s) (lru_table s')" "table_set (lru_table s') = table_set (lru_table s) - {e}"
  shows "cache_inv s' L X"
proof -
  note f = store_upd_facts [OF h']
  have ch: "charge_of s' = charge_of s" by (rule charge_upd [OF h' h u(2)]) simp
  have dom: "dom (handles s') = dom (handles s)" using h h' by auto
  have re: "refs_of (handles s') a = refs_of (handles s) a" for a
    using f(2,4) h by (cases "a = e") (auto simp: refs_of_def)
  have L: "a \<in> L \<longleftrightarrow> a \<notin> X \<and> in_cache (handles s) a \<and> refs_of (handles s) a = 0" for a using inv by (simp add: cache_inv_def)
  have T: "a \<in> table_set (lru_table s) \<longleftrightarrow> a \<notin> X \<and> in_cache (handles s) a" for a using inv by (simp add: cache_inv_def)
  have "table_inv (handles s') (lru_table s')" by (rule table_inv_upd [OF t(1) h' h]) simp_all
  moreover have "table_set (lru_table s') = {a. a \<notin> X \<and> in_cache (handles s') a}"
  proof (rule set_eqI)
    fix a show "a \<in> table_set (lru_table s') \<longleftrightarrow> a \<in> {a. a \<notin> X \<and> in_cache (handles s') a}"
      using T [of a] f(1,3) t(2) by (cases "a = e") auto
  qed
  moreover have "L = {a. a \<notin> X \<and> in_cache (handles s') a \<and> refs_of (handles s) a = 0}"
  proof (rule set_eqI)
    fix a show "a \<in> L \<longleftrightarrow> a \<in> {a. a \<notin> X \<and> in_cache (handles s') a \<and> refs_of (handles s) a = 0}"
      using L [of a] f(1,3) refs h by (cases "a = e") (auto simp: refs_of_def)
  qed
  moreover have "\<forall>a \<in> dom (handles s) - X. in_cache (handles s') a \<or> refs_of (handles s) a > 0"
  proof
    fix a assume a: "a \<in> dom (handles s) - X"
    have "in_cache (handles s) a \<or> refs_of (handles s) a > 0" by (rule bspec [OF cache_inv_D(7) [OF inv] a])
    then show "in_cache (handles s') a \<or> refs_of (handles s) a > 0"
      using f(1) refs h by (cases "a = e") (auto simp: refs_of_def)
  qed
  ultimately show ?thesis using cache_inv_D(1-3,8) [OF inv] unfolding cache_inv_def dom re u ch
    by (intro conjI) assumption+
qed

text \<open>An entry is created or changes while it is exempt, and is admitted to the cache.\<close>

lemma cache_inv_exempt:
  assumes inv: "cache_inv s L X" and e: "e \<notin> dom (handles s) - X" "e \<noteq> lru" and h': "handles s' = (handles s)(e \<mapsto> h')"
    and u: "usage s' = usage s" "full_charge_metadata s' = full_charge_metadata s" "lru_table s' = lru_table s"
  shows "cache_inv s' L (insert e X)"
proof -
  note f = store_upd_facts [OF h']
  have dom: "dom (handles s') = insert e (dom (handles s))" using h' by auto
  have dX: "dom (handles s') - insert e X = dom (handles s) - X" using e(1) unfolding dom by blast
  have ch: "charge_of s' a = charge_of s a" if "a \<noteq> e" for a using that h' u(2) by (simp add: charge_of_def total_charge_def)
  have ne: "a \<noteq> e" if "a \<in> dom (handles s) - X" for a using that e(1) by blast
  have in_dom: "a \<in> dom (handles s)" if "in_cache (handles s) a" for a using that by (auto simp: in_cache_def)
  have T: "table_set (lru_table s) = {a. a \<notin> X \<and> in_cache (handles s) a}" using inv by (simp add: cache_inv_def)
  have "table_inv (handles s') (lru_table s)"
  proof (rule lru_table.tinv_cong [of "handles s"])
    show "table_inv (handles s) (lru_table s)" using inv by (simp add: cache_inv_def)
    show "\<forall>a \<in> table_set (lru_table s). h_key_of (handles s') a = h_key_of (handles s) a \<and>
        h_hash_of (handles s') a = h_hash_of (handles s) a"
      using T ne in_dom h' by (auto simp: h_key_of_def h_hash_of_def)
  qed
  moreover have "(\<Sum>a \<in> dom (handles s) - X. charge_of s' a) = (\<Sum>a \<in> dom (handles s) - X. charge_of s a)"
    using ch ne by (intro sum.cong refl) blast
  moreover have "(a \<notin> insert e X \<and> in_cache (handles s') a) = (a \<notin> X \<and> in_cache (handles s) a)" for a
    using f(1) [of a] ne [of a] in_dom [of a] by (cases "a = e") auto
  moreover have "(a \<notin> insert e X \<and> in_cache (handles s') a \<and> refs_of (handles s') a = 0) =
      (a \<notin> X \<and> in_cache (handles s) a \<and> refs_of (handles s) a = 0)" for a
    using f(1,2) [of a] ne [of a] in_dom [of a] by (cases "a = e") auto
  moreover have "\<forall>a \<in> dom (handles s) - X. in_cache (handles s') a \<or> refs_of (handles s') a > 0"
    using inv f(1,2) ne by (simp add: cache_inv_def)
  ultimately show ?thesis using inv e(2) T dom unfolding cache_inv_def dX u by auto
qed

lemma cache_inv_admit:
  assumes inv: "cache_inv s L X" and e: "e \<in> X" and h: "handles s e = Some h" "InCache h"
    and s': "handles s' = handles s" "full_charge_metadata s' = full_charge_metadata s" "usage s' = usage s + charge_of s e"
    and t: "table_inv (handles s) (lru_table s')" "table_set (lru_table s') = insert e (table_set (lru_table s))"
    and L': "L' = (if h_refs h = 0 then insert e L else L)"
  shows "cache_inv s' L' (X - {e})"
proof -
  have fin: "finite (dom (handles s) - X)" using inv by (simp add: cache_inv_def)
  have ch: "charge_of s' = charge_of s" using s' by (simp add: charge_of_def total_charge_def fun_eq_iff)
  have dX: "dom (handles s) - (X - {e}) = insert e (dom (handles s) - X)" using e h by auto
  have "usage s' = (\<Sum>a \<in> dom (handles s) - (X - {e}). charge_of s' a)"
    unfolding dX ch using inv s'(3) e fin by (simp add: cache_inv_def)
  moreover have ie: "in_cache (handles s) e" "refs_of (handles s) e = h_refs h" using h by (simp_all add: in_cache_def refs_of_def)
  moreover have "table_set (lru_table s') = {a. a \<notin> X - {e} \<and> in_cache (handles s) a}"
    using cache_inv_D(5) [OF inv] e ie t(2) by auto
  moreover have "L' = {a. a \<notin> X - {e} \<and> in_cache (handles s) a \<and> refs_of (handles s) a = 0}"
    using cache_inv_D(6) [OF inv] e ie unfolding L' by auto
  moreover have "\<forall>a \<in> dom (handles s) - (X - {e}). in_cache (handles s) a \<or> refs_of (handles s) a > 0"
    using cache_inv_D(7) [OF inv] ie unfolding dX by simp
  moreover have "X - {e} \<subseteq> dom (handles s)" using cache_inv_D(3) [OF inv] by blast
  ultimately show ?thesis using cache_inv_D(1,2) [OF inv] t(1) unfolding cache_inv_def s'(1)
    by (intro conjI) assumption+
qed

section \<open>The invariant of a shard\<close>

text \<open>Documented behaviour of \<^verbatim>\<open>double\<close>: for a ratio that is not negative, no product with a size is below 0.\<close>

definition nonneg_ratio :: "'d pool_ops \<Rightarrow> 'd \<Rightarrow> bool" where
  "nonneg_ratio ops r \<longleftrightarrow> (\<forall>c. \<not> p_less ops (p_times ops c r) 0)"

definition pool_ok :: "'d pool_ops \<Rightarrow> 'd LRUCacheShard \<Rightarrow> bool" where
  "pool_ok ops s \<longleftrightarrow>
     high_pri_pool_capacity s = p_times ops (capacity s) (high_pri_pool_ratio s) \<and> nonneg_ratio ops (high_pri_pool_ratio s)"

definition shard_ok :: "'d pool_ops \<Rightarrow> 'd LRUCacheShard \<Rightarrow> addr list \<Rightarrow> addr list \<Rightarrow> bool" where
  "shard_ok ops s lo hi \<longleftrightarrow>
     shard_at s lo hi {} \<and> (usage s > capacity s \<longrightarrow> lo @ hi = []) \<and> pool_ok ops s"

definition shard_inv :: "'d pool_ops \<Rightarrow> 'd LRUCacheShard \<Rightarrow> bool" where
  "shard_inv ops s \<longleftrightarrow> (\<exists>lo hi. shard_ok ops s lo hi)"

lemma pool_ok_config: "config s' = config s \<Longrightarrow> pool_ok ops s' = pool_ok ops s"
  by (simp add: pool_ok_def config_def)

lemma pool_ok_nonneg: "pool_ok ops s \<Longrightarrow> \<not> p_less ops (high_pri_pool_capacity s) 0"
  by (simp add: pool_ok_def nonneg_ratio_def)

lemma shard_okI:
  assumes "shard_at s' lo' hi' {}" and "config s' = config s" and "pool_ok ops s"
    and "usage s' > capacity s \<Longrightarrow> lo' @ hi' = []"
  shows "shard_ok ops s' lo' hi'"
  using assms pool_ok_config [OF assms(2)] config_capacity [OF assms(2)] by (simp add: shard_ok_def)

text \<open>A changed handle keeps the list when its charge and pool stay or when it is not on the list.\<close>

lemma list_inv_set_handle:
  assumes "list_inv s lo hi" and "set (lo @ hi) \<subseteq> dom (handles s)"
    and "e \<in> set (lo @ hi) \<Longrightarrow> handles s e = Some h \<and> InHighPriPool h' = InHighPriPool h \<and>
      CalcTotalCharge (full_charge_metadata s) h' = CalcTotalCharge (full_charge_metadata s) h"
  shows "list_inv (set_handle e h' s) lo hi"
proof (rule list_inv_handles [OF assms(1)])
  fix a assume a: "a \<in> set (lo @ hi)"
  show "a \<in> dom (handles (set_handle e h' s)) \<and> charge_of (set_handle e h' s) a = charge_of s a \<and>
    in_pool (handles (set_handle e h' s)) a = in_pool (handles s) a"
  proof (cases "a = e")
    case True then show ?thesis using assms(3) a by (simp add: charge_of_def total_charge_def in_pool_def)
  next
    case False then show ?thesis using a assms(2) by (auto simp: charge_of_def total_charge_def in_pool_def)
  qed
qed simp_all

lemma list_inv_fields:
  assumes "list_inv s lo hi" and "handles s' = handles s" "lru_next s' = lru_next s" "lru_prev s' = lru_prev s"
    "lru_low_pri s' = lru_low_pri s" "lru_usage s' = lru_usage s" "high_pri_pool_usage s' = high_pri_pool_usage s"
    "full_charge_metadata s' = full_charge_metadata s"
  shows "list_inv s' lo hi"
proof (rule list_inv_handles [OF assms(1,3-7)])
  fix a assume "a \<in> set (lo @ hi)"
  then show "a \<in> dom (handles s') \<and> charge_of s' a = charge_of s a \<and> in_pool (handles s') a = in_pool (handles s) a"
    using assms(1,2,8) by (auto simp: list_inv_defs charge_of_def total_charge_def)
qed

section \<open>Configuration, eviction of everything\<close>

lemma evict_free_ok:
  assumes "shard_at s lo hi {}"
  obtains k t s' lo' hi' where "EvictFromLRU c [] s = Some (take k (lo @ hi), t)" "Free_all (take k (lo @ hi)) t = Some s'"
    "shard_at s' lo' hi' {}" "lo' @ hi' = drop k (lo @ hi)" "evicted c k s (lo @ hi) t" "config s' = config s"
    "usage s' = usage t" "handles s' = handles s |` (- set (take k (lo @ hi)))"
proof -
  obtain t lo' hi' k where t: "EvictFromLRU c [] s = Some ([] @ take k (lo @ hi), t)"
    "shard_at t lo' hi' ({} \<union> set (take k (lo @ hi)))" "lo' @ hi' = drop k (lo @ hi)" "evicted c k s (lo @ hi) t"
    using EvictFromLRU_ok [OF assms, of c "[]"] by blast
  have d: "distinct (take k (lo @ hi))"
    using assms list_inv_ring unfolding shard_at_def ring_def by (metis distinct.simps(2) distinct_take)
  have refs: "\<forall>e \<in> set (take k (lo @ hi)). refs_of (handles t) e = 0"
  proof
    fix e assume e: "e \<in> set (take k (lo @ hi))"
    then have "e \<in> dom (handles s)" using assms cache_inv_disjoint(2) unfolding shard_at_def by (metis in_mono in_set_takeD)
    moreover have "refs_of (handles s) e = 0" using t(4) e by (simp add: evicted_def)
    moreover have "handles t e = map_option (SetInCache False) (handles s e)" using t(4) e by (simp add: evicted_def)
    ultimately show "refs_of (handles t) e = 0" by (auto simp: refs_of_def)
  qed
  obtain s' where s': "Free_all (take k (lo @ hi)) t = Some s'"
    "cache_inv s' (set (lo' @ hi')) (({} \<union> set (take k (lo @ hi))) - set (take k (lo @ hi)))" "list_inv s' lo' hi'"
    "handles s' = handles t |` (- set (take k (lo @ hi)))" "config s' = config t" "usage s' = usage t"
    using Free_all_ok [OF _ _ refl _ d refs] t(2) unfolding shard_at_def by blast
  have "handles s' = handles s |` (- set (take k (lo @ hi)))"
    unfolding s'(4) by (rule ext) (use t(4) in \<open>simp add: evicted_def restrict_map_def\<close>)
  moreover have "config s' = config s" using s'(5) t(4) by (simp add: evicted_def)
  ultimately show ?thesis using that [of k t s' lo' hi'] t s' by (simp add: shard_at_def)
qed

lemma SetCapacity_ok:
  assumes "shard_at s lo hi {}" and "nonneg_ratio ops (high_pri_pool_ratio s)"
  obtains s' lo' hi' k where "SetCapacity ops cap s = Some s'" "shard_ok ops s' lo' hi'" "capacity s' = cap"
    "lo' @ hi' = drop k (lo @ hi)" "handles s' = handles s |` (- set (take k (lo @ hi)))"
proof -
  let ?s = "s\<lparr>capacity := cap, high_pri_pool_capacity := p_times ops cap (high_pri_pool_ratio s)\<rparr>"
  have li: "list_inv s lo hi" and ci: "cache_inv s (set (lo @ hi)) {}" using assms(1) by (simp_all add: shard_at_def)
  have "list_inv ?s lo hi" by (rule list_inv_fields [OF li]) simp_all
  moreover have "cache_inv ?s (set (lo @ hi)) {}" by (rule cache_inv_cong [OF ci]) (simp_all add: charge_of_def total_charge_def)
  ultimately have at: "shard_at ?s lo hi {}" by (simp add: shard_at_def)
  obtain k t s' lo' hi' where e: "EvictFromLRU 0 [] ?s = Some (take k (lo @ hi), t)" "Free_all (take k (lo @ hi)) t = Some s'"
    "shard_at s' lo' hi' {}" "lo' @ hi' = drop k (lo @ hi)" "evicted 0 k ?s (lo @ hi) t" "config s' = config ?s"
    "usage s' = usage t" "handles s' = handles ?s |` (- set (take k (lo @ hi)))"
    using evict_free_ok [OF at, of 0] .
  have run: "SetCapacity ops cap s = Some s'" using e(1,2) by (simp add: SetCapacity_def Let_def)
  have "shard_ok ops s' lo' hi'"
  proof (rule shard_okI [OF e(3,6)])
    show "pool_ok ops ?s" using assms(2) by (simp add: pool_ok_def)
    assume "capacity ?s < usage s'"
    then show "lo' @ hi' = []" using e(4,5,7) by (auto simp: evicted_def)
  qed
  moreover have "capacity s' = cap" using config_capacity [OF e(6)] by simp
  ultimately show ?thesis using that run e(4,8) by simp
qed

lemma EraseUnRefEntries_ok:
  assumes "shard_ok ops s lo hi"
  obtains s' where "EraseUnRefEntries s = Some s'" "shard_ok ops s' [] []" "handles s' = handles s |` (- set (lo @ hi))"
proof -
  have at: "shard_at s lo hi {}" and pool: "pool_ok ops s" using assms by (simp_all add: shard_ok_def)
  obtain k t s' lo' hi' where e: "EvictFromLRU (Suc (capacity s)) [] s = Some (take k (lo @ hi), t)"
    "Free_all (take k (lo @ hi)) t = Some s'" "shard_at s' lo' hi' {}" "lo' @ hi' = drop k (lo @ hi)"
    "evicted (Suc (capacity s)) k s (lo @ hi) t" "config s' = config s"
    "usage s' = usage t" "handles s' = handles s |` (- set (take k (lo @ hi)))"
    using evict_free_ok [OF at, of "Suc (capacity s)"] .
  have k: "k = length (lo @ hi)" using e(5) by (auto simp: evicted_def)
  then have nil: "lo' = []" "hi' = []" using e(4) by simp_all
  have run: "EraseUnRefEntries s = Some s'"
    using e(1,2) by (simp add: EraseUnRefEntries_def erase_unref_loop_evicts [OF at])
  have "shard_ok ops s' [] []" by (rule shard_okI [OF e(3) [unfolded nil] e(6) pool]) simp
  then show ?thesis using that run e(8) k by simp
qed

lemma LRUCacheShard_new_ok:
  assumes "nonneg_ratio ops ratio"
  obtains s where "LRUCacheShard_new ops cap strict ratio full = Some s" "shard_ok ops s [] []"
    "handles s = Map.empty" "capacity s = cap"
proof -
  let ?s = "\<lparr>capacity = 0, high_pri_pool_usage = 0, strict_capacity_limit = strict, high_pri_pool_ratio = ratio,
        high_pri_pool_capacity = p_zero ops, lru_next = [lru \<mapsto> lru], lru_prev = [lru \<mapsto> lru], lru_low_pri = lru,
        lru_table = Table_new, usage = 0, lru_usage = 0, full_charge_metadata = full,
        handles = Map.empty, deleter_calls = []\<rparr>"
  have "list_inv ?s [] []" by (simp add: list_inv_defs ring_def)
  moreover have "cache_inv ?s {} {}" by (simp add: cache_inv_def table_inv_new in_cache_def)
  ultimately have "shard_at ?s [] [] {}" by (simp add: shard_at_def)
  moreover have "nonneg_ratio ops (high_pri_pool_ratio ?s)" using assms by simp
  ultimately obtain s' lo' hi' k where "SetCapacity ops cap ?s = Some s'" "shard_ok ops s' lo' hi'" "capacity s' = cap"
    "lo' @ hi' = drop k ([] @ [])" "handles s' = handles ?s |` (- set (take k ([] @ [])))" by (rule SetCapacity_ok)
  then show ?thesis using that by (simp add: LRUCacheShard_new_def)
qed

lemma SetHighPriorityPoolRatio_ok:
  assumes "shard_ok ops s lo hi" and "nonneg_ratio ops ratio"
  obtains s' k where "SetHighPriorityPoolRatio ops ratio s = Some s'" "shard_ok ops s' (lo @ take k hi) (drop k hi)"
    "same_entries (handles s) (handles s')" "\<not> p_less ops (high_pri_pool_capacity s') (high_pri_pool_usage s')"
proof -
  let ?s = "s\<lparr>high_pri_pool_ratio := ratio, high_pri_pool_capacity := p_times ops (capacity s) ratio\<rparr>"
  have li: "list_inv s lo hi" and ci: "cache_inv s (set (lo @ hi)) {}" and full: "usage s > capacity s \<longrightarrow> lo @ hi = []"
    using assms(1) by (simp_all add: shard_ok_def shard_at_def)
  have li': "list_inv ?s lo hi" by (rule list_inv_fields [OF li]) simp_all
  have ci': "cache_inv ?s (set (lo @ hi)) {}" by (rule cache_inv_cong [OF ci]) (simp_all add: charge_of_def total_charge_def)
  have pool: "pool_ok ops ?s" using assms(2) by (simp add: pool_ok_def)
  have "pools_inv ?s lo hi" using li' by (simp add: list_inv_def)
  from MaintainPoolSize_list [OF this pool_ok_nonneg [OF pool]] obtain s' k where
    m: "MaintainPoolSize ops ?s = Some s'" "pools_inv s' (lo @ take k hi) (drop k hi)"
      "same_entries (handles ?s) (handles s')" "other_state s' = other_state ?s" "lru_usage s' = lru_usage ?s"
      "\<not> p_less ops (high_pri_pool_capacity ?s) (high_pri_pool_usage s')" by blast
  note o = other_state_D [OF m(4)]
  have "charges s' (lo @ hi) = charges ?s (lo @ hi)"
    by (rule charges_cong) (rule same_entries_charge [OF m(3) o(3)], use list_inv_dom [OF li'] in blast)
  then have "list_inv s' (lo @ take k hi) (drop k hi)"
    using m(2,5) li' unfolding list_inv_def append_assoc append_take_drop_id by simp
  moreover have "cache_inv s' (set (lo @ hi)) {}" by (rule cache_inv_same_entries [OF ci' m(3,4)])
  ultimately have "shard_at s' (lo @ take k hi) (drop k hi) {}"
    unfolding shard_at_def append_assoc append_take_drop_id by blast
  moreover have "usage s' > capacity ?s \<Longrightarrow> (lo @ take k hi) @ drop k hi = []" using full o(2) by simp
  ultimately have "shard_ok ops s' (lo @ take k hi) (drop k hi)"
    by (intro shard_okI [OF _ other_state_config [OF m(4)] pool])
  moreover have "SetHighPriorityPoolRatio ops ratio s = Some s'"
    using m(1) by (simp add: SetHighPriorityPoolRatio_def Let_def)
  ultimately show ?thesis using that m(3,6) o(6) by simp
qed

end
