(* ===== verification/Lru_Operations.thy ===== *)
theory Lru_Operations
  imports Lru_Shard
begin

text \<open>
  The operations of a cache shard on one key or handle: \<^verbatim>\<open>Lookup\<close>, \<^verbatim>\<open>Ref\<close>, \<^verbatim>\<open>Release\<close>,
  \<^verbatim>\<open>Erase\<close> and \<^verbatim>\<open>Insert\<close>.
\<close>

lemma shard_ok_D:
  assumes "shard_ok ops s lo hi"
  shows "list_inv s lo hi" "cache_inv s (set (lo @ hi)) {}" "usage s > capacity s \<longrightarrow> lo @ hi = []" "pool_ok ops s"
  using assms by (simp_all add: shard_ok_def shard_at_def)

lemma cache_inv_listed:
  assumes "cache_inv s L X" and "handles s e = Some h" and "e \<notin> X"
  shows "e \<in> L \<longleftrightarrow> InCache h \<and> h_refs h = 0" "e \<in> table_set (lru_table s) \<longleftrightarrow> InCache h" "InCache h \<or> h_refs h > 0"
proof -
  have f: "in_cache (handles s) e = InCache h" "refs_of (handles s) e = h_refs h"
    using assms(2) by (simp_all add: in_cache_def refs_of_def)
  show "e \<in> L \<longleftrightarrow> InCache h \<and> h_refs h = 0" "e \<in> table_set (lru_table s) \<longleftrightarrow> InCache h"
    unfolding cache_inv_D(5) [OF assms(1)] using assms(3) f cache_inv_D(6) [OF assms(1)] by auto
  have "e \<in> dom (handles s) - X" using assms(2,3) by blast
  from bspec [OF cache_inv_D(7) [OF assms(1)] this] show "InCache h \<or> h_refs h > 0" using f by simp
qed

lemma Table_Lookup_handle:
  assumes "cache_inv s L X" and "Table_Lookup (handles s) (lru_table s) key hash = Some e"
  obtains h where "handles s e = Some h" "InCache h" "h_key h = key" "h_hash h = hash" "e \<notin> X" "e \<in> table_set (lru_table s)"
proof -
  have "e \<in> table_set (lru_table s)" "matches (handles s) key hash e"
    using lru_table.lookup_iff [OF cache_inv_D(4) [OF assms(1)]] assms(2) by blast+
  then show ?thesis using that unfolding cache_inv_D(5) [OF assms(1)] by (auto simp: in_cache_def matches_def)
qed

lemma remove1_lists:
  assumes "list_inv s lo hi"
  shows "set (remove1 e lo @ remove1 e hi) = set (lo @ hi) - {e}"
proof -
  have "distinct (lo @ hi)" using list_inv_ring [OF assms] by (simp add: ring_def)
  then show ?thesis by auto
qed

section \<open>Pinning\<close>

lemma Lookup_found:
  assumes ok: "shard_ok ops s lo hi" and l: "Table_Lookup (handles s) (lru_table s) key hash = Some e"
  obtains s' h where "Lookup key hash s = Some (Some e, s')" "shard_ok ops s' (remove1 e lo) (remove1 e hi)"
    "handles s e = Some h" "h_key h = key" "h_hash h = hash" "handles s' = (handles s)(e \<mapsto> SetHit (handle_Ref h))"
    "config s' = config s" "usage s' = usage s" "lru_table s' = lru_table s"
proof -
  note inv = shard_ok_D [OF ok]
  obtain h where h: "handles s e = Some h" "InCache h" "h_key h = key" "h_hash h = hash"
    using Table_Lookup_handle [OF inv(2) l] by metis
  have listed: "e \<in> set (lo @ hi) \<longleftrightarrow> h_refs h = 0" using cache_inv_listed(1) [OF inv(2) h(1)] h(2) by simp
  obtain t where t: "(if \<not> HasRefs h then LRU_Remove e s else Some s) = Some t" "list_inv t (remove1 e lo) (remove1 e hi)"
    "handles t = handles s" "other_state t = other_state s"
  proof (cases "HasRefs h")
    case True
    then have "e \<notin> set (lo @ hi)" using listed by (simp add: HasRefs_def)
    then show ?thesis using that True inv(1) by (simp add: remove1_idem)
  next
    case False
    then have "e \<in> set (lo @ hi)" using listed by (simp add: HasRefs_def)
    then show ?thesis using that False LRU_Remove_list [OF inv(1)] by metis
  qed
  let ?s = "set_handle e (SetHit (handle_Ref h)) t"
  note o = other_state_D [OF t(4)]
  have run: "Lookup key hash s = Some (Some e, ?s)" using l h(1,2) t(1) unfolding Lookup_def by simp
  have rl: "set (remove1 e lo @ remove1 e hi) = set (lo @ hi) - {e}" by (rule remove1_lists [OF inv(1)])
  have "list_inv ?s (remove1 e lo) (remove1 e hi)"
    by (rule list_inv_set_handle [OF t(2) list_inv_dom [OF t(2)]]) (use rl in blast)
  moreover have "cache_inv ?s (set (remove1 e lo @ remove1 e hi)) {}"
    unfolding rl
    by (rule cache_inv_refs [OF inv(2) _ h(1), where h' = "SetHit (handle_Ref h)"])
      (use h o t(3) in \<open>simp_all add: handle_Ref_def\<close>)
  ultimately have at: "shard_at ?s (remove1 e lo) (remove1 e hi) {}" by (simp add: shard_at_def)
  have c: "config ?s = config s" using other_state_config [OF t(4)] by (simp add: config_def)
  have "shard_ok ops ?s (remove1 e lo) (remove1 e hi)"
    by (rule shard_okI [OF at c inv(4)]) (use inv(3) o(2) in auto)
  then show ?thesis using that [OF run _ h(1,3,4)] c o t(3) by simp
qed

lemma Lookup_not_found:
  "Table_Lookup (handles s) (lru_table s) key hash = None \<Longrightarrow> Lookup key hash s = Some (None, s)"
  by (simp add: Lookup_def)

lemma Ref_ok:
  assumes ok: "shard_ok ops s lo hi" and h: "handles s e = Some h" "h_refs h > 0"
  obtains s' where "Ref e s = Some (True, s')" "shard_ok ops s' lo hi" "handles s' = (handles s)(e \<mapsto> handle_Ref h)"
proof -
  note inv = shard_ok_D [OF ok]
  let ?s = "set_handle e (handle_Ref h) s"
  have nl: "e \<notin> set (lo @ hi)" using cache_inv_listed(1) [OF inv(2) h(1)] h(2) by simp
  have run: "Ref e s = Some (True, ?s)" using h by (simp add: Ref_def HasRefs_def)
  have "list_inv ?s lo hi" by (rule list_inv_set_handle [OF inv(1) list_inv_dom [OF inv(1)]]) (use nl in blast)
  moreover have "cache_inv ?s (set (lo @ hi)) {}"
    by (rule cache_inv_refs [OF inv(2) _ h(1), where h' = "handle_Ref h"])
      (use h nl in \<open>auto simp: handle_Ref_def\<close>)
  ultimately have at: "shard_at ?s lo hi {}" by (simp add: shard_at_def)
  have c: "config ?s = config s" by (simp add: config_def)
  have "shard_ok ops ?s lo hi" by (rule shard_okI [OF at c inv(4)]) (use inv(3) in auto)
  then show ?thesis using that run by simp
qed

section \<open>Giving back\<close>

text \<open>An entry that has left the list and the table is freed.\<close>

lemma drop_and_free:
  assumes inv: "list_inv s lo hi" "cache_inv s L {}" "pool_ok ops s" and h: "handles s e = Some h"
    and L: "set (lo @ hi) = L - {e}" and full: "usage s > capacity s \<longrightarrow> lo @ hi = []"
    and h': "handles t = (handles s)(e \<mapsto> h')" "h_key h' = h_key h" "h_hash h' = h_hash h" "h_refs h' = 0"
      "CalcTotalCharge (full_charge_metadata s) h' = CalcTotalCharge (full_charge_metadata s) h"
    and t: "table_inv (handles s) (lru_table t)" "table_set (lru_table t) = table_set (lru_table s) - {e}"
      "usage t = usage s - charge_of s e" "config t = config s" "list_inv t lo hi"
  obtains s' where "Free e t = Some s'" "shard_ok ops s' lo hi" "handles s' = (handles s)(e := None)"
    "charge_of s e \<le> usage s"
proof -
  have fc: "full_charge_metadata t = full_charge_metadata s" using t(4) by (simp add: config_def)
  have e: "e \<in> dom (handles s) - {}" using h by blast
  have ct: "cache_inv t (L - {e}) (insert e {})" by (rule cache_inv_drop [OF inv(2) e h h'(1-3,5) t(1-3) fc])
  have "refs_of (handles t) e = 0" using h' by (simp add: refs_of_def)
  from Free_ok [OF ct t(5) L [symmetric] insertI1 this] obtain s' where s': "Free e t = Some s'"
    "cache_inv s' (L - {e}) ({e} - {e})" "list_inv s' lo hi" "handles s' = (handles t)(e := None)"
    "config s' = config t" "usage s' = usage t" .
  have at: "shard_at s' lo hi {}" using s'(2,3) L by (simp add: shard_at_def)
  have "shard_ok ops s' lo hi"
    by (rule shard_okI [OF at _ inv(3)]) (use full s'(5,6) t(3,4) in auto)
  then show ?thesis using that s'(1,4) h'(1) charge_le_usage [OF inv(2) e] by simp
qed

text \<open>The state after \<^verbatim>\<open>Unref\<close>; an entry that is then unreferenced but cached belongs on the list.\<close>

lemma Unref_list:
  assumes ok: "shard_ok ops s lo hi" and h: "handles s e = Some h" "h_refs h > 0"
  defines "h1 \<equiv> h\<lparr>h_refs := h_refs h - 1\<rparr>"
  shows "list_inv (set_handle e h1 s) lo hi" "e \<notin> set (lo @ hi)" "e \<noteq> lru"
    "InCache h \<or> h_refs h > 1 \<Longrightarrow>
      cache_inv (set_handle e h1 s) (if InCache h \<and> h_refs h = 1 then insert e (set (lo @ hi)) else set (lo @ hi)) {}"
proof -
  note inv = shard_ok_D [OF ok]
  show nl: "e \<notin> set (lo @ hi)" using cache_inv_listed(1) [OF inv(2) h(1)] h(2) by simp
  show "e \<noteq> lru" using cache_inv_D(2) [OF inv(2)] h(1) by (metis domI)
  show "list_inv (set_handle e h1 s) lo hi"
    by (rule list_inv_set_handle [OF inv(1) list_inv_dom [OF inv(1)]]) (use nl in blast)
  assume live: "InCache h \<or> h_refs h > 1"
  show "cache_inv (set_handle e h1 s) (if InCache h \<and> h_refs h = 1 then insert e (set (lo @ hi)) else set (lo @ hi)) {}"
  proof (rule cache_inv_refs [OF inv(2) _ h(1), where h' = h1])
    show "(if InCache h \<and> h_refs h = 1 then insert e (set (lo @ hi)) else set (lo @ hi)) =
        (if InCache h \<and> h_refs h1 = 0 then insert e (set (lo @ hi)) else set (lo @ hi) - {e})"
      using h(2) nl by (auto simp: h1_def)
  qed (use live in \<open>auto simp: h1_def\<close>)
qed

lemma Release_keeps:
  assumes ok: "shard_ok ops s lo hi" and h: "handles s e = Some h" "h_refs h > 1"
  obtains s' where "Release ops (Some e) force s = Some (False, s')" "shard_ok ops s' lo hi"
    "handles s' = (handles s)(e \<mapsto> h\<lparr>h_refs := h_refs h - 1\<rparr>)"
proof -
  note inv = shard_ok_D [OF ok]
  let ?s = "set_handle e (h\<lparr>h_refs := h_refs h - 1\<rparr>) s"
  have run: "Release ops (Some e) force s = Some (False, ?s)"
    using h unfolding Release_def handle_Unref_def by (simp add: Let_def)
  have "0 < h_refs h" using h(2) by simp
  note u = Unref_list [OF ok h(1) this]
  have at: "shard_at ?s lo hi {}" using u(1,4) h(2) by (simp add: shard_at_def)
  have "config ?s = config s" by (simp add: config_def)
  from shard_okI [OF at this inv(4)] have "shard_ok ops ?s lo hi" using inv(3) by simp
  then show ?thesis using that run by simp
qed

lemma inserted_set:
  assumes "lo' @ hi' = lo @ hi @ [e] \<or> lo' = lo @ [e] \<and> hi' = hi"
  shows "set (lo' @ hi') = insert e (set (lo @ hi))"
  using assms
proof
  assume "lo' @ hi' = lo @ hi @ [e]"
  from arg_cong [OF this, of set] show ?thesis by simp
qed auto

lemma Release_to_list:
  assumes ok: "shard_ok ops s lo hi" and h: "handles s e = Some h" "h_refs h = 1" "InCache h"
    and room: "usage s \<le> capacity s" "\<not> force"
  obtains s' lo' hi' where "Release ops (Some e) force s = Some (False, s')" "shard_ok ops s' lo' hi'"
    "lo' @ hi' = lo @ hi @ [e] \<or> lo' = lo @ [e] \<and> hi' = hi"
    "same_entries ((handles s)(e \<mapsto> h\<lparr>h_refs := 0\<rparr>)) (handles s')"
proof -
  note inv = shard_ok_D [OF ok]
  let ?s = "set_handle e (h\<lparr>h_refs := 0\<rparr>) s"
  have "0 < h_refs h" using h(2) by simp
  note u = Unref_list [OF ok h(1) this, unfolded h(2) diff_self_eq_0]
  have ci: "cache_inv ?s (insert e (set (lo @ hi))) {}" using u(4) h(3) by simp
  have nonneg: "\<not> p_less ops (high_pri_pool_capacity ?s) 0" using pool_ok_nonneg [OF inv(4)] by simp
  obtain s' lo' hi' where i: "LRU_Insert ops e ?s = Some s'" "list_inv s' lo' hi'" "same_entries (handles ?s) (handles s')"
    "other_state s' = other_state ?s" "lo' @ hi' = lo @ hi @ [e] \<or> lo' = lo @ [e] \<and> hi' = hi"
    by (rule LRU_Insert_list [OF u(1-3) _ nonneg]) simp_all
  have run: "Release ops (Some e) force s = Some (False, s')"
    using h room i(1) unfolding Release_def handle_Unref_def by (simp add: Let_def)
  have "set (lo' @ hi') = insert e (set (lo @ hi))" by (rule inserted_set [OF i(5)])
  then have at: "shard_at s' lo' hi' {}"
    using i(2) cache_inv_same_entries [OF ci i(3,4)] by (simp add: shard_at_def)
  have c: "config s' = config s" using other_state_config [OF i(4)] by (simp add: config_def)
  have "shard_ok ops s' lo' hi'"
    by (rule shard_okI [OF at c inv(4)]) (use room other_state_D(2) [OF i(4)] in simp)
  then show ?thesis using that run i(3,5) by simp
qed

lemma Release_frees:
  assumes ok: "shard_ok ops s lo hi" and h: "handles s e = Some h" "h_refs h = 1"
    and last: "\<not> InCache h \<or> usage s > capacity s \<or> force"
  obtains s' where "Release ops (Some e) force s = Some (True, s')" "shard_ok ops s' lo hi"
    "handles s' = (handles s)(e := None)"
proof -
  note inv = shard_ok_D [OF ok]
  let ?h = "h\<lparr>h_refs := 0\<rparr>"
  let ?s = "set_handle e ?h s"
  have "0 < h_refs h" using h(2) by simp
  note u = Unref_list [OF ok h(1) this, unfolded h(2) diff_self_eq_0]
  have ch: "charge_of s e = total_charge s h" using h by (simp add: charge_of_def)
  have tc: "total_charge s ?h = total_charge s h" by (simp add: total_charge_def)
  show ?thesis
  proof (cases "InCache h")
    case False
    let ?t = "?s\<lparr>usage := usage s - total_charge s h\<rparr>"
    have nt: "e \<notin> table_set (lru_table s)" using cache_inv_listed(2) [OF inv(2) h(1)] False by simp
    have lt: "list_inv ?t lo hi" by (rule list_inv_fields [OF u(1)]) simp_all
    have L: "set (lo @ hi) = set (lo @ hi) - {e}" using u(2) by blast
    obtain s' where s': "Free e ?t = Some s'" "shard_ok ops s' lo hi" "handles s' = (handles s)(e := None)"
      "charge_of s e \<le> usage s"
      by (rule drop_and_free [OF inv(1,2,4) h(1) L inv(3), where t = ?t and h' = ?h])
        (use cache_inv_D(4) [OF inv(2)] nt lt ch in \<open>simp_all add: config_def\<close>)
    have "Release ops (Some e) force s = Some (True, s')"
      using h False s'(1,4) tc ch unfolding Release_def handle_Unref_def by (simp add: Let_def total_charge_def)
    then show ?thesis using that s' by blast
  next
    case True
    let ?t = "?s\<lparr>lru_table := snd (Table_Remove (handles ?s) (h_key h) (h_hash h) (lru_table s)),
       handles := (handles s)(e \<mapsto> SetInCache False ?h), usage := usage s - total_charge s h\<rparr>"
    have ci: "cache_inv ?s (insert e (set (lo @ hi))) {}" using u(4) True by simp
    have tab: "e \<in> table_set (lru_table ?s)" using cache_inv_listed(2) [OF ci, of e ?h] True by simp
    have hs: "handles ?s e = Some ?h" by simp
    note rem = table_remove_own [OF ci tab hs]
    have L: "set (lo @ hi) = insert e (set (lo @ hi)) - {e}" using u(2) by blast
    have "list_inv (set_handle e (SetInCache False ?h) ?s) lo hi"
      by (rule list_inv_set_handle [OF u(1) list_inv_dom [OF u(1)]]) (use u(2) in blast)
    then have lt: "list_inv ?t lo hi" by (rule list_inv_fields) simp_all
    have ch1: "charge_of ?s e = total_charge s h" by (simp add: charge_of_def total_charge_def)
    have pool: "pool_ok ops ?s" using inv(4) by (simp add: pool_ok_def)
    obtain s' where s': "Free e ?t = Some s'" "shard_ok ops s' lo hi" "handles s' = (handles ?s)(e := None)"
      "charge_of ?s e \<le> usage ?s"
      by (rule drop_and_free [OF u(1) ci pool hs L, where t = ?t and h' = "SetInCache False ?h"])
        (use rem lt ch1 inv(3) in \<open>simp_all add: config_def\<close>)
    have empty: "lru_next s lru = Some lru \<or> force"
      using last True inv(3) list_inv_nonempty [OF inv(1)] by auto
    have "Release ops (Some e) force s = Some (True, s')"
      using h True s'(1,4) tc ch1 last empty unfolding Release_def handle_Unref_def by (auto simp: Let_def total_charge_def)
    then show ?thesis using that s' by simp
  qed
qed

section \<open>Erasing\<close>

lemma uncached_list:
  assumes "list_inv s lo hi" and "handles s e = Some h"
  shows "list_inv (set_handle e (SetInCache False h) s) lo hi"
  by (rule list_inv_set_handle [OF assms(1) list_inv_dom [OF assms(1)]]) (use assms(2) in simp)

lemma Table_Remove_found:
  assumes "cache_inv s L X" and l: "Table_Lookup (handles s) (lru_table s) key hash = Some e"
  obtains tb where "Table_Remove (handles s) key hash (lru_table s) = (Some e, tb)" "table_inv (handles s) tb"
    "table_set tb = table_set (lru_table s) - {e}"
proof -
  obtain r tb where tr: "Table_Remove (handles s) key hash (lru_table s) = (r, tb)" by fastforce
  note ti = cache_inv_D(4) [OF assms(1)]
  show ?thesis
    using that [of tb] tr l lru_table.remove_result [of "handles s" key hash "lru_table s"]
      lru_table.remove_inv [OF ti, of key hash] lru_table.remove_entries [OF ti, of key hash] by simp
qed

lemma Erase_missing:
  assumes "shard_ok ops s lo hi" and "Table_Lookup (handles s) (lru_table s) key hash = None"
  shows "Erase key hash s = Some (s\<lparr>lru_table := snd (Table_Remove (handles s) key hash (lru_table s))\<rparr>)"
    "snd (Table_Remove (handles s) key hash (lru_table s)) = lru_table s"
proof -
  have "fst (Table_Remove (handles s) key hash (lru_table s)) = None" using assms(2) lru_table.remove_result by simp
  then show "Erase key hash s = Some (s\<lparr>lru_table := snd (Table_Remove (handles s) key hash (lru_table s))\<rparr>)"
    by (cases "Table_Remove (handles s) key hash (lru_table s)") (simp add: Erase_def)
  show "snd (Table_Remove (handles s) key hash (lru_table s)) = lru_table s"
    using \<open>fst _ = None\<close> by (auto simp: Table_Remove_def Let_def split: prod.splits)
qed

lemma Erase_pinned:
  assumes ok: "shard_ok ops s lo hi" and l: "Table_Lookup (handles s) (lru_table s) key hash = Some e"
    and h: "handles s e = Some h" "h_refs h > 0"
  obtains s' where "Erase key hash s = Some s'" "shard_ok ops s' lo hi" "handles s' = (handles s)(e \<mapsto> SetInCache False h)"
proof -
  note inv = shard_ok_D [OF ok]
  obtain tb where tr: "Table_Remove (handles s) key hash (lru_table s) = (Some e, tb)" "table_inv (handles s) tb"
    "table_set tb = table_set (lru_table s) - {e}" using Table_Remove_found [OF inv(2) l] .
  let ?s = "s\<lparr>lru_table := tb, handles := (handles s)(e \<mapsto> SetInCache False h)\<rparr>"
  have hc: "InCache h" using Table_Lookup_handle [OF inv(2) l] h(1) by (metis option.inject)
  have run: "Erase key hash s = Some ?s"
    unfolding Erase_def tr(1) using h hc by (simp add: HasRefs_def Let_def)
  have "list_inv ?s lo hi" by (rule list_inv_fields [OF uncached_list [OF inv(1) h(1)]]) simp_all
  moreover have "cache_inv ?s (set (lo @ hi)) {}"
    by (rule cache_inv_uncache [OF inv(2) _ h]) (use tr in simp_all)
  ultimately have at: "shard_at ?s lo hi {}" by (simp add: shard_at_def)
  have "shard_ok ops ?s lo hi" by (rule shard_okI [OF at _ inv(4)]) (use inv(3) in \<open>auto simp: config_def\<close>)
  then show ?thesis using that run by simp
qed

lemma Erase_frees:
  assumes ok: "shard_ok ops s lo hi" and l: "Table_Lookup (handles s) (lru_table s) key hash = Some e"
    and h: "handles s e = Some h" "h_refs h = 0"
  obtains s' where "Erase key hash s = Some s'" "shard_ok ops s' (remove1 e lo) (remove1 e hi)"
    "handles s' = (handles s)(e := None)"
proof -
  note inv = shard_ok_D [OF ok]
  obtain tb where tr: "Table_Remove (handles s) key hash (lru_table s) = (Some e, tb)" "table_inv (handles s) tb"
    "table_set tb = table_set (lru_table s) - {e}" using Table_Remove_found [OF inv(2) l] .
  let ?s = "s\<lparr>lru_table := tb, handles := (handles s)(e \<mapsto> SetInCache False h)\<rparr>"
  have hc: "InCache h" using Table_Lookup_handle [OF inv(2) l] h(1) by (metis option.inject)
  have listed: "e \<in> set (lo @ hi)" using cache_inv_listed(1) [OF inv(2) h(1)] hc h(2) by simp
  have ls: "list_inv ?s lo hi" by (rule list_inv_fields [OF uncached_list [OF inv(1) h(1)]]) simp_all
  obtain t where t: "LRU_Remove e ?s = Some t" "list_inv t (remove1 e lo) (remove1 e hi)"
    "handles t = handles ?s" "other_state t = other_state ?s" using LRU_Remove_list [OF ls listed] .
  obtain t0 where t0: "list_inv t0 (remove1 e lo) (remove1 e hi)" "handles t0 = handles s" "other_state t0 = other_state s"
    using LRU_Remove_list [OF inv(1) listed] by metis
  note o = other_state_D [OF t(4)] and o0 = other_state_D [OF t0(3)]
  let ?u = "t\<lparr>usage := usage t - total_charge t (SetInCache False h)\<rparr>"
  have ch: "charge_of s e = total_charge t (SetInCache False h)" "charge_of t0 e = charge_of s e"
    using h(1) o(3) o0(3) t0(2) by (simp_all add: charge_of_def total_charge_def)
  have c0: "cache_inv t0 (set (lo @ hi)) {}"
    by (rule cache_inv_same_entries [OF inv(2) _ t0(3)]) (simp add: t0(2))
  have p0: "pool_ok ops t0" using pool_ok_config [OF other_state_config [OF t0(3)]] inv(4) by simp
  have h0: "handles t0 e = Some h" using t0(2) h(1) by simp
  have lu: "list_inv ?u (remove1 e lo) (remove1 e hi)" by (rule list_inv_fields [OF t(2)]) simp_all
  have full: "usage t0 > capacity t0 \<longrightarrow> remove1 e lo @ remove1 e hi = []" using inv(3) o0 by auto
  obtain s' where s': "Free e ?u = Some s'" "shard_ok ops s' (remove1 e lo) (remove1 e hi)"
    "handles s' = (handles t0)(e := None)" "charge_of t0 e \<le> usage t0"
    by (rule drop_and_free [OF t0(1) c0 p0 h0 remove1_lists [OF inv(1)] full, where t = ?u and h' = "SetInCache False h"])
      (use t o o0 h tr lu ch t0(2) in \<open>simp_all add: config_def\<close>)
  have le: "total_charge t (SetInCache False h) \<le> usage t" using s'(4) o o0 ch by simp
  have "Erase key hash s = Some s'"
    unfolding Erase_def tr(1) using h hc t(1) s'(1) le by (simp add: HasRefs_def Let_def)
  then show ?thesis using that s' t0(2) by simp
qed

end
