(* ===== verification/Lru_Insert.thy ===== *)
theory Lru_Insert
  imports Lru_Operations
begin

text \<open>
  \<^verbatim>\<open>LRUCacheShard::Insert\<close> keeps the invariant on each of its branches: the entry is inserted, dropped at
  once, or refused.
\<close>

section \<open>Entries are not invented\<close>

text \<open>Every entry of the second store is an entry of the first with the same key, hash and value, and it is in the
  cache only if it was.\<close>

definition same_data :: "LRUHandle \<Rightarrow> LRUHandle \<Rightarrow> bool" where
  "same_data h h' \<longleftrightarrow> h_key h = h_key h' \<and> h_hash h = h_hash h' \<and> h_value h = h_value h' \<and> (InCache h' \<longrightarrow> InCache h)"

definition sub_entries :: "store \<Rightarrow> store \<Rightarrow> bool" where
  "sub_entries st st' \<longleftrightarrow> (\<forall>a h'. st' a = Some h' \<longrightarrow> (\<exists>h. st a = Some h \<and> same_data h h'))"

lemma same_data_simps [simp]:
  "same_data h h" "same_data h (SetInCache False h)" "same_data h (SetHit (handle_Ref h))" "same_data h (handle_Ref h)"
  "same_data h (h\<lparr>h_refs := n\<rparr>)"
  by (simp_all add: same_data_def) (simp_all add: SetInCache_def SetHit_def handle_Ref_def)

lemma sub_entries_refl [simp]: "sub_entries st st"
  by (simp add: sub_entries_def)

lemma sub_entries_trans: "sub_entries st st' \<Longrightarrow> sub_entries st' st'' \<Longrightarrow> sub_entries st st''"
  unfolding sub_entries_def same_data_def by metis

lemma sub_entries_restrict [simp]: "sub_entries st (st |` A)" "sub_entries st (st(e := None))"
  by (auto simp: sub_entries_def restrict_map_def)

lemma sub_entries_same: "same_entries st st' \<Longrightarrow> sub_entries st st'"
  unfolding sub_entries_def
proof (intro allI impI)
  fix a h' assume same: "same_entries st st'" and h': "st' a = Some h'"
  have "map_option (SetInHighPriPool False) (st a) = Some (SetInHighPriPool False h')"
    using same h' unfolding same_entries_def by (metis option.simps(9))
  then obtain h where h: "st a = Some h" "SetInHighPriPool False h' = SetInHighPriPool False h" by auto
  show "\<exists>h. st a = Some h \<and> same_data h h'"
    using SetInHighPriPool_eqD [OF h(2)] h(1) by (simp add: same_data_def)
qed

lemma sub_entries_upd: "st e = Some h \<Longrightarrow> same_data h h' \<Longrightarrow> sub_entries st (st(e \<mapsto> h'))"
  by (auto simp: sub_entries_def)

section \<open>Making room\<close>

lemma Insert_evict:
  assumes ok: "shard_ok ops s lo hi" and new: "handles s e = None" "e \<noteq> lru"
  obtains k t lo' hi' where "EvictFromLRU c [] (set_handle e h s) = Some (take k (lo @ hi), t)"
    "list_inv t lo' hi'" "cache_inv t (set (lo' @ hi')) (insert e (set (take k (lo @ hi))))" "lo' @ hi' = drop k (lo @ hi)"
    "evicted c k (set_handle e h s) (lo @ hi) t" "e \<notin> set (take k (lo @ hi))" "distinct (take k (lo @ hi))"
    "\<forall>a \<in> set (take k (lo @ hi)). refs_of (handles t) a = 0" "handles t e = Some h"
    "e \<notin> set (lo' @ hi')"
proof -
  note inv = shard_ok_D [OF ok]
  let ?s = "set_handle e h s"
  have nl: "e \<notin> set (lo @ hi)" using cache_inv_disjoint(2) [OF inv(2)] new(1) by blast
  have "list_inv ?s lo hi" by (rule list_inv_set_handle [OF inv(1) list_inv_dom [OF inv(1)]]) (use nl in blast)
  moreover have "cache_inv ?s (set (lo @ hi)) {e}"
    by (rule cache_inv_exempt [OF inv(2), where h' = h]) (use new in auto)
  ultimately have "shard_at ?s lo hi {e}" by (simp add: shard_at_def)
  from EvictFromLRU_ok [OF this, of c "[]"] obtain t lo' hi' k where
    t: "EvictFromLRU c [] ?s = Some ([] @ take k (lo @ hi), t)" "shard_at t lo' hi' ({e} \<union> set (take k (lo @ hi)))"
      "lo' @ hi' = drop k (lo @ hi)" "evicted c k ?s (lo @ hi) t" by blast
  have ne: "e \<notin> set (take k (lo @ hi))" "e \<notin> set (lo' @ hi')" using nl t(3) by (meson in_set_takeD, metis in_set_dropD)
  have d: "distinct (take k (lo @ hi))"
    using list_inv_ring [OF inv(1)] unfolding ring_def by (metis distinct.simps(2) distinct_take)
  have refs: "refs_of (handles t) a = 0" if a: "a \<in> set (take k (lo @ hi))" for a
  proof -
    have "a \<noteq> e" "a \<in> dom (handles s)" using a ne list_inv_dom [OF inv(1)] by (blast, meson in_mono in_set_takeD)
    moreover have "refs_of (handles ?s) a = 0" using t(4) a by (simp add: evicted_def)
    moreover have "handles t a = map_option (SetInCache False) (handles ?s a)" using t(4) a by (simp add: evicted_def)
    ultimately show ?thesis by (auto simp: refs_of_def)
  qed
  have "handles t e = Some h" using t(4) ne by (simp add: evicted_def)
  then show ?thesis using that [OF _ _ _ t(3,4) ne(1) d _ _ ne(2)] t(1,2) refs by (simp add: shard_at_def)
qed

text \<open>The entries that wait to be freed are freed at the end.\<close>

lemma free_rest:
  assumes "list_inv t lo hi" and "cache_inv t (set (lo @ hi)) (set es)" and "distinct es"
    and "\<forall>a \<in> set es. refs_of (handles t) a = 0" and "config t = config s" "pool_ok ops s"
    and "usage t > capacity s \<Longrightarrow> lo @ hi = []"
  obtains s' where "Free_all es t = Some s'" "shard_ok ops s' lo hi" "handles s' = handles t |` (- set es)"
    "config s' = config s" "usage s' = usage t"
proof -
  obtain s' where s': "Free_all es t = Some s'" "cache_inv s' (set (lo @ hi)) (set es - set es)" "list_inv s' lo hi"
    "handles s' = handles t |` (- set es)" "config s' = config t" "usage s' = usage t"
    using Free_all_ok [OF assms(2,1) refl subset_refl assms(3,4)] by blast
  have at: "shard_at s' lo hi {}" using s'(2,3) by (simp add: shard_at_def)
  have "shard_ok ops s' lo hi" by (rule shard_okI [OF at _ assms(6)]) (use s'(5,6) assms(5,7) in simp_all)
  then show ?thesis using that s' assms(5) by simp
qed

section \<open>Refused and dropped entries\<close>

text \<open>What is left of the store when the \<open>k\<close> oldest entries have been freed.\<close>

lemma evicted_store:
  assumes "evicted c k (set_handle e h s) l t"
  shows "((handles t)(e := None)) |` (- set (take k l)) = ((handles s)(e := None)) |` (- set (take k l))"
  using assms by (auto simp: evicted_def restrict_map_def fun_eq_iff)

lemma evicted_sub_entries:
  assumes "evicted c k (set_handle e h s) l t"
  shows "sub_entries (handles s) ((handles t)(e := None))"
proof -
  have t: "handles t a = (if a \<in> set (take k l) then map_option (SetInCache False) (handles s a) else handles s a)" if "a \<noteq> e" for a
    using assms that by (simp add: evicted_def)
  show ?thesis unfolding sub_entries_def
  proof (intro allI impI)
    fix a h' assume h': "((handles t)(e := None)) a = Some h'"
    then have "a \<noteq> e" by auto
    then show "\<exists>h. handles s a = Some h \<and> same_data h h'" using t [of a] h' by (auto split: if_splits)
  qed
qed

lemma Insert_refused:
  assumes ok: "shard_ok ops s lo hi" and new: "handles s e = None" "e \<noteq> lru"
    and ev: "EvictFromLRU c [] (set_handle e h s) = Some (es, t)" "list_inv t lo' hi'"
      "cache_inv t (set (lo' @ hi')) (insert e (set es))" "evicted c k (set_handle e h s) l t" "e \<notin> set es" "distinct es"
      "\<forall>a \<in> set es. refs_of (handles t) a = 0" "es = take k l" "lo' @ hi' = drop k l"
    and h: "h = new_handle key hash val chg deleter high" "c = total_charge (set_handle e h s) h"
    and full: "usage t + c > capacity t" "strict_capacity_limit t"
  obtains s' where "Insert ops e key hash val chg deleter True high s =
      Some (Status_Incomplete ''Insert failed due to LRU cache being full.'', None, s')" "shard_ok ops s' lo' hi'"
    "handles s' = handles s |` (- set es)" "config s' = config s" "usage s' = usage t"
proof -
  note inv = shard_ok_D [OF ok]
  let ?t = "t\<lparr>handles := (handles t)(e := None)\<rparr>"
  have d: "cache_inv ?t (set (lo' @ hi')) (insert e (set es) - {e})" "list_inv ?t lo' hi'"
    by (rule shard_delete [OF ev(3,2) refl insertI1]; simp)+
  have e2: "insert e (set es) - {e} = set es" using ev(5) by blast
  have r: "\<forall>a \<in> set es. refs_of (handles ?t) a = 0" using ev(5,7) by (auto simp: refs_of_def)
  have c: "config ?t = config s" using ev(4) by (simp add: evicted_def config_def)
  have cap: "capacity t = capacity s" using c by (simp add: config_def)
  have nil: "lo' @ hi' = []" using ev(4,9) full(1) cap by (auto simp: evicted_def)
  obtain s' where s': "Free_all es ?t = Some s'" "shard_ok ops s' lo' hi'" "handles s' = handles ?t |` (- set es)"
    "config s' = config s" "usage s' = usage ?t"
    using free_rest [OF d(2) d(1) [unfolded e2] ev(6) r c inv(4)] nil by metis
  have "Insert ops e key hash val chg deleter True high s =
      Some (Status_Incomplete ''Insert failed due to LRU cache being full.'', None, s')"
    unfolding Insert_def h(1) [symmetric] Let_def h(2) [symmetric] ev(1) using full s'(1) by simp
  moreover have "handles s' = handles s |` (- set es)"
    using s'(3) evicted_store [OF ev(4)] ev(8) new(1) by (simp add: fun_upd_idem)
  ultimately show ?thesis using that s' by simp
qed

lemma Insert_dropped:
  assumes ok: "shard_ok ops s lo hi" and new: "handles s e = None" "e \<noteq> lru"
    and ev: "EvictFromLRU c [] (set_handle e h s) = Some (es, t)" "list_inv t lo' hi'"
      "cache_inv t (set (lo' @ hi')) (insert e (set es))" "evicted c k (set_handle e h s) l t" "e \<notin> set es" "distinct es"
      "\<forall>a \<in> set es. refs_of (handles t) a = 0" "es = take k l" "lo' @ hi' = drop k l"
    and h: "h = new_handle key hash val chg deleter high" "c = total_charge (set_handle e h s) h"
    and full: "usage t + c > capacity t"
  obtains s' where "Insert ops e key hash val chg deleter False high s = Some (Status_OK, None, s')"
    "shard_ok ops s' lo' hi'" "handles s' = handles s |` (- set es)" "config s' = config s" "usage s' = usage t"
proof -
  note inv = shard_ok_D [OF ok]
  let ?h = "SetInCache False h"
  let ?t = "set_handle e ?h t"
  have nil: "lo' @ hi' = []" using ev(4,9) full by (auto simp: evicted_def config_def)
  have li: "list_inv ?t lo' hi'"
    by (rule list_inv_set_handle [OF ev(2) list_inv_dom [OF ev(2)]]) (use nil in auto)
  have "cache_inv ?t (set (lo' @ hi')) (insert e (insert e (set es)))"
    by (rule cache_inv_exempt [OF ev(3), where h' = ?h]) (use new in auto)
  then have ci: "cache_inv ?t (set (lo' @ hi')) (set (es @ [e]))" by simp
  have "h_refs ?h = 0" unfolding h(1) by (simp add: new_handle_def)
  then have r: "\<forall>a \<in> set (es @ [e]). refs_of (handles ?t) a = 0" using ev(5,7) by (auto simp: refs_of_def)
  have c: "config ?t = config s" using ev(4) by (simp add: evicted_def config_def)
  have d: "distinct (es @ [e])" using ev(5,6) by simp
  obtain s' where s': "Free_all (es @ [e]) ?t = Some s'" "shard_ok ops s' lo' hi'"
    "handles s' = handles ?t |` (- set (es @ [e]))" "config s' = config s" "usage s' = usage ?t"
    using free_rest [OF li ci d r c inv(4)] nil by metis
  have "Insert ops e key hash val chg deleter False high s = Some (Status_OK, None, s')"
    unfolding Insert_def h(1) [symmetric] Let_def h(2) [symmetric] ev(1) using full s'(1) by simp
  moreover have "handles s' = handles s |` (- set es)"
  proof -
    have "handles s' = ((handles t)(e := None)) |` (- set es)" unfolding s'(3) by (auto simp: restrict_map_def fun_eq_iff)
    then show ?thesis using evicted_store [OF ev(4)] ev(8) new(1) by (simp add: fun_upd_idem)
  qed
  ultimately show ?thesis using that s' by simp
qed

section \<open>Inserted entries\<close>

text \<open>The table after the insertion: the new entry, and not the one it replaces.\<close>

lemma Table_Insert_exempt:
  assumes ci: "cache_inv t L X" and e: "e \<in> X" "handles t e = Some h"
  obtains old tb where "Table_Insert (handles t) e (lru_table t) = (old, tb)"
    "old = Table_Lookup (handles t) (lru_table t) (h_key h) (h_hash h)" "table_inv (handles t) tb"
    "table_set tb = insert e (table_set (lru_table t) - set_option old)"
proof -
  obtain old tb where tb: "Table_Insert (handles t) e (lru_table t) = (old, tb)" by fastforce
  have ne: "e \<notin> table_set (lru_table t)" using cache_inv_D(5) [OF ci] e(1) by simp
  note ti = cache_inv_D(4) [OF ci]
  have k: "h_key_of (handles t) e = h_key h" "h_hash_of (handles t) e = h_hash h"
    using e(2) by (simp_all add: h_key_of_def h_hash_of_def)
  show ?thesis
    using that [OF tb] lru_table.insert_result [of "handles t" e "lru_table t"] lru_table.insert_inv [OF ti ne]
      lru_table.insert_entries [OF ti ne] unfolding k tb by simp
qed

text \<open>The replaced entry is off the table; it stays while it is pinned and waits to be freed otherwise.
  The new entry is admitted in the same move.\<close>

lemma replace_old_ok:
  assumes li: "list_inv t lo hi" and ci: "cache_inv t (set (lo @ hi)) (insert e (set es))"
    and e: "handles t e = Some h" "InCache h" "h_refs h = 0" "e \<notin> set es" and d: "distinct es"
    and r: "\<forall>a \<in> set es. refs_of (handles t) a = 0"
    and ti: "Table_Insert (handles t) e (lru_table t) = (old, tb)"
  obtains es' u lo' hi' where
    "replace_old old es (t\<lparr>lru_table := tb, usage := usage t + charge_of t e\<rparr>) = Some (es', u)"
    "list_inv u lo' hi'" "cache_inv u (insert e (set (lo' @ hi'))) (set es')" "distinct es'"
    "\<forall>a \<in> set es'. refs_of (handles u) a = 0" "e \<notin> set es'" "e \<notin> set (lo' @ hi')"
    "handles u e = Some h" "config u = config t" "usage u \<le> usage t + charge_of t e" "lo @ hi = [] \<longrightarrow> lo' @ hi' = []"
    "sub_entries (handles t) (handles u)"
proof -
  have eX: "e \<in> insert e (set es)" by simp
  obtain tb: "old = Table_Lookup (handles t) (lru_table t) (h_key h) (h_hash h)" "table_inv (handles t) tb"
    "table_set tb = insert e (table_set (lru_table t) - set_option old)"
    using Table_Insert_exempt [OF ci eX e(1)] ti by (metis prod.inject)
  have el: "e \<notin> set (lo @ hi)" using cache_inv_disjoint(1) [OF ci] by blast
  have X: "insert e (set es) - {e} = set es" using e(4) by blast
  let ?t = "t\<lparr>lru_table := tb, usage := usage t + charge_of t e\<rparr>"
  have lt: "list_inv ?t lo hi" by (rule list_inv_fields [OF li]) simp_all
  show ?thesis
  proof (cases old)
    case None
    have "cache_inv ?t (insert e (set (lo @ hi))) (insert e (set es) - {e})"
      by (rule cache_inv_admit [OF ci eX e(1,2)]) (use tb None e(3) in simp_all)
    then show ?thesis using that [of es ?t lo hi] lt d r e el X None by (simp add: replace_old_def config_def)
  next
    case (Some a)
    obtain g where g: "handles t a = Some g" "InCache g" "h_key g = h_key h" "h_hash g = h_hash h"
        "a \<notin> insert e (set es)" "a \<in> table_set (lru_table t)"
      using Table_Lookup_handle [OF ci tb(1) [symmetric, unfolded Some]] .
    have ae: "a \<noteq> e" using g(5) by simp
    obtain tr where tr: "table_inv (handles t) tr" "table_set tr = table_set (lru_table t) - {a}"
      using Table_Remove_found [OF ci tb(1) [symmetric, unfolded Some]] by metis
    let ?g = "SetInCache False g"
    let ?u = "set_handle a ?g ?t"
    have ut: "table_inv ((handles t)(a \<mapsto> ?g)) tb"
      using table_inv_upd [OF tb(2), of ?u a ?g g] g by simp
    have sub: "sub_entries (handles t) ((handles t)(a \<mapsto> ?g))" using sub_entries_upd [of "handles t" a g ?g] g(1) by simp
    have lu: "list_inv ?u lo hi" using uncached_list [OF lt, of a g] g(1) by simp
    show ?thesis
    proof (cases "h_refs g = 0")
      case False
      let ?v = "t\<lparr>lru_table := tr, handles := (handles t)(a \<mapsto> ?g)\<rparr>"
      have cv: "cache_inv ?v (set (lo @ hi)) (insert e (set es))"
        by (rule cache_inv_uncache [OF ci g(5,1)]) (use False tr in simp_all)
      have cu: "cache_inv ?u (insert e (set (lo @ hi))) (insert e (set es) - {e})"
        by (rule cache_inv_admit [OF cv eX, of h])
          (use e ae ut tb(3) tr Some in \<open>simp_all add: charge_of_def total_charge_def\<close>)
      have ru: "\<forall>b \<in> set es. refs_of (handles ?u) b = 0" using r g(5) by (auto simp: refs_of_def)
      have run: "replace_old old es ?t = Some (es, ?u)" using Some g(1,2) False by (simp add: replace_old_def HasRefs_def Let_def)
      show ?thesis
        by (rule that [OF run lu cu [unfolded X] d ru e(4) el]) (use e ae sub in \<open>simp_all add: config_def\<close>)
    next
      case True
      have al: "a \<in> set (lo @ hi)" using cache_inv_listed(1) [OF ci g(1,5)] g(2) True by simp
      obtain w where w: "LRU_Remove a ?u = Some w" "list_inv w (remove1 a lo) (remove1 a hi)"
        "handles w = handles ?u" "other_state w = other_state ?u" using LRU_Remove_list [OF lu al] .
      note o = other_state_D [OF w(4)]
      let ?w = "w\<lparr>usage := usage w - total_charge w ?g\<rparr>"
      have ch: "charge_of t a = total_charge w ?g" using g(1) o(3) by (simp add: charge_of_def total_charge_def)
      have aX: "a \<in> dom (handles t) - insert e (set es)" using g(1,5) by blast
      have le: "charge_of t a \<le> usage t" by (rule charge_le_usage [OF ci aX])
      let ?v = "t\<lparr>lru_table := tr, handles := (handles t)(a \<mapsto> ?g), usage := usage t - charge_of t a\<rparr>"
      have cv: "cache_inv ?v (set (lo @ hi) - {a}) (insert a (insert e (set es)))"
        by (rule cache_inv_drop [OF ci aX g(1), where h' = ?g]) (use tr in simp_all)
      have rl: "set (remove1 a lo @ remove1 a hi) = set (lo @ hi) - {a}" by (rule remove1_lists [OF li])
      have X2: "insert a (insert e (set es)) - {e} = set (es @ [a])" using e(4) ae by auto
      have "cache_inv ?w (insert e (set (lo @ hi) - {a})) (insert a (insert e (set es)) - {e})"
        by (rule cache_inv_admit [OF cv _ _ e(2)])
          (use e ae ut tb(3) tr Some o w(3) ch le in \<open>simp_all add: charge_of_def total_charge_def\<close>)
      then have cw: "cache_inv ?w (insert e (set (remove1 a lo @ remove1 a hi))) (set (es @ [a]))" unfolding rl X2 .
      have lw: "list_inv ?w (remove1 a lo) (remove1 a hi)" by (rule list_inv_fields [OF w(2)]) simp_all
      have rw: "\<forall>b \<in> set (es @ [a]). refs_of (handles ?w) b = 0"
        using r g(5) True w(3) by (auto simp: refs_of_def)
      have le2: "total_charge w ?g \<le> usage w" using le ch o(2) by simp
      have run: "replace_old old es ?t = Some (es @ [a], ?w)"
        using Some g(1,2) True w(1) le2 by (simp add: replace_old_def HasRefs_def Let_def)
      have dw: "distinct (es @ [a])" using d g(5) by simp
      have ne: "e \<notin> set (es @ [a])" "e \<notin> set (remove1 a lo @ remove1 a hi)" using e(4) ae el rl by auto
      have c: "config ?w = config t" using other_state_config [OF w(4)] by (simp add: config_def)
      show ?thesis
        by (rule that [OF run lw cw dw rw ne _ c]) (use e ae o w(3) sub in auto)
    qed
  qed
qed

text \<open>The last step of an insertion: the entry goes to the list, or the caller gets a handle.\<close>

definition insert_pin :: "'d pool_ops \<Rightarrow> addr \<Rightarrow> LRUHandle \<Rightarrow> bool \<Rightarrow> 'd LRUCacheShard \<Rightarrow> (addr option \<times> 'd LRUCacheShard) option" where
  "insert_pin ops e h want_handle s =
     (if \<not> want_handle then do { s \<leftarrow> LRU_Insert ops e s; Some (None, s) }
      else Some (Some e, set_handle e (handle_Ref h) s))"

lemma insert_pin_ok:
  assumes li: "list_inv u lo hi" and ci: "cache_inv u (insert e (set (lo @ hi))) (set es)"
    and r: "\<forall>a \<in> set es. refs_of (handles u) a = 0" and e: "e \<notin> set es" "e \<notin> set (lo @ hi)" "handles u e = Some h"
      "InCache h" "h_refs h = 0"
    and nonneg: "\<not> p_less ops (high_pri_pool_capacity u) 0"
  obtains w lo' hi' h' where "insert_pin ops e h want u = Some (if want then Some e else None, w)"
    "list_inv w lo' hi'" "cache_inv w (set (lo' @ hi')) (set es)" "\<forall>a \<in> set es. refs_of (handles w) a = 0"
    "other_state w = other_state u" "handles w e = Some h'" "InCache h'" "h_key h' = h_key h" "h_hash h' = h_hash h"
    "h_value h' = h_value h" "same_entries ((handles u)(e := None)) ((handles w)(e := None))"
    "want \<longrightarrow> lo' @ hi' = lo @ hi \<and> h_refs h' = 1"
proof (cases want)
  case True
  let ?w = "set_handle e (handle_Ref h) u"
  have "list_inv ?w lo hi" by (rule list_inv_set_handle [OF li list_inv_dom [OF li]]) (use e(2) in blast)
  moreover have "cache_inv ?w (set (lo @ hi)) (set es)"
    by (rule cache_inv_refs [OF ci e(1,3), where h' = "handle_Ref h"]) (use e in \<open>auto simp: handle_Ref_def\<close>)
  moreover have "\<forall>a \<in> set es. refs_of (handles ?w) a = 0" using r e(1) by (auto simp: refs_of_def)
  moreover have "same_entries ((handles u)(e := None)) ((handles ?w)(e := None))" by simp
  ultimately show ?thesis
    using that [of ?w lo hi "handle_Ref h"] True e(4,5) by (simp add: insert_pin_def other_state_def handle_Ref_def)
next
  case False
  have e0: "e \<noteq> lru" using cache_inv_D(2) [OF ci] e(3) by (metis domI)
  obtain w lo' hi' where w: "LRU_Insert ops e u = Some w" "list_inv w lo' hi'" "same_entries (handles u) (handles w)"
    "other_state w = other_state u" "lo' @ hi' = lo @ hi @ [e] \<or> lo' = lo @ [e] \<and> hi' = hi"
    using LRU_Insert_list [OF li e(2) e0 e(3) nonneg] .
  obtain h' where h': "handles w e = Some h'" "SetInHighPriPool False h' = SetInHighPriPool False h"
    using same_entries_D [OF w(3) e(3)] .
  have "cache_inv w (set (lo' @ hi')) (set es)"
    unfolding inserted_set [OF w(5)] by (rule cache_inv_same_entries [OF ci w(3,4)])
  moreover have "\<forall>a \<in> set es. refs_of (handles w) a = 0"
    using same_entries_kept(4) [OF w(3)] r cache_inv_D(3) [OF ci] by (simp add: subset_iff)
  moreover have "same_entries ((handles u)(e := None)) ((handles w)(e := None))"
    using w(3) by (simp add: same_entries_def)
  ultimately show ?thesis
    using that [of w lo' hi' h'] False w h' SetInHighPriPool_eqD [OF h'(2)] e(4,5) by (simp add: insert_pin_def)
qed

lemma new_handle_simps [simp]:
  "InCache (new_handle key hash val chg deleter high)" "h_refs (new_handle key hash val chg deleter high) = 0"
  "h_key (new_handle key hash val chg deleter high) = key" "h_hash (new_handle key hash val chg deleter high) = hash"
  "h_value (new_handle key hash val chg deleter high) = val"
  by (simp_all add: new_handle_def) (simp add: SetPriority_def SetInCache_def)

lemma Insert_done:
  assumes ok: "shard_ok ops s lo hi" and new: "handles s e = None" "e \<noteq> lru"
    and ev: "EvictFromLRU c [] (set_handle e h s) = Some (es, t)" "list_inv t lo1 hi1"
      "cache_inv t (set (lo1 @ hi1)) (insert e (set es))" "evicted c k (set_handle e h s) l t" "e \<notin> set es" "distinct es"
      "\<forall>a \<in> set es. refs_of (handles t) a = 0" "es = take k l" "lo1 @ hi1 = drop k l" "handles t e = Some h"
    and h: "h = new_handle key hash val chg deleter high" "c = total_charge (set_handle e h s) h"
    and room: "\<not> (usage t + c > capacity t \<and> (strict_capacity_limit t \<or> \<not> want))"
  obtains s' lo' hi' h' where "Insert ops e key hash val chg deleter want high s =
      Some (Status_OK, if want then Some e else None, s')" "shard_ok ops s' lo' hi'"
    "handles s' e = Some h'" "InCache h'" "h_key h' = key" "h_hash h' = hash" "h_value h' = val"
    "config s' = config s" "usage s' \<le> usage t + c" "sub_entries (handles s) ((handles s')(e := None))"
    "want \<longrightarrow> h_refs h' = 1"
proof -
  note inv = shard_ok_D [OF ok]
  have ce: "charge_of t e = c"
    using ev(4,10) h(2) by (simp add: charge_of_def total_charge_def evicted_def config_def)
  have ct: "config t = config s" using ev(4) by (simp add: evicted_def config_def)
  have hh: "InCache h" "h_refs h = 0" by (simp_all add: h(1))
  obtain old tb where ti: "Table_Insert (handles t) e (lru_table t) = (old, tb)" by fastforce
  obtain es' u lo2 hi2 where u: "replace_old old es (t\<lparr>lru_table := tb, usage := usage t + charge_of t e\<rparr>) = Some (es', u)"
    "list_inv u lo2 hi2" "cache_inv u (insert e (set (lo2 @ hi2))) (set es')" "distinct es'"
    "\<forall>a \<in> set es'. refs_of (handles u) a = 0" "e \<notin> set es'" "e \<notin> set (lo2 @ hi2)" "handles u e = Some h"
    "config u = config t" "usage u \<le> usage t + charge_of t e" "lo1 @ hi1 = [] \<longrightarrow> lo2 @ hi2 = []"
    "sub_entries (handles t) (handles u)"
    using replace_old_ok [OF ev(2,3,10) hh ev(5-7) ti] by metis
  have cu: "config u = config s" using u(9) ct by simp
  have nonneg: "\<not> p_less ops (high_pri_pool_capacity u) 0" using pool_ok_nonneg pool_ok_config [OF cu] inv(4) by blast
  obtain w lo3 hi3 h' where w: "insert_pin ops e h want u = Some (if want then Some e else None, w)"
    "list_inv w lo3 hi3" "cache_inv w (set (lo3 @ hi3)) (set es')" "\<forall>a \<in> set es'. refs_of (handles w) a = 0"
    "other_state w = other_state u" "handles w e = Some h'" "InCache h'" "h_key h' = h_key h" "h_hash h' = h_hash h"
    "h_value h' = h_value h" "want \<longrightarrow> lo3 @ hi3 = lo2 @ hi2 \<and> h_refs h' = 1"
    "same_entries ((handles u)(e := None)) ((handles w)(e := None))"
    using insert_pin_ok [OF u(2,3,5-8) hh nonneg] by metis
  have cw: "config w = config s" using other_state_config [OF w(5)] cu by simp
  have uw: "usage w \<le> usage t + c" using u(10) other_state_D(2) [OF w(5)] ce by simp
  have full: "lo3 @ hi3 = []" if "usage w > capacity s"
  proof -
    have big: "usage t + c > capacity t" using that uw ct by (simp add: config_def)
    then have "want" using room by blast
    moreover have "lo1 @ hi1 = []" using ev(4,9) big by (auto simp: evicted_def config_def)
    ultimately show ?thesis using u(11) w(11) by simp
  qed
  obtain s' where s': "Free_all es' w = Some s'" "shard_ok ops s' lo3 hi3" "handles s' = handles w |` (- set es')"
    "config s' = config s" "usage s' = usage w"
    using free_rest [OF w(2,3) u(4) w(4) cw inv(4) full] .
  have "Insert ops e key hash val chg deleter want high s = Some (Status_OK, if want then Some e else None, s')"
    unfolding Insert_def h(1) [symmetric] Let_def h(2) [symmetric] ev(1)
    using room ti u(1) [unfolded ce] w(1) [unfolded insert_pin_def] s'(1) by (auto simp: Let_def)
  moreover have "sub_entries (handles s) ((handles s')(e := None))"
  proof -
    have "sub_entries (handles s) ((handles t)(e := None))" by (rule evicted_sub_entries [OF ev(4)])
    moreover have "sub_entries ((handles t)(e := None)) ((handles u)(e := None))" using u(12) by (auto simp: sub_entries_def)
    moreover note sub_entries_same [OF w(12)]
    moreover have "sub_entries ((handles w)(e := None)) ((handles s')(e := None))"
      unfolding s'(3) by (auto simp: sub_entries_def restrict_map_def)
    ultimately show ?thesis by (blast intro: sub_entries_trans)
  qed
  ultimately show ?thesis
    using that [of s' lo3 hi3 h'] s' w(6-11) uw u(6) by (simp add: h(1))
qed

end
