(* ===== verification/Lru_Trace.thy ===== *)
theory Lru_Trace
  imports Lru_Insert
begin

text \<open>
  Sequences of operations on a cache shard, under the contract of its clients: a handle is passed to
  \<^verbatim>\<open>Ref\<close> or \<^verbatim>\<open>Release\<close> only while the client holds a reference, and the allocator returns fresh
  addresses.  Every such sequence runs without a failed assertion, and the cache is coherent: a lookup
  returns nothing but the value inserted last.
\<close>

section \<open>Operations and their contract\<close>

datatype 'd cache_op =
    Op_Insert addr bytes u32 nat nat "nat option" bool bool
  | Op_Lookup bytes u32
  | Op_Ref addr
  | Op_Release addr bool
  | Op_Erase bytes u32
  | Op_SetCapacity nat
  | Op_SetStrictCapacityLimit bool
  | Op_SetHighPriorityPoolRatio 'd
  | Op_EraseUnRefEntries

fun exec :: "'d pool_ops \<Rightarrow> 'd cache_op \<Rightarrow> 'd LRUCacheShard \<Rightarrow> 'd LRUCacheShard option" where
  "exec ops (Op_Insert e key hash val charge deleter want_handle high) s =
     map_option (\<lambda>(_, _, s). s) (Insert ops e key hash val charge deleter want_handle high s)"
| "exec ops (Op_Lookup key hash) s = map_option snd (Lookup key hash s)"
| "exec ops (Op_Ref e) s = map_option snd (Ref e s)"
| "exec ops (Op_Release e force_erase) s = map_option snd (Release ops (Some e) force_erase s)"
| "exec ops (Op_Erase key hash) s = Erase key hash s"
| "exec ops (Op_SetCapacity cap) s = SetCapacity ops cap s"
| "exec ops (Op_SetStrictCapacityLimit strict) s = Some (SetStrictCapacityLimit strict s)"
| "exec ops (Op_SetHighPriorityPoolRatio ratio) s = SetHighPriorityPoolRatio ops ratio s"
| "exec ops Op_EraseUnRefEntries s = EraseUnRefEntries s"

definition held :: "addr \<Rightarrow> 'd LRUCacheShard \<Rightarrow> bool" where
  "held e s \<longleftrightarrow> (case handles s e of None \<Rightarrow> False | Some h \<Rightarrow> h_refs h > 0)"

fun permitted :: "'d pool_ops \<Rightarrow> 'd cache_op \<Rightarrow> 'd LRUCacheShard \<Rightarrow> bool" where
  "permitted ops (Op_Insert e key hash val charge deleter want_handle high) s \<longleftrightarrow> e \<noteq> lru \<and> handles s e = None"
| "permitted ops (Op_Ref e) s \<longleftrightarrow> held e s"
| "permitted ops (Op_Release e force_erase) s \<longleftrightarrow> held e s"
| "permitted ops (Op_SetHighPriorityPoolRatio ratio) s \<longleftrightarrow> nonneg_ratio ops ratio"
| "permitted ops _ s \<longleftrightarrow> True"

text \<open>The abstract contents: the value last stored under a key and hash.  An insertion that leaves its entry out of
  the cache stores nothing.\<close>

type_synonym contents = "bytes \<times> u32 \<rightharpoonup> nat"

fun store_op :: "'d cache_op \<Rightarrow> 'd LRUCacheShard \<Rightarrow> contents \<Rightarrow> contents" where
  "store_op (Op_Insert e key hash val charge deleter want_handle high) s M =
     (if handles s e = None then M else M((key, hash) \<mapsto> val))"
| "store_op (Op_Erase key hash) s M = M((key, hash) := None)"
| "store_op _ s M = M"

inductive shard_reachable :: "'d pool_ops \<Rightarrow> 'd LRUCacheShard \<Rightarrow> contents \<Rightarrow> bool" for ops where
  start: "nonneg_ratio ops ratio \<Longrightarrow> LRUCacheShard_new ops cap strict ratio full = Some s \<Longrightarrow>
    shard_reachable ops s Map.empty"
| step: "shard_reachable ops s M \<Longrightarrow> permitted ops op s \<Longrightarrow> exec ops op s = Some s' \<Longrightarrow>
    shard_reachable ops s' (store_op op s' M)"

inductive_cases shard_reachableE: "shard_reachable ops s M"

definition coherent :: "'d LRUCacheShard \<Rightarrow> contents \<Rightarrow> bool" where
  "coherent s M \<longleftrightarrow>
     (\<forall>a h. handles s a = Some h \<and> InCache h \<longrightarrow> M (h_key h, h_hash h) = Some (h_value h))"

section \<open>Every operation\<close>

lemma coherent_sub: "coherent s M \<Longrightarrow> sub_entries (handles s) (handles s') \<Longrightarrow> coherent s' M"
  unfolding coherent_def sub_entries_def same_data_def by metis

lemma held_D:
  assumes "held e s"
  obtains h where "handles s e = Some h" "h_refs h > 0"
  using assms by (auto simp: held_def split: option.splits)

lemma shard_ok_unique:
  assumes "shard_ok ops s lo hi" and "handles s a = Some h" "InCache h" "handles s b = Some g" "InCache g"
    and "h_key h = h_key g" "h_hash h = h_hash g"
  shows "a = b"
proof -
  note ci = shard_ok_D(2) [OF assms(1)]
  have "a \<in> table_set (lru_table s)" "b \<in> table_set (lru_table s)"
    using cache_inv_listed(2) [OF ci] assms(2-5) by blast+
  then show ?thesis
    using lru_table.tinv_unique [OF cache_inv_D(4) [OF ci]] assms by (simp add: matches_def h_key_of_def h_hash_of_def)
qed

lemma shard_ok_lookup:
  assumes "shard_ok ops s lo hi" and "handles s a = Some h" "InCache h"
  shows "Table_Lookup (handles s) (lru_table s) (h_key h) (h_hash h) = Some a"
proof -
  note ci = shard_ok_D(2) [OF assms(1)]
  have "a \<in> table_set (lru_table s)" using cache_inv_listed(2) [OF ci assms(2)] assms(3) by simp
  then show ?thesis
    using lru_table.lookup_self [OF cache_inv_D(4) [OF ci], of a] assms(2) by (simp add: h_key_of_def h_hash_of_def)
qed

lemma Lookup_hit:
  assumes ok: "shard_ok ops s lo hi" and "Lookup key hash s = Some (Some e, s')"
  obtains h h' where "handles s e = Some h" "InCache h" "h_key h = key" "h_hash h = hash"
    "handles s' e = Some h'" "h_value h' = h_value h" "h_key h' = key" "h_hash h' = hash"
proof -
  obtain e' where l: "Table_Lookup (handles s) (lru_table s) key hash = Some e'"
    using assms(2) Lookup_not_found [of s key hash] by (cases "Table_Lookup (handles s) (lru_table s) key hash") auto
  obtain t h where t: "Lookup key hash s = Some (Some e', t)" "handles s e' = Some h" "h_key h = key" "h_hash h = hash"
    "handles t = (handles s)(e' \<mapsto> SetHit (handle_Ref h))" using Lookup_found [OF ok l] by metis
  obtain g where "handles s e' = Some g" "InCache g" using Table_Lookup_handle [OF shard_ok_D(2) [OF ok] l] by metis
  moreover have "same_data h (SetHit (handle_Ref h))" by simp
  ultimately show ?thesis using that [of h "SetHit (handle_Ref h)"] t assms(2) by (simp add: same_data_def)
qed

text \<open>The three outcomes of an insertion.\<close>

lemma Insert_cases:
  assumes ok: "shard_ok ops s lo hi" and new: "handles s e = None" "e \<noteq> lru"
  obtains (refused) s' lo' hi' k where "want" "strict_capacity_limit s"
      "Insert ops e key hash val chg deleter want high s =
         Some (Status_Incomplete ''Insert failed due to LRU cache being full.'', None, s')"
      "shard_ok ops s' lo' hi'" "handles s' = handles s |` (- set (take k (lo @ hi)))" "lo' @ hi' = []"
      "config s' = config s"
  | (dropped) s' lo' hi' k where "\<not> want"
      "Insert ops e key hash val chg deleter want high s = Some (Status_OK, None, s')"
      "shard_ok ops s' lo' hi'" "handles s' = handles s |` (- set (take k (lo @ hi)))" "lo' @ hi' = []"
      "config s' = config s"
  | (inserted) s' lo' hi' h' where
      "Insert ops e key hash val chg deleter want high s = Some (Status_OK, if want then Some e else None, s')"
      "shard_ok ops s' lo' hi'" "handles s' e = Some h'" "InCache h'" "h_key h' = key" "h_hash h' = hash" "h_value h' = val"
      "config s' = config s" "sub_entries (handles s) ((handles s')(e := None))"
      "strict_capacity_limit s \<or> \<not> want \<longrightarrow> usage s' \<le> capacity s" "want \<longrightarrow> h_refs h' = 1"
proof -
  define h where "h = new_handle key hash val chg deleter high"
  define c where "c = total_charge (set_handle e h s) h"
  obtain k t lo1 hi1 where ev: "EvictFromLRU c [] (set_handle e h s) = Some (take k (lo @ hi), t)"
    "list_inv t lo1 hi1" "cache_inv t (set (lo1 @ hi1)) (insert e (set (take k (lo @ hi))))"
    "lo1 @ hi1 = drop k (lo @ hi)" "evicted c k (set_handle e h s) (lo @ hi) t" "e \<notin> set (take k (lo @ hi))"
    "distinct (take k (lo @ hi))" "\<forall>a \<in> set (take k (lo @ hi)). refs_of (handles t) a = 0" "handles t e = Some h"
    using Insert_evict [OF ok new] .
  have ct: "capacity t = capacity s" "strict_capacity_limit t = strict_capacity_limit s"
    using ev(5) by (simp_all add: evicted_def config_def)
  have nil: "lo1 @ hi1 = []" if "usage t + c > capacity t" using ev(4,5) that by (auto simp: evicted_def config_def)
  show ?thesis
  proof (cases "usage t + c > capacity t \<and> (strict_capacity_limit t \<or> \<not> want)")
    case False
    obtain s' lo' hi' h' where "Insert ops e key hash val chg deleter want high s =
        Some (Status_OK, if want then Some e else None, s')" "shard_ok ops s' lo' hi'"
      "handles s' e = Some h'" "InCache h'" "h_key h' = key" "h_hash h' = hash" "h_value h' = val"
      "config s' = config s" "usage s' \<le> usage t + c" "sub_entries (handles s) ((handles s')(e := None))"
      "want \<longrightarrow> h_refs h' = 1"
      using Insert_done [OF ok new ev(1,2,3,5,6,7,8) refl ev(4,9) h_def c_def False] .
    then show ?thesis using inserted False ct by auto
  next
    case True
    then have full: "usage t + c > capacity t" by simp
    show ?thesis
    proof (cases want)
      case w: True
      then have "strict_capacity_limit t" using True by simp
      from Insert_refused [OF ok new ev(1,2,3,5,6,7,8) refl ev(4) h_def c_def full this]
      show ?thesis using refused w nil [OF full] True ct by (metis (full_types))
    next
      case w: False
      from Insert_dropped [OF ok new ev(1,2,3,5,6,7,8) refl ev(4) h_def c_def full]
      show ?thesis using dropped w nil [OF full] by (metis (full_types))
    qed
  qed
qed

text \<open>An operation succeeds from a good and coherent state and leads to one; the only new entry is the one that an
  insertion brings.\<close>

fun brings :: "'d cache_op \<Rightarrow> 'd LRUCacheShard \<Rightarrow> 'd LRUCacheShard \<Rightarrow> bool" where
  "brings (Op_Insert e key hash val charge deleter want_handle high) s s' \<longleftrightarrow>
     sub_entries (handles s) ((handles s')(e := None)) \<and>
     (\<forall>h. handles s' e = Some h \<longrightarrow> h_key h = key \<and> h_hash h = hash)"
| "brings _ s s' \<longleftrightarrow> sub_entries (handles s) (handles s')"

definition runs_to :: "'d pool_ops \<Rightarrow> 'd cache_op \<Rightarrow> 'd LRUCacheShard \<Rightarrow> contents \<Rightarrow> bool" where
  "runs_to ops op s M \<longleftrightarrow>
     (\<exists>s'. exec ops op s = Some s' \<and> shard_inv ops s' \<and> (coherent s M \<longrightarrow> coherent s' (store_op op s' M)) \<and>
        brings op s s')"

lemma runs_toI:
  assumes "exec ops op s = Some s'" and "shard_ok ops s' lo hi" and "coherent s M \<Longrightarrow> coherent s' (store_op op s' M)"
    and "brings op s s'"
  shows "runs_to ops op s M"
  using assms by (auto simp: runs_to_def shard_inv_def)

lemma runs_Insert:
  assumes ok: "shard_ok ops s lo hi" and new: "handles s e = None" "e \<noteq> lru"
  shows "runs_to ops (Op_Insert e key hash val chg deleter want high) s M"
  using ok new
proof (cases rule: Insert_cases [where want = want and key = key and hash = hash and val = val and chg = chg
      and deleter = deleter and high = high])
  case (refused s' lo' hi' k)
  have e: "handles s' e = None" using refused(5) new(1) by (simp add: restrict_map_def)
  then have "sub_entries (handles s) ((handles s')(e := None))" using refused(5) by (simp add: fun_upd_idem)
  with e show ?thesis using refused(3,5)
    by (intro runs_toI [OF _ refused(4)]) (auto intro: coherent_sub)
next
  case (dropped s' lo' hi' k)
  have e: "handles s' e = None" using dropped(4) new(1) by (simp add: restrict_map_def)
  then have "sub_entries (handles s) ((handles s')(e := None))" using dropped(4) by (simp add: fun_upd_idem)
  with e show ?thesis using dropped(2,4)
    by (intro runs_toI [OF _ dropped(3)]) (auto intro: coherent_sub)
next
  case (inserted s' lo' hi' h')
  show ?thesis
  proof (rule runs_toI [OF _ inserted(2)])
    show "exec ops (Op_Insert e key hash val chg deleter want high) s = Some s'" using inserted(1) by simp
    assume coh: "coherent s M"
    have "(M((key, hash) \<mapsto> val)) (h_key g, h_hash g) = Some (h_value g)" if g: "handles s' a = Some g" "InCache g" for a g
    proof (cases "a = e")
      case True
      then show ?thesis using g inserted(3-7) by simp
    next
      case False
      then have "\<not> (h_key g = key \<and> h_hash g = hash)"
        using shard_ok_unique [OF inserted(2) g inserted(3,4)] inserted(5,6) by auto
      moreover obtain h where "handles s a = Some h" "InCache h" "h_key h = h_key g" "h_hash h = h_hash g" "h_value h = h_value g"
        using inserted(9) g False unfolding sub_entries_def same_data_def by (metis fun_upd_other)
      ultimately show ?thesis using coh unfolding coherent_def by (metis fun_upd_other prod.inject)
    qed
    then have "coherent s' (M((key, hash) \<mapsto> val))" unfolding coherent_def by blast
    then show "coherent s' (store_op (Op_Insert e key hash val chg deleter want high) s' M)"
      using inserted(3) by simp
  qed (use inserted(3,5,6,9) in simp)
qed

lemma runs_Lookup:
  assumes ok: "shard_ok ops s lo hi"
  shows "runs_to ops (Op_Lookup key hash) s M"
proof (cases "Table_Lookup (handles s) (lru_table s) key hash")
  case None
  then show ?thesis by (intro runs_toI [OF _ ok]) (simp_all add: Lookup_not_found)
next
  case (Some e)
  obtain s' h where l: "Lookup key hash s = Some (Some e, s')" "shard_ok ops s' (remove1 e lo) (remove1 e hi)"
    "handles s e = Some h" "handles s' = (handles s)(e \<mapsto> SetHit (handle_Ref h))"
    using Lookup_found [OF ok Some] by metis
  have "sub_entries (handles s) (handles s')"
    unfolding l(4) using sub_entries_upd [of "handles s" e h "SetHit (handle_Ref h)"] l(3) by simp
  then show ?thesis using l(1) by (intro runs_toI [OF _ l(2)]) (auto intro: coherent_sub)
qed

lemma runs_Ref:
  assumes ok: "shard_ok ops s lo hi" and h: "handles s e = Some h" "h_refs h > 0"
  shows "runs_to ops (Op_Ref e) s M"
proof -
  obtain s' where r: "Ref e s = Some (True, s')" "shard_ok ops s' lo hi" "handles s' = (handles s)(e \<mapsto> handle_Ref h)"
    using Ref_ok [OF ok h] .
  have "sub_entries (handles s) (handles s')"
    unfolding r(3) using sub_entries_upd [of "handles s" e h "handle_Ref h"] h(1) by simp
  then show ?thesis using r(1) by (intro runs_toI [OF _ r(2)]) (auto intro: coherent_sub)
qed

lemma runs_Release:
  assumes ok: "shard_ok ops s lo hi" and h: "handles s e = Some h" "h_refs h > 0"
  shows "runs_to ops (Op_Release e force) s M"
proof -
  have upd: "sub_entries (handles s) ((handles s)(e \<mapsto> h\<lparr>h_refs := n\<rparr>))" for n
    using sub_entries_upd [of "handles s" e h "h\<lparr>h_refs := n\<rparr>"] h(1) by simp
  consider (keep) "h_refs h > 1" | (free) "h_refs h = 1" "\<not> InCache h \<or> usage s > capacity s \<or> force"
    | (list) "h_refs h = 1" "InCache h" "usage s \<le> capacity s" "\<not> force" using h(2) by linarith
  then show ?thesis
  proof cases
    case keep
    obtain s' where r: "Release ops (Some e) force s = Some (False, s')" "shard_ok ops s' lo hi"
      "handles s' = (handles s)(e \<mapsto> h\<lparr>h_refs := h_refs h - 1\<rparr>)" using Release_keeps [OF ok h(1) keep] .
    show ?thesis using r(1) upd unfolding r(3) [symmetric] by (intro runs_toI [OF _ r(2)]) (auto intro: coherent_sub simp: r(3))
  next
    case free
    obtain s' where r: "Release ops (Some e) force s = Some (True, s')" "shard_ok ops s' lo hi"
      "handles s' = (handles s)(e := None)" using Release_frees [OF ok h(1) free] .
    show ?thesis using r(1,3) by (intro runs_toI [OF _ r(2)]) (auto intro: coherent_sub)
  next
    case list
    obtain s' lo' hi' where r: "Release ops (Some e) force s = Some (False, s')" "shard_ok ops s' lo' hi'"
      "same_entries ((handles s)(e \<mapsto> h\<lparr>h_refs := 0\<rparr>)) (handles s')" using Release_to_list [OF ok h(1) list] by metis
    have "sub_entries (handles s) (handles s')" using sub_entries_trans [OF upd sub_entries_same [OF r(3)]] .
    then show ?thesis using r(1) by (intro runs_toI [OF _ r(2)]) (auto intro: coherent_sub)
  qed
qed

text \<open>After \<^verbatim>\<open>Erase\<close> nothing is cached under the key.\<close>

lemma Erase_coherent:
  assumes ok: "shard_ok ops s lo hi" and sub: "sub_entries (handles s) (handles s')"
    and gone: "\<And>e. Table_Lookup (handles s) (lru_table s) key hash = Some e \<Longrightarrow> \<not> in_cache (handles s') e"
    and coh: "coherent s M"
  shows "coherent s' (M((key, hash) := None))"
  unfolding coherent_def
proof (intro allI impI)
  fix a g assume g: "handles s' a = Some g \<and> InCache g"
  obtain h where h: "handles s a = Some h" "InCache h" "h_key h = h_key g" "h_hash h = h_hash g" "h_value h = h_value g"
    using sub g unfolding sub_entries_def same_data_def by metis
  have "\<not> (h_key g = key \<and> h_hash g = hash)"
  proof
    assume "h_key g = key \<and> h_hash g = hash"
    then have "Table_Lookup (handles s) (lru_table s) key hash = Some a" using shard_ok_lookup [OF ok h(1,2)] h(3,4) by simp
    then show False using gone g by (auto simp: in_cache_def)
  qed
  moreover have "M (h_key g, h_hash g) = Some (h_value g)" using coh h unfolding coherent_def by metis
  ultimately show "(M((key, hash) := None)) (h_key g, h_hash g) = Some (h_value g)" by auto
qed

lemma runs_Erase:
  assumes ok: "shard_ok ops s lo hi"
  shows "runs_to ops (Op_Erase key hash) s M"
proof (cases "Table_Lookup (handles s) (lru_table s) key hash")
  case None
  have "Erase key hash s = Some s" using Erase_missing [OF ok None] by simp
  then show ?thesis using Erase_coherent [OF ok, of s key hash M] None by (intro runs_toI [OF _ ok]) simp_all
next
  case (Some e)
  obtain h where h: "handles s e = Some h" using Table_Lookup_handle [OF shard_ok_D(2) [OF ok] Some] by metis
  show ?thesis
  proof (cases "h_refs h = 0")
    case True
    obtain s' where r: "Erase key hash s = Some s'" "shard_ok ops s' (remove1 e lo) (remove1 e hi)"
      "handles s' = (handles s)(e := None)" using Erase_frees [OF ok Some h True] .
    show ?thesis using Erase_coherent [OF ok, of s' key hash M] r(1,3) Some
      by (intro runs_toI [OF _ r(2)]) (simp_all add: in_cache_def)
  next
    case False
    then have pos: "h_refs h > 0" by simp
    obtain s' where r: "Erase key hash s = Some s'" "shard_ok ops s' lo hi" "handles s' = (handles s)(e \<mapsto> SetInCache False h)"
      using Erase_pinned [OF ok Some h pos] .
    have "sub_entries (handles s) (handles s')"
      unfolding r(3) using sub_entries_upd [of "handles s" e h "SetInCache False h"] h by simp
    then show ?thesis using Erase_coherent [OF ok, of s' key hash M] r(1,3) Some
      by (intro runs_toI [OF _ r(2)]) (simp_all add: in_cache_def)
  qed
qed

lemma runs_permitted:
  assumes "shard_ok ops s lo hi" and "permitted ops op s"
  shows "runs_to ops op s M"
proof (cases op)
  case (Op_Ref e)
  then obtain h where "handles s e = Some h" "h_refs h > 0" using assms(2) held_D by auto
  then show ?thesis using runs_Ref [OF assms(1)] Op_Ref by simp
next
  case (Op_Release e force)
  then obtain h where "handles s e = Some h" "h_refs h > 0" using assms(2) held_D by auto
  then show ?thesis using runs_Release [OF assms(1)] Op_Release by simp
next
  case (Op_SetCapacity cap)
  have "shard_at s lo hi {}" "nonneg_ratio ops (high_pri_pool_ratio s)"
    using assms(1) by (simp_all add: shard_ok_def pool_ok_def)
  then obtain s' lo' hi' k where r: "SetCapacity ops cap s = Some s'" "shard_ok ops s' lo' hi'"
    "handles s' = handles s |` (- set (take k (lo @ hi)))" using SetCapacity_ok by metis
  then show ?thesis using Op_SetCapacity by (intro runs_toI [OF _ r(2)]) (auto intro: coherent_sub)
next
  case (Op_SetStrictCapacityLimit strict)
  have "list_inv (SetStrictCapacityLimit strict s) lo hi"
    by (rule list_inv_fields [OF shard_ok_D(1) [OF assms(1)]]) (simp_all add: SetStrictCapacityLimit_def)
  moreover have "cache_inv (SetStrictCapacityLimit strict s) (set (lo @ hi)) {}"
    by (rule cache_inv_cong [OF shard_ok_D(2) [OF assms(1)]])
      (simp_all add: SetStrictCapacityLimit_def charge_of_def total_charge_def)
  ultimately have ok: "shard_ok ops (SetStrictCapacityLimit strict s) lo hi"
    using assms(1) by (simp add: shard_ok_def shard_at_def pool_ok_def SetStrictCapacityLimit_def)
  then show ?thesis using Op_SetStrictCapacityLimit
    by (intro runs_toI [OF _ ok]) (simp_all add: coherent_def SetStrictCapacityLimit_def)
next
  case (Op_SetHighPriorityPoolRatio ratio)
  then have "nonneg_ratio ops ratio" using assms(2) by simp
  from SetHighPriorityPoolRatio_ok [OF assms(1) this] obtain s' k where
    r: "SetHighPriorityPoolRatio ops ratio s = Some s'" "shard_ok ops s' (lo @ take k hi) (drop k hi)"
      "same_entries (handles s) (handles s')" by metis
  then show ?thesis using Op_SetHighPriorityPoolRatio sub_entries_same [OF r(3)]
    by (intro runs_toI [OF _ r(2)]) (auto intro: coherent_sub)
next
  case Op_EraseUnRefEntries
  obtain s' where r: "EraseUnRefEntries s = Some s'" "shard_ok ops s' [] []" "handles s' = handles s |` (- set (lo @ hi))"
    using EraseUnRefEntries_ok [OF assms(1)] .
  then show ?thesis using Op_EraseUnRefEntries by (intro runs_toI [OF _ r(2)]) (auto intro: coherent_sub)
qed (use assms runs_Insert [OF assms(1)] runs_Lookup [OF assms(1)] runs_Erase [OF assms(1)] in auto)

lemma reachable_inv:
  assumes "shard_reachable ops s M"
  shows "shard_inv ops s \<and> coherent s M"
  using assms
proof (induction rule: shard_reachable.induct)
  case (start ratio cap strict full s)
  then show ?case using LRUCacheShard_new_ok [OF start(1), of cap strict full]
    by (metis coherent_def option.inject option.distinct(1) shard_inv_def)
next
  case (step s M op s')
  then obtain lo hi where "shard_ok ops s lo hi" by (auto simp: shard_inv_def)
  from runs_permitted [OF this step(2), of M] show ?case using step by (auto simp: runs_to_def)
qed

section \<open>A concrete shard\<close>

text \<open>An instance of the ratio arithmetic, with a shard of capacity 2 that holds one pinned entry.\<close>

definition nat_pool :: "nat pool_ops" where
  "nat_pool = \<lparr>p_zero = 0, p_times = (*), p_less = (<), p_positive = (\<lambda>r. r > 0)\<rparr>"

lemma nonneg_nat_pool [simp]: "nonneg_ratio nat_pool r"
  by (simp add: nonneg_ratio_def nat_pool_def)

definition demo_empty :: "nat LRUCacheShard" where
  "demo_empty = the (LRUCacheShard_new nat_pool 2 True 1 False)"

definition demo_pinned :: "nat LRUCacheShard" where
  "demo_pinned = the (exec nat_pool (Op_Insert 1 [7] 3 42 2 None True False) demo_empty)"

lemma demo_empty_reachable: "shard_reachable nat_pool demo_empty Map.empty" "handles demo_empty = Map.empty"
proof -
  obtain s where "LRUCacheShard_new nat_pool 2 True 1 False = Some s" "handles s = Map.empty"
    using LRUCacheShard_new_ok [OF nonneg_nat_pool, of 2 True 1 False] by metis
  then show "shard_reachable nat_pool demo_empty Map.empty" "handles demo_empty = Map.empty"
    using shard_reachable.start [OF nonneg_nat_pool] by (auto simp: demo_empty_def)
qed

lemma demo_pinned_run:
  "map_option (\<lambda>(st, h, s). (st, h)) (Insert nat_pool 1 [7] 3 42 2 None True False demo_empty) = Some (Status_OK, Some 1)"
  "map_option fst (Lookup [7] 3 demo_pinned) = Some (Some 1)"
  by code_simp+

end
