(* ===== verification/Lru_Properties.thy ===== *)
theory Lru_Properties
  imports Lru_Trace
begin

text \<open>
  What a cache shard promises: no operation fails, lookups are coherent with insertions and erasures,
  the usage counters are exact, eviction is oldest first and no more than needed, the strict limit holds.
  Also the one case in which an insertion that reports success leaves an older value in the cache.
\<close>

section \<open>Demonstration states\<close>

lemma demo_pinned_eq: "Insert nat_pool 1 [7] 3 42 2 None True False demo_empty = Some (Status_OK, Some 1, demo_pinned)"
  using demo_pinned_run(1) by (auto simp: demo_pinned_def)

lemma demo_pinned_reachable: "shard_reachable nat_pool demo_pinned (store_op (Op_Insert 1 [7] 3 42 2 None True False) demo_pinned Map.empty)"
  by (rule shard_reachable.step [OF demo_empty_reachable(1)])
    (use demo_empty_reachable(2) demo_pinned_eq in simp_all)

section \<open>No failure\<close>



section \<open>Coherence\<close>



section \<open>Usage\<close>



section \<open>Eviction\<close>



section \<open>Insertion\<close>

text \<open>C17: An insertion that hands out a handle under the strict limit leaves the usage within the capacity, and an
  immediate lookup of the key returns the same handle with the inserted value.\<close>

theorem lru_insert_then_lookup:
  assumes "shard_reachable ops s M" and "e \<noteq> 0" "handles s e = None"
    and "Insert ops e key hash val charge deleter True high s = Some (st, Some e', s')"
  shows "st = Status_OK \<and> e' = e \<and> (strict_capacity_limit s \<longrightarrow> usage s' \<le> capacity s') \<and>
    (\<exists>s'' h. Lookup key hash s' = Some (Some e, s'') \<and> handles s'' e = Some h \<and> h_value h = val \<and> h_refs h = 2)"
proof -
  obtain lo hi where ok: "shard_ok ops s lo hi" using reachable_inv [OF assms(1)] by (auto simp: shard_inv_def)
  show ?thesis
    using ok assms(3,2)
  proof (cases rule: Insert_cases [where want = True and key = key and hash = hash and val = val and chg = charge
        and deleter = deleter and high = high])
    case (inserted t lo' hi' h)
    then have s': "t = s'" "st = Status_OK" "e' = e" using assms(4) by simp_all
    note i = inserted(2-8) [unfolded s'(1)]
    obtain s'' g where l: "Lookup key hash s' = Some (Some e, s'')" "handles s' e = Some g"
      "handles s'' = (handles s')(e \<mapsto> SetHit (handle_Ref g))"
      using Lookup_found [OF i(1)] shard_ok_lookup [OF i(1-3)] i(4,5) by metis
    have "usage s' \<le> capacity s'" if "strict_capacity_limit s"
      using inserted(10) that s'(1) config_capacity [OF i(7)] by simp
    moreover have "h_value (SetHit (handle_Ref g)) = val \<and> h_refs (SetHit (handle_Ref g)) = 2"
      using l(2) i(2,6) inserted(11) by (simp add: SetHit_def handle_Ref_def)
    ultimately show ?thesis using s' l(1,3) by simp
  qed (use assms(4) in simp_all)
qed

theorem lru_insert_then_lookup_witness:
  "usage demo_pinned \<le> capacity demo_pinned \<and> (\<exists>s'' h. Lookup [7] 3 demo_pinned = Some (Some 1, s'') \<and>
     handles s'' 1 = Some h \<and> h_value h = 42 \<and> h_refs h = 2)"
proof -
  have st: "strict_capacity_limit demo_empty" by code_simp
  have h0: "handles demo_empty 1 = None" by (simp add: demo_empty_reachable(2))
  show ?thesis using lru_insert_then_lookup [OF demo_empty_reachable(1) _ h0 demo_pinned_eq] st by simp
qed


section \<open>Traversal\<close>

lemma apply_to_chain_ok:
  "\<forall>a \<in> set as. in_cache st a \<Longrightarrow> apply_to_chain st as = Some (map (\<lambda>a. (h_value (the (st a)), h_charge (the (st a)))) as)"
  by (induction as) (auto simp: in_cache_def)

lemma lru_size_loop_ok:
  assumes "links nx pv x xs lru" and "lru \<notin> set (x # xs)" and "lru_next s = nx"
  shows "lru_size_loop s x n = Some (n + Suc (length xs))"
  using assms
proof (induction xs arbitrary: x n)
  case Nil
  then show ?case by (subst lru_size_loop.simps, simp) (subst lru_size_loop.simps, simp)
next
  case (Cons y ys)
  then show ?case using Cons.IH [of y "n + 1"] by (subst lru_size_loop.simps) simp
qed



end
