(* ===== verification/Sharded_Cache.thy ===== *)
theory Sharded_Cache
  imports Lru_Trace
begin

text \<open>
  The block cache: \<^verbatim>\<open>ShardedCache\<close> of \<^verbatim>\<open>cache/sharded_cache.h/.cc\<close> over the shards of
  \<^verbatim>\<open>LRUCache\<close> (\<^verbatim>\<open>cache/lru_cache.cc\<close>).  A key is sent to the shard that the high bits of its hash
  select; the operations on a handle find the shard from the hash stored in it.  The 64-bit hash (the vendored
  XXH3) is an argument \<open>hash64\<close>: the theorems hold for every function.
\<close>

section \<open>The cache\<close>

record 'd LRUCache =
  num_shard_bits :: nat
  cache_capacity :: nat
  cache_strict_capacity_limit :: bool
  last_id :: u64
  shards :: "'d LRUCacheShard list"

definition HashSlice :: "(bytes \<Rightarrow> u64) \<Rightarrow> bytes \<Rightarrow> u32" where
  "HashSlice hash64 s = ucast (hash64 s)"

definition Shard :: "nat \<Rightarrow> u32 \<Rightarrow> nat" where
  "Shard bits hash = (if bits > 0 then unat (drop_bit (32 - bits) hash) else 0)"

definition per_shard :: "nat \<Rightarrow> nat \<Rightarrow> nat" where
  "per_shard cap bits = (let num_shards = 2 ^ bits in (cap + (num_shards - 1)) div num_shards)"

text \<open>A loop over the shards with an operation that may fail.\<close>

fun for_shards :: "('s \<Rightarrow> 's option) \<Rightarrow> 's list \<Rightarrow> 's list option" where
  "for_shards f [] = Some []"
| "for_shards f (s # ss) = do { s \<leftarrow> f s; ss \<leftarrow> for_shards f ss; Some (s # ss) }"

definition LRUCache_new :: "'d pool_ops \<Rightarrow> nat \<Rightarrow> nat \<Rightarrow> bool \<Rightarrow> 'd \<Rightarrow> bool \<Rightarrow> 'd LRUCache option" where
  "LRUCache_new ops cap bits strict ratio full = do {
     s \<leftarrow> LRUCacheShard_new ops (per_shard cap bits) strict ratio full;
     Some \<lparr>num_shard_bits = bits, cache_capacity = cap, cache_strict_capacity_limit = strict, last_id = 1,
           shards = replicate (2 ^ bits) s\<rparr>
   }"

fun shard_bits_loop :: "nat \<Rightarrow> nat \<Rightarrow> nat" where
  "shard_bits_loop num_shards bits =
     (let num_shards = num_shards div 2
      in if num_shards = 0 then bits
         else if bits + 1 \<ge> 6 then bits + 1 else shard_bits_loop num_shards (bits + 1))"

declare shard_bits_loop.simps [simp del]

definition GetDefaultCacheShardBits :: "nat \<Rightarrow> nat" where
  "GetDefaultCacheShardBits cap = shard_bits_loop (cap div (512 * 1024)) 0"

text \<open>\<^verbatim>\<open>NewLRUCache\<close>: None of the outer option is a failed construction, None of the inner one the null pointer.
  The test of the ratio against 0.0 and 1.0 is an argument.\<close>

definition NewLRUCache ::
  "'d pool_ops \<Rightarrow> ('d \<Rightarrow> bool) \<Rightarrow> nat \<Rightarrow> int \<Rightarrow> bool \<Rightarrow> 'd \<Rightarrow> bool \<Rightarrow> 'd LRUCache option option" where
  "NewLRUCache ops in_unit_interval cap bits strict ratio full =
     (if bits \<ge> 20 then Some None
      else if \<not> in_unit_interval ratio then Some None
      else (let bits = (if bits < 0 then int (GetDefaultCacheShardBits cap) else bits)
            in map_option Some (LRUCache_new ops cap (nat bits) strict ratio full)))"

definition set_shard :: "nat \<Rightarrow> 'd LRUCacheShard \<Rightarrow> 'd LRUCache \<Rightarrow> 'd LRUCache" where
  "set_shard i s c = c\<lparr>shards := (shards c)[i := s]\<rparr>"

definition Cache_SetCapacity :: "'d pool_ops \<Rightarrow> nat \<Rightarrow> 'd LRUCache \<Rightarrow> 'd LRUCache option" where
  "Cache_SetCapacity ops cap c = do {
     ss \<leftarrow> for_shards (SetCapacity ops (per_shard cap (num_shard_bits c))) (shards c);
     Some (c\<lparr>shards := ss, cache_capacity := cap\<rparr>)
   }"

definition Cache_SetStrictCapacityLimit :: "bool \<Rightarrow> 'd LRUCache \<Rightarrow> 'd LRUCache option" where
  "Cache_SetStrictCapacityLimit strict c = do {
     ss \<leftarrow> for_shards (\<lambda>s. Some (SetStrictCapacityLimit strict s)) (shards c);
     Some (c\<lparr>shards := ss, cache_strict_capacity_limit := strict\<rparr>)
   }"

definition Cache_Insert ::
  "'d pool_ops \<Rightarrow> (bytes \<Rightarrow> u64) \<Rightarrow> addr \<Rightarrow> bytes \<Rightarrow> nat \<Rightarrow> nat \<Rightarrow> nat option \<Rightarrow> bool \<Rightarrow> bool \<Rightarrow> 'd LRUCache \<Rightarrow>
     (Status \<times> addr option \<times> 'd LRUCache) option" where
  "Cache_Insert ops hash64 e key val charge deleter want_handle high c = do {
     let hash = HashSlice hash64 key;
     let i = Shard (num_shard_bits c) hash;
     (st, handle, s) \<leftarrow> Insert ops e key hash val charge deleter want_handle high (shards c ! i);
     Some (st, handle, set_shard i s c)
   }"

definition Cache_Lookup :: "(bytes \<Rightarrow> u64) \<Rightarrow> bytes \<Rightarrow> 'd LRUCache \<Rightarrow> (addr option \<times> 'd LRUCache) option" where
  "Cache_Lookup hash64 key c = do {
     let hash = HashSlice hash64 key;
     let i = Shard (num_shard_bits c) hash;
     (handle, s) \<leftarrow> Lookup key hash (shards c ! i);
     Some (handle, set_shard i s c)
   }"

text \<open>\<^verbatim>\<open>GetHash\<close>, \<^verbatim>\<open>Value\<close> and \<^verbatim>\<open>GetCharge\<close> read the entry through the handle, wherever it lives.\<close>

definition handle_entry :: "'d LRUCache \<Rightarrow> addr \<Rightarrow> LRUHandle option" where
  "handle_entry c e = do { s \<leftarrow> find (\<lambda>s. handles s e \<noteq> None) (shards c); handles s e }"

definition GetHash :: "'d LRUCache \<Rightarrow> addr \<Rightarrow> u32 option" where
  "GetHash c e = map_option h_hash (handle_entry c e)"

definition Cache_Value :: "'d LRUCache \<Rightarrow> addr \<Rightarrow> nat option" where
  "Cache_Value c e = map_option h_value (handle_entry c e)"

definition GetCharge :: "'d LRUCache \<Rightarrow> addr \<Rightarrow> nat option" where
  "GetCharge c e = map_option h_charge (handle_entry c e)"

definition Cache_Ref :: "addr \<Rightarrow> 'd LRUCache \<Rightarrow> (bool \<times> 'd LRUCache) option" where
  "Cache_Ref e c = do {
     hash \<leftarrow> GetHash c e;
     let i = Shard (num_shard_bits c) hash;
     (b, s) \<leftarrow> Ref e (shards c ! i);
     Some (b, set_shard i s c)
   }"

definition Cache_Release :: "'d pool_ops \<Rightarrow> addr \<Rightarrow> bool \<Rightarrow> 'd LRUCache \<Rightarrow> (bool \<times> 'd LRUCache) option" where
  "Cache_Release ops e force_erase c = do {
     hash \<leftarrow> GetHash c e;
     let i = Shard (num_shard_bits c) hash;
     (b, s) \<leftarrow> Release ops (Some e) force_erase (shards c ! i);
     Some (b, set_shard i s c)
   }"

definition Cache_Erase :: "(bytes \<Rightarrow> u64) \<Rightarrow> bytes \<Rightarrow> 'd LRUCache \<Rightarrow> 'd LRUCache option" where
  "Cache_Erase hash64 key c = do {
     let hash = HashSlice hash64 key;
     let i = Shard (num_shard_bits c) hash;
     s \<leftarrow> Erase key hash (shards c ! i);
     Some (set_shard i s c)
   }"

definition NewId :: "'d LRUCache \<Rightarrow> u64 \<times> 'd LRUCache" where
  "NewId c = (last_id c, c\<lparr>last_id := last_id c + 1\<rparr>)"

definition Cache_GetUsage :: "'d LRUCache \<Rightarrow> nat" where
  "Cache_GetUsage c = fold (\<lambda>s u. u + GetUsage s) (shards c) 0"

definition Cache_GetPinnedUsage :: "'d LRUCache \<Rightarrow> nat option" where
  "Cache_GetPinnedUsage c =
     fold (\<lambda>s u. do { u \<leftarrow> u; p \<leftarrow> GetPinnedUsage s; Some (u + p) }) (shards c) (Some 0)"

definition Cache_EraseUnRefEntries :: "'d LRUCache \<Rightarrow> 'd LRUCache option" where
  "Cache_EraseUnRefEntries c = do { ss \<leftarrow> for_shards EraseUnRefEntries (shards c); Some (c\<lparr>shards := ss\<rparr>) }"

definition Cache_TEST_GetLRUSize :: "'d LRUCache \<Rightarrow> nat option" where
  "Cache_TEST_GetLRUSize c =
     fold (\<lambda>s u. do { u \<leftarrow> u; n \<leftarrow> TEST_GetLRUSize s; Some (u + n) }) (shards c) (Some 0)"

section \<open>Client operations\<close>

datatype client_op =
    CInsert addr bytes nat nat "nat option" bool bool
  | CLookup bytes
  | CRef addr
  | CRelease addr bool
  | CErase bytes
  | CSetCapacity nat
  | CSetStrictCapacityLimit bool
  | CEraseUnRefEntries

fun cache_exec :: "'d pool_ops \<Rightarrow> (bytes \<Rightarrow> u64) \<Rightarrow> client_op \<Rightarrow> 'd LRUCache \<Rightarrow> 'd LRUCache option" where
  "cache_exec ops hash64 (CInsert e key val charge deleter want_handle high) c =
     map_option (\<lambda>(_, _, c). c) (Cache_Insert ops hash64 e key val charge deleter want_handle high c)"
| "cache_exec ops hash64 (CLookup key) c = map_option snd (Cache_Lookup hash64 key c)"
| "cache_exec ops hash64 (CRef e) c = map_option snd (Cache_Ref e c)"
| "cache_exec ops hash64 (CRelease e force_erase) c = map_option snd (Cache_Release ops e force_erase c)"
| "cache_exec ops hash64 (CErase key) c = Cache_Erase hash64 key c"
| "cache_exec ops hash64 (CSetCapacity cap) c = Cache_SetCapacity ops cap c"
| "cache_exec ops hash64 (CSetStrictCapacityLimit strict) c = Cache_SetStrictCapacityLimit strict c"
| "cache_exec ops hash64 CEraseUnRefEntries c = Cache_EraseUnRefEntries c"

definition cache_held :: "addr \<Rightarrow> 'd LRUCache \<Rightarrow> bool" where
  "cache_held e c \<longleftrightarrow> (case handle_entry c e of None \<Rightarrow> False | Some h \<Rightarrow> h_refs h > 0)"

fun cache_permitted :: "client_op \<Rightarrow> 'd LRUCache \<Rightarrow> bool" where
  "cache_permitted (CInsert e key val charge deleter want_handle high) c \<longleftrightarrow> e \<noteq> lru \<and> handle_entry c e = None"
| "cache_permitted (CRef e) c \<longleftrightarrow> cache_held e c"
| "cache_permitted (CRelease e force_erase) c \<longleftrightarrow> cache_held e c"
| "cache_permitted _ c \<longleftrightarrow> True"

fun cache_store :: "client_op \<Rightarrow> 'd LRUCache \<Rightarrow> (bytes \<rightharpoonup> nat) \<Rightarrow> (bytes \<rightharpoonup> nat)" where
  "cache_store (CInsert e key val charge deleter want_handle high) c M =
     (if handle_entry c e = None then M else M(key \<mapsto> val))"
| "cache_store (CErase key) c M = M(key := None)"
| "cache_store _ c M = M"

inductive cache_reachable :: "'d pool_ops \<Rightarrow> (bytes \<Rightarrow> u64) \<Rightarrow> 'd LRUCache \<Rightarrow> (bytes \<rightharpoonup> nat) \<Rightarrow> bool" for ops hash64 where
  start: "nonneg_ratio ops ratio \<Longrightarrow> bits \<le> 32 \<Longrightarrow> LRUCache_new ops cap bits strict ratio full = Some c \<Longrightarrow>
    cache_reachable ops hash64 c Map.empty"
| step: "cache_reachable ops hash64 c M \<Longrightarrow> cache_permitted op c \<Longrightarrow> cache_exec ops hash64 op c = Some c' \<Longrightarrow>
    cache_reachable ops hash64 c' (cache_store op c' M)"

section \<open>The invariant\<close>

definition lift_contents :: "(bytes \<Rightarrow> u64) \<Rightarrow> (bytes \<rightharpoonup> nat) \<Rightarrow> contents" where
  "lift_contents hash64 M = (\<lambda>(key, hash). if hash = HashSlice hash64 key then M key else None)"

text \<open>What holds of the shard at position \<open>i\<close>: every entry belongs there by its hash.\<close>

definition home_ok :: "'d pool_ops \<Rightarrow> (bytes \<Rightarrow> u64) \<Rightarrow> nat \<Rightarrow> (bytes \<rightharpoonup> nat) \<Rightarrow> nat \<Rightarrow> 'd LRUCacheShard \<Rightarrow> bool" where
  "home_ok ops hash64 bits M i s \<longleftrightarrow>
     shard_inv ops s \<and> coherent s (lift_contents hash64 M) \<and> (\<forall>a h. handles s a = Some h \<longrightarrow> Shard bits (h_hash h) = i)"

definition cache_ok :: "'d pool_ops \<Rightarrow> (bytes \<Rightarrow> u64) \<Rightarrow> (bytes \<rightharpoonup> nat) \<Rightarrow> 'd LRUCache \<Rightarrow> bool" where
  "cache_ok ops hash64 M c \<longleftrightarrow>
     num_shard_bits c \<le> 32 \<and> length (shards c) = 2 ^ num_shard_bits c \<and>
     (\<forall>i < length (shards c). home_ok ops hash64 (num_shard_bits c) M i (shards c ! i)) \<and>
     (\<forall>i < length (shards c). \<forall>j < length (shards c). \<forall>a.
        handles (shards c ! i) a \<noteq> None \<and> handles (shards c ! j) a \<noteq> None \<longrightarrow> i = j)"

lemma Shard_less: "bits \<le> 32 \<Longrightarrow> Shard bits hash < 2 ^ bits"
proof (cases "bits = 0")
  case False
  assume "bits \<le> 32"
  have "unat hash < 2 ^ 32" using unsigned_less [of hash, where 'a = nat] by simp
  also have "(2 :: nat) ^ 32 = 2 ^ bits * 2 ^ (32 - bits)" using \<open>bits \<le> 32\<close> by (simp flip: power_add)
  finally have "unat hash div 2 ^ (32 - bits) < 2 ^ bits" by (simp add: less_mult_imp_div_less)
  then show ?thesis using False by (simp add: Shard_def unat_drop_bit_div)
qed (simp add: Shard_def)

lemma cache_ok_unique:
  assumes "cache_ok ops hash64 M c" and "i < length (shards c)" "j < length (shards c)"
    and "handles (shards c ! i) a \<noteq> None" "handles (shards c ! j) a \<noteq> None"
  shows "i = j"
  using assms(1) [unfolded cache_ok_def, THEN conjunct2, THEN conjunct2, THEN conjunct2, rule_format, OF assms(2,3)] assms(4,5)
  by simp

lemma handle_entry_iff:
  assumes "cache_ok ops hash64 M c"
  shows "handle_entry c e = Some h \<longleftrightarrow> (\<exists>i < length (shards c). handles (shards c ! i) e = Some h)"
proof (cases "find (\<lambda>s. handles s e \<noteq> None) (shards c)")
  case None
  then have "\<forall>s \<in> set (shards c). handles s e = None" by (simp add: find_None_iff)
  moreover have "handle_entry c e = None" unfolding handle_entry_def None by simp
  ultimately show ?thesis by (metis nth_mem option.distinct(1))
next
  case (Some s)
  then obtain j where j: "j < length (shards c)" "handles (shards c ! j) e \<noteq> None" "s = shards c ! j"
    by (auto simp: find_Some_iff)
  have "i = j" if "i < length (shards c)" "handles (shards c ! i) e = Some h" for i
    using assms that j unfolding cache_ok_def by (metis option.distinct(1))
  moreover have "handle_entry c e = handles (shards c ! j) e" unfolding handle_entry_def Some using j(3) by simp
  ultimately show ?thesis using j(1) by auto
qed

lemma handle_entry_None:
  assumes "cache_ok ops hash64 M c"
  shows "handle_entry c e = None \<longleftrightarrow> (\<forall>i < length (shards c). handles (shards c ! i) e = None)"
  using handle_entry_iff [OF assms, of e] by (metis not_None_eq)

section \<open>Operations on one shard\<close>

lemma coherent_other:
  assumes "coherent s (lift_contents hash64 M)" and "\<And>a h. handles s a = Some h \<Longrightarrow> h_hash h = HashSlice hash64 key \<Longrightarrow> h_key h \<noteq> key"
  shows "coherent s (lift_contents hash64 (M(key := v)))"
  using assms unfolding coherent_def lift_contents_def by (auto split: if_splits)

text \<open>The contents after an operation on one shard.\<close>

lemma at_shard:
  assumes ok: "cache_ok ops hash64 M c" and i: "i < length (shards c)"
    and r: "exec ops op (shards c ! i) = Some s'" "shard_inv ops s'" "coherent s' (lift_contents hash64 M')"
      "\<And>a h. handles s' a = Some h \<Longrightarrow> (\<exists>g. handles (shards c ! i) a = Some g \<and> h_hash g = h_hash h) \<or>
         handle_entry c a = None \<and> Shard (num_shard_bits c) (h_hash h) = i"
    and M': "M' = M \<or> (\<exists>key v. M' = M(key := v) \<and> Shard (num_shard_bits c) (HashSlice hash64 key) = i)"
  shows "cache_ok ops hash64 M' (set_shard i s' c)"
proof -
  let ?b = "num_shard_bits c" and ?c = "set_shard i s' c"
  have home: "home_ok ops hash64 ?b M j (shards c ! j)" if "j < length (shards c)" for j
    using ok that by (simp add: cache_ok_def)
  have "home_ok ops hash64 ?b M' i s'"
    using r(2-4) home [OF i] unfolding home_ok_def by metis
  moreover have "home_ok ops hash64 ?b M' j (shards c ! j)" if j: "j < length (shards c)" "j \<noteq> i" for j
  proof (cases "M' = M")
    case False
    then obtain key v where M2: "M' = M(key := v)" "Shard ?b (HashSlice hash64 key) = i" using M' by blast
    have "coherent (shards c ! j) (lift_contents hash64 M')" unfolding M2(1)
      by (rule coherent_other) (use home [OF j(1)] j(2) M2(2) in \<open>unfold home_ok_def, metis+\<close>)
    then show ?thesis using home [OF j(1)] by (simp add: home_ok_def)
  qed (use home [OF j(1)] in simp)
  ultimately have "home_ok ops hash64 ?b M' j (shards ?c ! j)" if "j < length (shards c)" for j
    using that by (cases "j = i") (simp_all add: set_shard_def)
  moreover have "j = k" if "j < length (shards c)" "k < length (shards c)" "handles (shards ?c ! j) a \<noteq> None"
    "handles (shards ?c ! k) a \<noteq> None" for j k a
  proof -
    have old: "handles (shards c ! l) a \<noteq> None" if "handles (shards ?c ! l) a \<noteq> None" "l < length (shards c)" "handle_entry c a \<noteq> None" for l
      using that r(4) [of a] by (cases "l = i") (auto simp: set_shard_def)
    show ?thesis
    proof (cases "handle_entry c a = None")
      case True
      then have none: "\<forall>l < length (shards c). handles (shards c ! l) a = None" using handle_entry_None [OF ok] by simp
      have at: "shards ?c ! l = (if l = i then s' else shards c ! l)" if "l < length (shards c)" for l
        using that by (simp add: set_shard_def)
      have "j = i" "k = i" using that none at by metis+
      then show ?thesis by simp
    next
      case False
      then show ?thesis using cache_ok_unique [OF ok that(1,2)] old that by blast
    qed
  qed
  moreover have "num_shard_bits ?c = ?b" "length (shards ?c) = length (shards c)" by (simp_all add: set_shard_def)
  ultimately show ?thesis using ok unfolding cache_ok_def by metis
qed

lemma shard_runs:
  assumes ok: "cache_ok ops hash64 M c" and i: "i < length (shards c)" and p: "permitted ops op (shards c ! i)"
  obtains s' where "exec ops op (shards c ! i) = Some s'" "shard_inv ops s'"
    "coherent s' (store_op op s' (lift_contents hash64 M))" "brings op (shards c ! i) s'"
proof -
  have home: "home_ok ops hash64 (num_shard_bits c) M i (shards c ! i)" using ok i by (simp add: cache_ok_def)
  then obtain lo hi where "shard_ok ops (shards c ! i) lo hi" by (auto simp: home_ok_def shard_inv_def)
  from runs_permitted [OF this p, of "lift_contents hash64 M"] show ?thesis
    using that home by (auto simp: runs_to_def home_ok_def)
qed

lemma sub_entries_hash:
  "sub_entries st st' \<Longrightarrow> st' a = Some h \<Longrightarrow> \<exists>g. st a = Some g \<and> h_hash g = h_hash h"
  unfolding sub_entries_def same_data_def by blast

text \<open>An operation that stores nothing.\<close>

lemma plain_at_shard:
  assumes ok: "cache_ok ops hash64 M c" and i: "i < length (shards c)" and p: "permitted ops op (shards c ! i)"
    and plain: "\<And>s s' M. store_op op s M = M \<and> (brings op s s' \<longleftrightarrow> sub_entries (handles s) (handles s'))"
  obtains s' where "exec ops op (shards c ! i) = Some s'" "cache_ok ops hash64 M (set_shard i s' c)"
proof -
  obtain s' where r: "exec ops op (shards c ! i) = Some s'" "shard_inv ops s'"
    "coherent s' (store_op op s' (lift_contents hash64 M))" "brings op (shards c ! i) s'" using shard_runs [OF ok i p] .
  have "cache_ok ops hash64 M (set_shard i s' c)"
  proof (rule at_shard [OF ok i r(1,2)])
    show "coherent s' (lift_contents hash64 M)" using r(3) plain by simp
    have "sub_entries (handles (shards c ! i)) (handles s')" using r(4) plain by blast
    then show "(\<exists>g. handles (shards c ! i) a = Some g \<and> h_hash g = h_hash h) \<or>
        handle_entry c a = None \<and> Shard (num_shard_bits c) (h_hash h) = i" if "handles s' a = Some h" for a h
      using sub_entries_hash [of "handles (shards c ! i)" "handles s'" a h] that by blast
  qed simp
  then show ?thesis using that r(1) by blast
qed

definition cache_runs :: "'d pool_ops \<Rightarrow> (bytes \<Rightarrow> u64) \<Rightarrow> client_op \<Rightarrow> (bytes \<rightharpoonup> nat) \<Rightarrow> 'd LRUCache \<Rightarrow> bool" where
  "cache_runs ops hash64 op M c \<longleftrightarrow>
     (\<exists>c'. cache_exec ops hash64 op c = Some c' \<and> cache_ok ops hash64 (cache_store op c' M) c')"

lemma cache_ok_shard: "cache_ok ops hash64 M c \<Longrightarrow> Shard (num_shard_bits c) hash < length (shards c)"
  using Shard_less by (simp add: cache_ok_def)

lemma runs_CLookup:
  assumes ok: "cache_ok ops hash64 M c"
  shows "cache_runs ops hash64 (CLookup key) M c"
proof -
  let ?i = "Shard (num_shard_bits c) (HashSlice hash64 key)" and ?op = "Op_Lookup key (HashSlice hash64 key)"
  obtain s' where r: "exec ops ?op (shards c ! ?i) = Some s'" "cache_ok ops hash64 M (set_shard ?i s' c)"
    by (rule plain_at_shard [OF ok cache_ok_shard [OF ok], of ?op]) simp_all
  then show ?thesis by (auto simp: cache_runs_def Cache_Lookup_def Let_def)
qed

lemma held_shard:
  assumes ok: "cache_ok ops hash64 M c" and h: "cache_held e c"
  obtains hash i where "GetHash c e = Some hash" "Shard (num_shard_bits c) hash = i" "i < length (shards c)"
    "held e (shards c ! i)"
proof -
  obtain g where g: "handle_entry c e = Some g" "h_refs g > 0" using h by (auto simp: cache_held_def split: option.splits)
  then obtain i where i: "i < length (shards c)" "handles (shards c ! i) e = Some g" using handle_entry_iff [OF ok] by blast
  have "Shard (num_shard_bits c) (h_hash g) = i" using ok i by (simp add: cache_ok_def home_ok_def)
  then show ?thesis using that [of "h_hash g" i] g i by (simp add: GetHash_def held_def)
qed

lemma runs_CRef:
  assumes ok: "cache_ok ops hash64 M c" and h: "cache_held e c"
  shows "cache_runs ops hash64 (CRef e) M c"
proof -
  obtain hash i where hash: "GetHash c e = Some hash" and i: "Shard (num_shard_bits c) hash = i" "i < length (shards c)"
    "held e (shards c ! i)" using held_shard [OF ok h] .
  obtain s' where "exec ops (Op_Ref e) (shards c ! i) = Some s'" "cache_ok ops hash64 M (set_shard i s' c)"
    by (rule plain_at_shard [OF ok i(2), of "Op_Ref e"]) (use i(3) in simp_all)
  then show ?thesis using hash i(1) by (auto simp: cache_runs_def Cache_Ref_def Let_def)
qed

lemma runs_CRelease:
  assumes ok: "cache_ok ops hash64 M c" and h: "cache_held e c"
  shows "cache_runs ops hash64 (CRelease e force) M c"
proof -
  obtain hash i where hash: "GetHash c e = Some hash" and i: "Shard (num_shard_bits c) hash = i" "i < length (shards c)"
    "held e (shards c ! i)" using held_shard [OF ok h] .
  obtain s' where "exec ops (Op_Release e force) (shards c ! i) = Some s'" "cache_ok ops hash64 M (set_shard i s' c)"
    by (rule plain_at_shard [OF ok i(2), of "Op_Release e force"]) (use i(3) in simp_all)
  then show ?thesis using hash i(1) by (auto simp: cache_runs_def Cache_Release_def Let_def)
qed

lemma lift_contents_upd:
  "(lift_contents hash64 M)((key, HashSlice hash64 key) := v) = lift_contents hash64 (M(key := v))"
  by (auto simp: lift_contents_def fun_eq_iff)

lemma runs_CErase:
  assumes ok: "cache_ok ops hash64 M c"
  shows "cache_runs ops hash64 (CErase key) M c"
proof -
  let ?i = "Shard (num_shard_bits c) (HashSlice hash64 key)" and ?op = "Op_Erase key (HashSlice hash64 key)"
  note i = cache_ok_shard [OF ok, of "HashSlice hash64 key"]
  obtain s' where r: "exec ops ?op (shards c ! ?i) = Some s'" "shard_inv ops s'"
    "coherent s' (store_op ?op s' (lift_contents hash64 M))" "brings ?op (shards c ! ?i) s'"
    using shard_runs [OF ok i, of ?op] by auto
  have "cache_ok ops hash64 (M(key := None)) (set_shard ?i s' c)"
  proof (rule at_shard [OF ok i r(1,2)])
    show "coherent s' (lift_contents hash64 (M(key := None)))" using r(3) by (simp add: lift_contents_upd)
    show "(\<exists>g. handles (shards c ! ?i) a = Some g \<and> h_hash g = h_hash h) \<or>
        handle_entry c a = None \<and> Shard (num_shard_bits c) (h_hash h) = ?i" if "handles s' a = Some h" for a h
      using sub_entries_hash [of "handles (shards c ! ?i)" "handles s'" a h] that r(4) by simp
  qed blast
  then show ?thesis using r(1) by (auto simp: cache_runs_def Cache_Erase_def Let_def)
qed

lemma runs_CInsert:
  assumes ok: "cache_ok ops hash64 M c" and new: "e \<noteq> lru" "handle_entry c e = None"
  shows "cache_runs ops hash64 (CInsert e key val charge deleter want high) M c"
proof -
  let ?h = "HashSlice hash64 key"
  let ?i = "Shard (num_shard_bits c) ?h" and ?op = "Op_Insert e key ?h val charge deleter want high"
  note i = cache_ok_shard [OF ok, of ?h]
  have fresh: "\<forall>j < length (shards c). handles (shards c ! j) e = None" using handle_entry_None [OF ok] new(2) by simp
  obtain s' where r: "exec ops ?op (shards c ! ?i) = Some s'" "shard_inv ops s'"
    "coherent s' (store_op ?op s' (lift_contents hash64 M))" "brings ?op (shards c ! ?i) s'"
    using shard_runs [OF ok i, of ?op] new(1) fresh i by auto
  let ?c = "set_shard ?i s' c"
  let ?M = "if handles s' e = None then M else M(key \<mapsto> val)"
  have "cache_ok ops hash64 ?M ?c"
  proof (rule at_shard [OF ok i r(1,2)])
    show "coherent s' (lift_contents hash64 ?M)" using r(3) by (cases "handles s' e") (simp_all add: lift_contents_upd)
    show "(\<exists>g. handles (shards c ! ?i) a = Some g \<and> h_hash g = h_hash h) \<or>
        handle_entry c a = None \<and> Shard (num_shard_bits c) (h_hash h) = ?i" if h: "handles s' a = Some h" for a h
    proof (cases "a = e")
      case True then show ?thesis using r(4) h new(2) by simp
    next
      case False
      then have "((handles s')(e := None)) a = Some h" using h by simp
      then show ?thesis using sub_entries_hash [of "handles (shards c ! ?i)" "(handles s')(e := None)" a h] r(4) by simp
    qed
    show "?M = M \<or> (\<exists>k v. ?M = M(k := v) \<and> Shard (num_shard_bits c) (HashSlice hash64 k) = ?i)" by auto
  qed
  moreover have "handle_entry ?c e = None \<longleftrightarrow> handles s' e = None"
    using handle_entry_None [OF calculation, of e] fresh i by (auto simp: set_shard_def nth_list_update)
  ultimately have ok': "cache_ok ops hash64 (cache_store (CInsert e key val charge deleter want high) ?c M) ?c" by simp
  obtain st hd where "Insert ops e key ?h val charge deleter want high (shards c ! ?i) = Some (st, hd, s')"
    using r(1) by auto
  then have "cache_exec ops hash64 (CInsert e key val charge deleter want high) c = Some ?c"
    by (simp add: Cache_Insert_def Let_def)
  then show ?thesis using ok' by (auto simp: cache_runs_def)
qed

section \<open>Operations on all shards\<close>

lemma for_shards_ok:
  "\<forall>s \<in> set ss. \<exists>s'. f s = Some s' \<and> Q s s' \<Longrightarrow> \<exists>ss'. for_shards f ss = Some ss' \<and> list_all2 Q ss ss'"
proof (induction ss)
  case (Cons s ss)
  then obtain s' ss' where "f s = Some s'" "Q s s'" "for_shards f ss = Some ss'" "list_all2 Q ss ss'" by auto
  then show ?case by simp
qed simp

definition shard_kept :: "'d pool_ops \<Rightarrow> contents \<Rightarrow> 'd LRUCacheShard \<Rightarrow> 'd LRUCacheShard \<Rightarrow> bool" where
  "shard_kept ops C s s' \<longleftrightarrow> shard_inv ops s' \<and> coherent s' C \<and> sub_entries (handles s) (handles s')"

lemma cache_ok_all:
  assumes ok: "cache_ok ops hash64 M c" and all: "list_all2 (shard_kept ops (lift_contents hash64 M)) (shards c) (shards c')"
    and bits: "num_shard_bits c' = num_shard_bits c"
  shows "cache_ok ops hash64 M c'"
proof -
  have len: "length (shards c') = length (shards c)" using all by (simp add: list_all2_lengthD)
  have kept: "shard_kept ops (lift_contents hash64 M) (shards c ! i) (shards c' ! i)" if "i < length (shards c)" for i
    using all that by (simp add: list_all2_nthD)
  have old: "\<exists>g. handles (shards c ! i) a = Some g \<and> h_hash g = h_hash h" if "i < length (shards c)" "handles (shards c' ! i) a = Some h" for i a h
    using kept [OF that(1)] that(2) sub_entries_hash unfolding shard_kept_def by blast
  have "home_ok ops hash64 (num_shard_bits c) M i (shards c' ! i)" if "i < length (shards c)" for i
  proof -
    have "\<forall>a h. handles (shards c ! i) a = Some h \<longrightarrow> Shard (num_shard_bits c) (h_hash h) = i"
      using ok that by (simp add: cache_ok_def home_ok_def)
    then show ?thesis using kept [OF that] old [OF that] unfolding home_ok_def shard_kept_def by metis
  qed
  moreover have "i = j" if "i < length (shards c)" "j < length (shards c)" "handles (shards c' ! i) a \<noteq> None"
    "handles (shards c' ! j) a \<noteq> None" for i j a
  proof -
    have "handles (shards c ! i) a \<noteq> None" "handles (shards c ! j) a \<noteq> None" using that old by blast+
    then show ?thesis by (rule cache_ok_unique [OF ok that(1,2)])
  qed
  ultimately show ?thesis using ok len bits unfolding cache_ok_def by metis
qed

lemma all_shards_run:
  assumes ok: "cache_ok ops hash64 M c" and p: "\<And>s. permitted ops op s"
    and plain: "\<And>s s' M. store_op op s M = M \<and> (brings op s s' \<longleftrightarrow> sub_entries (handles s) (handles s'))"
  obtains ss where "for_shards (exec ops op) (shards c) = Some ss"
    "\<And>c'. shards c' = ss \<Longrightarrow> num_shard_bits c' = num_shard_bits c \<Longrightarrow> cache_ok ops hash64 M c'"
proof -
  have "\<forall>s \<in> set (shards c). \<exists>s'. exec ops op s = Some s' \<and> shard_kept ops (lift_contents hash64 M) s s'"
  proof
    fix s assume "s \<in> set (shards c)"
    then obtain i where i: "i < length (shards c)" "s = shards c ! i" by (auto simp: in_set_conv_nth)
    obtain s' where "exec ops op (shards c ! i) = Some s'" "shard_inv ops s'"
      "coherent s' (store_op op s' (lift_contents hash64 M))" "brings op (shards c ! i) s'" using shard_runs [OF ok i(1) p] .
    then show "\<exists>s'. exec ops op s = Some s' \<and> shard_kept ops (lift_contents hash64 M) s s'"
      using i(2) plain by (auto simp: shard_kept_def)
  qed
  from for_shards_ok [OF this] obtain ss where "for_shards (exec ops op) (shards c) = Some ss"
    "list_all2 (shard_kept ops (lift_contents hash64 M)) (shards c) ss" by blast
  then show ?thesis using that cache_ok_all [OF ok] by blast
qed

lemma runs_all:
  assumes ok: "cache_ok ops hash64 M c"
  shows "cache_runs ops hash64 (CSetCapacity cap) M c" "cache_runs ops hash64 (CSetStrictCapacityLimit strict) M c"
    "cache_runs ops hash64 CEraseUnRefEntries M c"
proof -
  let ?cap = "per_shard cap (num_shard_bits c)"
  have e: "exec ops (Op_SetCapacity ?cap) = SetCapacity ops ?cap"
    "exec ops (Op_SetStrictCapacityLimit strict) = (\<lambda>s. Some (SetStrictCapacityLimit strict s))"
    "exec ops Op_EraseUnRefEntries = EraseUnRefEntries" by (simp_all add: fun_eq_iff)
  show "cache_runs ops hash64 (CSetCapacity cap) M c"
    by (rule all_shards_run [OF ok, of "Op_SetCapacity ?cap"]) (auto simp: cache_runs_def Cache_SetCapacity_def e(1))
  show "cache_runs ops hash64 (CSetStrictCapacityLimit strict) M c"
    by (rule all_shards_run [OF ok, of "Op_SetStrictCapacityLimit strict"])
      (auto simp: cache_runs_def Cache_SetStrictCapacityLimit_def e(2))
  show "cache_runs ops hash64 CEraseUnRefEntries M c"
    by (rule all_shards_run [OF ok, of Op_EraseUnRefEntries]) (auto simp: cache_runs_def Cache_EraseUnRefEntries_def e(3))
qed

lemma cache_runs_permitted:
  assumes "cache_ok ops hash64 M c" and "cache_permitted op c"
  shows "cache_runs ops hash64 op M c"
  by (cases op) (use assms runs_CInsert [OF assms(1)] runs_CLookup [OF assms(1)] runs_CRef [OF assms(1)]
      runs_CRelease [OF assms(1)] runs_CErase [OF assms(1)] runs_all [OF assms(1)] in simp_all)

lemma LRUCache_new_ok:
  assumes "nonneg_ratio ops ratio" and "bits \<le> 32"
  obtains c where "LRUCache_new ops cap bits strict ratio full = Some c" "cache_ok ops hash64 Map.empty c" "num_shard_bits c = bits"
proof -
  obtain s where s: "LRUCacheShard_new ops (per_shard cap bits) strict ratio full = Some s" "shard_ok ops s [] []"
    "handles s = Map.empty" using LRUCacheShard_new_ok [OF assms(1), of "per_shard cap bits" strict full] .
  let ?c = "\<lparr>num_shard_bits = bits, cache_capacity = cap, cache_strict_capacity_limit = strict, last_id = 1,
           shards = replicate (2 ^ bits) s\<rparr>"
  have "home_ok ops hash64 bits Map.empty i s" for i using s(2,3) by (auto simp: home_ok_def shard_inv_def coherent_def)
  then have "cache_ok ops hash64 Map.empty ?c" using assms(2) s(3) by (simp add: cache_ok_def)
  then show ?thesis using that [of ?c] s(1) by (simp add: LRUCache_new_def)
qed

lemma cache_reachable_ok: "cache_reachable ops hash64 c M \<Longrightarrow> cache_ok ops hash64 M c"
proof (induction rule: cache_reachable.induct)
  case (start ratio bits cap strict full c)
  then show ?case using LRUCache_new_ok [OF start(1,2), of cap strict full hash64] by (metis option.inject)
next
  case (step c M op c')
  then show ?case using cache_runs_permitted [OF step.IH step(2)] by (auto simp: cache_runs_def)
qed

section \<open>Properties\<close>

definition demo_cache :: "nat LRUCache" where
  "demo_cache = the (LRUCache_new nat_pool 8 2 True 1 False)"

lemma demo_cache_reachable: "cache_reachable nat_pool hash64 demo_cache Map.empty" "handle_entry demo_cache e = None"
proof -
  obtain c where c: "LRUCache_new nat_pool 8 2 True 1 False = Some c"
    using LRUCache_new_ok [OF nonneg_nat_pool, of 2 8 True 1 False] by auto
  then show r: "cache_reachable nat_pool hash64 demo_cache Map.empty" for hash64
    using cache_reachable.start [OF nonneg_nat_pool, of 2 8 True 1 False] by (simp add: demo_cache_def)
  obtain s where "LRUCacheShard_new nat_pool (per_shard 8 2) True 1 False = Some s" "handles s = Map.empty"
    using LRUCacheShard_new_ok [OF nonneg_nat_pool, of "per_shard 8 2" True 1 False] by metis
  then have "shards demo_cache = replicate 4 s" using c by (auto simp: demo_cache_def LRUCache_new_def)
  then show "handle_entry demo_cache e = None"
    using handle_entry_None [OF cache_reachable_ok [OF r]] \<open>handles s = Map.empty\<close> by simp
qed




definition demo_filled :: "nat LRUCache" where
  "demo_filled = the (cache_exec nat_pool (\<lambda>_. 5) (CInsert 1 [7] 42 1 None True False) demo_cache)"


text \<open>The capacity is split evenly: the shards together have at least the requested capacity, and less than one
  unit per shard more; a default number of shards is at most 64, and shards of 512 KB each fit in
  the capacity unless there is one shard only.\<close>

theorem shard_capacity_split:
  "cap \<le> 2 ^ bits * per_shard cap bits \<and> 2 ^ bits * per_shard cap bits < cap + 2 ^ bits \<and>
   GetDefaultCacheShardBits cap \<le> 6 \<and>
   512 * 1024 * 2 ^ GetDefaultCacheShardBits cap \<le> max cap (512 * 1024)"
proof -
  let ?n = "2 ^ bits :: nat"
  have "?n * ((cap + (?n - 1)) div ?n) = cap + (?n - 1) - (cap + (?n - 1)) mod ?n" by (simp add: minus_mod_eq_mult_div)
  moreover have "(cap + (?n - 1)) mod ?n < ?n" by simp
  ultimately have split: "cap \<le> ?n * per_shard cap bits" "?n * per_shard cap bits < cap + ?n"
    unfolding per_shard_def Let_def by linarith+
  have loop: "b \<le> 5 \<Longrightarrow> shard_bits_loop n b \<le> 6 \<and> (0 < n \<longrightarrow> 2 ^ shard_bits_loop n b \<le> n * 2 ^ b)" for n b
  proof (induction n b rule: shard_bits_loop.induct)
    case (1 n b)
    show ?case
    proof (cases "n div 2 = 0 \<or> b + 1 \<ge> 6")
      case True
      then show ?thesis using 1(2) by (subst (1 2) shard_bits_loop.simps) (auto simp: Let_def)
    next
      case False
      then have "shard_bits_loop n b = shard_bits_loop (n div 2) (b + 1)" by (subst shard_bits_loop.simps) (simp add: Let_def)
      moreover have "n div 2 * 2 ^ (b + 1) \<le> n * 2 ^ b" by simp
      moreover have "shard_bits_loop (n div 2) (b + 1) \<le> 6 \<and> 2 ^ shard_bits_loop (n div 2) (b + 1) \<le> n div 2 * 2 ^ (b + 1)"
        using 1(1) [OF refl] False by simp
      ultimately show ?thesis by (metis le_trans)
    qed
  qed
  have "512 * 1024 * 2 ^ GetDefaultCacheShardBits cap \<le> cap" if "512 * 1024 \<le> cap"
  proof -
    have "0 < cap div (512 * 1024)" using that by (simp add: div_greater_zero_iff)
    then have "2 ^ GetDefaultCacheShardBits cap \<le> cap div (512 * 1024)"
      using loop [of 0 "cap div (512 * 1024)"] by (simp add: GetDefaultCacheShardBits_def)
    then have "512 * 1024 * 2 ^ GetDefaultCacheShardBits cap \<le> 512 * 1024 * (cap div (512 * 1024))" by simp
    also have "\<dots> \<le> cap" by simp
    finally show ?thesis .
  qed
  moreover have "512 * 1024 * 2 ^ GetDefaultCacheShardBits cap \<le> (512 * 1024 :: nat)" if "\<not> 512 * 1024 \<le> cap"
    using that by (simp add: GetDefaultCacheShardBits_def shard_bits_loop.simps)
  ultimately have "512 * 1024 * 2 ^ GetDefaultCacheShardBits cap \<le> max cap (512 * 1024)" by (cases "512 * 1024 \<le> cap") auto
  then show ?thesis using split loop [of 0] by (simp add: GetDefaultCacheShardBits_def)
qed

end
