(* ===== verification/Table_Format.thy ===== *)
theory Table_Format
  imports Coding Slice Status "HOL-Library.Monad_Syntax"
begin

text \<open>
  The fixed parts of a table file, \<^verbatim>\<open>table/format.h\<close> and \<^verbatim>\<open>table/format.cc\<close>: the handle of a block, the
  value of an index entry with its delta encoding, and the footer in its legacy and its versioned form, with the
  reader that fetches it from the end of a file.  A decoder returns the status, the decoded object and what is
  left of the input, as the C++ functions leave them; None is a failed \<^verbatim>\<open>assert\<close>.
\<close>

section \<open>Block handles\<close>

record BlockHandle =
  bh_offset :: u64
  bh_size :: u64

definition BlockHandle_new :: BlockHandle where
  "BlockHandle_new = \<lparr>bh_offset = NOT 0, bh_size = NOT 0\<rparr>"

definition kNullBlockHandle :: BlockHandle where
  "kNullBlockHandle = \<lparr>bh_offset = 0, bh_size = 0\<rparr>"

definition BlockHandle_IsNull :: "BlockHandle \<Rightarrow> bool" where
  "BlockHandle_IsNull h \<longleftrightarrow> bh_offset h = 0 \<and> bh_size h = 0"

definition kMaxEncodedLength :: nat where
  "kMaxEncodedLength = 10 + 10"

definition BlockHandle_EncodeTo :: "BlockHandle \<Rightarrow> bytes \<Rightarrow> bytes option" where
  "BlockHandle_EncodeTo h dst = do {
     assert (bh_offset h \<noteq> NOT 0);
     assert (bh_size h \<noteq> NOT 0);
     Some (PutVarint64Varint64 dst (bh_offset h) (bh_size h))
   }"

definition bad_block_handle :: Status where
  "bad_block_handle = Status_Corruption ''bad block handle''"

definition BlockHandle_DecodeFrom :: "bytes \<Rightarrow> Status \<times> BlockHandle \<times> bytes" where
  "BlockHandle_DecodeFrom input =
     (case GetVarint64 input of
        None \<Rightarrow> (bad_block_handle, \<lparr>bh_offset = 0, bh_size = 0\<rparr>, input)
      | Some (offset, input) \<Rightarrow>
          (case GetVarint64 input of
             None \<Rightarrow> (bad_block_handle, \<lparr>bh_offset = 0, bh_size = 0\<rparr>, input)
           | Some (sz, input) \<Rightarrow> (Status_OK, \<lparr>bh_offset = offset, bh_size = sz\<rparr>, input)))"

definition BlockHandle_DecodeSizeFrom :: "u64 \<Rightarrow> bytes \<Rightarrow> Status \<times> BlockHandle \<times> bytes" where
  "BlockHandle_DecodeSizeFrom offset input =
     (case GetVarint64 input of
        Some (sz, input) \<Rightarrow> (Status_OK, \<lparr>bh_offset = offset, bh_size = sz\<rparr>, input)
      | None \<Rightarrow> (bad_block_handle, \<lparr>bh_offset = 0, bh_size = 0\<rparr>, input))"

definition BlockHandle_ToString :: "bool \<Rightarrow> BlockHandle \<Rightarrow> bytes option" where
  "BlockHandle_ToString hex h = do {
     handle_str \<leftarrow> BlockHandle_EncodeTo h [];
     Some (if hex then Slice_ToString True handle_str else handle_str)
   }"

section \<open>Index values\<close>

record IndexValue =
  iv_handle :: BlockHandle
  iv_first_internal_key :: bytes

definition kBlockTrailerSize :: u64 where
  "kBlockTrailerSize = 5"

definition block_size :: "BlockHandle \<Rightarrow> u64" where
  "block_size h = bh_size h + kBlockTrailerSize"

definition IndexValue_EncodeTo :: "IndexValue \<Rightarrow> bytes \<Rightarrow> bool \<Rightarrow> BlockHandle option \<Rightarrow> bytes option" where
  "IndexValue_EncodeTo v dst have_first_key previous_handle = do {
     dst \<leftarrow> (case previous_handle of
               Some prev \<Rightarrow> do {
                 assert (bh_offset (iv_handle v) = bh_offset prev + bh_size prev + kBlockTrailerSize);
                 Some (PutVarsignedint64 dst (bh_size (iv_handle v) - bh_size prev))
               }
             | None \<Rightarrow> BlockHandle_EncodeTo (iv_handle v) dst);
     assert (length dst \<noteq> 0);
     Some (if have_first_key then PutLengthPrefixedSlice dst (iv_first_internal_key v) else dst)
   }"

text \<open>\<^verbatim>\<open>DecodeFrom\<close> overwrites the fields of an existing object, which keeps what a failure leaves undecoded.\<close>

definition IndexValue_DecodeFrom ::
  "IndexValue \<Rightarrow> bytes \<Rightarrow> bool \<Rightarrow> BlockHandle option \<Rightarrow> Status \<times> IndexValue \<times> bytes" where
  "IndexValue_DecodeFrom v input have_first_key previous_handle =
     (let (s, v, input) =
        (case previous_handle of
           Some prev \<Rightarrow>
             (case GetVarsignedint64 input of
                None \<Rightarrow> (Status_Corruption ''bad delta-encoded index value'', v, input)
              | Some (delta, input) \<Rightarrow>
                  (Status_OK, v\<lparr>iv_handle := \<lparr>bh_offset = bh_offset prev + bh_size prev + kBlockTrailerSize,
                                               bh_size = bh_size prev + delta\<rparr>\<rparr>, input))
         | None \<Rightarrow>
             (let (s, h, input) = BlockHandle_DecodeFrom input in (s, v\<lparr>iv_handle := h\<rparr>, input)))
      in if \<not> ok s then (s, v, input)
         else if \<not> have_first_key then (Status_OK, v\<lparr>iv_first_internal_key := []\<rparr>, input)
         else (case GetLengthPrefixedSlice input of
                 None \<Rightarrow> (Status_Corruption ''bad first key in block info'', v, input)
               | Some (key, input) \<Rightarrow> (Status_OK, v\<lparr>iv_first_internal_key := key\<rparr>, input)))"

definition IndexValue_ToString :: "bool \<Rightarrow> bool \<Rightarrow> IndexValue \<Rightarrow> bytes option" where
  "IndexValue_ToString hex have_first_key v = do {
     s \<leftarrow> IndexValue_EncodeTo v [] have_first_key None;
     Some (if hex then Slice_ToString True s else s)
   }"

section \<open>The footer\<close>

definition kLegacyBlockBasedTableMagicNumber :: u64 where
  "kLegacyBlockBasedTableMagicNumber = 0xdb4775248b80fb57"

definition kBlockBasedTableMagicNumber :: u64 where
  "kBlockBasedTableMagicNumber = 0x88e241b785f4cff7"

definition kLegacyPlainTableMagicNumber :: u64 where
  "kLegacyPlainTableMagicNumber = 0x4f3418eb7a8f13b8"

definition kPlainTableMagicNumber :: u64 where
  "kPlainTableMagicNumber = 0x8242229663bf9564"

definition kInvalidTableMagicNumber :: u64 where
  "kInvalidTableMagicNumber = 0"

definition kMagicNumberLengthByte :: nat where
  "kMagicNumberLengthByte = 8"

definition kVersion0EncodedLength :: nat where
  "kVersion0EncodedLength = 2 * kMaxEncodedLength + 8"

definition kNewVersionsEncodedLength :: nat where
  "kNewVersionsEncodedLength = 1 + 2 * kMaxEncodedLength + 4 + 8"

definition kCRC32c :: byte where
  "kCRC32c = 1"

record Footer =
  f_version :: u32
  f_checksum :: byte
  f_metaindex_handle :: BlockHandle
  f_index_handle :: BlockHandle
  f_table_magic_number :: u64

definition BlockBasedTableSupportedVersion :: "u32 \<Rightarrow> bool" where
  "BlockBasedTableSupportedVersion version \<longleftrightarrow> version \<le> 5"

definition IsLegacyFooterFormat :: "u64 \<Rightarrow> bool" where
  "IsLegacyFooterFormat magic \<longleftrightarrow>
     magic = kLegacyBlockBasedTableMagicNumber \<or> magic = kLegacyPlainTableMagicNumber"

definition UpconvertLegacyFooterFormat :: "u64 \<Rightarrow> u64 option" where
  "UpconvertLegacyFooterFormat magic =
     (if magic = kLegacyBlockBasedTableMagicNumber then Some kBlockBasedTableMagicNumber
      else if magic = kLegacyPlainTableMagicNumber then Some kPlainTableMagicNumber else None)"

definition HasInitializedTableMagicNumber :: "Footer \<Rightarrow> bool" where
  "HasInitializedTableMagicNumber f \<longleftrightarrow> f_table_magic_number f \<noteq> kInvalidTableMagicNumber"

definition Footer_new :: "u64 \<Rightarrow> u32 \<Rightarrow> Footer option" where
  "Footer_new magic version = do {
     assert (\<not> IsLegacyFooterFormat magic \<or> version = 0);
     Some \<lparr>f_version = version, f_checksum = kCRC32c, f_metaindex_handle = BlockHandle_new,
           f_index_handle = BlockHandle_new, f_table_magic_number = magic\<rparr>
   }"

text \<open>\<^verbatim>\<open>std::string::resize\<close>.\<close>

definition string_resize :: "nat \<Rightarrow> bytes \<Rightarrow> bytes" where
  "string_resize n s = take n s @ replicate (n - length s) 0"

definition put_magic :: "bytes \<Rightarrow> u64 \<Rightarrow> bytes" where
  "put_magic dst magic = PutFixed32 (PutFixed32 dst (ucast (magic AND 0xffffffff))) (ucast (drop_bit 32 magic))"

definition Footer_EncodeTo :: "Footer \<Rightarrow> bytes \<Rightarrow> bytes option" where
  "Footer_EncodeTo f dst = do {
     assert (HasInitializedTableMagicNumber f);
     let original_size = length dst;
     if IsLegacyFooterFormat (f_table_magic_number f) then do {
       assert (f_checksum f = kCRC32c);
       dst \<leftarrow> BlockHandle_EncodeTo (f_metaindex_handle f) dst;
       dst \<leftarrow> BlockHandle_EncodeTo (f_index_handle f) dst;
       let dst = string_resize (original_size + 2 * kMaxEncodedLength) dst;
       let dst = put_magic dst (f_table_magic_number f);
       assert (length dst = original_size + kVersion0EncodedLength);
       Some dst
     } else do {
       let dst = dst @ [f_checksum f];
       dst \<leftarrow> BlockHandle_EncodeTo (f_metaindex_handle f) dst;
       dst \<leftarrow> BlockHandle_EncodeTo (f_index_handle f) dst;
       let dst = string_resize (original_size + kNewVersionsEncodedLength - 12) dst;
       let dst = PutFixed32 dst (f_version f);
       let dst = put_magic dst (f_table_magic_number f);
       assert (length dst = original_size + kNewVersionsEncodedLength);
       Some dst
     }
   }"

text \<open>The end of \<^verbatim>\<open>Footer::DecodeFrom\<close>: the two handles; on success the rest of the input is skipped, as it ends
  with the magic number.\<close>

definition decode_handles :: "Footer \<Rightarrow> bytes \<Rightarrow> Status \<times> Footer \<times> bytes" where
  "decode_handles f input =
     (let (s, h, input) = BlockHandle_DecodeFrom input; f = f\<lparr>f_metaindex_handle := h\<rparr>
      in if ok s then
           (let (s, h, input) = BlockHandle_DecodeFrom input; f = f\<lparr>f_index_handle := h\<rparr>
            in (s, f, if ok s then [] else input))
         else (s, f, input))"

definition Footer_DecodeFrom :: "Footer \<Rightarrow> bytes \<Rightarrow> (Status \<times> Footer \<times> bytes) option" where
  "Footer_DecodeFrom f input = do {
     assert (\<not> HasInitializedTableMagicNumber f);
     assert (length input \<ge> kVersion0EncodedLength);
     let magic_ptr = length input - kMagicNumberLengthByte;
     let magic_lo = DecodeFixed32 (drop magic_ptr input);
     let magic_hi = DecodeFixed32 (drop (magic_ptr + 4) input);
     let magic = push_bit 32 (ucast magic_hi) OR ucast magic_lo;
     let legacy = IsLegacyFooterFormat magic;
     magic \<leftarrow> (if legacy then UpconvertLegacyFooterFormat magic else Some magic);
     let f = f\<lparr>f_table_magic_number := magic\<rparr>;
     if legacy then
       Some (decode_handles (f\<lparr>f_version := 0, f_checksum := kCRC32c\<rparr>)
               (Slice_remove_prefix input (length input - kVersion0EncodedLength)))
     else (let f = f\<lparr>f_version := DecodeFixed32 (drop (magic_ptr - 4) input)\<rparr>
           in if length input < kNewVersionsEncodedLength
              then Some (Status_Corruption ''input is too short to be an sstable'', f, input)
              else (let input = Slice_remove_prefix input (length input - kNewVersionsEncodedLength)
                    in case GetVarint32 input of
                         None \<Rightarrow> Some (Status_Corruption ''bad checksum type'', f, input)
                       | Some (chksum, input) \<Rightarrow> Some (decode_handles (f\<lparr>f_checksum := ucast chksum\<rparr>) input)))
   }"

text \<open>Decimal numbers, as \<^verbatim>\<open>ToString\<close> prints them.\<close>

fun decimal :: "nat \<Rightarrow> string" where
  "decimal n = (if n < 10 then [char_of (48 + n)] else decimal (n div 10) @ [char_of (48 + n mod 10)])"

declare decimal.simps [simp del]

text \<open>\<^verbatim>\<open>ReadFooterFromFile\<close>.  The file reader and the prefetch buffer are arguments: \<open>read\<close> gives the status
  and the bytes of a read at an offset, \<open>prefetch\<close> the cached bytes if there is a buffer that holds them.\<close>

definition ReadFooterFromFile ::
  "(nat \<Rightarrow> nat \<Rightarrow> Status \<times> bytes) \<Rightarrow> (nat \<Rightarrow> nat \<Rightarrow> bytes option) option \<Rightarrow> string \<Rightarrow> nat \<Rightarrow> Footer \<Rightarrow> u64 \<Rightarrow>
     (Status \<times> Footer) option" where
  "ReadFooterFromFile read prefetch file_name file_size footer enforce_magic =
     (if file_size < kVersion0EncodedLength
      then Some (Status_Corruption (''file is too short ('' @ decimal file_size @ '' bytes) to be an sstable: '' @ file_name), footer)
      else
        (let read_offset = (if file_size > kNewVersionsEncodedLength then file_size - kNewVersionsEncodedLength else 0);
             (s, footer_input) =
               (case (case prefetch of None \<Rightarrow> None | Some p \<Rightarrow> p read_offset kNewVersionsEncodedLength) of
                  Some cached \<Rightarrow> (Status_OK, cached)
                | None \<Rightarrow> read read_offset kNewVersionsEncodedLength)
         in if \<not> ok s then Some (s, footer)
            else if length footer_input < kVersion0EncodedLength
            then Some (Status_Corruption (''file is too short ('' @ decimal file_size @ '' bytes) to be an sstable'' @ file_name), footer)
            else do {
              (s, footer, rest) \<leftarrow> Footer_DecodeFrom footer footer_input;
              Some (if \<not> ok s then s
                    else if enforce_magic \<noteq> 0 \<and> enforce_magic \<noteq> f_table_magic_number footer
                    then Status_Corruption (''Bad table magic number: expected '' @ decimal (unat enforce_magic) @
                           '', found '' @ decimal (unat (f_table_magic_number footer)) @ '' in '' @ file_name)
                    else Status_OK, footer)
            }))"

section \<open>Handles and index values\<close>

lemma ok_simps [simp]: "ok Status_OK" "\<not> ok (Status_Corruption msg)"
  by (simp_all add: ok_def Status_OK_def Status_Corruption_def Status_of_message_def)

definition encoded_handle :: "BlockHandle \<Rightarrow> bytes" where
  "encoded_handle h = EncodeVarint64 (bh_offset h) @ EncodeVarint64 (bh_size h)"

definition handle_set :: "BlockHandle \<Rightarrow> bool" where
  "handle_set h \<longleftrightarrow> bh_offset h \<noteq> NOT 0 \<and> bh_size h \<noteq> NOT 0"

lemma BlockHandle_EncodeTo_eq: "handle_set h \<Longrightarrow> BlockHandle_EncodeTo h dst = Some (dst @ encoded_handle h)"
  by (simp add: BlockHandle_EncodeTo_def handle_set_def encoded_handle_def PutVarint64Varint64_def)

lemma BlockHandle_DecodeFrom_encoded: "BlockHandle_DecodeFrom (encoded_handle h @ rest) = (Status_OK, h, rest)"
  by (simp add: BlockHandle_DecodeFrom_def encoded_handle_def GetVarint64_Encode)

lemma length_EncodeVarint64: "length (EncodeVarint64 v) \<le> 10"
proof -
  have "drop_bit (7 * 10) v = 0" by (rule bit_word_eqI) (auto simp: bit_simps dest: bit_imp_le_length)
  then show ?thesis by (rule length_EncodeVarint64_le) simp
qed

lemma length_encoded_handle: "length (encoded_handle h) \<le> kMaxEncodedLength"
  using length_EncodeVarint64 [of "bh_offset h"] length_EncodeVarint64 [of "bh_size h"]
  by (simp add: encoded_handle_def kMaxEncodedLength_def)

text \<open>C23: An index value reads back as it was written, plain or as a delta to the handle of the previous block, with or
  without the first key, and whatever follows it; the decoder's target may hold anything before.\<close>

theorem index_value_roundtrip:
  assumes "case prev of
      None \<Rightarrow> bh_offset (iv_handle v) \<noteq> NOT 0 \<and> bh_size (iv_handle v) \<noteq> NOT 0
    | Some p \<Rightarrow> bh_offset (iv_handle v) = bh_offset p + bh_size p + kBlockTrailerSize"
    and "length (iv_first_internal_key v) < 2 ^ 32"
  shows "\<exists>enc. IndexValue_EncodeTo v [] have_first_key prev = Some enc \<and>
    IndexValue_DecodeFrom w (enc @ rest) have_first_key prev =
      (Status_OK, if have_first_key then v else v\<lparr>iv_first_internal_key := []\<rparr>, rest)"
proof -
  define hb where "hb = (case prev of None \<Rightarrow> encoded_handle (iv_handle v)
     | Some p \<Rightarrow> EncodeVarint64 (i64ToZigzag (bh_size (iv_handle v) - bh_size p)))"
  define kb where "kb = (if have_first_key then PutLengthPrefixedSlice [] (iv_first_internal_key v) else [])"
  have ne: "EncodeVarint64 x \<noteq> []" for x by (subst EncodeVarint64.simps) simp
  then have "hb \<noteq> []" by (simp add: hb_def encoded_handle_def split: option.split)
  then have enc: "IndexValue_EncodeTo v [] have_first_key prev = Some (hb @ kb)"
    using assms(1) BlockHandle_EncodeTo_eq [of "iv_handle v" "[]"]
    by (auto simp: IndexValue_EncodeTo_def hb_def kb_def handle_set_def PutVarsignedint64_def PutLengthPrefixedSlice_def
        PutVarint32_def split: option.splits)
  have key: "GetLengthPrefixedSlice (PutLengthPrefixedSlice [] (iv_first_internal_key v) @ rest) =
      Some (iv_first_internal_key v, rest)" by (rule GetLengthPrefixedSlice_Put [OF assms(2)])
  have "IndexValue_DecodeFrom w ((hb @ kb) @ rest) have_first_key prev =
      (Status_OK, if have_first_key then v else v\<lparr>iv_first_internal_key := []\<rparr>, rest)"
  proof (cases prev)
    case None
    then show ?thesis using key BlockHandle_DecodeFrom_encoded [of "iv_handle v"]
      by (cases v) (simp add: IndexValue_DecodeFrom_def hb_def kb_def)
  next
    case (Some p)
    then show ?thesis using key assms(1) GetVarsignedint64_Encode [of "bh_size (iv_handle v) - bh_size p"]
      by (cases v; cases "iv_handle v") (simp add: IndexValue_DecodeFrom_def hb_def kb_def)
  qed
  then show ?thesis using enc by blast
qed

theorem index_value_roundtrip_witness:
  "\<exists>enc. IndexValue_EncodeTo \<lparr>iv_handle = \<lparr>bh_offset = 115, bh_size = 70\<rparr>, iv_first_internal_key = [1, 2]\<rparr> [] True
       (Some \<lparr>bh_offset = 10, bh_size = 100\<rparr>) = Some enc \<and>
    IndexValue_DecodeFrom \<lparr>iv_handle = kNullBlockHandle, iv_first_internal_key = []\<rparr> (enc @ [9]) True (Some \<lparr>bh_offset = 10, bh_size = 100\<rparr>) =
      (Status_OK, \<lparr>iv_handle = \<lparr>bh_offset = 115, bh_size = 70\<rparr>, iv_first_internal_key = [1, 2]\<rparr>, [9])"
  using index_value_roundtrip [where prev = "Some \<lparr>bh_offset = 10, bh_size = 100\<rparr>" and have_first_key = True
      and v = "\<lparr>iv_handle = \<lparr>bh_offset = 115, bh_size = 70\<rparr>, iv_first_internal_key = [1, 2]\<rparr>"
      and w = "\<lparr>iv_handle = kNullBlockHandle, iv_first_internal_key = []\<rparr>" and rest = "[9]"]
  by (simp add: kBlockTrailerSize_def)

section \<open>The footer\<close>

lemma magic_halves:
  fixes m :: u64
  shows "push_bit 32 (ucast (ucast (drop_bit 32 m) :: u32)) OR ucast (ucast (m AND 0xffffffff) :: u32) = m"
  by (rule bit_word_eqI) (auto simp: word_norm bit_simps not_less)

lemma put_magic_eq: "put_magic dst m = dst @ EncodeFixed32 (ucast (m AND 0xffffffff)) @ EncodeFixed32 (ucast (drop_bit 32 m))"
  by (simp add: put_magic_def PutFixed32_def)

lemma string_resize_pad: "length dst + length b \<le> n \<Longrightarrow> string_resize n (dst @ b) = dst @ b @ replicate (n - length dst - length b) 0"
  by (simp add: string_resize_def)

lemma decode_handles_encoded:
  "decode_handles f (encoded_handle m @ encoded_handle i @ rest) =
     (Status_OK, f\<lparr>f_metaindex_handle := m, f_index_handle := i\<rparr>, [])"
  by (simp add: decode_handles_def BlockHandle_DecodeFrom_encoded)

lemmas footer_lengths = kVersion0EncodedLength_def kNewVersionsEncodedLength_def kMaxEncodedLength_def kMagicNumberLengthByte_def

definition handles_bytes :: "Footer \<Rightarrow> bytes" where
  "handles_bytes f = encoded_handle (f_metaindex_handle f) @ encoded_handle (f_index_handle f)"

definition footer_bytes :: "Footer \<Rightarrow> bytes" where
  "footer_bytes f =
     (let b = handles_bytes f; m = f_table_magic_number f;
          magic = EncodeFixed32 (ucast (m AND 0xffffffff)) @ EncodeFixed32 (ucast (drop_bit 32 m))
      in if IsLegacyFooterFormat m then b @ replicate (40 - length b) 0 @ magic
         else f_checksum f # b @ replicate (40 - length b) 0 @ EncodeFixed32 (f_version f) @ magic)"

definition footer_ok :: "Footer \<Rightarrow> bool" where
  "footer_ok f \<longleftrightarrow>
     HasInitializedTableMagicNumber f \<and> handle_set (f_metaindex_handle f) \<and> handle_set (f_index_handle f) \<and>
     (if IsLegacyFooterFormat (f_table_magic_number f) then f_checksum f = kCRC32c \<and> f_version f = 0 else f_checksum f < 128)"

lemma length_handles_bytes: "length (handles_bytes f) \<le> 40"
  using length_encoded_handle [of "f_metaindex_handle f"] length_encoded_handle [of "f_index_handle f"]
  by (simp add: handles_bytes_def kMaxEncodedLength_def)

lemma length_footer_bytes:
  "length (footer_bytes f) = (if IsLegacyFooterFormat (f_table_magic_number f) then 48 else 53)"
  using length_handles_bytes [of f] by (simp add: footer_bytes_def Let_def)

lemma Footer_EncodeTo_eq:
  assumes "footer_ok f"
  shows "Footer_EncodeTo f dst = Some (dst @ footer_bytes f)"
proof -
  note hs = length_handles_bytes [of f]
  have enc: "BlockHandle_EncodeTo (f_metaindex_handle f) d = Some (d @ encoded_handle (f_metaindex_handle f))"
    "BlockHandle_EncodeTo (f_index_handle f) d = Some (d @ encoded_handle (f_index_handle f))" for d
    using assms by (simp_all add: footer_ok_def BlockHandle_EncodeTo_eq)
  show ?thesis
  proof (cases "IsLegacyFooterFormat (f_table_magic_number f)")
    case True
    have "string_resize (length dst + 40) (dst @ handles_bytes f) = dst @ handles_bytes f @ replicate (40 - length (handles_bytes f)) 0"
      using string_resize_pad [of dst "handles_bytes f" "length dst + 40"] hs by simp
    then show ?thesis using True assms hs
      by (simp add: Footer_EncodeTo_def enc footer_ok_def footer_bytes_def footer_lengths Let_def put_magic_eq handles_bytes_def)
  next
    case False
    have "string_resize (41 + length dst) ((dst @ [f_checksum f]) @ handles_bytes f) =
        (dst @ [f_checksum f]) @ handles_bytes f @ replicate (40 - length (handles_bytes f)) 0"
      using string_resize_pad [of "dst @ [f_checksum f]" "handles_bytes f" "41 + length dst"] hs by simp
    then show ?thesis using False assms hs
      by (simp add: Footer_EncodeTo_def enc footer_ok_def footer_bytes_def footer_lengths Let_def put_magic_eq handles_bytes_def
          PutFixed32_def)
  qed
qed

text \<open>What a reader sees: the legacy formats are read as the current ones.\<close>

definition footer_read :: "Footer \<Rightarrow> Footer" where
  "footer_read f =
     (if IsLegacyFooterFormat (f_table_magic_number f)
      then f\<lparr>f_table_magic_number := the (UpconvertLegacyFooterFormat (f_table_magic_number f))\<rparr> else f)"

lemma footer_tail:
  obtains p where "footer_bytes f = p @ EncodeFixed32 (ucast (f_table_magic_number f AND 0xffffffff)) @
      EncodeFixed32 (ucast (drop_bit 32 (f_table_magic_number f)))"
    "length p + 8 = length (footer_bytes f)"
  by (cases "IsLegacyFooterFormat (f_table_magic_number f)") (force simp: footer_bytes_def Let_def)+

lemma GetVarint32_byte: "(c :: byte) < 128 \<Longrightarrow> GetVarint32 (c # rest) = Some (ucast c, rest)"
proof -
  assume "c < 128"
  then have "\<not> bit c 7" using word_less_128_iff [of c] by (simp add: bit_iff_odd_drop_bit)
  then have "(ucast c :: u32) AND 128 = 0" using and_128_eq_0_iff [where 'a = 32, of "ucast c"] by (simp add: bit_ucast_iff)
  then show ?thesis by (simp add: GetVarint32_def GetVarint32Ptr_def Let_def)
qed

lemma Footer_DecodeFrom_footer:
  assumes ok: "footer_ok f" and g: "\<not> HasInitializedTableMagicNumber g"
  shows "Footer_DecodeFrom g (pre @ footer_bytes f) = Some (Status_OK, footer_read f, [])"
proof -
  let ?m = "f_table_magic_number f" and ?in = "pre @ footer_bytes f"
  obtain p where p: "footer_bytes f = p @ EncodeFixed32 (ucast (?m AND 0xffffffff)) @ EncodeFixed32 (ucast (drop_bit 32 ?m))"
    "length p + 8 = length (footer_bytes f)" using footer_tail .
  have lo: "DecodeFixed32 (drop (length ?in - 8) ?in) = ucast (?m AND 0xffffffff)"
    using p DecodeFixed32_Encode by simp
  have "length ?in - 8 + 4 = length (pre @ p @ EncodeFixed32 (ucast (?m AND 0xffffffff)))" using p(2) by simp
  then have hi: "DecodeFixed32 (drop (length ?in - 8 + 4) ?in) = ucast (drop_bit 32 ?m)"
    using p(1) DecodeFixed32_Encode [of "ucast (drop_bit 32 ?m)" "[]"] by simp
  note magic = magic_halves [of ?m]
  have len: "length (footer_bytes f) = (if IsLegacyFooterFormat ?m then 48 else 53)" by (rule length_footer_bytes)
  have big: "48 \<le> length ?in" using len by (simp split: if_splits)
  show ?thesis
  proof (cases "IsLegacyFooterFormat ?m")
    case True
    then have "UpconvertLegacyFooterFormat ?m \<noteq> None"
      by (auto simp: IsLegacyFooterFormat_def UpconvertLegacyFooterFormat_def)
    then obtain m' where m': "UpconvertLegacyFooterFormat ?m = Some m'" by blast
    have rm: "Slice_remove_prefix ?in (length ?in - 48) = footer_bytes f" using len True by (simp add: Slice_remove_prefix_def)
    obtain rest where b: "footer_bytes f = encoded_handle (f_metaindex_handle f) @ encoded_handle (f_index_handle f) @ rest"
      using True by (simp add: footer_bytes_def handles_bytes_def Let_def)
    have dec: "decode_handles f' (footer_bytes f) =
        (Status_OK, f'\<lparr>f_metaindex_handle := f_metaindex_handle f, f_index_handle := f_index_handle f\<rparr>, [])" for f'
      unfolding b by (rule decode_handles_encoded)
    have "f_checksum f = kCRC32c" "f_version f = 0" using ok True by (simp_all add: footer_ok_def)
    then have "g\<lparr>f_table_magic_number := m', f_version := 0, f_checksum := kCRC32c, f_metaindex_handle := f_metaindex_handle f,
        f_index_handle := f_index_handle f\<rparr> = footer_read f"
      using True m' by (cases f; cases g) (simp add: footer_read_def)
    then show ?thesis
      using g big lo hi magic True m' rm dec unfolding Footer_DecodeFrom_def by (simp add: footer_lengths Let_def)
  next
    case False
    have rm: "Slice_remove_prefix ?in (length ?in - 53) = footer_bytes f" using len False by (simp add: Slice_remove_prefix_def)
    obtain rest where b: "footer_bytes f = f_checksum f # encoded_handle (f_metaindex_handle f) @ encoded_handle (f_index_handle f) @ rest"
      using False by (simp add: footer_bytes_def handles_bytes_def Let_def)
    have chk: "GetVarint32 (footer_bytes f) =
        Some (ucast (f_checksum f), encoded_handle (f_metaindex_handle f) @ encoded_handle (f_index_handle f) @ rest)"
      unfolding b by (rule GetVarint32_byte) (use ok False in \<open>simp add: footer_ok_def\<close>)
    have cc: "ucast (ucast (f_checksum f) :: u32) = f_checksum f" by (rule bit_word_eqI) (auto simp: bit_simps)
    define q where "q = f_checksum f # handles_bytes f @ replicate (40 - length (handles_bytes f)) 0"
    obtain r where q: "footer_bytes f = q @ EncodeFixed32 (f_version f) @ r" "length q = 41"
      using False length_handles_bytes [of f] by (simp add: footer_bytes_def q_def Let_def)
    have "length ?in - 8 - 4 = length (pre @ q)" using q(2) len False by simp
    then have ver: "DecodeFixed32 (drop (length ?in - 8 - 4) ?in) = f_version f"
      using q(1) DecodeFixed32_Encode by simp
    have "g\<lparr>f_table_magic_number := ?m, f_version := f_version f, f_checksum := f_checksum f,
        f_metaindex_handle := f_metaindex_handle f, f_index_handle := f_index_handle f\<rparr> = footer_read f"
      using False by (cases f; cases g) (simp add: footer_read_def)
    then show ?thesis
      using g big lo hi magic False rm chk ver len cc decode_handles_encoded
      unfolding Footer_DecodeFrom_def by (simp add: footer_lengths Let_def)
  qed
qed

text \<open>A reader of a file with given contents.\<close>

definition read_contents :: "bytes \<Rightarrow> nat \<Rightarrow> nat \<Rightarrow> Status \<times> bytes" where
  "read_contents contents offset n = (Status_OK, take n (drop offset contents))"

definition empty_footer :: Footer where
  "empty_footer = \<lparr>f_version = 0, f_checksum = kCRC32c, f_metaindex_handle = BlockHandle_new,
     f_index_handle = BlockHandle_new, f_table_magic_number = kInvalidTableMagicNumber\<rparr>"

lemma empty_footer_new: "Footer_new kInvalidTableMagicNumber 0 = Some empty_footer" "\<not> HasInitializedTableMagicNumber empty_footer"
  by (simp_all add: Footer_new_def empty_footer_def HasInitializedTableMagicNumber_def)

text \<open>C19: A footer written at the end of a file of any length is read back by \<^verbatim>\<open>ReadFooterFromFile\<close>, in the legacy
  form (whose magic number is read as the current one of its table kind) as in the versioned form, and it occupies
  exactly the 48 or 53 bytes that the format prescribes.\<close>

theorem table_footer_roundtrip:
  assumes "HasInitializedTableMagicNumber f"
    and "bh_offset (f_metaindex_handle f) \<noteq> NOT 0 \<and> bh_size (f_metaindex_handle f) \<noteq> NOT 0"
    and "bh_offset (f_index_handle f) \<noteq> NOT 0 \<and> bh_size (f_index_handle f) \<noteq> NOT 0"
    and "if IsLegacyFooterFormat (f_table_magic_number f) then f_checksum f = kCRC32c \<and> f_version f = 0 else f_checksum f < 128"
  shows "\<exists>contents. Footer_EncodeTo f pre = Some contents \<and>
    length contents = length pre +
      (if IsLegacyFooterFormat (f_table_magic_number f) then kVersion0EncodedLength else kNewVersionsEncodedLength) \<and>
    ReadFooterFromFile (read_contents contents) None file_name (length contents) empty_footer 0 =
      Some (Status_OK, if IsLegacyFooterFormat (f_table_magic_number f)
        then f\<lparr>f_table_magic_number := the (UpconvertLegacyFooterFormat (f_table_magic_number f))\<rparr> else f)"
proof -
  have ok: "footer_ok f" using assms by (simp add: footer_ok_def handle_set_def)
  let ?c = "pre @ footer_bytes f"
  have len: "length (footer_bytes f) = (if IsLegacyFooterFormat (f_table_magic_number f) then 48 else 53)"
    by (rule length_footer_bytes)
  then have le: "length (footer_bytes f) \<le> 53" "48 \<le> length (footer_bytes f)" by auto
  define off where "off = (if length ?c > kNewVersionsEncodedLength then length ?c - kNewVersionsEncodedLength else 0)"
  have "take 53 (drop off ?c) = drop off pre @ footer_bytes f" using le by (simp add: off_def footer_lengths)
  then have r: "read_contents ?c off kNewVersionsEncodedLength = (Status_OK, drop off pre @ footer_bytes f)"
    by (simp add: read_contents_def footer_lengths)
  have sz: "\<not> length ?c < kVersion0EncodedLength" "\<not> length (drop off pre @ footer_bytes f) < kVersion0EncodedLength"
    using le by (simp_all add: footer_lengths)
  have "ReadFooterFromFile (read_contents ?c) None file_name (length ?c) empty_footer 0 = Some (Status_OK, footer_read f)"
    unfolding ReadFooterFromFile_def off_def [symmetric] if_not_P [OF sz(1)]
    using r sz(2) Footer_DecodeFrom_footer [OF ok empty_footer_new(2), of "drop off pre"] by (simp add: Let_def)
  then show ?thesis
    using Footer_EncodeTo_eq [OF ok, of pre] len by (simp add: footer_read_def footer_lengths)
qed

definition demo_footer :: Footer where
  "demo_footer = \<lparr>f_version = 5, f_checksum = 3, f_metaindex_handle = \<lparr>bh_offset = 1000, bh_size = 40\<rparr>,
     f_index_handle = \<lparr>bh_offset = 300, bh_size = 695\<rparr>, f_table_magic_number = kBlockBasedTableMagicNumber\<rparr>"

theorem table_footer_roundtrip_witness:
  "\<exists>contents. Footer_EncodeTo demo_footer [1, 2, 3] = Some contents \<and>
    ReadFooterFromFile (read_contents contents) None ''f'' (length contents) empty_footer 0 = Some (Status_OK, demo_footer)"
proof -
  have "\<not> IsLegacyFooterFormat (f_table_magic_number demo_footer)" by code_simp
  moreover have "HasInitializedTableMagicNumber demo_footer" by code_simp
  moreover have "f_checksum demo_footer < 128" by code_simp
  moreover have "bh_offset (f_metaindex_handle demo_footer) \<noteq> NOT 0 \<and> bh_size (f_metaindex_handle demo_footer) \<noteq> NOT 0" by code_simp
  moreover have "bh_offset (f_index_handle demo_footer) \<noteq> NOT 0 \<and> bh_size (f_index_handle demo_footer) \<noteq> NOT 0" by code_simp
  ultimately show ?thesis using table_footer_roundtrip [of demo_footer "[1, 2, 3]" "''f''"] by auto
qed

lemma BlockHandle_DecodeFrom_status:
  "BlockHandle_DecodeFrom input = (s, h, rest) \<Longrightarrow> s = Status_OK \<or> code s = kCorruption"
  by (auto simp: BlockHandle_DecodeFrom_def bad_block_handle_def Status_Corruption_def Status_of_message_def
      split: option.splits)

lemma decode_handles_status: "decode_handles f input = (s, f', rest) \<Longrightarrow> s = Status_OK \<or> code s = kCorruption"
  by (auto simp: decode_handles_def Let_def dest: BlockHandle_DecodeFrom_status split: prod.splits if_splits)

text \<open>C33: Whatever bytes the file reader delivers, and whatever its status, reading a footer fails no assertion and
  reports success, the reader's status or a corruption.\<close>

theorem read_footer_total:
  "\<exists>s f. ReadFooterFromFile read prefetch file_name file_size empty_footer enforce_magic = Some (s, f) \<and>
     (s = Status_OK \<or> code s = kCorruption \<or>
      s = fst (read (if file_size > kNewVersionsEncodedLength then file_size - kNewVersionsEncodedLength else 0) kNewVersionsEncodedLength))"
proof -
  have corr: "code (Status_Corruption msg) = kCorruption" for msg by (simp add: Status_Corruption_def Status_of_message_def)
  have dec: "\<exists>s f rest. Footer_DecodeFrom empty_footer input = Some (s, f, rest) \<and> (s = Status_OK \<or> code s = kCorruption)"
    if len: "\<not> length input < kVersion0EncodedLength" for input
  proof -
    have up: "IsLegacyFooterFormat m \<Longrightarrow> \<exists>m'. UpconvertLegacyFooterFormat m = Some m'" for m
      by (auto simp: IsLegacyFooterFormat_def UpconvertLegacyFooterFormat_def)
    have dh: "\<exists>s f rest. decode_handles g inp = (s, f, rest) \<and> (s = Status_OK \<or> code s = kCorruption)" for g inp
      by (metis decode_handles_status prod_cases3)
    define m :: u64 where "m = push_bit 32 (ucast (DecodeFixed32 (drop (length input - kMagicNumberLengthByte + 4) input))) OR
      ucast (DecodeFixed32 (drop (length input - kMagicNumberLengthByte) input))"
    show ?thesis
    proof (cases "IsLegacyFooterFormat m")
      case True
      then obtain m' where "UpconvertLegacyFooterFormat m = Some m'" using up by blast
      then show ?thesis using len empty_footer_new(2) dh True unfolding Footer_DecodeFrom_def m_def [symmetric] Let_def by simp
    next
      case False
      then show ?thesis using len empty_footer_new(2) dh corr unfolding Footer_DecodeFrom_def m_def [symmetric] Let_def
        by (auto split: option.split)
    qed
  qed
  define off where "off = (if file_size > kNewVersionsEncodedLength then file_size - kNewVersionsEncodedLength else 0)"
  define src where "src = (case (case prefetch of None \<Rightarrow> None | Some p \<Rightarrow> p off kNewVersionsEncodedLength) of
      Some cached \<Rightarrow> (Status_OK, cached) | None \<Rightarrow> read off kNewVersionsEncodedLength)"
  have st: "fst src = Status_OK \<or> fst src = fst (read off kNewVersionsEncodedLength)"
    by (auto simp: src_def split: option.split)
  show ?thesis
  proof (cases "file_size < kVersion0EncodedLength \<or> \<not> ok (fst src) \<or> length (snd src) < kVersion0EncodedLength")
    case True
    then show ?thesis using st corr
      unfolding ReadFooterFromFile_def off_def [symmetric] Let_def src_def [symmetric] by (auto split: prod.split)
  next
    case False
    then obtain s f rest where "Footer_DecodeFrom empty_footer (snd src) = Some (s, f, rest)" "s = Status_OK \<or> code s = kCorruption"
      using dec by blast
    then show ?thesis using False corr
      unfolding ReadFooterFromFile_def off_def [symmetric] Let_def src_def [symmetric] by (auto split: prod.split)
  qed
qed

end
