(* ===== verification/Bloom_Impl.thy ===== *)
theory Bloom_Impl
  imports Hashing "HOL-Library.Monad_Syntax"
begin

text \<open>
  The Bloom filter implementations of \<^verbatim>\<open>util/bloom_impl.h\<close>: the cache-local filter
  \<^verbatim>\<open>FastLocalBloomImpl\<close> with its portable query (the AVX2 query is in \<open>Bloom_Avx2\<close>), the
  legacy filter without locality and the legacy cache-local filter.

  A \<^verbatim>\<open>char *data\<close> is the byte list it points into together with an offset; an access outside
  the list is None.  The \<^verbatim>\<open>int\<close> loop bound \<^verbatim>\<open>num_probes\<close> is the number of iterations
  of the loop.

  Each implementation is an instance of one interface, \<open>probe_filter\<close>: adding a hash sets the bits of
  its probe sequence, querying it tests the same bits, and the sequence stays inside the filter.
  What a filter answers after any sequence of additions is proved once for that interface.
\<close>

section \<open>Definitions\<close>

subsection \<open>Bytes behind a pointer\<close>

text \<open>\<^verbatim>\<open>data[i] |= m\<close> and \<^verbatim>\<open>(data[i] & m) == 0\<close>.\<close>

definition or_byte :: "nat \<Rightarrow> byte \<Rightarrow> bytes \<Rightarrow> bytes option" where
  "or_byte i m data = (if i < length data then Some (data[i := data ! i OR m]) else None)"

definition byte_misses :: "nat \<Rightarrow> byte \<Rightarrow> bytes \<Rightarrow> bool option" where
  "byte_misses i m data = (if i < length data then Some (data ! i AND m = 0) else None)"

text \<open>\<^verbatim>\<open>a % b\<close> on \<^verbatim>\<open>uint32_t\<close>: undefined for a zero divisor.\<close>

definition umod :: "u32 \<Rightarrow> u32 \<Rightarrow> u32 option" where
  "umod a b = (if b = 0 then None else Some (a mod b))"

subsection \<open>FastLocalBloomImpl\<close>

definition ChooseNumProbes :: "int \<Rightarrow> int" where
  "ChooseNumProbes millibits_per_key =
     (if millibits_per_key \<le> 2080 then 1
      else if millibits_per_key \<le> 3580 then 2
      else if millibits_per_key \<le> 5100 then 3
      else if millibits_per_key \<le> 6640 then 4
      else if millibits_per_key \<le> 8300 then 5
      else if millibits_per_key \<le> 10070 then 6
      else if millibits_per_key \<le> 11720 then 7
      else if millibits_per_key \<le> 14001 then 8
      else if millibits_per_key \<le> 16050 then 9
      else if millibits_per_key \<le> 18300 then 10
      else if millibits_per_key \<le> 22001 then 11
      else if millibits_per_key \<le> 25501 then 12
      else if millibits_per_key > 50000 then 24
      else (millibits_per_key - 1) div 2000 - 1)"

fun AddHashPrepared :: "u32 \<Rightarrow> nat \<Rightarrow> nat \<Rightarrow> bytes \<Rightarrow> bytes option" where
  "AddHashPrepared h 0 offset data = Some data"
| "AddHashPrepared h (Suc num_probes) offset data = do {
     let bitpos = drop_bit (32 - 9) h;
     data \<leftarrow> or_byte (offset + unat (drop_bit 3 bitpos)) (push_bit (unat (bitpos AND 7)) 1) data;
     AddHashPrepared (h * 0x9e3779b9) num_probes offset data
   }"

definition PrepareHash :: "u32 \<Rightarrow> u32 \<Rightarrow> u32" where
  "PrepareHash h1 len_bytes = push_bit 6 (fastrange32 (drop_bit 6 len_bytes) h1)"

definition FastLocal_AddHash :: "u32 \<Rightarrow> u32 \<Rightarrow> u32 \<Rightarrow> nat \<Rightarrow> bytes \<Rightarrow> bytes option" where
  "FastLocal_AddHash h1 h2 len_bytes num_probes data =
     (let bytes_to_cache_line = push_bit 6 (fastrange32 (drop_bit 6 len_bytes) h1)
      in AddHashPrepared h2 num_probes (unat bytes_to_cache_line) data)"

fun HashMayMatchPrepared :: "u32 \<Rightarrow> nat \<Rightarrow> nat \<Rightarrow> bytes \<Rightarrow> bool option" where
  "HashMayMatchPrepared h 0 offset data = Some True"
| "HashMayMatchPrepared h (Suc num_probes) offset data = do {
     let bitpos = drop_bit (32 - 9) h;
     miss \<leftarrow> byte_misses (offset + unat (drop_bit 3 bitpos)) (push_bit (unat (bitpos AND 7)) 1) data;
     if miss then Some False
     else HashMayMatchPrepared (h * 0x9e3779b9) num_probes offset data
   }"

definition FastLocal_HashMayMatch :: "u32 \<Rightarrow> u32 \<Rightarrow> u32 \<Rightarrow> nat \<Rightarrow> bytes \<Rightarrow> bool option" where
  "FastLocal_HashMayMatch h1 h2 len_bytes num_probes data =
     (let bytes_to_cache_line = push_bit 6 (fastrange32 (drop_bit 6 len_bytes) h1)
      in HashMayMatchPrepared h2 num_probes (unat bytes_to_cache_line) data)"

subsection \<open>LegacyNoLocalityBloomImpl\<close>

text \<open>The product \<^verbatim>\<open>bits_per_key * 0.69\<close> is computed in \<^verbatim>\<open>double\<close> and truncated:
  \<open>trunc_069\<close> stands for that conversion.\<close>

definition NoLocality_ChooseNumProbes :: "(int \<Rightarrow> int) \<Rightarrow> int \<Rightarrow> int" where
  "NoLocality_ChooseNumProbes trunc_069 bits_per_key =
     (let num_probes = trunc_069 bits_per_key;
          num_probes = (if num_probes < 1 then 1 else num_probes)
      in if num_probes > 30 then 30 else num_probes)"

fun NoLocality_AddHash_loop :: "u32 \<Rightarrow> u32 \<Rightarrow> u32 \<Rightarrow> nat \<Rightarrow> bytes \<Rightarrow> bytes option" where
  "NoLocality_AddHash_loop delta h total_bits 0 data = Some data"
| "NoLocality_AddHash_loop delta h total_bits (Suc num_probes) data = do {
     bitpos \<leftarrow> umod h total_bits;
     data \<leftarrow> or_byte (unat (bitpos div 8)) (push_bit (unat (bitpos mod 8)) 1) data;
     NoLocality_AddHash_loop delta (h + delta) total_bits num_probes data
   }"

definition NoLocality_AddHash :: "u32 \<Rightarrow> u32 \<Rightarrow> nat \<Rightarrow> bytes \<Rightarrow> bytes option" where
  "NoLocality_AddHash h total_bits num_probes data =
     (let delta = drop_bit 17 h OR push_bit 15 h
      in NoLocality_AddHash_loop delta h total_bits num_probes data)"

fun NoLocality_HashMayMatch_loop :: "u32 \<Rightarrow> u32 \<Rightarrow> u32 \<Rightarrow> nat \<Rightarrow> bytes \<Rightarrow> bool option" where
  "NoLocality_HashMayMatch_loop delta h total_bits 0 data = Some True"
| "NoLocality_HashMayMatch_loop delta h total_bits (Suc num_probes) data = do {
     bitpos \<leftarrow> umod h total_bits;
     miss \<leftarrow> byte_misses (unat (bitpos div 8)) (push_bit (unat (bitpos mod 8)) 1) data;
     if miss then Some False
     else NoLocality_HashMayMatch_loop delta (h + delta) total_bits num_probes data
   }"

definition NoLocality_HashMayMatch :: "u32 \<Rightarrow> u32 \<Rightarrow> nat \<Rightarrow> bytes \<Rightarrow> bool option" where
  "NoLocality_HashMayMatch h total_bits num_probes data =
     (let delta = drop_bit 17 h OR push_bit 15 h
      in NoLocality_HashMayMatch_loop delta h total_bits num_probes data)"

subsection \<open>LegacyLocalityBloomImpl\<close>

text \<open>The template parameter \<^verbatim>\<open>ExtraRotates\<close> is the first argument.  \<^verbatim>\<open>1 << log2_cache_line_bits\<close>
  is a shift of an \<^verbatim>\<open>int\<close>, defined for a shift below 31 only.\<close>

definition GetLine :: "bool \<Rightarrow> u32 \<Rightarrow> u32 \<Rightarrow> u32 option" where
  "GetLine ExtraRotates h num_lines =
     (let offset_h = (if ExtraRotates then drop_bit 11 h OR push_bit 21 h else h)
      in umod offset_h num_lines)"

definition line_bitpos :: "nat \<Rightarrow> u32 \<Rightarrow> u32 option" where
  "line_bitpos log2_cache_line_bits h =
     (if log2_cache_line_bits < 31 then Some (h AND (push_bit log2_cache_line_bits 1 - 1)) else None)"

definition Locality_next :: "bool \<Rightarrow> nat \<Rightarrow> u32 \<Rightarrow> u32 \<Rightarrow> u32" where
  "Locality_next ExtraRotates log2_cache_line_bits delta h =
     (let h = (if ExtraRotates
               then drop_bit log2_cache_line_bits h OR push_bit (32 - log2_cache_line_bits) h else h)
      in h + delta)"

fun Locality_AddHash_loop :: "bool \<Rightarrow> u32 \<Rightarrow> u32 \<Rightarrow> nat \<Rightarrow> nat \<Rightarrow> nat \<Rightarrow> bytes \<Rightarrow> bytes option" where
  "Locality_AddHash_loop xr delta h log2_bits 0 offset data = Some data"
| "Locality_AddHash_loop xr delta h log2_bits (Suc num_probes) offset data = do {
     bitpos \<leftarrow> line_bitpos log2_bits h;
     data \<leftarrow> or_byte (offset + unat (bitpos div 8)) (push_bit (unat (bitpos mod 8)) 1) data;
     Locality_AddHash_loop xr delta (Locality_next xr log2_bits delta h) log2_bits num_probes offset data
   }"

definition Locality_AddHash :: "bool \<Rightarrow> u32 \<Rightarrow> u32 \<Rightarrow> nat \<Rightarrow> nat \<Rightarrow> bytes \<Rightarrow> bytes option" where
  "Locality_AddHash xr h num_lines num_probes log2_cache_line_bytes data = do {
     let log2_cache_line_bits = log2_cache_line_bytes + 3;
     line \<leftarrow> GetLine xr h num_lines;
     let data_at_offset = push_bit log2_cache_line_bytes line;
     let delta = drop_bit 17 h OR push_bit 15 h;
     Locality_AddHash_loop xr delta h log2_cache_line_bits num_probes (unat data_at_offset) data
   }"

definition PrepareHashMayMatch :: "bool \<Rightarrow> u32 \<Rightarrow> u32 \<Rightarrow> nat \<Rightarrow> u32 option" where
  "PrepareHashMayMatch xr h num_lines log2_cache_line_bytes = do {
     line \<leftarrow> GetLine xr h num_lines;
     Some (push_bit log2_cache_line_bytes line)
   }"

fun Locality_HashMayMatch_loop ::
  "bool \<Rightarrow> u32 \<Rightarrow> u32 \<Rightarrow> nat \<Rightarrow> nat \<Rightarrow> nat \<Rightarrow> bytes \<Rightarrow> bool option" where
  "Locality_HashMayMatch_loop xr delta h log2_bits 0 offset data = Some True"
| "Locality_HashMayMatch_loop xr delta h log2_bits (Suc num_probes) offset data = do {
     bitpos \<leftarrow> line_bitpos log2_bits h;
     miss \<leftarrow> byte_misses (offset + unat (bitpos div 8)) (push_bit (unat (bitpos mod 8)) 1) data;
     if miss then Some False
     else Locality_HashMayMatch_loop xr delta (Locality_next xr log2_bits delta h)
            log2_bits num_probes offset data
   }"

definition Locality_HashMayMatchPrepared :: "bool \<Rightarrow> u32 \<Rightarrow> nat \<Rightarrow> nat \<Rightarrow> nat \<Rightarrow> bytes \<Rightarrow> bool option" where
  "Locality_HashMayMatchPrepared xr h num_probes log2_cache_line_bytes offset data =
     (let log2_cache_line_bits = log2_cache_line_bytes + 3;
          delta = drop_bit 17 h OR push_bit 15 h
      in Locality_HashMayMatch_loop xr delta h log2_cache_line_bits num_probes offset data)"

definition Locality_HashMayMatch :: "bool \<Rightarrow> u32 \<Rightarrow> u32 \<Rightarrow> nat \<Rightarrow> nat \<Rightarrow> bytes \<Rightarrow> bool option" where
  "Locality_HashMayMatch xr h num_lines num_probes log2_cache_line_bytes data = do {
     line \<leftarrow> GetLine xr h num_lines;
     let b = push_bit log2_cache_line_bytes line;
     Locality_HashMayMatchPrepared xr h num_probes log2_cache_line_bytes (unat b) data
   }"

text \<open>Adding the hashes of a list one after the other.\<close>

primrec add_all :: "('h \<Rightarrow> bytes \<Rightarrow> bytes option) \<Rightarrow> 'h list \<Rightarrow> bytes \<Rightarrow> bytes option" where
  "add_all add [] data = Some data"
| "add_all add (h # hs) data = add h data \<bind> add_all add hs"

section \<open>Bit positions\<close>

definition test_pos :: "bytes \<Rightarrow> nat \<Rightarrow> bool" where
  "test_pos data p = bit (data ! (p div 8)) (p mod 8)"

definition set_pos :: "nat \<Rightarrow> bytes \<Rightarrow> bytes" where
  "set_pos p data = data[p div 8 := data ! (p div 8) OR push_bit (p mod 8) 1]"

lemma length_set_pos [simp]: "length (set_pos p data) = length data"
  by (simp add: set_pos_def)

lemma length_fold_set_pos [simp]: "length (fold set_pos ps data) = length data"
  by (induction ps arbitrary: data) simp_all

lemma pos_eq_iff: "q = p \<longleftrightarrow> q div 8 = p div 8 \<and> q mod 8 = p mod (8 :: nat)"
  by (metis div_mult_mod_eq)

lemma test_set_pos:
  "p < 8 * length data \<Longrightarrow> test_pos (set_pos p data) q \<longleftrightarrow> q = p \<or> test_pos data q"
  unfolding pos_eq_iff [of q p]
  by (cases "q div 8 = p div 8")
    (auto simp: test_pos_def set_pos_def bit_simps nth_list_update less_mult_imp_div_less mult.commute)

lemma test_fold_set_pos:
  "\<forall>p\<in>set ps. p < 8 * length data \<Longrightarrow>
   test_pos (fold set_pos ps data) q \<longleftrightarrow> q \<in> set ps \<or> test_pos data q"
  by (induction ps arbitrary: data) (auto simp: test_set_pos)

lemma bytes_eq_test_pos:
  assumes "length xs = length ys" "\<And>p. p < 8 * length xs \<Longrightarrow> test_pos xs p = test_pos ys p"
  shows "xs = ys"
proof (rule nth_equalityI [OF assms(1)], rule bit_word_eqI)
  fix i n
  assume i: "i < length xs" and n: "n < LENGTH(8)"
  then have "8 * i + n < 8 * length xs" by simp
  from assms(2) [OF this] n show "bit (xs ! i) n = bit (ys ! i) n" by (simp add: test_pos_def)
qed

lemma or_byte_set_pos:
  "p < 8 * length data \<Longrightarrow> or_byte (p div 8) (push_bit (p mod 8) 1) data = Some (set_pos p data)"
  by (simp add: or_byte_def set_pos_def less_mult_imp_div_less mult.commute)

lemma byte_misses_pos:
  "p < 8 * length data \<Longrightarrow> byte_misses (p div 8) (push_bit (p mod 8) 1) data = Some (\<not> test_pos data p)"
  by (simp add: byte_misses_def test_pos_def less_mult_imp_div_less mult.commute and_exp_eq_0_iff_not_bit)

text \<open>The positions a loop visits that starts at \<open>h\<close> and steps with \<open>nxt\<close>.\<close>

primrec probe_list :: "(u32 \<Rightarrow> nat) \<Rightarrow> (u32 \<Rightarrow> u32) \<Rightarrow> nat \<Rightarrow> u32 \<Rightarrow> nat list" where
  "probe_list pos nxt 0 h = []"
| "probe_list pos nxt (Suc k) h = pos h # probe_list pos nxt k (nxt h)"

lemma probe_list_bound: "(\<And>h. pos h < B) \<Longrightarrow> p \<in> set (probe_list pos nxt k h) \<Longrightarrow> p < B"
  by (induction k arbitrary: h) auto

section \<open>The interface of a probing filter\<close>

locale probe_filter =
  fixes add :: "'h \<Rightarrow> bytes \<Rightarrow> bytes option"
    and may :: "'h \<Rightarrow> bytes \<Rightarrow> bool option"
    and probes :: "'h \<Rightarrow> nat list"
    and n :: nat
  assumes add_sets: "n \<le> length data \<Longrightarrow> add h data = Some (fold set_pos (probes h) data)"
    and may_tests: "n \<le> length data \<Longrightarrow> may h data = Some (\<forall>p\<in>set (probes h). test_pos data p)"
    and probe_bound: "p \<in> set (probes h) \<Longrightarrow> p < 8 * n"
begin

lemma add_all_fold:
  "n \<le> length data \<Longrightarrow> add_all add hs data = Some (fold set_pos (concat (map probes hs)) data)"
  by (induction hs arbitrary: data) (simp_all add: add_sets)

lemma concat_probe_bound:
  "n \<le> length data \<Longrightarrow> \<forall>p\<in>set (concat (map probes hs)). p < 8 * length data"
  using probe_bound by fastforce

lemma add_all_exact:
  assumes "n \<le> length data" "add_all add hs data = Some data'"
  shows "length data' = length data"
    "test_pos data' q \<longleftrightarrow> (\<exists>h\<in>set hs. q \<in> set (probes h)) \<or> test_pos data q"
  using assms add_all_fold [OF assms(1), of hs] test_fold_set_pos [OF concat_probe_bound [OF assms(1)], of hs q]
  by auto

lemma add_all_keeps_tail:
  assumes "n \<le> length data" "add_all add hs data = Some data'"
  shows "drop n data' = drop n data"
proof (rule bytes_eq_test_pos)
  show "length (drop n data') = length (drop n data)" using add_all_exact(1) [OF assms] by simp
  fix p
  assume "p < 8 * length (drop n data')"
  then have "test_pos (drop n d) p = test_pos d (8 * n + p)" if "length d = length data" for d
    using that assms(1) by (simp add: test_pos_def)
  moreover have "\<nexists>h. h \<in> set hs \<and> 8 * n + p \<in> set (probes h)" using probe_bound by fastforce
  ultimately show "test_pos (drop n data') p = test_pos (drop n data) p"
    using add_all_exact [OF assms] by auto
qed

text \<open>Two lists with the same hashes give the same filter.\<close>

lemma add_all_set_cong:
  assumes "n \<le> length data" "set hs = set hs'"
  shows "add_all add hs data = add_all add hs' data"
proof -
  obtain d d' where d: "add_all add hs data = Some d" and d': "add_all add hs' data = Some d'"
    using add_all_fold [OF assms(1)] by blast
  have "d = d'"
    by (rule bytes_eq_test_pos)
      (simp_all add: add_all_exact [OF assms(1) d] add_all_exact [OF assms(1) d'] assms(2))
  then show ?thesis using d d' by simp
qed

text \<open>What a query answers after a sequence of additions.\<close>

lemma may_after_add_all:
  assumes "n \<le> length data" "add_all add hs data = Some data'"
  shows "may h data' =
    Some (\<forall>p\<in>set (probes h). (\<exists>h'\<in>set hs. p \<in> set (probes h')) \<or> test_pos data p)"
  using may_tests [of data' h] assms add_all_exact [OF assms] by simp

corollary no_false_negative:
  assumes "n \<le> length data" "add_all add hs data = Some data'" "h \<in> set hs"
  shows "may h data' = Some True"
  using may_after_add_all [OF assms(1,2), of h] assms(3) by auto

end

section \<open>The implementations are probing filters\<close>

lemma or_byte_at:
  "p < 8 * length data \<Longrightarrow> i = p div 8 \<Longrightarrow> k = p mod 8 \<Longrightarrow> or_byte i (push_bit k 1) data = Some (set_pos p data)"
  using or_byte_set_pos by simp

lemma byte_misses_at:
  "p < 8 * length data \<Longrightarrow> i = p div 8 \<Longrightarrow> k = p mod 8 \<Longrightarrow>
   byte_misses i (push_bit k 1) data = Some (\<not> test_pos data p)"
  using byte_misses_pos by simp

lemma unat_and_7: "unat (x AND 7) = unat (x :: u32) mod 8"
  using unat_take_bit_mod [of 3 x] by (simp add: take_bit_eq_mask mask_eq_exp_minus_1)

lemma unat_mod_8: "unat (x mod 8) = unat (x :: u32) mod 8"
  by (simp add: unat_mod_distrib)

lemma unat_div_8: "unat (x div 8) = unat (x :: u32) div 8"
  by (simp add: unat_div_distrib)

subsection \<open>FastLocalBloomImpl\<close>

definition fast_pos :: "nat \<Rightarrow> u32 \<Rightarrow> nat" where
  "fast_pos offset h = 8 * offset + unat (drop_bit (32 - 9) h)"

definition fast_probes :: "u32 \<Rightarrow> nat \<Rightarrow> u32 \<times> u32 \<Rightarrow> nat list" where
  "fast_probes len k =
     (\<lambda>(h1, h2). probe_list (fast_pos (unat (PrepareHash h1 len))) (\<lambda>h. h * 0x9e3779b9) k h2)"

lemma unat_bitpos_less: "unat (drop_bit 23 (h :: u32)) < 512"
  using unat_drop_bit_div [of 23 h] unsigned_less [of h, where 'a = nat] by simp

lemma fast_pos_bound: "fast_pos offset h < 8 * (offset + 64)"
  using unat_bitpos_less [of h] by (simp add: fast_pos_def)

lemma fast_pos_div_mod:
  "offset + unat (drop_bit 3 (drop_bit (32 - 9) h)) = fast_pos offset h div 8"
  "unat (drop_bit (32 - 9) h AND 7) = fast_pos offset h mod 8"
  by (simp_all add: fast_pos_def unat_drop_bit_div unat_and_7 del: drop_bit_drop_bit)

lemma AddHashPrepared_sets:
  "offset + 64 \<le> length data \<Longrightarrow>
   AddHashPrepared h k offset data = Some (fold set_pos (probe_list (fast_pos offset) (\<lambda>h. h * 0x9e3779b9) k h) data)"
proof (induction k arbitrary: h data)
  case (Suc k)
  have "or_byte (offset + unat (drop_bit 3 (drop_bit (32 - 9) h))) (push_bit (unat (drop_bit (32 - 9) h AND 7)) 1) data
    = Some (set_pos (fast_pos offset h) data)"
    using fast_pos_bound [of offset h] Suc.prems by (intro or_byte_at fast_pos_div_mod) simp
  then show ?case using Suc by (simp add: Let_def del: drop_bit_drop_bit)
qed simp

lemma HashMayMatchPrepared_tests:
  "offset + 64 \<le> length data \<Longrightarrow>
   HashMayMatchPrepared h k offset data =
     Some (\<forall>p\<in>set (probe_list (fast_pos offset) (\<lambda>h. h * 0x9e3779b9) k h). test_pos data p)"
proof (induction k arbitrary: h)
  case (Suc k)
  have "byte_misses (offset + unat (drop_bit 3 (drop_bit (32 - 9) h))) (push_bit (unat (drop_bit (32 - 9) h AND 7)) 1) data
    = Some (\<not> test_pos data (fast_pos offset h))"
    using fast_pos_bound [of offset h] Suc.prems by (intro byte_misses_at fast_pos_div_mod) simp
  then show ?case using Suc by (simp add: Let_def del: drop_bit_drop_bit)
qed simp

lemma PrepareHash_unat:
  "unat (PrepareHash h1 len) = 64 * (unat h1 * (unat len div 64) div 2 ^ 32)"
proof -
  let ?r = "unat h1 * (unat len div 64) div 2 ^ 32"
  have r: "unat (fastrange32 (drop_bit 6 len) h1) = ?r"
    by (simp add: fastrange32_unat unat_drop_bit_div)
  have "?r \<le> unat len div 64"
    using div_le_mono [of "unat h1 * (unat len div 64)" "2 ^ 32 * (unat len div 64)" "2 ^ 32"]
      unsigned_less [of h1, where 'a = nat] by (simp add: mult_le_mono1)
  then have "64 * ?r < 2 ^ 32" using unsigned_less [of len, where 'a = nat] by simp
  then show ?thesis
    using r by (simp add: PrepareHash_def push_bit_eq_mult unat_mult_no_overflow mult.commute)
qed

lemma PrepareHash_bound: "unat (PrepareHash h1 len) + 64 \<le> max 64 (unat len)"
proof (cases "unat len div 64 = 0")
  case False
  then have "unat h1 * (unat len div 64) div 2 ^ 32 < unat len div 64"
    using mult_div_less [of "unat len div 64" "unat h1" "2 ^ 32"] unsigned_less [of h1, where 'a = nat]
    by (simp add: mult.commute)
  then have "64 * (unat h1 * (unat len div 64) div 2 ^ 32) + 64 \<le> 64 * (unat len div 64)" by linarith
  moreover have "64 * (unat len div 64) \<le> unat len" by simp
  ultimately show ?thesis by (simp only: PrepareHash_unat)
qed (simp add: PrepareHash_unat)

lemma FastLocal_AddHash_prepared:
  "FastLocal_AddHash h1 h2 len k data = AddHashPrepared h2 k (unat (PrepareHash h1 len)) data"
  by (simp add: FastLocal_AddHash_def PrepareHash_def)

lemma FastLocal_HashMayMatch_prepared:
  "FastLocal_HashMayMatch h1 h2 len k data = HashMayMatchPrepared h2 k (unat (PrepareHash h1 len)) data"
  by (simp add: FastLocal_HashMayMatch_def PrepareHash_def)

interpretation fast_local: probe_filter
  "\<lambda>(h1, h2). FastLocal_AddHash h1 h2 len k" "\<lambda>(h1, h2). FastLocal_HashMayMatch h1 h2 len k"
  "fast_probes len k" "max 64 (unat len)"
  for len k
proof
  fix data :: bytes and h :: "u32 \<times> u32" and p
  obtain h1 h2 where h: "h = (h1, h2)" by fastforce
  note bound = PrepareHash_bound [of h1 len]
  show "(case h of (h1, h2) \<Rightarrow> FastLocal_AddHash h1 h2 len k) data = Some (fold set_pos (fast_probes len k h) data)"
    if "max 64 (unat len) \<le> length data"
    using AddHashPrepared_sets [OF order_trans [OF bound that]]
    by (simp add: h FastLocal_AddHash_prepared fast_probes_def)
  show "(case h of (h1, h2) \<Rightarrow> FastLocal_HashMayMatch h1 h2 len k) data =
      Some (\<forall>p\<in>set (fast_probes len k h). test_pos data p)"
    if "max 64 (unat len) \<le> length data"
    using HashMayMatchPrepared_tests [OF order_trans [OF bound that]]
    by (simp add: h FastLocal_HashMayMatch_prepared fast_probes_def)
  show "p < 8 * max 64 (unat len)" if "p \<in> set (fast_probes len k h)"
    using probe_list_bound [OF fast_pos_bound] that bound
    by (fastforce simp: h fast_probes_def intro: less_le_trans)
qed

subsection \<open>LegacyNoLocalityBloomImpl\<close>

definition no_locality_probes :: "u32 \<Rightarrow> nat \<Rightarrow> u32 \<Rightarrow> nat list" where
  "no_locality_probes total_bits k h =
     probe_list (\<lambda>h. unat (h mod total_bits)) (\<lambda>x. x + (drop_bit 17 h OR push_bit 15 h)) k h"

lemma unat_mod_less: "b \<noteq> 0 \<Longrightarrow> unat (h mod b) < unat (b :: u32)"
  by (simp add: unat_mod_distrib unat_gt_0)

lemma NoLocality_AddHash_loop_sets:
  assumes "total_bits \<noteq> 0"
  shows "unat total_bits \<le> 8 * length data \<Longrightarrow>
    NoLocality_AddHash_loop delta h total_bits k data =
      Some (fold set_pos (probe_list (\<lambda>h. unat (h mod total_bits)) (\<lambda>x. x + delta) k h) data)"
proof (induction k arbitrary: h data)
  case (Suc k)
  have "or_byte (unat (h mod total_bits div 8)) (push_bit (unat (h mod total_bits mod 8)) 1) data
    = Some (set_pos (unat (h mod total_bits)) data)"
    using unat_mod_less [OF assms, of h] Suc.prems
    by (intro or_byte_at) (simp_all add: unat_div_8 unat_mod_8)
  then show ?case using Suc assms by (simp add: umod_def)
qed simp

lemma NoLocality_HashMayMatch_loop_tests:
  assumes "total_bits \<noteq> 0" "unat total_bits \<le> 8 * length data"
  shows "NoLocality_HashMayMatch_loop delta h total_bits k data =
      Some (\<forall>p\<in>set (probe_list (\<lambda>h. unat (h mod total_bits)) (\<lambda>x. x + delta) k h). test_pos data p)"
proof (induction k arbitrary: h)
  case (Suc k)
  have "byte_misses (unat (h mod total_bits div 8)) (push_bit (unat (h mod total_bits mod 8)) 1) data
    = Some (\<not> test_pos data (unat (h mod total_bits)))"
    using unat_mod_less [OF assms(1), of h] assms(2)
    by (intro byte_misses_at) (simp_all add: unat_div_8 unat_mod_8)
  then show ?case using Suc assms by (simp add: umod_def)
qed simp

lemma no_locality_probe_filter:
  assumes "total_bits \<noteq> 0" "unat total_bits \<le> 8 * n"
  shows "probe_filter (\<lambda>h. NoLocality_AddHash h total_bits k) (\<lambda>h. NoLocality_HashMayMatch h total_bits k)
    (no_locality_probes total_bits k) n"
proof
  fix data :: bytes and h p
  show "NoLocality_AddHash h total_bits k data = Some (fold set_pos (no_locality_probes total_bits k h) data)"
    if "n \<le> length data"
    using NoLocality_AddHash_loop_sets [OF assms(1)] assms(2) that
    by (simp add: NoLocality_AddHash_def no_locality_probes_def)
  show "NoLocality_HashMayMatch h total_bits k data = Some (\<forall>p\<in>set (no_locality_probes total_bits k h). test_pos data p)"
    if "n \<le> length data"
    using NoLocality_HashMayMatch_loop_tests [OF assms(1)] assms(2) that
    by (simp add: NoLocality_HashMayMatch_def no_locality_probes_def)
  show "p < 8 * n" if "p \<in> set (no_locality_probes total_bits k h)"
    using probe_list_bound [OF unat_mod_less [OF assms(1)]] that assms(2)
    by (fastforce simp: no_locality_probes_def intro: less_le_trans)
qed

subsection \<open>LegacyLocalityBloomImpl\<close>

definition line_pos :: "nat \<Rightarrow> nat \<Rightarrow> u32 \<Rightarrow> nat" where
  "line_pos log2_bits offset h = 8 * offset + unat h mod 2 ^ log2_bits"

definition locality_offset :: "bool \<Rightarrow> u32 \<Rightarrow> nat \<Rightarrow> u32 \<Rightarrow> nat" where
  "locality_offset xr num_lines log2_bytes h =
     unat (push_bit log2_bytes ((if xr then drop_bit 11 h OR push_bit 21 h else h) mod num_lines))"

definition locality_probes :: "bool \<Rightarrow> u32 \<Rightarrow> nat \<Rightarrow> nat \<Rightarrow> u32 \<Rightarrow> nat list" where
  "locality_probes xr num_lines k log2_bytes h =
     probe_list (line_pos (log2_bytes + 3) (locality_offset xr num_lines log2_bytes h))
       (Locality_next xr (log2_bytes + 3) (drop_bit 17 h OR push_bit 15 h)) k h"

lemma line_bitpos_eq:
  assumes "log2_bits < 31"
  obtains b where "line_bitpos log2_bits h = Some b" "unat b = unat h mod 2 ^ log2_bits"
proof
  show "line_bitpos log2_bits h = Some (take_bit log2_bits h)"
    using assms by (simp add: line_bitpos_def take_bit_eq_mask mask_eq_exp_minus_1)
  show "unat (take_bit log2_bits h) = unat h mod 2 ^ log2_bits" by (rule unat_take_bit_mod)
qed

lemma line_pos_bound: "line_pos (log2_bytes + 3) offset h < 8 * (offset + 2 ^ log2_bytes)"
proof -
  have "line_pos (log2_bytes + 3) offset h < 8 * offset + 2 ^ (log2_bytes + 3)"
    by (simp only: line_pos_def) simp
  then show ?thesis by (simp add: power_add)
qed

lemma line_pos_div_mod:
  assumes "unat (b :: u32) = unat h mod 2 ^ log2_bits"
  shows "offset + unat (b div 8) = line_pos log2_bits offset h div 8"
    "unat (b mod 8) = line_pos log2_bits offset h mod 8"
  by (simp_all only: line_pos_def unat_div_8 unat_mod_8 assms) simp_all

lemma Locality_AddHash_loop_sets:
  assumes "log2_bytes + 3 < 31"
  shows "offset + 2 ^ log2_bytes \<le> length data \<Longrightarrow>
    Locality_AddHash_loop xr delta h (log2_bytes + 3) k offset data =
      Some (fold set_pos (probe_list (line_pos (log2_bytes + 3) offset)
        (Locality_next xr (log2_bytes + 3) delta) k h) data)"
proof (induction k arbitrary: h data)
  case (Suc k)
  obtain b where b: "line_bitpos (log2_bytes + 3) h = Some b" "unat b = unat h mod 2 ^ (log2_bytes + 3)"
    using line_bitpos_eq [OF assms] by blast
  have "or_byte (offset + unat (b div 8)) (push_bit (unat (b mod 8)) 1) data =
    Some (set_pos (line_pos (log2_bytes + 3) offset h) data)"
    using line_pos_bound [of log2_bytes offset h] Suc.prems by (intro or_byte_at line_pos_div_mod b) simp
  then show ?case using Suc b(1) by simp
qed simp

lemma Locality_HashMayMatch_loop_tests:
  assumes "log2_bytes + 3 < 31" "offset + 2 ^ log2_bytes \<le> length data"
  shows "Locality_HashMayMatch_loop xr delta h (log2_bytes + 3) k offset data =
      Some (\<forall>p\<in>set (probe_list (line_pos (log2_bytes + 3) offset)
        (Locality_next xr (log2_bytes + 3) delta) k h). test_pos data p)"
proof (induction k arbitrary: h)
  case (Suc k)
  obtain b where b: "line_bitpos (log2_bytes + 3) h = Some b" "unat b = unat h mod 2 ^ (log2_bytes + 3)"
    using line_bitpos_eq [OF assms(1)] by blast
  have "byte_misses (offset + unat (b div 8)) (push_bit (unat (b mod 8)) 1) data =
    Some (\<not> test_pos data (line_pos (log2_bytes + 3) offset h))"
    using line_pos_bound [of log2_bytes offset h] assms(2)
    by (intro byte_misses_at line_pos_div_mod b) simp
  then show ?case using Suc b(1) by simp
qed simp

lemma locality_offset_bound:
  assumes "num_lines \<noteq> 0" "unat num_lines * 2 ^ log2_bytes < 2 ^ 32"
  shows "locality_offset xr num_lines log2_bytes h + 2 ^ log2_bytes \<le> unat num_lines * 2 ^ log2_bytes"
proof -
  define x where "x = (if xr then drop_bit 11 h OR push_bit 21 h else h) mod num_lines"
  have x: "unat x < unat num_lines" unfolding x_def by (rule unat_mod_less [OF assms(1)])
  then have le: "(unat x + 1) * 2 ^ log2_bytes \<le> unat num_lines * 2 ^ log2_bytes" by (intro mult_le_mono1) simp
  then have lt: "unat x * 2 ^ log2_bytes < 2 ^ 32" using assms(2) by (simp add: algebra_simps)
  have "unat (push_bit log2_bytes x) = unat x * 2 ^ log2_bytes"
    using take_bit_nat_eq_self [OF lt] by (simp only: unsigned_push_bit_eq) (simp add: push_bit_eq_mult)
  then show ?thesis using le by (simp add: locality_offset_def x_def algebra_simps)
qed

lemma locality_probe_filter:
  assumes "num_lines \<noteq> 0" "log2_bytes + 3 < 31" "unat num_lines * 2 ^ log2_bytes < 2 ^ 32"
  shows "probe_filter (\<lambda>h. Locality_AddHash xr h num_lines k log2_bytes)
    (\<lambda>h. Locality_HashMayMatch xr h num_lines k log2_bytes)
    (locality_probes xr num_lines k log2_bytes) (unat num_lines * 2 ^ log2_bytes)"
proof
  fix data :: bytes and h p
  note bound = locality_offset_bound [OF assms(1,3), of xr h]
  show "Locality_AddHash xr h num_lines k log2_bytes data =
      Some (fold set_pos (locality_probes xr num_lines k log2_bytes h) data)"
    if "unat num_lines * 2 ^ log2_bytes \<le> length data"
    using Locality_AddHash_loop_sets [OF assms(2) order_trans [OF bound that]] assms(1)
    by (simp add: Locality_AddHash_def locality_probes_def GetLine_def umod_def locality_offset_def)
  show "Locality_HashMayMatch xr h num_lines k log2_bytes data =
      Some (\<forall>p\<in>set (locality_probes xr num_lines k log2_bytes h). test_pos data p)"
    if "unat num_lines * 2 ^ log2_bytes \<le> length data"
    using Locality_HashMayMatch_loop_tests [OF assms(2) order_trans [OF bound that]] assms(1)
    by (simp add: Locality_HashMayMatch_def Locality_HashMayMatchPrepared_def locality_probes_def
        GetLine_def umod_def locality_offset_def)
  show "p < 8 * (unat num_lines * 2 ^ log2_bytes)" if "p \<in> set (locality_probes xr num_lines k log2_bytes h)"
    using probe_list_bound [OF line_pos_bound] that bound
    by (fastforce simp: locality_probes_def intro: less_le_trans)
qed

end
