(* ===== verification/Bloom_Avx2.thy ===== *)
theory Bloom_Avx2
  imports Bloom_Impl
begin

text \<open>
  The AVX2 branch of \<^verbatim>\<open>FastLocalBloomImpl::HashMayMatchPrepared\<close> in \<^verbatim>\<open>util/bloom_impl.h\<close> and
  its agreement with the portable branch.  The eight 32-bit lanes of a 256-bit register are a list of eight
  words; the instructions act lane by lane as their documentation says.
\<close>

section \<open>Definitions\<close>

text \<open>The 256-bit registers and the instructions the query uses, lane by lane.\<close>

type_synonym m256i = "u32 list"

definition mm256_set1_epi32 :: "u32 \<Rightarrow> m256i" where
  "mm256_set1_epi32 a = replicate 8 a"

definition mm256_mullo_epi32 :: "m256i \<Rightarrow> m256i \<Rightarrow> m256i" where
  "mm256_mullo_epi32 a b = map2 (\<lambda>x y. x * y) a b"

definition mm256_sub_epi32 :: "m256i \<Rightarrow> m256i \<Rightarrow> m256i" where
  "mm256_sub_epi32 a b = map2 (\<lambda>x y. x - y) a b"

definition mm256_srli_epi32 :: "m256i \<Rightarrow> nat \<Rightarrow> m256i" where
  "mm256_srli_epi32 a n = map (drop_bit n) a"

definition mm256_slli_epi32 :: "m256i \<Rightarrow> nat \<Rightarrow> m256i" where
  "mm256_slli_epi32 a n = map (push_bit n) a"

definition mm256_srai_epi32 :: "m256i \<Rightarrow> nat \<Rightarrow> m256i" where
  "mm256_srai_epi32 a n = map (signed_drop_bit n) a"

definition mm256_sllv_epi32 :: "m256i \<Rightarrow> m256i \<Rightarrow> m256i" where
  "mm256_sllv_epi32 a n = map2 (\<lambda>x k. push_bit (unat k) x) a n"

definition mm256_permutevar8x32_epi32 :: "m256i \<Rightarrow> m256i \<Rightarrow> m256i" where
  "mm256_permutevar8x32_epi32 a idx = map (\<lambda>i. a ! unat (i AND 7)) idx"

text \<open>\<^verbatim>\<open>_mm256_blendv_epi8\<close> selects each byte by the top bit of the selector's byte.\<close>

definition blend_byte :: "u32 \<Rightarrow> nat \<Rightarrow> u32" where
  "blend_byte m k = (if bit m (8 * k + 7) then push_bit (8 * k) 0xff else 0)"

definition mm256_blendv_epi8 :: "m256i \<Rightarrow> m256i \<Rightarrow> m256i \<Rightarrow> m256i" where
  "mm256_blendv_epi8 a b m =
     map (\<lambda>(x, y, s).
       let sel = blend_byte s 0 OR blend_byte s 1 OR blend_byte s 2 OR blend_byte s 3
       in (x AND NOT sel) OR (y AND sel)) (zip a (zip b m))"

definition mm256_testc_si256 :: "m256i \<Rightarrow> m256i \<Rightarrow> bool" where
  "mm256_testc_si256 a b = list_all2 (\<lambda>x y. NOT x AND y = 0) a b"

text \<open>An unaligned load of 32 bytes; the lanes are little-endian.\<close>

definition mm256_loadu_si256 :: "nat \<Rightarrow> bytes \<Rightarrow> m256i option" where
  "mm256_loadu_si256 offset data =
     (if offset + 32 \<le> length data
      then Some (map (\<lambda>i. DecodeFixed32 (drop (offset + 4 * i) data)) [0..<8]) else None)"

definition multipliers :: m256i where
  "multipliers = [0x00000001, 0x9e3779b9, 0xe35e67b1, 0x734297e9,
                  0x35fbe861, 0xdeb7c719, 0x448b211, 0x3459b749]"

function HashMayMatchPrepared_avx2 :: "u32 \<Rightarrow> nat \<Rightarrow> nat \<Rightarrow> bytes \<Rightarrow> bool option" where
  "HashMayMatchPrepared_avx2 h rem_probes offset data = do {
     let hash_vector = mm256_mullo_epi32 (mm256_set1_epi32 h) multipliers;
     let word_addresses = mm256_srli_epi32 hash_vector 28;
     lower \<leftarrow> mm256_loadu_si256 offset data;
     upper \<leftarrow> mm256_loadu_si256 (offset + 32) data;
     let lower = mm256_permutevar8x32_epi32 lower word_addresses;
     let upper = mm256_permutevar8x32_epi32 upper word_addresses;
     let upper_lower_selector = mm256_srai_epi32 hash_vector 31;
     let value_vector = mm256_blendv_epi8 lower upper upper_lower_selector;
     let zero_to_seven = [0, 1, 2, 3, 4, 5, 6, 7];
     let k_selector = mm256_sub_epi32 zero_to_seven (mm256_set1_epi32 (of_nat rem_probes));
     let k_selector = mm256_srli_epi32 k_selector 31;
     let bit_addresses = mm256_slli_epi32 hash_vector 4;
     let bit_addresses = mm256_srli_epi32 bit_addresses 27;
     let bit_mask = mm256_sllv_epi32 k_selector bit_addresses;
     let match = mm256_testc_si256 value_vector bit_mask;
     if rem_probes \<le> 8 then Some match
     else if \<not> match then Some False
     else HashMayMatchPrepared_avx2 (h * 0xab25f4c1) (rem_probes - 8) offset data
   }"
  by pat_completeness auto
termination by (relation "measure (\<lambda>(h, rem_probes, offset, data). rem_probes)") auto

declare HashMayMatchPrepared_avx2.simps [simp del]

section \<open>Lanes\<close>

lemma lanes_map2: "map2 f (map a xs) (map b xs) = map (\<lambda>i. f (a i) (b i)) xs"
  by (induction xs) simp_all

lemma lanes_all2: "list_all2 P (map a xs) (map b xs) \<longleftrightarrow> (\<forall>i\<in>set xs. P (a i) (b i))"
  by (simp add: list_all2_map1 list_all2_map2 list.rel_map list_all2_same)

lemma eight_upt: "[0..<8] = [0, 1, 2, 3, 4, 5, 6, 7 :: nat]"
  by (simp add: upt_rec)

lemma multipliers_powers: "multipliers = map (\<lambda>i. 0x9e3779b9 ^ i) [0..<8]"
  by (simp add: multipliers_def eight_upt power_numeral_reduce)

lemma golden_ratio_8th: "(0x9e3779b9 :: u32) ^ 8 = 0xab25f4c1"
  by simp

lemma zero_to_seven_lanes: "[0, 1, 2, 3, 4, 5, 6, 7 :: u32] = map of_nat [0..<8]"
  by (simp add: eight_upt)

lemma set1_lanes: "mm256_set1_epi32 h = map (\<lambda>_. h) [0..<8]"
  by (simp add: mm256_set1_epi32_def eight_upt numeral_eq_Suc)

section \<open>One lane\<close>

lemma bit_DecodeFixed32:
  assumes "n < 32"
  shows "bit (DecodeFixed32 ptr) n \<longleftrightarrow> bit (ptr ! (n div 8)) (n mod 8)"
proof -
  consider "n div 8 = 0" | "n div 8 = 1" | "n div 8 = 2" | "n div 8 = 3" using assms by linarith
  then show ?thesis
    by cases (use assms in \<open>auto simp: DecodeFixed32_def bit_simps not_bit_byte modulo_nat_def\<close>)
qed

definition line_word :: "nat \<Rightarrow> bytes \<Rightarrow> nat \<Rightarrow> u32" where
  "line_word offset data w = DecodeFixed32 (drop (offset + 4 * w) data)"

lemma test_pos_line_word:
  assumes "P < 512" "offset + 64 \<le> length data"
  shows "test_pos data (8 * offset + P) \<longleftrightarrow> bit (line_word offset data (P div 32)) (P mod 32)"
proof -
  have split: "P mod 32 = 8 * (P div 8 mod 4) + P mod 8" "P div 32 = P div 8 div 4"
    using mod_mult2_eq [of P 8 4] div_mult2_eq [of P 8 4] by simp_all
  have "offset + 4 * (P div 32) + P mod 32 div 8 = offset + P div 8" by (simp add: split)
  moreover have "P mod 32 mod 8 = P mod 8" by (simp add: split)
  moreover have "offset + 4 * (P div 32) \<le> length data" using assms by linarith
  ultimately show ?thesis by (simp add: test_pos_def line_word_def bit_DecodeFixed32 add.assoc)
qed

lemma word_address: "unat (drop_bit 28 (x :: u32)) = unat (drop_bit 23 x) div 32"
  by (simp add: unat_drop_bit_div div_mult2_eq [symmetric])

lemma bit_address: "unat (drop_bit 27 (push_bit 4 (x :: u32))) = unat (drop_bit 23 x) mod 32"
proof -
  have "drop_bit 27 (push_bit 4 x) = take_bit 5 (drop_bit 23 x)"
    by (rule bit_word_eqI) (auto simp: bit_simps)
  then show ?thesis by (simp only: unat_take_bit_mod) simp
qed

text \<open>The selector is all ones or all zeros in a lane, so that the blend takes a whole lane.\<close>

lemma blend_lane:
  "(let sel = blend_byte (signed_drop_bit 31 x) 0 OR blend_byte (signed_drop_bit 31 x) 1
       OR blend_byte (signed_drop_bit 31 x) 2 OR blend_byte (signed_drop_bit 31 x) 3
    in (lo AND NOT sel) OR (hi AND sel)) = (if bit x 31 then hi else (lo :: u32))"
proof -
  have b: "bit (signed_drop_bit 31 x) n \<longleftrightarrow> bit x 31" if "n < 32" for n
    using that by (cases n) (auto simp: bit_simps)
  have full: "(0xffffffff :: u32) = - 1" "(- 4294967296 :: u32) = 0" by simp_all
  show ?thesis by (simp add: blend_byte_def b Let_def full)
qed

lemma nibble_split: "m < 16 \<Longrightarrow> m = (if odd (m div 8) then 8 else 0) + m mod (8 :: nat)"
  by presburger

lemma permuted_lane:
  "(if bit (x :: u32) 31 then line_word (offset + 32) data (unat (drop_bit 28 x AND 7))
    else line_word offset data (unat (drop_bit 28 x AND 7))) = line_word offset data (unat (drop_bit 28 x))"
proof -
  have u: "unat (drop_bit 28 x) = unat x div 2 ^ 28" by (rule unat_drop_bit_div)
  have "bit x 31 \<longleftrightarrow> odd (unat x div 2 ^ 31)"
    using bit_unsigned_iff [of x 31, where ?'a = nat] by (simp add: bit_iff_odd)
  moreover have "unat x div 2 ^ 31 = unat (drop_bit 28 x) div 8" by (simp add: u div_mult2_eq [symmetric])
  moreover have "unat x < 16 * 2 ^ 28" using unsigned_less [of x, where 'a = nat] by simp
  then have "unat (drop_bit 28 x) < 16" unfolding u by (rule less_mult_imp_div_less)
  ultimately have "unat (drop_bit 28 x) = (if bit x 31 then 8 else 0) + unat (drop_bit 28 x) mod 8"
    using nibble_split by simp
  then have "4 * unat (drop_bit 28 x) = (if bit x 31 then 32 else 0) + 4 * (unat (drop_bit 28 x) mod 8)"
    by (auto split: if_splits)
  then show ?thesis by (simp only: unat_and_7 line_word_def) (simp add: add.assoc)
qed

lemma uint_drop_bit_31: "uint (drop_bit 31 (w :: u32)) = uint w div 2 ^ 31"
  using arg_cong [OF unat_drop_bit_div [of 31 w], of int] by (simp only: uint_nat of_nat_div of_nat_power) simp

lemma selector_lane:
  assumes "i < 8" "k < 2 ^ 31"
  shows "drop_bit 31 (of_nat i - of_nat k :: u32) = (if i < k then 1 else 0)"
proof -
  have "uint (of_nat i - of_nat k :: u32) = (int i - int k) mod 2 ^ 32"
    by (simp add: uint_word_ariths(2) unsigned_of_nat take_bit_eq_mod zmod_int mod_simps)
  also have "\<dots> = (if i < k then 2 ^ 32 + int i - int k else int i - int k)"
  proof (cases "i < k")
    case True
    then have "(2 ^ 32 + int i - int k) mod 2 ^ 32 = 2 ^ 32 + int i - int k"
      using assms(2) by (intro mod_pos_pos_trivial) simp_all
    moreover have "(int i - int k) mod 2 ^ 32 = (2 ^ 32 + int i - int k) mod 2 ^ 32"
      using mod_add_self1 [of "2 ^ 32" "int i - int k"] by (simp only: add_diff_eq)
    ultimately show ?thesis using True by simp
  qed (use assms in \<open>simp add: mod_pos_pos_trivial\<close>)
  finally have "uint (drop_bit 31 (of_nat i - of_nat k :: u32)) =
    (if i < k then 2 ^ 32 + int i - int k else int i - int k) div 2 ^ 31"
    by (simp only: uint_drop_bit_31)
  also have "\<dots> = (if i < k then 1 else 0)" using assms by auto
  finally show ?thesis by (simp add: word_uint_eq_iff)
qed

lemma test_lane:
  "NOT v AND push_bit b (if c then 1 else 0) = 0 \<longleftrightarrow> (c \<longrightarrow> b < 32 \<longrightarrow> bit (v :: u32) b)"
  by (auto simp: and_exp_eq_0_iff_not_bit bit_simps)

section \<open>One round of eight probes\<close>

lemma load_lanes:
  assumes "offset + 32 \<le> length data"
  shows "mm256_loadu_si256 offset data = Some (map (line_word offset data) [0..<8])"
  using assms by (simp add: mm256_loadu_si256_def line_word_def)

lemma nth_lane: "map (line_word offset data) [0..<8] ! unat ((x :: u32) AND 7) = line_word offset data (unat (x AND 7))"
  by (simp add: unat_and_7)

lemma zip3_lanes: "zip (map a xs) (zip (map b xs) (map c xs)) = map (\<lambda>i. (a i, b i, c i)) xs"
  by (induction xs) simp_all

text \<open>Each instruction on registers given lane by lane.\<close>

lemma instruction_lanes:
  "mm256_mullo_epi32 (map a xs) (map b xs) = map (\<lambda>i. a i * b i) xs"
  "mm256_sub_epi32 (map a xs) (map b xs) = map (\<lambda>i. a i - b i) xs"
  "mm256_srli_epi32 (map a xs) n = map (\<lambda>i. drop_bit n (a i)) xs"
  "mm256_slli_epi32 (map a xs) n = map (\<lambda>i. push_bit n (a i)) xs"
  "mm256_srai_epi32 (map a xs) n = map (\<lambda>i. signed_drop_bit n (a i)) xs"
  "mm256_sllv_epi32 (map a xs) (map b xs) = map (\<lambda>i. push_bit (unat (b i)) (a i)) xs"
  "mm256_testc_si256 (map a xs) (map b xs) \<longleftrightarrow> (\<forall>i\<in>set xs. NOT (a i) AND b i = 0)"
  by (simp_all only: mm256_mullo_epi32_def mm256_sub_epi32_def mm256_srli_epi32_def mm256_slli_epi32_def
      mm256_srai_epi32_def mm256_sllv_epi32_def mm256_testc_si256_def lanes_map2 lanes_all2 list.map_comp comp_def)

lemma permute_lanes:
  "mm256_permutevar8x32_epi32 (map (line_word offset data) [0..<8]) (map a xs) =
   map (\<lambda>i. line_word offset data (unat (a i AND 7))) xs"
  by (simp only: mm256_permutevar8x32_epi32_def list.map_comp comp_def nth_lane)

lemma blend_lanes:
  "mm256_blendv_epi8 (map lo xs) (map hi xs) (map (\<lambda>i. signed_drop_bit 31 (a i)) xs) =
   map (\<lambda>i. if bit (a i) 31 then hi i else lo i) xs"
  by (simp only: mm256_blendv_epi8_def zip3_lanes list.map_comp comp_def prod.case blend_lane)

lemmas avx2_lanes = instruction_lanes permute_lanes blend_lanes set1_lanes multipliers_powers zero_to_seven_lanes

definition probe_hits :: "nat \<Rightarrow> bytes \<Rightarrow> u32 \<Rightarrow> nat \<Rightarrow> bool" where
  "probe_hits offset data h i = test_pos data (fast_pos offset (h * 0x9e3779b9 ^ i))"

lemma lane_matches:
  assumes "offset + 64 \<le> length data" "i < 8" "k < 2 ^ 31"
  shows "NOT (if bit x 31 then line_word (offset + 32) data (unat (drop_bit 28 x AND 7))
      else line_word offset data (unat (drop_bit 28 x AND 7))) AND
      push_bit (unat (drop_bit 27 (push_bit 4 x))) (drop_bit 31 (of_nat i - of_nat k :: u32)) = 0 \<longleftrightarrow>
    (i < k \<longrightarrow> test_pos data (fast_pos offset x))"
  unfolding permuted_lane selector_lane [OF assms(2,3)] test_lane
  using test_pos_line_word [OF unat_bitpos_less [of x] assms(1)]
  by (simp add: word_address bit_address fast_pos_def)

lemma avx2_round:
  assumes "offset + 64 \<le> length data" "rem_probes < 2 ^ 31"
  shows "HashMayMatchPrepared_avx2 h rem_probes offset data =
    (let match = (\<forall>i<8. i < rem_probes \<longrightarrow> probe_hits offset data h i)
     in if rem_probes \<le> 8 then Some match else if \<not> match then Some False
        else HashMayMatchPrepared_avx2 (h * 0xab25f4c1) (rem_probes - 8) offset data)"
proof -
  have l: "offset + 32 \<le> length data" "offset + 32 + 32 \<le> length data" using assms(1) by simp_all
  show ?thesis
    by (subst HashMayMatchPrepared_avx2.simps)
      (simp only: load_lanes [OF l(1)] load_lanes [OF l(2)] Option.bind.simps Let_def avx2_lanes set_upt
        atLeastLessThan_iff le0 simp_thms Ball_def lane_matches [OF assms(1) _ assms(2)] probe_hits_def cong: imp_cong)
qed

lemma probe_list_powers:
  "set (probe_list pos (\<lambda>h. h * g) k h) = (\<lambda>i. pos (h * g ^ i)) ` {..<k}"
  by (induction k arbitrary: h) (simp_all add: lessThan_Suc_eq_insert_0 image_image mult.assoc)

lemma portable_probe_hits:
  assumes "offset + 64 \<le> length data"
  shows "HashMayMatchPrepared h k offset data = Some (\<forall>i<k. probe_hits offset data h i)"
  by (auto simp: HashMayMatchPrepared_tests [OF assms] probe_list_powers probe_hits_def)

lemma probe_hits_shift: "probe_hits offset data (h * 0xab25f4c1) i \<longleftrightarrow> probe_hits offset data h (i + 8)"
  by (simp only: probe_hits_def golden_ratio_8th [symmetric] power_add mult.assoc) (simp add: mult.commute)

lemma all_less_split: "8 < k \<Longrightarrow> (\<forall>i<k. P i) \<longleftrightarrow> (\<forall>i<8. P i) \<and> (\<forall>i<k - 8. P (i + (8 :: nat)))"
  by (metis add.commute le_add_diff_inverse less_diff_conv2 less_diff_conv less_imp_le less_trans not_less)

section \<open>Properties\<close>

text \<open>C21: The two branches of the query agree: on a cache line of 64 bytes inside the filter the AVX2
  rounds of eight probes return what the portable loop returns, for every hash and every number of probes an
  \<^verbatim>\<open>int\<close> can hold; both read inside the line.\<close>

theorem avx2_query_agrees:
  "offset + 64 \<le> length data \<Longrightarrow> num_probes < 2 ^ 31 \<Longrightarrow>
   HashMayMatchPrepared_avx2 h num_probes offset data = HashMayMatchPrepared h num_probes offset data \<and>
   HashMayMatchPrepared h num_probes offset data \<noteq> None"
proof (induction num_probes arbitrary: h rule: less_induct)
  case (less k)
  show ?case
  proof (cases "k \<le> 8")
    case True
    then have "(\<forall>i<8. i < k \<longrightarrow> probe_hits offset data h i) \<longleftrightarrow> (\<forall>i<k. probe_hits offset data h i)" by auto
    then show ?thesis using True less.prems by (simp add: avx2_round portable_probe_hits)
  next
    case False
    then have k: "8 < k" by simp
    have "HashMayMatchPrepared_avx2 (h * 0xab25f4c1) (k - 8) offset data =
      Some (\<forall>i<k - 8. probe_hits offset data h (i + 8))"
      using less.IH [of "k - 8" "h * 0xab25f4c1"] k less.prems
      by (simp add: portable_probe_hits probe_hits_shift)
    then show ?thesis
      using k less.prems all_less_split [OF k, of "probe_hits offset data h"]
      by (auto simp: avx2_round portable_probe_hits)
  qed
qed

theorem avx2_query_agrees_witness:
  "HashMayMatchPrepared_avx2 0x12345678 11 0 (replicate 64 0xff) = Some True"
proof -
  have "HashMayMatchPrepared 0x12345678 11 0 (replicate 64 0xff) = Some True" by code_simp
  then show ?thesis using avx2_query_agrees [of 0 "replicate 64 0xff" 11 "0x12345678"] by simp
qed

end
