(* ===== verification/Filter_Policy.thy ===== *)
theory Filter_Policy
  imports Bloom_Impl
begin

text \<open>
  The built-in Bloom filter policy, \<^verbatim>\<open>table/block_based/filter_policy.cc\<close>: the two builders that
  collect the hashes of the keys and lay out a filter, the readers, and the policy that chooses a builder from
  the options and a reader from the metadata at the end of a filter.

  \<^verbatim>\<open>Hash64\<close>, an XXH3 hash, is an argument \<open>hash64\<close>: every theorem holds for any hash function.
  \<^verbatim>\<open>CACHE_LINE_SIZE\<close>, a macro of the platform, is an argument \<open>cls\<close>; a filter may be written on one
  platform and read on another.  The \<^verbatim>\<open>double\<close> arithmetic of the policy's constructor and of the legacy
  number of probes are arguments too.  A failed assertion, an access outside a buffer, a shift by the width or more and
  a division by zero are None.  The false-positive estimates and the warnings logged from them are not modelled:
  they change no filter.
\<close>

section \<open>Definitions\<close>

subsection \<open>FastLocalBloomBitsBuilder\<close>

record FastLocalBloomBitsBuilder =
  millibits_per_key :: int
  num_probes :: int
  hash_entries :: "u64 list"

definition FastLocalBloomBitsBuilder_new :: "int \<Rightarrow> FastLocalBloomBitsBuilder option" where
  "FastLocalBloomBitsBuilder_new millibits = do {
     assert (millibits \<ge> 1000);
     Some \<lparr>millibits_per_key = millibits, num_probes = ChooseNumProbes millibits, hash_entries = []\<rparr>
   }"

text \<open>Both builders drop a hash equal to the last one added.\<close>

definition FastLocal_AddKey ::
  "(bytes \<Rightarrow> u64) \<Rightarrow> bytes \<Rightarrow> FastLocalBloomBitsBuilder \<Rightarrow> FastLocalBloomBitsBuilder" where
  "FastLocal_AddKey hash64 key b =
     (let hash = hash64 key
      in if hash_entries b = [] \<or> hash \<noteq> last (hash_entries b)
         then b\<lparr>hash_entries := hash_entries b @ [hash]\<rparr> else b)"

definition FastLocal_CalculateNumEntry :: "FastLocalBloomBitsBuilder \<Rightarrow> u32 \<Rightarrow> int" where
  "FastLocal_CalculateNumEntry b bytes =
     (let bytes_no_meta = (if bytes \<ge> 5 then bytes - 5 else 0)
      in sint (ucast ((8000 * ucast bytes_no_meta :: u64) div word_of_int (millibits_per_key b)) :: u32))"

definition FastLocal_CalculateSpace :: "FastLocalBloomBitsBuilder \<Rightarrow> int \<Rightarrow> u32" where
  "FastLocal_CalculateSpace b num_entry =
     (let num_cache_lines =
            (if millibits_per_key b > 0 \<and> num_entry > 0
             then word_of_int ((num_entry * millibits_per_key b + 511999) div 512000) else 0)
      in num_cache_lines * 64 + 5)"

text \<open>The ring buffers of \<^verbatim>\<open>AddAllEntries\<close>: hashes and byte offsets of the entries that are prefetched
  but not yet added.  An element is read only after it was written, so that the initial contents do not matter.\<close>

definition kBufferMask :: nat where
  "kBufferMask = 7"

function prime_buffer ::
  "u32 \<Rightarrow> nat \<Rightarrow> nat \<Rightarrow> u64 list \<Rightarrow> u32 list \<Rightarrow> u32 list \<Rightarrow> (nat \<times> u64 list \<times> u32 list \<times> u32 list) option" where
  "prime_buffer len num_entries i entries hashes byte_offsets =
     (if i \<le> kBufferMask \<and> i < num_entries then
        (case entries of
           [] \<Rightarrow> None
         | h # rest \<Rightarrow>
             prime_buffer len num_entries (i + 1) rest
               (hashes[i := Upper32of64 h]) (byte_offsets[i := PrepareHash (Lower32of64 h) len]))
      else Some (i, entries, hashes, byte_offsets))"
  by pat_completeness auto
termination by (relation "measure (\<lambda>(len, num_entries, i, rest). num_entries - i)") auto

function process_buffer ::
  "u32 \<Rightarrow> nat \<Rightarrow> nat \<Rightarrow> nat \<Rightarrow> u64 list \<Rightarrow> u32 list \<Rightarrow> u32 list \<Rightarrow> bytes \<Rightarrow>
   (u64 list \<times> u32 list \<times> u32 list \<times> bytes) option" where
  "process_buffer len probes num_entries i entries hashes byte_offsets data =
     (if i < num_entries then do {
        let slot = i AND kBufferMask;
        data \<leftarrow> AddHashPrepared (hashes ! slot) probes (unat (byte_offsets ! slot)) data;
        (case entries of
           [] \<Rightarrow> None
         | h # rest \<Rightarrow>
             process_buffer len probes num_entries (i + 1) rest
               (hashes[slot := Upper32of64 h]) (byte_offsets[slot := PrepareHash (Lower32of64 h) len]) data)
      } else Some (entries, hashes, byte_offsets, data))"
  by pat_completeness auto
termination by (relation "measure (\<lambda>(len, probes, num_entries, i, rest). num_entries - i)") auto

function finish_buffer :: "nat \<Rightarrow> nat \<Rightarrow> nat \<Rightarrow> u32 list \<Rightarrow> u32 list \<Rightarrow> bytes \<Rightarrow> bytes option" where
  "finish_buffer probes num_entries i hashes byte_offsets data =
     (if i \<le> kBufferMask \<and> i < num_entries then do {
        data \<leftarrow> AddHashPrepared (hashes ! i) probes (unat (byte_offsets ! i)) data;
        finish_buffer probes num_entries (i + 1) hashes byte_offsets data
      } else Some data)"
  by pat_completeness auto
termination by (relation "measure (\<lambda>(probes, num_entries, i, rest). num_entries - i)") auto

declare prime_buffer.simps [simp del] process_buffer.simps [simp del] finish_buffer.simps [simp del]

definition AddAllEntries ::
  "bytes \<Rightarrow> u32 \<Rightarrow> FastLocalBloomBitsBuilder \<Rightarrow> (bytes \<times> FastLocalBloomBitsBuilder) option" where
  "AddAllEntries data len b = do {
     let num_entries = length (hash_entries b);
     let probes = nat (num_probes b);
     (i, entries, hashes, byte_offsets) \<leftarrow>
       prime_buffer len num_entries 0 (hash_entries b) (replicate (kBufferMask + 1) 0) (replicate (kBufferMask + 1) 0);
     (entries, hashes, byte_offsets, data) \<leftarrow>
       process_buffer len probes num_entries i entries hashes byte_offsets data;
     data \<leftarrow> finish_buffer probes num_entries 0 hashes byte_offsets data;
     Some (data, b\<lparr>hash_entries := entries\<rparr>)
   }"

text \<open>\<^verbatim>\<open>data[i] = c\<close>.\<close>

definition put_byte :: "nat \<Rightarrow> byte \<Rightarrow> bytes \<Rightarrow> bytes option" where
  "put_byte i c data = (if i < length data then Some (data[i := c]) else None)"

definition FastLocal_Finish :: "FastLocalBloomBitsBuilder \<Rightarrow> (bytes \<times> FastLocalBloomBitsBuilder) option" where
  "FastLocal_Finish b = do {
     let len_with_metadata = FastLocal_CalculateSpace b (sint (of_nat (length (hash_entries b)) :: u32));
     let data = replicate (unat len_with_metadata) 0;
     assert (len_with_metadata \<ge> 5);
     let len = len_with_metadata - 5;
     (data, b) \<leftarrow> (if len > 0 then AddAllEntries data len b else Some (data, b));
     data \<leftarrow> put_byte (unat len) 0xff data;
     data \<leftarrow> put_byte (unat (len + 1)) 0 data;
     data \<leftarrow> put_byte (unat (len + 2)) (word_of_int (num_probes b)) data;
     assert (hash_entries b = []);
     Some (data, b)
   }"

subsection \<open>LegacyBloomBitsBuilder\<close>

record LegacyBloomBitsBuilder =
  bits_per_key :: int
  legacy_probes :: int
  legacy_entries :: "u32 list"

definition LegacyBloomBitsBuilder_new :: "(int \<Rightarrow> int) \<Rightarrow> int \<Rightarrow> LegacyBloomBitsBuilder option" where
  "LegacyBloomBitsBuilder_new trunc_069 bits = do {
     assert (bits \<noteq> 0);
     Some \<lparr>bits_per_key = bits, legacy_probes = NoLocality_ChooseNumProbes trunc_069 bits, legacy_entries = []\<rparr>
   }"

definition Legacy_AddKey :: "bytes \<Rightarrow> LegacyBloomBitsBuilder \<Rightarrow> LegacyBloomBitsBuilder" where
  "Legacy_AddKey key b =
     (let hash = BloomHash key
      in if length (legacy_entries b) = 0 \<or> hash \<noteq> last (legacy_entries b)
         then b\<lparr>legacy_entries := legacy_entries b @ [hash]\<rparr> else b)"

definition GetTotalBitsForLocality :: "u32 \<Rightarrow> u32 \<Rightarrow> u32" where
  "GetTotalBitsForLocality cls total_bits =
     (let num_lines = (total_bits + cls * 8 - 1) div (cls * 8);
          num_lines = (if num_lines mod 2 = 0 then num_lines + 1 else num_lines)
      in num_lines * (cls * 8))"

text \<open>The product of the number of entries and the bits per key is an \<^verbatim>\<open>int\<close>: None if it overflows.\<close>

definition Legacy_CalculateSpace :: "u32 \<Rightarrow> LegacyBloomBitsBuilder \<Rightarrow> int \<Rightarrow> (u32 \<times> u32 \<times> u32) option" where
  "Legacy_CalculateSpace cls b num_entry = do {
     assert (bits_per_key b \<noteq> 0);
     (total_bits, num_lines) \<leftarrow>
       (if num_entry \<noteq> 0 then do {
          assert (- (2 ^ 31) \<le> num_entry * bits_per_key b \<and> num_entry * bits_per_key b < 2 ^ 31);
          let total_bits_tmp = word_of_int (num_entry * bits_per_key b);
          let total_bits = GetTotalBitsForLocality cls total_bits_tmp;
          let num_lines = total_bits div (cls * 8);
          assert (total_bits > 0 \<and> total_bits mod 8 = 0);
          Some (total_bits, num_lines)
        } else Some (0, 0));
     Some (total_bits div 8 + 5, total_bits, num_lines)
   }"

definition ReserveSpace :: "u32 \<Rightarrow> LegacyBloomBitsBuilder \<Rightarrow> int \<Rightarrow> (bytes \<times> u32 \<times> u32) option" where
  "ReserveSpace cls b num_entry = do {
     (sz, total_bits, num_lines) \<leftarrow> Legacy_CalculateSpace cls b num_entry;
     Some (replicate (unat sz) 0, total_bits, num_lines)
   }"

fun num_entry_loop :: "u32 \<Rightarrow> LegacyBloomBitsBuilder \<Rightarrow> u32 \<Rightarrow> nat \<Rightarrow> nat option" where
  "num_entry_loop cls b bytes 0 = Some 0"
| "num_entry_loop cls b bytes (Suc m) = do {
     (sz, _) \<leftarrow> Legacy_CalculateSpace cls b (int (Suc m));
     if sz \<le> bytes then Some (Suc m) else num_entry_loop cls b bytes m
   }"

definition Legacy_CalculateNumEntry :: "u32 \<Rightarrow> LegacyBloomBitsBuilder \<Rightarrow> u32 \<Rightarrow> int option" where
  "Legacy_CalculateNumEntry cls b bytes = do {
     assert (bits_per_key b \<noteq> 0);
     assert (bytes > 0);
     let high = sint (bytes * 8 div word_of_int (bits_per_key b) + 1);
     n \<leftarrow> (if high \<ge> 1 then map_option int (num_entry_loop cls b bytes (nat high)) else Some high);
     assert (n < high);
     Some n
   }"

text \<open>\<^verbatim>\<open>folly::constexpr_log2\<close>; it does not return on 0.\<close>

partial_function (option) log2_detail :: "nat \<Rightarrow> u32 \<Rightarrow> nat option" where
  [code]: "log2_detail a e = (if e = 1 then Some a else log2_detail (a + 1) (e div 2))"

definition constexpr_log2 :: "u32 \<Rightarrow> nat option" where
  "constexpr_log2 t = log2_detail 0 t"

definition Legacy_AddHash :: "u32 \<Rightarrow> LegacyBloomBitsBuilder \<Rightarrow> u32 \<Rightarrow> u32 \<Rightarrow> u32 \<Rightarrow> bytes \<Rightarrow> bytes option" where
  "Legacy_AddHash cls b num_lines total_bits h data = do {
     assert (num_lines > 0 \<and> total_bits > 0);
     log2_cls \<leftarrow> constexpr_log2 cls;
     Locality_AddHash False h num_lines (nat (legacy_probes b)) log2_cls data
   }"

text \<open>\<^verbatim>\<open>EncodeFixed32(data + i, v)\<close>.\<close>

definition put_fixed32 :: "nat \<Rightarrow> u32 \<Rightarrow> bytes \<Rightarrow> bytes option" where
  "put_fixed32 i v data =
     (if i + 4 \<le> length data then Some (take i data @ EncodeFixed32 v @ drop (i + 4) data) else None)"

definition Legacy_Finish :: "u32 \<Rightarrow> LegacyBloomBitsBuilder \<Rightarrow> (bytes \<times> LegacyBloomBitsBuilder) option" where
  "Legacy_Finish cls b = do {
     let num_entries = length (legacy_entries b);
     (data, total_bits, num_lines) \<leftarrow> ReserveSpace cls b (sint (of_nat num_entries :: u32));
     data \<leftarrow> (if total_bits \<noteq> 0 \<and> num_lines \<noteq> 0
              then add_all (Legacy_AddHash cls b num_lines total_bits) (legacy_entries b) data
              else Some data);
     data \<leftarrow> put_byte (unat (total_bits div 8)) (word_of_int (legacy_probes b)) data;
     data \<leftarrow> put_fixed32 (unat (total_bits div 8) + 1) num_lines data;
     Some (take (unat (total_bits div 8 + 5)) data, b\<lparr>legacy_entries := []\<rparr>)
   }"

subsection \<open>Readers\<close>

datatype FilterBitsReader =
    AlwaysTrueFilter
  | AlwaysFalseFilter
  | FastLocalBloomBitsReader bytes nat u32
  | LegacyBloomBitsReader bytes nat u32 nat

fun MayMatch :: "(bytes \<Rightarrow> u64) \<Rightarrow> FilterBitsReader \<Rightarrow> bytes \<Rightarrow> bool option" where
  "MayMatch hash64 AlwaysTrueFilter key = Some True"
| "MayMatch hash64 AlwaysFalseFilter key = Some False"
| "MayMatch hash64 (FastLocalBloomBitsReader data probes len_bytes) key =
     (let h = hash64 key; byte_offset = PrepareHash (Lower32of64 h) len_bytes
      in HashMayMatchPrepared (Upper32of64 h) probes (unat byte_offset) data)"
| "MayMatch hash64 (LegacyBloomBitsReader data probes num_lines log2_cls) key = do {
     let hash = BloomHash key;
     byte_offset \<leftarrow> PrepareHashMayMatch False hash num_lines log2_cls;
     Locality_HashMayMatchPrepared False hash probes log2_cls (unat byte_offset) data
   }"

text \<open>The batched query fills two arrays of \<^verbatim>\<open>MultiGetContext::MAX_BATCH_SIZE\<close> elements and then
  probes; the two trivial readers inherit the loop of the base class.\<close>

definition MAX_BATCH_SIZE :: nat where
  "MAX_BATCH_SIZE = 32"

primrec map_opt :: "('a \<Rightarrow> 'b option) \<Rightarrow> 'a list \<Rightarrow> 'b list option" where
  "map_opt f [] = Some []"
| "map_opt f (x # xs) = do { y \<leftarrow> f x; ys \<leftarrow> map_opt f xs; Some (y # ys) }"

fun MayMatch_batch :: "(bytes \<Rightarrow> u64) \<Rightarrow> FilterBitsReader \<Rightarrow> bytes list \<Rightarrow> bool list option" where
  "MayMatch_batch hash64 (FastLocalBloomBitsReader data probes len_bytes) keys = do {
     assert (length keys \<le> MAX_BATCH_SIZE);
     let byte_offsets = map (\<lambda>key. PrepareHash (Lower32of64 (hash64 key)) len_bytes) keys;
     let hashes = map (\<lambda>key. Upper32of64 (hash64 key)) keys;
     map_opt (\<lambda>i. HashMayMatchPrepared (hashes ! i) probes (unat (byte_offsets ! i)) data) [0..<length keys]
   }"
| "MayMatch_batch hash64 (LegacyBloomBitsReader data probes num_lines log2_cls) keys = do {
     assert (length keys \<le> MAX_BATCH_SIZE);
     let hashes = map BloomHash keys;
     byte_offsets \<leftarrow> map_opt (\<lambda>h. PrepareHashMayMatch False h num_lines log2_cls) hashes;
     map_opt (\<lambda>i. Locality_HashMayMatchPrepared False (hashes ! i) probes log2_cls (unat (byte_offsets ! i)) data)
       [0..<length keys]
   }"
| "MayMatch_batch hash64 r keys = map_opt (MayMatch hash64 r) keys"

subsection \<open>BloomFilterPolicy\<close>

datatype Mode = kLegacyBloom | kDeprecatedBlock | kFastLocalBloom | kAuto

record BloomFilterPolicy =
  policy_millibits_per_key :: int
  whole_bits_per_key :: int
  mode :: Mode
  warned :: bool

text \<open>What the constructor uses of \<^verbatim>\<open>double\<close>: the order, the constants 1.0 and 100.0, and
  \<^verbatim>\<open>static_cast<int>(x * 1000.0 + 0.500001)\<close>.\<close>

definition BloomFilterPolicy_new ::
  "('d \<Rightarrow> 'd \<Rightarrow> bool) \<Rightarrow> 'd \<Rightarrow> 'd \<Rightarrow> ('d \<Rightarrow> int) \<Rightarrow> 'd \<Rightarrow> Mode \<Rightarrow> BloomFilterPolicy" where
  "BloomFilterPolicy_new dlt d1 d100 to_millibits bits m =
     (let bits = (if dlt bits d1 then d1 else if \<not> dlt bits d100 then d100 else bits);
          millibits = to_millibits bits
      in \<lparr>policy_millibits_per_key = millibits, whole_bits_per_key = (millibits + 500) div 1000, mode = m, warned = False\<rparr>)"

definition NewBloomFilterPolicy ::
  "('d \<Rightarrow> 'd \<Rightarrow> bool) \<Rightarrow> 'd \<Rightarrow> 'd \<Rightarrow> ('d \<Rightarrow> int) \<Rightarrow> 'd \<Rightarrow> bool \<Rightarrow> BloomFilterPolicy" where
  "NewBloomFilterPolicy dlt d1 d100 to_millibits bits use_block_based_builder =
     (let m = (if use_block_based_builder then kDeprecatedBlock else kAuto)
      in BloomFilterPolicy_new dlt d1 d100 to_millibits bits m)"

definition CreateFilter :: "(int \<Rightarrow> int) \<Rightarrow> BloomFilterPolicy \<Rightarrow> bytes list \<Rightarrow> bytes \<Rightarrow> bytes option" where
  "CreateFilter trunc_069 p keys dst = do {
     assert (mode p = kDeprecatedBlock);
     let n = int (length keys);
     assert (n * whole_bits_per_key p < 2 ^ 31);
     let bits = (word_of_int (n * whole_bits_per_key p) :: u32);
     let bits = (if bits < 64 then 64 else bits);
     let bytes = (bits + 7) div 8;
     let bits = bytes * 8;
     let probes = NoLocality_ChooseNumProbes trunc_069 (whole_bits_per_key p);
     let array = replicate (unat bytes) 0 @ [word_of_int probes];
     array \<leftarrow> add_all (\<lambda>key. NoLocality_AddHash (BloomHash key) bits (nat probes)) keys array;
     Some (dst @ array)
   }"

definition KeyMayMatch :: "bytes \<Rightarrow> bytes \<Rightarrow> bool option" where
  "KeyMayMatch key bloom_filter =
     (let len = length bloom_filter
      in if len < 2 \<or> len > 0xffffffff then Some False
         else let bits = (of_nat (len - 1) :: u32) * 8;
                  k = unat (bloom_filter ! (len - 1))
              in if k > 30 then Some True
                 else NoLocality_HashMayMatch (BloomHash key) bits k bloom_filter)"

datatype FilterBitsBuilder =
    FastLocalBuilder FastLocalBloomBitsBuilder
  | LegacyBuilder LegacyBloomBitsBuilder

text \<open>The outer option is a failed assertion; a builder None is the null pointer.  The \<^verbatim>\<open>for\<close> loop
  runs the switch at most twice: \<^verbatim>\<open>kAuto\<close> only resolves the mode.  The warning about a legacy filter
  with many bits per key is logged once; the policy remembers that it was.\<close>

fun builder_switch ::
  "(int \<Rightarrow> int) \<Rightarrow> bool \<Rightarrow> nat \<Rightarrow> nat \<Rightarrow> Mode \<Rightarrow> BloomFilterPolicy \<Rightarrow>
   (FilterBitsBuilder option \<times> BloomFilterPolicy) option" where
  "builder_switch trunc_069 has_log format_version 0 cur p = None"
| "builder_switch trunc_069 has_log format_version (Suc i) kAuto p =
     builder_switch trunc_069 has_log format_version i (if format_version < 5 then kLegacyBloom else kFastLocalBloom) p"
| "builder_switch trunc_069 has_log format_version (Suc i) kDeprecatedBlock p = Some (None, p)"
| "builder_switch trunc_069 has_log format_version (Suc i) kFastLocalBloom p = do {
     b \<leftarrow> FastLocalBloomBitsBuilder_new (policy_millibits_per_key p);
     Some (Some (FastLocalBuilder b), p)
   }"
| "builder_switch trunc_069 has_log format_version (Suc i) kLegacyBloom p = do {
     let p = (if whole_bits_per_key p \<ge> 14 \<and> has_log \<and> \<not> warned p then p\<lparr>warned := True\<rparr> else p);
     b \<leftarrow> LegacyBloomBitsBuilder_new trunc_069 (whole_bits_per_key p);
     Some (Some (LegacyBuilder b), p)
   }"

definition GetBuilderWithContext ::
  "(int \<Rightarrow> int) \<Rightarrow> bool \<Rightarrow> nat \<Rightarrow> BloomFilterPolicy \<Rightarrow> (FilterBitsBuilder option \<times> BloomFilterPolicy) option" where
  "GetBuilderWithContext trunc_069 has_log format_version p =
     builder_switch trunc_069 has_log format_version 2 (mode p) p"

fun AddKey :: "(bytes \<Rightarrow> u64) \<Rightarrow> bytes \<Rightarrow> FilterBitsBuilder \<Rightarrow> FilterBitsBuilder" where
  "AddKey hash64 key (FastLocalBuilder b) = FastLocalBuilder (FastLocal_AddKey hash64 key b)"
| "AddKey hash64 key (LegacyBuilder b) = LegacyBuilder (Legacy_AddKey key b)"

fun Finish :: "u32 \<Rightarrow> FilterBitsBuilder \<Rightarrow> (bytes \<times> FilterBitsBuilder) option" where
  "Finish cls (FastLocalBuilder b) = map_option (map_prod id FastLocalBuilder) (FastLocal_Finish b)"
| "Finish cls (LegacyBuilder b) = map_option (map_prod id LegacyBuilder) (Legacy_Finish cls b)"

text \<open>The reader of a new-style filter.  \<^verbatim>\<open>block_and_probes >> 5\<close> on a \<^verbatim>\<open>char\<close> may be an arithmetic
  shift; the mask with 7 keeps the same three bits either way.\<close>

definition GetBloomBitsReader :: "bytes \<Rightarrow> FilterBitsReader option" where
  "GetBloomBitsReader contents = do {
     let len_with_meta = (of_nat (length contents) :: u32);
     let len = len_with_meta - 5;
     assert (len > 0);
     let sub_impl_val = contents ! unat (len_with_meta - 4);
     let block_and_probes = contents ! unat (len_with_meta - 3);
     let log2_block_bytes = unat (drop_bit 5 block_and_probes AND 7) + 6;
     let probes = unat (block_and_probes AND 31);
     if probes < 1 \<or> probes > 30 then Some AlwaysTrueFilter
     else do {
       let rest = DecodeFixed16 (drop (unat (len_with_meta - 2)) contents);
       if rest \<noteq> 0 then Some AlwaysTrueFilter
       else if sub_impl_val = 0 \<and> log2_block_bytes = 6 then Some (FastLocalBloomBitsReader contents probes len)
       else Some AlwaysTrueFilter
     }
   }"

text \<open>\<^verbatim>\<open>while ((num_lines << log2_cache_line_size) < len) ++log2_cache_line_size;\<close>\<close>

function log2_line_loop :: "u32 \<Rightarrow> u32 \<Rightarrow> nat \<Rightarrow> nat option" where
  "log2_line_loop num_lines len k =
     (if 32 \<le> k then None
      else if push_bit k num_lines < len then log2_line_loop num_lines len (k + 1)
      else Some k)"
  by pat_completeness auto
termination by (relation "measure (\<lambda>(num_lines, len, k). 32 - k)") auto

declare log2_line_loop.simps [simp del]

definition GetFilterBitsReader :: "u32 \<Rightarrow> bytes \<Rightarrow> FilterBitsReader option" where
  "GetFilterBitsReader cls contents = do {
     let len_with_meta = (of_nat (length contents) :: u32);
     if len_with_meta \<le> 5 then Some AlwaysFalseFilter
     else do {
       let raw_num_probes = sint (contents ! unat (len_with_meta - 5));
       if raw_num_probes < 1 then
         (if raw_num_probes = - 1 then GetBloomBitsReader contents else Some AlwaysTrueFilter)
       else do {
         assert (raw_num_probes \<le> 127);
         let len = len_with_meta - 5;
         assert (len > 0);
         let num_lines = DecodeFixed32 (drop (unat (len_with_meta - 4)) contents);
         if num_lines * cls = len then do {
           log2_cls \<leftarrow> constexpr_log2 cls;
           Some (LegacyBloomBitsReader contents (nat raw_num_probes) num_lines log2_cls)
         }
         else if num_lines = 0 \<or> len mod num_lines \<noteq> 0 then Some AlwaysTrueFilter
         else do {
           log2_cls \<leftarrow> log2_line_loop num_lines len 0;
           if push_bit log2_cls num_lines \<noteq> len then Some AlwaysTrueFilter
           else Some (LegacyBloomBitsReader contents (nat raw_num_probes) num_lines log2_cls)
         }
       }
     }
   }"

end
