(* ===== verification/Filter_Fast.thy ===== *)
theory Filter_Fast
  imports Filter_Policy
begin

text \<open>
  The prefetching loops of \<^verbatim>\<open>FastLocalBloomBitsBuilder::AddAllEntries\<close> add every collected hash exactly as
  the simple loop in the comment above them: the ring buffer holds the last eight entries, and since adding only
  sets bits, the order in which they leave the buffer does not matter.
\<close>

section \<open>Adding one entry\<close>

definition fast_add :: "u32 \<Rightarrow> nat \<Rightarrow> u64 \<Rightarrow> bytes \<Rightarrow> bytes option" where
  "fast_add len k h = FastLocal_AddHash (Lower32of64 h) (Upper32of64 h) len k"

definition fast_may :: "u32 \<Rightarrow> nat \<Rightarrow> u64 \<Rightarrow> bytes \<Rightarrow> bool option" where
  "fast_may len k h = FastLocal_HashMayMatch (Lower32of64 h) (Upper32of64 h) len k"

interpretation fast_entry: probe_filter "fast_add len k" "fast_may len k"
  "\<lambda>h. fast_probes len k (Lower32of64 h, Upper32of64 h)" "max 64 (unat len)"
  for len k
proof
  fix data :: bytes and h p
  let ?h = "(Lower32of64 h, Upper32of64 h)"
  show "fast_add len k h data = Some (fold set_pos (fast_probes len k ?h) data)" if "max 64 (unat len) \<le> length data"
    using fast_local.add_sets [where h = ?h, OF that] by (simp add: fast_add_def)
  show "fast_may len k h data = Some (\<forall>p\<in>set (fast_probes len k ?h). test_pos data p)"
    if "max 64 (unat len) \<le> length data"
    using fast_local.may_tests [where h = ?h, OF that] by (simp add: fast_may_def)
qed (rule fast_local.probe_bound)

lemma fast_add_prepared:
  "fast_add len k h data = AddHashPrepared (Upper32of64 h) k (unat (PrepareHash (Lower32of64 h) len)) data"
  by (simp add: fast_add_def FastLocal_AddHash_prepared)

lemma add_all_append: "add_all add (xs @ ys) data = add_all add xs data \<bind> add_all add ys"
  by (induction xs arbitrary: data) (auto split: bind_split)

section \<open>The ring buffer\<close>

definition ring :: "u64 list \<Rightarrow> u32 \<Rightarrow> nat \<Rightarrow> u32 list \<Rightarrow> u32 list \<Rightarrow> bool" where
  "ring E len i hs os \<longleftrightarrow> length hs = 8 \<and> length os = 8 \<and>
     (\<forall>j<i. i \<le> j + 8 \<longrightarrow> hs ! (j mod 8) = Upper32of64 (E ! j) \<and> os ! (j mod 8) = PrepareHash (Lower32of64 (E ! j)) len)"

lemma ring_empty: "length hs = 8 \<Longrightarrow> length os = 8 \<Longrightarrow> ring E len 0 hs os"
  by (simp add: ring_def)

lemma window_slots_differ: "j < i \<Longrightarrow> i < j + 8 \<Longrightarrow> j mod 8 \<noteq> i mod (8 :: nat)"
  using mod_eq_dvd_iff_nat [of j i 8] by (auto dest!: dvd_imp_le)

lemma ring_step:
  assumes "ring E len i hs os"
  shows "ring E len (i + 1) (hs[i mod 8 := Upper32of64 (E ! i)]) (os[i mod 8 := PrepareHash (Lower32of64 (E ! i)) len])"
  unfolding ring_def
proof (intro conjI allI impI)
  fix j
  assume j: "j < i + 1" "i + 1 \<le> j + 8"
  have "j = i \<or> j < i \<and> j mod 8 \<noteq> i mod 8" using j window_slots_differ [of j i] by linarith
  then show "hs[i mod 8 := Upper32of64 (E ! i)] ! (j mod 8) = Upper32of64 (E ! j)"
    "os[i mod 8 := PrepareHash (Lower32of64 (E ! i)) len] ! (j mod 8) = PrepareHash (Lower32of64 (E ! j)) len"
    using assms j by (auto simp: ring_def)
qed (use assms in \<open>simp_all add: ring_def\<close>)

lemma ring_read:
  assumes "ring E len i hs os" "j < i" "i \<le> j + 8"
  shows "AddHashPrepared (hs ! (j mod 8)) k (unat (os ! (j mod 8))) data = fast_add len k (E ! j) data"
  using assms by (simp add: ring_def fast_add_prepared)

lemma and_kBufferMask: "i AND kBufferMask = i mod 8"
  using take_bit_eq_mask [of 3 i] by (simp add: kBufferMask_def take_bit_eq_mod mask_eq_exp_minus_1)

lemma prime_buffer_ring:
  assumes "ring E len i hs os" "i \<le> min 8 (length E)"
  shows "\<exists>hs' os'. prime_buffer len (length E) i (drop i E) hs os =
      Some (min 8 (length E), drop (min 8 (length E)) E, hs', os') \<and> ring E len (min 8 (length E)) hs' os'"
  using assms
proof (induction "min 8 (length E) - i" arbitrary: i hs os)
  case 0
  then show ?case by (subst prime_buffer.simps) (auto simp: kBufferMask_def)
next
  case (Suc d)
  then have i: "i < 8" "i < length E" by linarith+
  have "ring E len (i + 1) (hs[i := Upper32of64 (E ! i)]) (os[i := PrepareHash (Lower32of64 (E ! i)) len])"
    using ring_step [OF Suc.prems(1)] i by simp
  from Suc.hyps(1) [OF _ this] Suc.hyps(2) i show ?case
    by (subst prime_buffer.simps) (simp add: kBufferMask_def nth_drop_0 [OF i(2)])
qed

lemma process_buffer_ring:
  assumes "ring E len i hs os" "8 \<le> i \<or> i = length E" "i \<le> length E" "max 64 (unat len) \<le> length data"
  shows "\<exists>hs' os' d'. process_buffer len k (length E) i (drop i E) hs os data = Some ([], hs', os', d') \<and>
      ring E len (length E) hs' os' \<and>
      add_all (fast_add len k) (map ((!) E) [i - 8..<length E - 8]) data = Some d'"
  using assms
proof (induction "length E - i" arbitrary: i hs os data)
  case 0
  then show ?case by (subst process_buffer.simps) auto
next
  case (Suc d)
  then have i: "8 \<le> i" "i < length E" by linarith+
  have slot: "(i - 8) mod 8 = i mod 8" using i(1) by (simp add: le_mod_geq)
  obtain d1 where d1: "fast_add len k (E ! (i - 8)) data = Some d1" "length d1 = length data"
    using fast_entry.add_sets [OF Suc.prems(4)] by simp
  have rd: "AddHashPrepared (hs ! (i mod 8)) k (unat (os ! (i mod 8))) data = Some d1"
    using ring_read [OF Suc.prems(1), of "i - 8"] i slot d1 by simp
  have "max 64 (unat len) \<le> length d1" using d1 Suc.prems(4) by simp
  from Suc.hyps(1) [OF _ ring_step [OF Suc.prems(1)] _ _ this] Suc.hyps(2) i
  obtain hs' os' d' where
    "process_buffer len k (length E) (i + 1) (drop (i + 1) E) (hs[i mod 8 := Upper32of64 (E ! i)])
      (os[i mod 8 := PrepareHash (Lower32of64 (E ! i)) len]) d1 = Some ([], hs', os', d')"
    "ring E len (length E) hs' os'"
    "add_all (fast_add len k) (map ((!) E) [i + 1 - 8..<length E - 8]) d1 = Some d'"
    by fastforce
  moreover have "[i - 8..<length E - 8] = (i - 8) # [i + 1 - 8..<length E - 8]"
    using i upt_conv_Cons [of "i - 8" "length E - 8"] Suc_diff_le [of 8 i] by simp
  ultimately show ?case using i rd d1
    by (subst process_buffer.simps) (simp add: and_kBufferMask Let_def nth_drop_0 [OF i(2)])
qed

text \<open>The entry in slot \<open>i\<close> of the buffer when all \<open>n\<close> entries have been read.\<close>

definition slot_entry :: "nat \<Rightarrow> nat \<Rightarrow> nat" where
  "slot_entry n i = (if n < 8 then i else n - 8 + (i + 7 * n) mod 8)"

lemma slot_entry_window:
  assumes "i < min 8 n"
  shows "slot_entry n i < n" "n \<le> slot_entry n i + 8" "slot_entry n i mod 8 = i"
proof -
  have "(n - 8 + (i + 7 * n) mod 8) mod 8 = i" if "8 \<le> n"
  proof -
    have "(n - 8 + (i + 7 * n) mod 8) mod 8 = (n - 8 + (i + 7 * n)) mod 8" by (rule mod_add_right_eq)
    also have "n - 8 + (i + 7 * n) = i + 8 * (n - 1)" using that by simp
    finally show ?thesis using assms by simp
  qed
  moreover have "(i + 7 * n) mod 8 < 8" by simp
  ultimately show "slot_entry n i < n" "n \<le> slot_entry n i + 8" "slot_entry n i mod 8 = i"
    using assms by (auto simp: slot_entry_def)
qed

lemma slot_entry_surj:
  assumes "n - 8 \<le> j" "j < n"
  shows "j \<in> slot_entry n ` {0..<min 8 n}"
proof (cases "n < 8")
  case False
  then have s: "n - 8 \<le> slot_entry n (j mod 8)" "slot_entry n (j mod 8) < n" "slot_entry n (j mod 8) mod 8 = j mod 8"
    using slot_entry_window [of "j mod 8" n] by auto
  then have "slot_entry n (j mod 8) = j"
    using window_slots_differ [of j "slot_entry n (j mod 8)"] window_slots_differ [of "slot_entry n (j mod 8)" j] assms
    by (cases "slot_entry n (j mod 8)" j rule: linorder_cases) (fastforce, simp, fastforce)
  then show ?thesis using False by (intro image_eqI [of _ _ "j mod 8"]) auto
qed (use assms in \<open>auto simp: slot_entry_def image_iff\<close>)

lemma finish_buffer_ring:
  assumes "ring E len (length E) hs os"
  shows "finish_buffer k (length E) i hs os data =
    add_all (fast_add len k) (map (\<lambda>i. E ! slot_entry (length E) i) [i..<min 8 (length E)]) data"
proof (induction "min 8 (length E) - i" arbitrary: i data)
  case 0
  then show ?case by (subst finish_buffer.simps) (auto simp: kBufferMask_def)
next
  case (Suc d)
  then have i: "i < min 8 (length E)" by linarith
  note w = slot_entry_window [OF i]
  have "AddHashPrepared (hs ! i) k (unat (os ! i)) data = fast_add len k (E ! slot_entry (length E) i) data" for data
    using ring_read [OF assms w(1,2)] w(3) by simp
  moreover have "i \<le> 7" "i < length E" using i by simp_all
  moreover have "finish_buffer k (length E) (Suc i) hs os =
    add_all (fast_add len k) (map (\<lambda>i. E ! slot_entry (length E) i) [Suc i..<min 8 (length E)])"
    using Suc.hyps by (intro ext) simp
  ultimately show ?case
    by (subst finish_buffer.simps) (simp add: kBufferMask_def upt_conv_Cons [OF i])
qed

theorem AddAllEntries_simple:
  assumes "max 64 (unat len) \<le> length data"
  shows "AddAllEntries data len b =
    map_option (\<lambda>d. (d, b\<lparr>hash_entries := []\<rparr>)) (add_all (fast_add len (nat (num_probes b))) (hash_entries b) data)"
proof -
  define E k where "E = hash_entries b" and "k = nat (num_probes b)"
  let ?n = "length E"
  obtain hs os where p: "prime_buffer len ?n 0 E (replicate 8 0) (replicate 8 0) = Some (min 8 ?n, drop (min 8 ?n) E, hs, os)"
    "ring E len (min 8 ?n) hs os"
    using prime_buffer_ring [OF ring_empty, of "replicate 8 0" "replicate 8 0" E len] by auto
  obtain hs' os' d' where q:
    "process_buffer len k ?n (min 8 ?n) (drop (min 8 ?n) E) hs os data = Some ([], hs', os', d')"
    "ring E len ?n hs' os'"
    "add_all (fast_add len k) (map ((!) E) [min 8 ?n - 8..<?n - 8]) data = Some d'"
    using process_buffer_ring [OF p(2) _ _ assms, of k] by fastforce
  let ?last = "map (\<lambda>i. E ! slot_entry ?n i) [0..<min 8 ?n]"
  have "set (map ((!) E) [0..<?n - 8] @ ?last) = set E"
  proof -
    have "{0..<?n - 8} \<union> slot_entry ?n ` {0..<min 8 ?n} = {0..<?n}"
    proof (intro set_eqI iffI)
      fix j
      show "j \<in> {0..<?n - 8} \<union> slot_entry ?n ` {0..<min 8 ?n}" if "j \<in> {0..<?n}"
        using slot_entry_surj [of ?n j] that by (cases "j < ?n - 8") auto
    qed (use slot_entry_window(1) [of _ ?n] in auto)
    then have "(!) E ` ({0..<?n - 8} \<union> slot_entry ?n ` {0..<min 8 ?n}) = set E"
      by (auto simp: set_conv_nth)
    then show ?thesis by (simp add: image_Un image_image)
  qed
  then have "add_all (fast_add len k) E data = add_all (fast_add len k) (map ((!) E) [0..<?n - 8] @ ?last) data"
    using fast_entry.add_all_set_cong [OF assms, of _ E] by metis
  also have "\<dots> = add_all (fast_add len k) ?last d'" using q(3) by (simp add: add_all_append)
  also have "\<dots> = finish_buffer k ?n 0 hs' os' d'" using finish_buffer_ring [OF q(2)] by simp
  finally show ?thesis
    using p(1) q(1) by (simp add: AddAllEntries_def kBufferMask_def E_def [symmetric] k_def [symmetric] Let_def
        map_conv_bind_option comp_def)
qed

end
