(* ===== verification/Filter_Layout.thy ===== *)
theory Filter_Layout
  imports Filter_Fast
begin

text \<open>
  The layout of a finished filter: the bits, then five bytes of metadata, for the two builders of
  \<^verbatim>\<open>table/block_based/filter_policy.cc\<close>, and the reader that the metadata selects.
\<close>

section \<open>Collected hashes\<close>

lemma FastLocal_AddKey_step:
  "set (hash_entries (FastLocal_AddKey hash64 key b)) = insert (hash64 key) (set (hash_entries b))"
  "length (hash_entries (FastLocal_AddKey hash64 key b)) \<le> Suc (length (hash_entries b))"
  "millibits_per_key (FastLocal_AddKey hash64 key b) = millibits_per_key b"
  "num_probes (FastLocal_AddKey hash64 key b) = num_probes b"
  by (auto simp: FastLocal_AddKey_def Let_def)

lemma FastLocal_AddKey_fold:
  "set (hash_entries (fold (FastLocal_AddKey hash64) keys b)) = hash64 ` set keys \<union> set (hash_entries b)"
  "length (hash_entries (fold (FastLocal_AddKey hash64) keys b)) \<le> length keys + length (hash_entries b)"
  "millibits_per_key (fold (FastLocal_AddKey hash64) keys b) = millibits_per_key b"
  "num_probes (fold (FastLocal_AddKey hash64) keys b) = num_probes b"
proof (induction keys arbitrary: b)
  case (Cons key keys)
  {
    case 2
    show ?case
      using Cons.IH(2) [of "FastLocal_AddKey hash64 key b"] FastLocal_AddKey_step(2) [of hash64 key b] by simp
  }
qed (simp_all add: FastLocal_AddKey_step)

lemma Legacy_AddKey_step:
  "set (legacy_entries (Legacy_AddKey key b)) = insert (BloomHash key) (set (legacy_entries b))"
  "length (legacy_entries (Legacy_AddKey key b)) \<le> Suc (length (legacy_entries b))"
  "bits_per_key (Legacy_AddKey key b) = bits_per_key b" "legacy_probes (Legacy_AddKey key b) = legacy_probes b"
  by (auto simp: Legacy_AddKey_def Let_def)

lemma Legacy_AddKey_fold:
  "set (legacy_entries (fold Legacy_AddKey keys b)) = BloomHash ` set keys \<union> set (legacy_entries b)"
  "length (legacy_entries (fold Legacy_AddKey keys b)) \<le> length keys + length (legacy_entries b)"
  "bits_per_key (fold Legacy_AddKey keys b) = bits_per_key b"
  "legacy_probes (fold Legacy_AddKey keys b) = legacy_probes b"
proof (induction keys arbitrary: b)
  case (Cons key keys)
  {
    case 2
    show ?case using Cons.IH(2) [of "Legacy_AddKey key b"] Legacy_AddKey_step(2) [of key b] by simp
  }
qed (simp_all add: Legacy_AddKey_step)

section \<open>Bits and metadata\<close>

lemma test_pos_take_append:
  "n \<le> length d \<Longrightarrow> p < 8 * n \<Longrightarrow> test_pos (take n d @ meta) p = test_pos d p"
  by (simp add: test_pos_def nth_append less_mult_imp_div_less mult.commute)

lemma test_pos_replicate_0: "p < 8 * n \<Longrightarrow> \<not> test_pos (replicate n 0) p"
  by (simp add: test_pos_def less_mult_imp_div_less mult.commute)

context probe_filter
begin

text \<open>A filter built from zeroed memory answers exactly by its probe sets, whatever metadata follows it.\<close>

lemma may_after_build:
  assumes "add_all add hs (replicate (n + m) 0) = Some d"
  shows "may h (take n d @ meta) = Some (\<forall>p\<in>set (probes h). \<exists>h'\<in>set hs. p \<in> set (probes h'))"
proof -
  have len: "length d = n + m"
    using add_all_exact(1) [of "replicate (n + m) 0" hs d] assms by simp
  have "test_pos (take n d @ meta) p \<longleftrightarrow> (\<exists>h'\<in>set hs. p \<in> set (probes h'))" if "p \<in> set (probes h)" for p
  proof -
    have p: "p < 8 * n" using probe_bound [OF that] .
    then show ?thesis
      using add_all_exact(2) [of "replicate (n + m) 0" hs d p] assms len
        test_pos_take_append [of n d p meta] test_pos_replicate_0 [of p "n + m"] by simp
  qed
  then show ?thesis using may_tests [of "take n d @ meta" h] len by simp
qed

lemma build_total:
  "\<exists>d. add_all add hs (replicate (n + m) 0) = Some d \<and> length d = n + m \<and> drop n d = replicate m 0"
proof -
  obtain d where d: "add_all add hs (replicate (n + m) 0) = Some d"
    using add_all_fold [of "replicate (n + m) 0" hs] by simp
  then show ?thesis
    using add_all_exact(1) [of "replicate (n + m) 0" hs d] add_all_keeps_tail [of "replicate (n + m) 0" hs d] by simp
qed

end

section \<open>The fast local filter\<close>

lemma ChooseNumProbes_range: "1 \<le> ChooseNumProbes m" "ChooseNumProbes m \<le> 24"
  unfolding ChooseNumProbes_def by (simp_all, linarith+)

lemma FastLocal_CalculateSpace_unat:
  assumes "0 < m" "millibits_per_key b = int m" "n * m < 2 ^ 41"
  shows "unat (FastLocal_CalculateSpace b (int n)) = 64 * ((n * m + 511999) div 512000) + 5"
proof -
  let ?L = "(n * m + 511999) div 512000"
  have L: "?L < 2 ^ 25" using assms(3) by (intro less_mult_imp_div_less) simp
  have "FastLocal_CalculateSpace b (int n) = of_nat (64 * ?L + 5)"
  proof (cases "n = 0")
    case False
    have "word_of_int ((int n * int m + 511999) div 512000) = (of_nat ?L :: u32)"
      by (metis of_int_of_nat_eq of_nat_add of_nat_mult of_nat_numeral zdiv_int)
    then show ?thesis using assms False by (simp add: FastLocal_CalculateSpace_def Let_def mult.commute)
  qed (simp add: FastLocal_CalculateSpace_def)
  then show ?thesis using L by (simp add: unsigned_of_nat take_bit_nat_eq_self del: of_nat_add of_nat_mult)
qed

text \<open>The number of cache lines for \<open>n\<close> hashes with \<open>m\<close> thousandths of a bit each.\<close>

definition fast_lines :: "nat \<Rightarrow> nat \<Rightarrow> nat" where
  "fast_lines n m = (n * m + 511999) div 512000"

lemma fast_lines_bound: "n * m < 2 ^ 41 \<Longrightarrow> 64 * fast_lines n m + 5 < 2 ^ 32"
  using less_mult_imp_div_less [of "n * m + 511999" "2 ^ 25" 512000] by (simp add: fast_lines_def)

lemma fast_lines_pos: "0 < n \<Longrightarrow> 0 < m \<Longrightarrow> 0 < fast_lines n m"
  by (simp add: fast_lines_def div_greater_zero_iff)

lemma put_metadata:
  assumes "length d = len + 5" "drop len d = replicate 5 0" "len + 5 < 2 ^ 32"
  obtains d1 d2 where "put_byte (unat (of_nat len :: u32)) a d = Some d1" "put_byte (unat (of_nat len + 1 :: u32)) b d1 = Some d2"
    "put_byte (unat (of_nat len + 2 :: u32)) c d2 = Some (take len d @ [a, b, c, 0, 0])"
proof -
  have u: "unat (of_nat len :: u32) = len" "unat (of_nat len + 1 :: u32) = len + 1" "unat (of_nat len + 2 :: u32) = len + 2"
    using unat_of_nat_u32 [of len] unat_of_nat_u32 [of "len + 1"] unat_of_nat_u32 [of "len + 2"] assms(3)
    by (simp_all add: add.commute)
  have d: "d = take len d @ replicate 5 0" using assms(2) append_take_drop_id [of len d] by simp
  have "d[len := a, len + 1 := b, len + 2 := c] = take len d @ [a, b, c, 0, 0]"
    by (subst d) (simp add: list_update_append assms(1) numeral_eq_Suc)
  then show ?thesis using assms(1) that [of "d[len := a]" "d[len := a, len + 1 := b]"] by (simp add: put_byte_def u)
qed

lemma FastLocal_Finish_layout:
  assumes b: "millibits_per_key b = int m" "0 < m" "hash_entries b \<noteq> []"
    and n: "length (hash_entries b) * m < 2 ^ 41" "length (hash_entries b) < 2 ^ 31"
  defines "len \<equiv> 64 * fast_lines (length (hash_entries b)) m"
  obtains d where
    "add_all (fast_add (of_nat len) (nat (num_probes b))) (hash_entries b) (replicate (len + 5) 0) = Some d"
    "length d = len + 5"
    "FastLocal_Finish b = Some (take len d @ [0xff, 0, word_of_int (num_probes b), 0, 0], b\<lparr>hash_entries := []\<rparr>)"
proof -
  let ?n = "length (hash_entries b)"
  let ?w = "FastLocal_CalculateSpace b (int ?n)"
  have len: "len + 5 < 2 ^ 32" "64 \<le> len"
    using fast_lines_bound [OF n(1)] fast_lines_pos [of ?n m] b by (simp_all add: len_def)
  have w: "unat ?w = len + 5"
    using FastLocal_CalculateSpace_unat [OF b(2,1) n(1)] by (simp add: len_def fast_lines_def)
  have w5: "?w = of_nat len + 5"
    using w len by (metis of_nat_add of_nat_numeral unat_of_nat_u32 word_unat_eq_iff)
  have ulen: "unat (of_nat len :: u32) = len" using unat_of_nat_u32 [of len] len by simp
  obtain d where d: "add_all (fast_add (of_nat len) (nat (num_probes b))) (hash_entries b) (replicate (len + 5) 0) = Some d"
    "length d = len + 5" "drop len d = replicate 5 0"
    using fast_entry.build_total [where len = "of_nat len" and k = "nat (num_probes b)" and hs = "hash_entries b" and m = 5] len ulen by auto
  have "AddAllEntries (replicate (len + 5) 0) (of_nat len) b = Some (d, b\<lparr>hash_entries := []\<rparr>)"
    using AddAllEntries_simple [where len = "of_nat len" and data = "replicate (len + 5) 0" and b = b] d(1) len ulen by simp
  moreover have "5 \<le> of_nat len + (5 :: u32)" "(0 :: u32) < of_nat len" "unat (of_nat len + 5 :: u32) = len + 5"
    using w [unfolded w5] ulen len by (simp_all add: word_le_nat_alt word_less_nat_alt)
  moreover obtain d1 d2 where "put_byte (unat (of_nat len :: u32)) 0xff d = Some d1"
    "put_byte (unat (of_nat len + 1 :: u32)) 0 d1 = Some d2"
    "put_byte (unat (of_nat len + 2 :: u32)) (word_of_int (num_probes b)) d2 =
      Some (take len d @ [0xff, 0, word_of_int (num_probes b), 0, 0])"
    by (rule put_metadata [OF d(2,3) len(1)])
  ultimately have "FastLocal_Finish b = Some (take len d @ [0xff, 0, word_of_int (num_probes b), 0, 0], b\<lparr>hash_entries := []\<rparr>)"
    by (simp add: FastLocal_Finish_def sint_of_nat_u32 [OF n(2)] w5 Let_def
        add.commute [of 1 "of_nat len :: u32"] add.commute [of 2 "of_nat len :: u32"])
  then show ?thesis using that d by blast
qed

lemma metadata_offsets:
  assumes "length contents = len + 5" "len + 5 < 2 ^ 32"
  shows "unat ((of_nat (length contents) :: u32) - 5) = len" "unat ((of_nat (length contents) :: u32) - 4) = len + 1"
    "unat ((of_nat (length contents) :: u32) - 3) = len + 2" "unat ((of_nat (length contents) :: u32) - 2) = len + 3"
    "(of_nat (length contents) :: u32) - 5 = of_nat len" "(of_nat (length contents) :: u32) \<le> 5 \<longleftrightarrow> len = 0"
proof -
  have e: "(of_nat (length contents) :: u32) = of_nat len + 5" using assms(1) by simp
  have u: "unat (of_nat len + of_nat k :: u32) = len + k" if "k \<le> 5" for k
    using unat_of_nat_u32 [of "len + k"] assms(2) that by simp
  show "unat ((of_nat (length contents) :: u32) - 5) = len" "unat ((of_nat (length contents) :: u32) - 4) = len + 1"
    "unat ((of_nat (length contents) :: u32) - 3) = len + 2" "unat ((of_nat (length contents) :: u32) - 2) = len + 3"
    "(of_nat (length contents) :: u32) - 5 = of_nat len"
    unfolding e using u [of 0] u [of 1] u [of 2] u [of 3] u [of 5] by (simp_all add: add.commute)
  have "unat (5 :: u32) = 5" by simp
  then show "(of_nat (length contents) :: u32) \<le> 5 \<longleftrightarrow> len = 0"
    unfolding e word_le_nat_alt using u [of 5] by simp
qed

lemma sint_byte: "0 \<le> P \<Longrightarrow> P < 128 \<Longrightarrow> sint (word_of_int P :: byte) = P"
  by (simp add: sint_uint unsigned_of_int signed_take_bit_int_eq_self take_bit_int_eq_self)

lemma probes_byte:
  assumes "1 \<le> P" "P \<le> 30"
  shows "unat (drop_bit 5 (word_of_int P :: byte) AND 7) = 0" "unat ((word_of_int P :: byte) AND 31) = nat P"
proof -
  have u: "unat (word_of_int P :: byte) = nat P" using assms
    by (simp add: unsigned_of_int take_bit_int_eq_self)
  have "drop_bit 5 (word_of_int P :: byte) = 0"
    using unat_drop_bit_div [of 5 "word_of_int P :: byte"] u assms by (simp add: word_unat_eq_iff nat_less_iff)
  then show "unat (drop_bit 5 (word_of_int P :: byte) AND 7) = 0" by simp
  show "unat ((word_of_int P :: byte) AND 31) = nat P"
    using unat_take_bit_mod [of 5 "word_of_int P :: byte"] u assms
    by (simp add: take_bit_eq_mask mask_eq_exp_minus_1 nat_less_iff)
qed

lemma fast_reader_selected:
  assumes "contents = bits @ [0xff, 0, word_of_int P, 0, 0]" "length bits = len" "0 < len" "len + 5 < 2 ^ 32"
    "1 \<le> P" "P \<le> 30"
  shows "GetFilterBitsReader cls contents = Some (FastLocalBloomBitsReader contents (nat P) (of_nat len))"
proof -
  have l: "length contents = len + 5" using assms by simp
  note o = metadata_offsets [OF l assms(4)]
  have c: "contents ! len = 0xff" "contents ! Suc len = 0" "contents ! Suc (Suc len) = word_of_int P"
    "drop (len + 3) contents = [0, 0]"
    using assms by (simp_all add: nth_append)
  have s: "sint (0xff :: byte) = - 1" by simp
  have ulen: "unat (of_nat len :: u32) = len" using unat_of_nat_u32 [of len] assms by simp
  then have "(0 :: u32) < of_nat len" using assms by (simp add: word_less_nat_alt)
  then have "GetBloomBitsReader contents = Some (FastLocalBloomBitsReader contents (nat P) (of_nat len))"
    using assms(5,6)
    by (simp add: GetBloomBitsReader_def Let_def o c probes_byte [OF assms(5,6)] DecodeFixed16_def
        del: of_nat_add)
  then show ?thesis using assms(3) by (simp add: GetFilterBitsReader_def Let_def o ulen c s)
qed

definition fast_key_probes :: "u32 \<Rightarrow> nat \<Rightarrow> u64 \<Rightarrow> nat list" where
  "fast_key_probes len k h = fast_probes len k (Lower32of64 h, Upper32of64 h)"

lemma five_zeros: "replicate 5 (0 :: byte) = [0, 0, 0, 0, 0]"
  by (simp add: numeral_eq_Suc)

lemma update_2: "(a # b # x # xs)[2 := c] = a # b # c # xs"
  by (simp add: numeral_2_eq_2)

lemma fast_filter_answers:
  assumes b: "millibits_per_key b = int m" "0 < m" "1 \<le> num_probes b" "num_probes b \<le> 30"
    and n: "length (hash_entries b) * m < 2 ^ 41" "length (hash_entries b) < 2 ^ 31"
  defines "probes \<equiv> fast_key_probes (of_nat (64 * fast_lines (length (hash_entries b)) m)) (nat (num_probes b))"
  shows "\<exists>contents r. FastLocal_Finish b = Some (contents, b\<lparr>hash_entries := []\<rparr>) \<and>
    GetFilterBitsReader cls contents = Some r \<and>
    (\<forall>key. MayMatch hash64 r key =
      Some (\<forall>p\<in>set (probes (hash64 key)). \<exists>h\<in>set (hash_entries b). p \<in> set (probes h)))"
proof (cases "hash_entries b = []")
  case True
  let ?P = "word_of_int (num_probes b) :: byte"
  have "FastLocal_Finish b = Some ([0xff, 0, ?P, 0, 0], b\<lparr>hash_entries := []\<rparr>)"
    using True by (simp add: FastLocal_Finish_def FastLocal_CalculateSpace_def put_byte_def five_zeros update_2)
  moreover have "GetFilterBitsReader cls [0xff, 0, ?P, 0, 0] = Some AlwaysFalseFilter"
    by (simp add: GetFilterBitsReader_def)
  moreover have "probes h \<noteq> []" for h
    using b(3) by (cases "nat (num_probes b)") (auto simp: probes_def fast_key_probes_def fast_probes_def)
  ultimately show ?thesis using True by (intro exI conjI allI) auto
next
  case False
  let ?len = "64 * fast_lines (length (hash_entries b)) m"
  have len: "?len + 5 < 2 ^ 32" "64 \<le> ?len"
    using fast_lines_bound [OF n(1)] fast_lines_pos [of "length (hash_entries b)" m] b False by simp_all
  then have ulen: "unat (of_nat ?len :: u32) = ?len" using unat_of_nat_u32 [of ?len] by simp
  then have nlen: "max 64 (unat (of_nat ?len :: u32)) = ?len" using len by simp
  obtain d where d:
    "add_all (fast_add (of_nat ?len) (nat (num_probes b))) (hash_entries b) (replicate (?len + 5) 0) = Some d"
    "length d = ?len + 5"
    "FastLocal_Finish b = Some (take ?len d @ [0xff, 0, word_of_int (num_probes b), 0, 0], b\<lparr>hash_entries := []\<rparr>)"
    using FastLocal_Finish_layout [OF b(1,2) False n] by blast
  let ?c = "take ?len d @ [0xff, 0, word_of_int (num_probes b), 0, 0]"
  have r: "GetFilterBitsReader cls ?c = Some (FastLocalBloomBitsReader ?c (nat (num_probes b)) (of_nat ?len))"
    using fast_reader_selected [OF refl _ _ len(1) b(3,4)] d(2) len(2) by simp
  have "MayMatch hash64 (FastLocalBloomBitsReader ?c (nat (num_probes b)) (of_nat ?len)) key =
      Some (\<forall>p\<in>set (probes (hash64 key)). \<exists>h\<in>set (hash_entries b). p \<in> set (probes h))" for key
  proof -
    have "MayMatch hash64 (FastLocalBloomBitsReader ?c (nat (num_probes b)) (of_nat ?len)) key =
        fast_may (of_nat ?len) (nat (num_probes b)) (hash64 key) ?c"
      by (simp only: MayMatch.simps Let_def fast_may_def FastLocal_HashMayMatch_prepared)
    then show ?thesis
      using fast_entry.may_after_build [of "of_nat ?len" "nat (num_probes b)", unfolded nlen, OF d(1)]
      by (simp only: probes_def fast_key_probes_def)
  qed
  then show ?thesis using d(3) r by blast
qed

end
