(* ===== verification/Filter_Legacy.thy ===== *)
theory Filter_Legacy
  imports Filter_Layout
begin

text \<open>
  The legacy filter: its size, its layout and the reader selected for it, on a platform with the cache line size
  of the writer or with another one.
\<close>

section \<open>Size\<close>

definition cache_line_log2 :: "u32 \<Rightarrow> nat \<Rightarrow> bool" where
  "cache_line_log2 cls l \<longleftrightarrow> cls = 64 \<and> l = 6 \<or> cls = 128 \<and> l = 7 \<or> cls = 256 \<and> l = 8"

lemma constexpr_log2_sizes: "constexpr_log2 64 = Some 6" "constexpr_log2 128 = Some 7" "constexpr_log2 256 = Some 8"
  by code_simp+

lemma cache_line_log2_D:
  assumes "cache_line_log2 cls l"
  shows "constexpr_log2 cls = Some l" "unat cls = 2 ^ l" "unat (cls * 8) = 8 * 2 ^ l" "6 \<le> l" "l \<le> 8" "8 * 2 ^ l \<le> (2048 :: nat)"
  using assms constexpr_log2_sizes by (auto simp: cache_line_log2_def)

text \<open>The number of lines for \<open>t\<close> bits on lines of \<open>c\<close> bits, made odd.\<close>

definition odd_lines :: "nat \<Rightarrow> nat \<Rightarrow> nat" where
  "odd_lines c t = (let q = (t + c - 1) div c in if even q then q + 1 else q)"

lemma odd_lines_bound:
  assumes "0 < c"
  shows "0 < odd_lines c t" "odd_lines c t * c \<le> t + 2 * c"
proof -
  define q where "q = (t + c - 1) div c"
  have o: "odd_lines c t = (if even q then q + 1 else q)" by (simp only: odd_lines_def q_def Let_def)
  have "q * c \<le> t + c - 1" unfolding q_def by (rule div_times_less_eq_dividend)
  then show "odd_lines c t * c \<le> t + 2 * c" unfolding o by auto
  show "0 < odd_lines c t" unfolding o by (auto intro: odd_pos)
qed

lemma GetTotalBitsForLocality_unat:
  assumes c: "unat (cls * 8) = c" "0 < c" "c \<le> 2048" and t: "unat t < 2 ^ 31"
  shows "unat (GetTotalBitsForLocality cls t) = odd_lines c (unat t) * c"
    "unat (GetTotalBitsForLocality cls t div (cls * 8)) = odd_lines c (unat t)"
proof -
  define C where "C = cls * 8"
  have C: "unat C = c" using c(1) by (simp add: C_def)
  define q where "q = (t + C - 1) div C"
  have "unat (t + C) = unat t + c" using t C c(3) by (subst unat_add_no_overflow) simp_all
  moreover have "1 \<le> t + C" using calculation c(2) by (simp add: word_le_nat_alt)
  ultimately have "unat (t + C - 1) = unat t + c - 1" by (simp add: unat_sub)
  then have q: "unat q = (unat t + c - 1) div c" using C by (simp add: q_def unat_div_distrib)
  define m where "m = (if q mod 2 = 0 then q + 1 else q)"
  have t32: "odd_lines c (unat t) * c < 2 ^ 32" using odd_lines_bound(2) [OF c(2), of "unat t"] t c(3) by simp
  moreover have "odd_lines c (unat t) * 1 \<le> odd_lines c (unat t) * c" using c(2) by (intro mult_le_mono2) simp
  ultimately have "odd_lines c (unat t) < 2 ^ 32" by linarith
  moreover have "q mod 2 = 0 \<longleftrightarrow> even (unat q)"
    by (simp add: word_unat_eq_iff unat_mod_distrib even_iff_mod_2_eq_zero)
  ultimately have m: "unat m = odd_lines c (unat t)"
    by (auto simp: m_def odd_lines_def q Let_def unat_add_no_overflow split: if_splits)
  have g: "GetTotalBitsForLocality cls t = m * C"
    by (simp only: GetTotalBitsForLocality_def Let_def C_def [symmetric] q_def [symmetric] m_def)
  then show T: "unat (GetTotalBitsForLocality cls t) = odd_lines c (unat t) * c"
    using t32 by (simp add: unat_mult_no_overflow m C)
  show "unat (GetTotalBitsForLocality cls t div (cls * 8)) = odd_lines c (unat t)"
    using c(2) by (simp add: unat_div_distrib T C C_def [symmetric])
qed

lemma Legacy_CalculateSpace_eq:
  assumes l: "cache_line_log2 cls l" and b: "bits_per_key b = int w" "0 < w" "0 < n" "n * w < 2 ^ 31"
  obtains T N where "Legacy_CalculateSpace cls b (int n) = Some (T div 8 + 5, T, N)"
    "unat N = odd_lines (8 * 2 ^ l) (n * w)" "unat (T div 8) = unat N * 2 ^ l" "0 < N" "0 < T"
    "unat N * 2 ^ l + 5 < 2 ^ 32"
proof -
  note D = cache_line_log2_D [OF l]
  let ?t = "word_of_int (int n * int w) :: u32"
  have t: "unat ?t = n * w"
    using unat_of_nat_u32 [of "n * w"] b(4) by (simp flip: of_nat_mult)
  let ?T = "GetTotalBitsForLocality cls ?t"
  let ?N = "?T div (cls * 8)"
  have u: "unat ?T = odd_lines (8 * 2 ^ l) (n * w) * (8 * 2 ^ l)" "unat ?N = odd_lines (8 * 2 ^ l) (n * w)"
    using GetTotalBitsForLocality_unat [of cls "8 * 2 ^ l" ?t] D t b(4) by simp_all
  have pos: "0 < odd_lines (8 * 2 ^ l) (n * w)" by (rule odd_lines_bound) simp
  then have NT: "0 < ?N" "0 < ?T" using u by (simp_all add: word_less_nat_alt)
  have T8: "unat (?T div 8) = unat ?N * 2 ^ l" unfolding unat_div_8 u by simp
  have "?T mod 8 = 0" unfolding word_unat_eq_iff unat_mod_8 u by simp
  moreover have "int n * int w < 2 ^ 31" "- (2 ^ 31) \<le> int n * int w"
    using b(4) by (simp_all flip: of_nat_mult)
  ultimately have "Legacy_CalculateSpace cls b (int n) = Some (?T div 8 + 5, ?T, ?N)"
    using b NT by (simp add: Legacy_CalculateSpace_def Let_def)
  moreover have "unat ?N * 2 ^ l + 5 < 2 ^ 32"
    using odd_lines_bound(2) [of "8 * 2 ^ l" "n * w"] D(6) b(4) unfolding u by simp
  ultimately show ?thesis using that u(2) T8 NT by blast
qed

section \<open>Layout\<close>

abbreviation legacy_add :: "u32 \<Rightarrow> nat \<Rightarrow> nat \<Rightarrow> u32 \<Rightarrow> bytes \<Rightarrow> bytes option" where
  "legacy_add N k l \<equiv> \<lambda>h. Locality_AddHash False h N k l"

abbreviation legacy_may :: "u32 \<Rightarrow> nat \<Rightarrow> nat \<Rightarrow> u32 \<Rightarrow> bytes \<Rightarrow> bool option" where
  "legacy_may N k l \<equiv> \<lambda>h. Locality_HashMayMatch False h N k l"

lemma put_legacy_metadata:
  assumes "length d = len + 5"
  shows "put_byte len a d \<bind> put_fixed32 (len + 1) N = Some (take len d @ [a] @ EncodeFixed32 N)"
  using assms by (simp add: put_byte_def put_fixed32_def take_Suc_conv_app_nth)

lemma Legacy_AddHash_eq:
  assumes "cache_line_log2 cls l" "0 < N" "0 < T"
  shows "Legacy_AddHash cls b N T = legacy_add N (nat (legacy_probes b)) l"
  using assms cache_line_log2_D(1) [OF assms(1)] by (intro ext) (simp add: Legacy_AddHash_def)

lemma Legacy_Finish_layout:
  assumes l: "cache_line_log2 cls l" and b: "bits_per_key b = int w" "0 < w" "legacy_entries b \<noteq> []"
    "length (legacy_entries b) * w < 2 ^ 31"
  obtains N d where "unat N = odd_lines (8 * 2 ^ l) (length (legacy_entries b) * w)" "0 < N" "unat N * 2 ^ l + 5 < 2 ^ 32"
    "add_all (legacy_add N (nat (legacy_probes b)) l) (legacy_entries b) (replicate (unat N * 2 ^ l + 5) 0) = Some d"
    "length d = unat N * 2 ^ l + 5"
    "Legacy_Finish cls b =
      Some (take (unat N * 2 ^ l) d @ [word_of_int (legacy_probes b)] @ EncodeFixed32 N, b\<lparr>legacy_entries := []\<rparr>)"
proof -
  let ?n = "length (legacy_entries b)"
  let ?k = "nat (legacy_probes b)"
  obtain T N where s: "Legacy_CalculateSpace cls b (int ?n) = Some (T div 8 + 5, T, N)"
    "unat N = odd_lines (8 * 2 ^ l) (?n * w)" "unat (T div 8) = unat N * 2 ^ l" "0 < N" "0 < T"
    "unat N * 2 ^ l + 5 < 2 ^ 32"
    using Legacy_CalculateSpace_eq [OF l b(1,2) _ b(4)] b(3) by auto
  let ?len = "unat N * 2 ^ l"
  have u5: "unat (T div 8 + 5) = ?len + 5" using s(3,6) by (subst unat_add_no_overflow) simp_all
  have "?n * 1 \<le> ?n * w" using b(2) by (intro mult_le_mono2) simp
  then have n: "?n < 2 ^ 31" using b(4) by linarith
  have pf: "probe_filter (legacy_add N ?k l) (legacy_may N ?k l) (locality_probes False N ?k l) ?len"
    using s(4,6) cache_line_log2_D [OF l] by (intro locality_probe_filter) auto
  obtain d where d: "add_all (legacy_add N ?k l) (legacy_entries b) (replicate (?len + 5) 0) = Some d" "length d = ?len + 5"
    using probe_filter.build_total [OF pf, of "legacy_entries b" 5] by blast
  have meta: "put_byte ?len (word_of_int (legacy_probes b)) d \<bind> put_fixed32 (?len + 1) N =
      Some (take ?len d @ [word_of_int (legacy_probes b)] @ EncodeFixed32 N)"
    by (rule put_legacy_metadata [OF d(2)])
  obtain d1 where "put_byte ?len (word_of_int (legacy_probes b)) d = Some d1"
    "put_fixed32 (?len + 1) N d1 = Some (take ?len d @ [word_of_int (legacy_probes b)] @ EncodeFixed32 N)"
    using meta by (auto simp: bind_eq_Some_conv)
  moreover have "N \<noteq> 0" "T \<noteq> 0" using s(4,5) by auto
  ultimately have "Legacy_Finish cls b =
      Some (take ?len d @ [word_of_int (legacy_probes b)] @ EncodeFixed32 N, b\<lparr>legacy_entries := []\<rparr>)"
    using s d(1,2) by (simp add: Legacy_Finish_def ReserveSpace_def sint_of_nat_u32 [OF n] Let_def u5
        Legacy_AddHash_eq [OF l s(4,5)])
  then show ?thesis using that s(2,4,6) d by blast
qed

section \<open>The reader\<close>

lemma push_bit_unat:
  assumes "unat (N :: u32) * 2 ^ k < 2 ^ 32"
  shows "unat (push_bit k N) = unat N * 2 ^ k"
  using take_bit_nat_eq_self [OF assms] by (simp only: unsigned_push_bit_eq) (simp add: push_bit_eq_mult)

text \<open>The line size of a foreign platform is recovered from the number of lines.\<close>

lemma log2_line_loop_finds:
  assumes "unat N * 2 ^ l < 2 ^ 32" "0 < N" "unat len = unat N * 2 ^ l" "l < 32"
  shows "k \<le> l \<Longrightarrow> log2_line_loop N len k = Some l"
proof (induction "l - k" arbitrary: k)
  case 0
  then show ?case using assms push_bit_unat [OF assms(1)]
    by (subst log2_line_loop.simps) (simp add: word_less_nat_alt)
next
  case (Suc d)
  then have k: "k < l" by simp
  have "unat N * 2 ^ k < unat N * 2 ^ l" using k assms(2) by (simp add: word_less_nat_alt)
  then have "unat (push_bit k N) < unat len"
    using push_bit_unat [OF less_trans [OF _ assms(1)]] assms(3) by metis
  then have "push_bit k N < len" by (simp only: word_less_nat_alt)
  then show ?case using Suc k assms(4) by (subst log2_line_loop.simps) simp
qed

lemma legacy_reader_selected:
  assumes c: "contents = bits @ [word_of_int P] @ EncodeFixed32 N" "length bits = unat N * 2 ^ l"
    and N: "0 < N" "unat N * 2 ^ l + 5 < 2 ^ 32" "unat N * 256 < 2 ^ 32" and P: "1 \<le> P" "P \<le> 30"
    and l: "cache_line_log2 cls l" and l': "cache_line_log2 cls' l'"
  shows "GetFilterBitsReader cls' contents = Some (LegacyBloomBitsReader contents (nat P) N l)"
proof -
  define len where "len = unat N * 2 ^ l"
  have lc: "length contents = len + 5" using c by (simp add: len_def)
  have len32: "len + 5 < 2 ^ 32" using N(2) by (simp add: len_def)
  note o = metadata_offsets [OF lc len32]
  note D = cache_line_log2_D [OF l] and D' = cache_line_log2_D [OF l']
  have ulen: "unat (of_nat len :: u32) = len" using unat_of_nat_u32 [of len] len32 by simp
  have pos: "0 < len" using N(1) by (simp add: len_def word_less_nat_alt)
  have cc: "contents ! len = word_of_int P" "DecodeFixed32 (drop (Suc len) contents) = N"
    using c DecodeFixed32_Encode [of N "[]"] by (simp_all add: nth_append flip: len_def)
  have lenpos: "(0 :: u32) < of_nat len" using ulen pos by (simp add: word_less_nat_alt)
  have "unat (N * cls') = unat N * 2 ^ l'"
  proof -
    have "(2 :: nat) ^ l' \<le> 2 ^ 8" using D'(5) by (intro power_increasing) simp_all
    then have "unat N * 2 ^ l' \<le> unat N * 256" by (intro mult_le_mono2) simp
    then have "unat N * 2 ^ l' < 2 ^ 32" using N(3) by (rule le_less_trans)
    then have "unat N * unat cls' < 2 ^ LENGTH(32)" using D'(2) by simp
    then show ?thesis using D'(2) by (simp only: unat_mult_no_overflow)
  qed
  then have common: "N * cls' = of_nat len \<longleftrightarrow> l = l'"
    using ulen N(1) by (auto simp: len_def word_unat_eq_iff word_less_nat_alt simp del: of_nat_mult)
  have "of_nat len mod N = 0" unfolding word_unat_eq_iff unat_mod_distrib ulen by (simp add: len_def)
  moreover have "log2_line_loop N (of_nat len) 0 = Some l"
    using log2_line_loop_finds [of N l "of_nat len" 0] N(1,2) ulen D(5) by (simp only: len_def)
  moreover have "push_bit l N = of_nat len"
    using push_bit_unat [of N l] N(2) ulen unfolding word_unat_eq_iff by (simp only: len_def)
  ultimately show ?thesis
    using P N(1) lenpos pos D'(1)
    by (cases "l = l'") (simp_all add: GetFilterBitsReader_def Let_def o ulen cc sint_byte common)
qed

definition legacy_key_probes :: "nat \<Rightarrow> nat \<Rightarrow> nat \<Rightarrow> nat \<Rightarrow> u32 \<Rightarrow> nat list" where
  "legacy_key_probes n w k l = locality_probes False (of_nat (odd_lines (8 * 2 ^ l) (n * w))) k l"

lemma lines_times_256: "X * 64 \<le> X * p \<Longrightarrow> X * (8 * p) \<le> 2 ^ 31 + 2 * 2048 \<Longrightarrow> X * 256 < (2 ^ 32 :: nat)"
proof -
  assume a: "X * 64 \<le> X * p" "X * (8 * p) \<le> 2 ^ 31 + 2 * 2048"
  define q where "q = X * p"
  have "X * 64 \<le> q" "8 * q \<le> 2147487744" using a by (simp_all add: q_def algebra_simps)
  then show "X * 256 < 2 ^ 32" by simp
qed

lemma legacy_filter_answers:
  assumes l: "cache_line_log2 cls l" "cache_line_log2 cls' l'"
    and b: "bits_per_key b = int w" "0 < w" "1 \<le> legacy_probes b" "legacy_probes b \<le> 30"
      "length (legacy_entries b) * w < 2 ^ 31"
  defines "probes \<equiv> legacy_key_probes (length (legacy_entries b)) w (nat (legacy_probes b)) l"
  shows "\<exists>contents r. Legacy_Finish cls b = Some (contents, b\<lparr>legacy_entries := []\<rparr>) \<and>
    GetFilterBitsReader cls' contents = Some r \<and>
    (\<forall>key. MayMatch hash64 r key =
      Some (\<forall>p\<in>set (probes (BloomHash key)). \<exists>h\<in>set (legacy_entries b). p \<in> set (probes h)))"
proof (cases "legacy_entries b = []")
  case True
  let ?c = "[word_of_int (legacy_probes b)] @ EncodeFixed32 0"
  have "Legacy_Finish cls b = Some (?c, b\<lparr>legacy_entries := []\<rparr>)"
    using True b(1,2) put_legacy_metadata [of "replicate 5 0" 0 "word_of_int (legacy_probes b)" 0]
    by (auto simp: Legacy_Finish_def ReserveSpace_def Legacy_CalculateSpace_def bind_eq_Some_conv)
  moreover have "GetFilterBitsReader cls' ?c = Some AlwaysFalseFilter" by (simp add: GetFilterBitsReader_def)
  moreover have "probes h \<noteq> []" for h
    using b(3) by (cases "nat (legacy_probes b)") (auto simp: probes_def legacy_key_probes_def locality_probes_def)
  ultimately show ?thesis using True by (intro exI conjI allI) auto
next
  case False
  let ?k = "nat (legacy_probes b)"
  obtain N d where N: "unat N = odd_lines (8 * 2 ^ l) (length (legacy_entries b) * w)" "0 < N" "unat N * 2 ^ l + 5 < 2 ^ 32"
    and d: "add_all (legacy_add N ?k l) (legacy_entries b) (replicate (unat N * 2 ^ l + 5) 0) = Some d"
      "length d = unat N * 2 ^ l + 5"
      "Legacy_Finish cls b =
        Some (take (unat N * 2 ^ l) d @ [word_of_int (legacy_probes b)] @ EncodeFixed32 N, b\<lparr>legacy_entries := []\<rparr>)"
    by (rule Legacy_Finish_layout [OF l(1) b(1,2) False b(5)])
  note D = cache_line_log2_D [OF l(1)]
  have pf: "probe_filter (legacy_add N ?k l) (legacy_may N ?k l) (locality_probes False N ?k l) (unat N * 2 ^ l)"
    using N(2,3) D by (intro locality_probe_filter) auto
  have probes: "probes = locality_probes False N ?k l"
    unfolding probes_def legacy_key_probes_def N(1) [symmetric] by simp
  have "unat N * 64 \<le> unat N * 2 ^ l" using D(4) power_increasing [of 6 l "2 :: nat"] by (intro mult_le_mono2) simp
  moreover have "odd_lines (8 * 2 ^ l) (length (legacy_entries b) * w) * (8 * 2 ^ l) \<le> 2 ^ 31 + 2 * 2048"
  proof -
    have "odd_lines (8 * 2 ^ l) (length (legacy_entries b) * w) * (8 * 2 ^ l) \<le>
      length (legacy_entries b) * w + 2 * (8 * 2 ^ l)" by (rule odd_lines_bound) simp
    then show ?thesis using b(5) D(6) by linarith
  qed
  ultimately have "unat N * 256 < 2 ^ 32" unfolding N(1) by (rule lines_times_256)
  let ?c = "take (unat N * 2 ^ l) d @ [word_of_int (legacy_probes b)] @ EncodeFixed32 N"
  have r: "GetFilterBitsReader cls' ?c = Some (LegacyBloomBitsReader ?c ?k N l)"
    using legacy_reader_selected [OF refl _ N(2,3) \<open>unat N * 256 < 2 ^ 32\<close> b(3,4) l] d(2) by simp
  have "MayMatch hash64 (LegacyBloomBitsReader ?c ?k N l) key =
      Some (\<forall>p\<in>set (probes (BloomHash key)). \<exists>h\<in>set (legacy_entries b). p \<in> set (probes h))" for key
  proof -
    have "MayMatch hash64 (LegacyBloomBitsReader ?c ?k N l) key = legacy_may N ?k l (BloomHash key) ?c"
      by (simp only: MayMatch.simps Let_def PrepareHashMayMatch_def Locality_HashMayMatch_def bind_assoc
          Option.bind.simps)
    then show ?thesis using probe_filter.may_after_build [OF pf d(1)] by (simp only: probes)
  qed
  then show ?thesis using d(3) r by blast
qed

end
