(* ===== verification/Filter_Properties.thy ===== *)
theory Filter_Properties
  imports Filter_Legacy
begin

text \<open>
  What the Bloom filter policy of \<^verbatim>\<open>table/block_based/filter_policy.cc\<close> promises: the filter a builder
  finishes is read back by the reader its metadata selects and answers exactly by the probed bits of its keys.
\<close>

section \<open>Builders and readers\<close>

text \<open>The bit positions of a key in the filter a builder is about to finish.\<close>

fun key_probes :: "(bytes \<Rightarrow> u64) \<Rightarrow> nat \<Rightarrow> FilterBitsBuilder \<Rightarrow> bytes \<Rightarrow> nat list" where
  "key_probes hash64 l (FastLocalBuilder b) key =
     fast_key_probes (of_nat (64 * fast_lines (length (hash_entries b)) (nat (millibits_per_key b))))
       (nat (num_probes b)) (hash64 key)"
| "key_probes hash64 l (LegacyBuilder b) key =
     legacy_key_probes (length (legacy_entries b)) (nat (bits_per_key b)) (nat (legacy_probes b)) l (BloomHash key)"

lemma AddKey_fold:
  "fold (AddKey hash64) keys (FastLocalBuilder b) = FastLocalBuilder (fold (FastLocal_AddKey hash64) keys b)"
  "fold (AddKey hash64) keys (LegacyBuilder b') = LegacyBuilder (fold Legacy_AddKey keys b')"
  by (induction keys arbitrary: b b') simp_all

lemma NoLocality_ChooseNumProbes_range:
  "1 \<le> NoLocality_ChooseNumProbes f m" "NoLocality_ChooseNumProbes f m \<le> 30"
  by (simp_all add: NoLocality_ChooseNumProbes_def Let_def)

text \<open>A builder as the policy creates it.\<close>

fun fresh_builder :: "FilterBitsBuilder \<Rightarrow> bool" where
  "fresh_builder (FastLocalBuilder b) \<longleftrightarrow> 1000 \<le> millibits_per_key b \<and> millibits_per_key b \<le> 100000 \<and>
     num_probes b = ChooseNumProbes (millibits_per_key b) \<and> hash_entries b = []"
| "fresh_builder (LegacyBuilder b) \<longleftrightarrow> 1 \<le> bits_per_key b \<and> bits_per_key b \<le> 100 \<and>
     1 \<le> legacy_probes b \<and> legacy_probes b \<le> 30 \<and> legacy_entries b = []"

text \<open>The contract of a builder and the reader: the keys added to the builder, finished on a platform with lines of
  \<open>cls\<close> bytes, make a filter whose reader on a platform with lines of \<open>cls'\<close> bytes answers a key with
  true exactly if each of its bits was set by some added key; the builder is left as it was before the keys.\<close>

definition answers_exactly ::
  "(bytes \<Rightarrow> u64) \<Rightarrow> nat \<Rightarrow> u32 \<Rightarrow> u32 \<Rightarrow> bytes list \<Rightarrow> FilterBitsBuilder \<Rightarrow> bool" where
  "answers_exactly hash64 l cls cls' keys b \<longleftrightarrow>
     (\<exists>contents r. Finish cls (fold (AddKey hash64) keys b) = Some (contents, b) \<and>
       GetFilterBitsReader cls' contents = Some r \<and>
       (\<forall>key. MayMatch hash64 r key =
         Some (\<forall>p\<in>set (key_probes hash64 l (fold (AddKey hash64) keys b) key).
           \<exists>k\<in>set keys. p \<in> set (key_probes hash64 l (fold (AddKey hash64) keys b) k))))"

lemma fast_fresh_answers:
  assumes "fresh_builder (FastLocalBuilder b)" "length keys * 100 < 2 ^ 31"
  shows "answers_exactly hash64 l cls cls' keys (FastLocalBuilder b)"
proof -
  let ?b = "fold (FastLocal_AddKey hash64) keys b"
  let ?m = "nat (millibits_per_key b)"
  note F = FastLocal_AddKey_fold [of hash64 keys b]
  have h: "set (hash_entries ?b) = hash64 ` set keys" "length (hash_entries ?b) \<le> length keys"
    using F(1,2) assms(1) by simp_all
  have "length (hash_entries ?b) * ?m \<le> length keys * 100000" using h(2) assms(1) by (intro mult_le_mono) auto
  then have n: "length (hash_entries ?b) * ?m < 2 ^ 41" "length (hash_entries ?b) < 2 ^ 31"
    using assms(2) h(2) by simp_all
  have m: "millibits_per_key ?b = int ?m" "0 < ?m" "1 \<le> num_probes ?b" "num_probes ?b \<le> 30"
    using F(3,4) assms(1) ChooseNumProbes_range [of "millibits_per_key b"] by simp_all
  have "?b\<lparr>hash_entries := []\<rparr> = b" using F(3,4) assms(1) by simp
  then show ?thesis
    using fast_filter_answers [OF m n, of cls' hash64] h(1) F(3,4)
    by (fastforce simp: answers_exactly_def AddKey_fold)
qed

lemma legacy_fresh_answers:
  assumes "fresh_builder (LegacyBuilder b)" "length keys * 100 < 2 ^ 31"
    and l: "cache_line_log2 cls l" "cache_line_log2 cls' l'"
  shows "answers_exactly hash64 l cls cls' keys (LegacyBuilder b)"
proof -
  let ?b = "fold Legacy_AddKey keys b"
  let ?w = "nat (bits_per_key b)"
  note F = Legacy_AddKey_fold [of keys b]
  have h: "set (legacy_entries ?b) = BloomHash ` set keys" "length (legacy_entries ?b) \<le> length keys"
    using F(1,2) assms(1) by simp_all
  have "length (legacy_entries ?b) * ?w \<le> length keys * 100" using h(2) assms(1) by (intro mult_le_mono) auto
  then have n: "length (legacy_entries ?b) * ?w < 2 ^ 31" using assms(2) by simp
  have m: "bits_per_key ?b = int ?w" "0 < ?w" "1 \<le> legacy_probes ?b" "legacy_probes ?b \<le> 30"
    using F(3,4) assms(1) by simp_all
  have "?b\<lparr>legacy_entries := []\<rparr> = b" using F(3,4) assms(1) by simp
  then show ?thesis
    using legacy_filter_answers [OF l m n, of hash64] h(1) F(3,4)
    by (fastforce simp: answers_exactly_def AddKey_fold)
qed

text \<open>What the constructor relies on of \<^verbatim>\<open>double\<close>: a value between 1 and 100 times 1000 plus 0.500001,
  truncated, is between 1000 and 100000.\<close>

definition millibits_ok :: "('d \<Rightarrow> 'd \<Rightarrow> bool) \<Rightarrow> 'd \<Rightarrow> 'd \<Rightarrow> ('d \<Rightarrow> int) \<Rightarrow> bool" where
  "millibits_ok dlt d1 d100 to_millibits \<longleftrightarrow>
     (\<forall>x. x = d1 \<or> x = d100 \<or> \<not> dlt x d1 \<and> dlt x d100 \<longrightarrow> 1000 \<le> to_millibits x \<and> to_millibits x \<le> 100000)"

lemma policy_millibits:
  assumes "millibits_ok dlt d1 d100 to_millibits"
  shows "1000 \<le> policy_millibits_per_key (BloomFilterPolicy_new dlt d1 d100 to_millibits bits m)"
    "policy_millibits_per_key (BloomFilterPolicy_new dlt d1 d100 to_millibits bits m) \<le> 100000"
    "1 \<le> whole_bits_per_key (BloomFilterPolicy_new dlt d1 d100 to_millibits bits m)"
    "whole_bits_per_key (BloomFilterPolicy_new dlt d1 d100 to_millibits bits m) \<le> 100"
    "mode (BloomFilterPolicy_new dlt d1 d100 to_millibits bits m) = m"
proof -
  define x where "x = (if dlt bits d1 then d1 else if \<not> dlt bits d100 then d100 else bits)"
  have "1000 \<le> to_millibits x \<and> to_millibits x \<le> 100000" using assms by (auto simp: millibits_ok_def x_def)
  moreover from this have "1 \<le> (to_millibits x + 500) div 1000 \<and> (to_millibits x + 500) div 1000 \<le> 100" by linarith
  ultimately show "1000 \<le> policy_millibits_per_key (BloomFilterPolicy_new dlt d1 d100 to_millibits bits m)"
    "policy_millibits_per_key (BloomFilterPolicy_new dlt d1 d100 to_millibits bits m) \<le> 100000"
    "1 \<le> whole_bits_per_key (BloomFilterPolicy_new dlt d1 d100 to_millibits bits m)"
    "whole_bits_per_key (BloomFilterPolicy_new dlt d1 d100 to_millibits bits m) \<le> 100"
    "mode (BloomFilterPolicy_new dlt d1 d100 to_millibits bits m) = m"
    by (auto simp: BloomFilterPolicy_new_def Let_def x_def [symmetric])
qed

lemma GetBuilderWithContext_fresh:
  assumes "1000 \<le> policy_millibits_per_key p" "policy_millibits_per_key p \<le> 100000"
    "1 \<le> whole_bits_per_key p" "whole_bits_per_key p \<le> 100" "mode p \<noteq> kDeprecatedBlock"
  shows "\<exists>b p'. GetBuilderWithContext trunc_069 has_log format_version p = Some (Some b, p') \<and> fresh_builder b"
proof -
  have two: "(2 :: nat) = Suc (Suc 0)" by simp
  show ?thesis
    using assms NoLocality_ChooseNumProbes_range [of trunc_069]
    by (cases "mode p") (auto simp: GetBuilderWithContext_def two FastLocalBloomBitsBuilder_new_def
        LegacyBloomBitsBuilder_new_def Let_def)
qed

lemma fresh_builder_answers:
  assumes "fresh_builder b" "length keys * 100 < 2 ^ 31" "cache_line_log2 cls l" "cache_line_log2 cls' l'"
  shows "answers_exactly hash64 l cls cls' keys b"
  using assms fast_fresh_answers legacy_fresh_answers by (cases b) blast+

section \<open>Properties\<close>

text \<open>C14: Whatever bits per key, mode, format version and hash function, the builder that a Bloom filter policy
  creates turns up to 21 million keys into a filter that the reader selected by its metadata, on the same platform or on
  one with another cache line size, answers by its contract: a key matches exactly if each bit it probes was set by some
  added key.  In particular every added key matches.\<close>

theorem policy_filter_exact:
  assumes "millibits_ok dlt d1 d100 to_millibits" "m \<noteq> kDeprecatedBlock" "length keys * 100 < 2 ^ 31"
    "cache_line_log2 cls l" "cache_line_log2 cls' l'"
  shows "\<exists>b p' contents r.
    GetBuilderWithContext trunc_069 has_log format_version (BloomFilterPolicy_new dlt d1 d100 to_millibits bits m) =
      Some (Some b, p') \<and>
    Finish cls (fold (AddKey hash64) keys b) = Some (contents, b) \<and>
    GetFilterBitsReader cls' contents = Some r \<and>
    (\<forall>key. MayMatch hash64 r key =
       Some (\<forall>p\<in>set (key_probes hash64 l (fold (AddKey hash64) keys b) key).
         \<exists>k\<in>set keys. p \<in> set (key_probes hash64 l (fold (AddKey hash64) keys b) k))) \<and>
    (\<forall>key\<in>set keys. MayMatch hash64 r key = Some True)"
proof -
  note P = policy_millibits [OF assms(1), of bits m]
  obtain b p' where b: "GetBuilderWithContext trunc_069 has_log format_version
      (BloomFilterPolicy_new dlt d1 d100 to_millibits bits m) = Some (Some b, p')" "fresh_builder b"
    using GetBuilderWithContext_fresh [OF P(1-4), unfolded P(5), OF assms(2)] by blast
  obtain contents r where r: "Finish cls (fold (AddKey hash64) keys b) = Some (contents, b)"
    "GetFilterBitsReader cls' contents = Some r"
    "\<forall>key. MayMatch hash64 r key = Some (\<forall>p\<in>set (key_probes hash64 l (fold (AddKey hash64) keys b) key).
      \<exists>k\<in>set keys. p \<in> set (key_probes hash64 l (fold (AddKey hash64) keys b) k))"
    using fresh_builder_answers [OF b(2) assms(3-5), of hash64] unfolding answers_exactly_def by blast
  have "MayMatch hash64 r key = Some True" if "key \<in> set keys" for key
    using spec [OF r(3), of key] that by auto
  then show ?thesis using b(1) r by blast
qed

lemma millibits_ok_int: "millibits_ok (<) 1 100 (\<lambda>x. x * 1000 :: int)"
  by (auto simp: millibits_ok_def)

theorem policy_filter_exact_witness:
  "\<exists>b p' contents r.
    GetBuilderWithContext (\<lambda>b. b * 69 div 100) True 4 (BloomFilterPolicy_new (<) 1 100 (\<lambda>x. x * 1000) (10 :: int) kAuto) =
      Some (Some b, p') \<and>
    Finish 128 (fold (AddKey (\<lambda>_. 0)) [[1, 2], [3]] b) = Some (contents, b) \<and>
    GetFilterBitsReader 64 contents = Some r \<and> MayMatch (\<lambda>_. 0) r [3] = Some True"
proof -
  have c: "cache_line_log2 128 7" "cache_line_log2 64 6" by (simp_all add: cache_line_log2_def)
  have k: "length [[1, 2], [3 :: byte]] * 100 < 2 ^ 31" by simp
  show ?thesis
    using policy_filter_exact [OF millibits_ok_int _ k c, of kAuto "\<lambda>b. b * 69 div 100" True 4 10 "\<lambda>_. 0"] by force
qed

end
