(* ===== verification/Filter_Safety.thy ===== *)
theory Filter_Safety
  imports Filter_Properties
begin

text \<open>
  The deprecated per-block filter, the space computation of the fast local builder, the batched query, and what the
  readers do with filters that no builder wrote.
\<close>

section \<open>The per-block filter\<close>

lemma CreateFilter_size:
  assumes "n * w < 2 ^ 31"
  defines "bits \<equiv> (if (word_of_int (int n * int w) :: u32) < 64 then 64 else word_of_int (int n * int w) :: u32)"
  shows "unat ((bits + 7) div 8) = (max 64 (n * w) + 7) div 8"
proof -
  have t: "unat (word_of_int (int n * int w) :: u32) = n * w"
    using unat_of_nat_u32 [of "n * w"] assms(1) by (simp flip: of_nat_mult)
  have u: "unat bits = max 64 (n * w)"
    using t by (auto simp: bits_def word_less_nat_alt)
  then have "unat (bits + 7) = max 64 (n * w) + 7"
    using assms(1) by (subst unat_add_no_overflow) simp_all
  then show ?thesis by (simp only: unat_div_8)
qed

lemma probe_filter_comp:
  assumes "probe_filter add may probes n"
  shows "probe_filter (\<lambda>k. add (f k)) (\<lambda>k. may (f k)) (\<lambda>k. probes (f k)) n"
  using assms by (auto simp: probe_filter_def)

lemma test_pos_zeros_append: "p < 8 * n \<Longrightarrow> \<not> test_pos (replicate n 0 @ meta) p"
  using test_pos_take_append [of n "replicate n 0" p meta] test_pos_replicate_0 by simp

text \<open>The bits of a key in a per-block filter of \<open>bytes\<close> bytes with \<open>k\<close> probes.\<close>

definition block_probes :: "nat \<Rightarrow> nat \<Rightarrow> bytes \<Rightarrow> nat list" where
  "block_probes bytes k key = no_locality_probes (of_nat bytes * 8) k (BloomHash key)"

lemma CreateFilter_answers:
  fixes trunc_069
  assumes p: "mode p = kDeprecatedBlock" "whole_bits_per_key p = int w" and n: "length keys * w < 2 ^ 31"
  defines "N \<equiv> (max 64 (length keys * w) + 7) div 8" and "k \<equiv> nat (NoLocality_ChooseNumProbes trunc_069 (int w))"
  shows "\<exists>f. CreateFilter trunc_069 p keys dst = Some (dst @ f) \<and> length f = N + 1 \<and>
    (\<forall>key. KeyMayMatch key f =
      Some (\<forall>q\<in>set (block_probes N k key). \<exists>k'\<in>set keys. q \<in> set (block_probes N k k')))"
proof -
  define bits where "bits = (if (word_of_int (int (length keys) * int w) :: u32) < 64 then 64
    else word_of_int (int (length keys) * int w) :: u32)"
  define B where "B = (bits + 7) div 8"
  define P where "P = NoLocality_ChooseNumProbes trunc_069 (int w)"
  have N: "unat B = N" unfolding B_def bits_def N_def by (rule CreateFilter_size [OF n])
  then have B: "B = of_nat N" by auto
  have N8: "8 \<le> N" "N < 2 ^ 29" using n by (simp_all add: N_def less_mult_imp_div_less)
  then have B8: "B * 8 \<noteq> 0" "unat (B * 8) \<le> 8 * N" "unat (B * 8) = 8 * N"
    using unat_mult_no_overflow [of B 8] by (auto simp: N word_unat_eq_iff)
  have P: "1 \<le> P" "P \<le> 30" unfolding P_def by (rule NoLocality_ChooseNumProbes_range)+
  let ?add = "\<lambda>key. NoLocality_AddHash (BloomHash key) (B * 8) k"
  have pf: "probe_filter ?add (\<lambda>key. NoLocality_HashMayMatch (BloomHash key) (B * 8) k) (block_probes N k) N"
    using probe_filter_comp [OF no_locality_probe_filter [OF B8(1,2), of k], of BloomHash]
    by (simp add: block_probes_def [abs_def] B)
  let ?d = "replicate N 0 @ [word_of_int P :: byte]"
  have len: "N \<le> length ?d" by simp
  obtain f where f: "add_all ?add keys ?d = Some f" using probe_filter.add_all_fold [OF pf len] by blast
  note lf = probe_filter.add_all_exact(1) [OF pf len f] and tf = probe_filter.add_all_keeps_tail [OF pf len f]
  have "f ! N = word_of_int P" using hd_drop_conv_nth [of N f] lf tf by simp
  then have k: "unat (f ! N) = k" using P by (simp add: k_def P_def [symmetric] unsigned_of_int take_bit_int_eq_self)
  have k30: "k \<le> 30" using P by (simp add: k_def P_def [symmetric])
  have ni: "int (length keys) * int w < 2 ^ 31 \<longleftrightarrow> True" using n by (simp flip: of_nat_mult)
  have "CreateFilter trunc_069 p keys dst = Some (dst @ f)"
    by (simp only: CreateFilter_def Let_def p bits_def [symmetric] B_def [symmetric] P_def [symmetric] N
        k_def [folded P_def, symmetric] ni simp_thms assert_simps Option.bind.simps f)
  moreover have "KeyMayMatch key f =
      Some (\<forall>q\<in>set (block_probes N k key). \<exists>k'\<in>set keys. q \<in> set (block_probes N k k'))" for key
  proof -
    have "KeyMayMatch key f = NoLocality_HashMayMatch (BloomHash key) (B * 8) k f"
      using lf k N8 k30 by (simp add: KeyMayMatch_def Let_def B)
    moreover have "\<not> test_pos ?d q" if "q \<in> set (block_probes N k key)" for q
      using probe_filter.probe_bound [OF pf that] by (rule test_pos_zeros_append)
    ultimately show ?thesis using probe_filter.may_after_add_all [OF pf len f, of key] by auto
  qed
  ultimately show ?thesis using lf by auto
qed

section \<open>The batched query\<close>

lemma map_opt_upt: "map_opt (\<lambda>i. f (xs ! i)) [0..<length xs] = map_opt f xs"
proof -
  have "map_opt (\<lambda>i. f (xs ! i)) [n..<length xs] = map_opt f (drop n xs)" if "n \<le> length xs" for n
    using that
  proof (induction "length xs - n" arbitrary: n)
    case (Suc d)
    then have "n < length xs" by linarith
    then show ?case using Suc by (simp add: upt_conv_Cons nth_drop_0)
  qed simp
  from this [of 0] show ?thesis by simp
qed

lemma map_opt_cong: "(\<And>x. x \<in> set xs \<Longrightarrow> f x = g x) \<Longrightarrow> map_opt f xs = map_opt g xs"
  by (induction xs) auto

lemma map_opt_Some: "map_opt (\<lambda>x. Some (f x)) xs = Some (map f xs)"
  by (induction xs) auto

lemma batch_fast:
  assumes "length keys \<le> MAX_BATCH_SIZE"
  shows "MayMatch_batch hash64 (FastLocalBloomBitsReader data k len) keys =
    map_opt (MayMatch hash64 (FastLocalBloomBitsReader data k len)) keys"
proof -
  have "map_opt (\<lambda>i. HashMayMatchPrepared (map (\<lambda>key. Upper32of64 (hash64 key)) keys ! i) k
      (unat (map (\<lambda>key. PrepareHash (Lower32of64 (hash64 key)) len) keys ! i)) data) [0..<length keys] =
    map_opt (\<lambda>i. MayMatch hash64 (FastLocalBloomBitsReader data k len) (keys ! i)) [0..<length keys]"
    by (rule map_opt_cong) (simp add: Let_def)
  then show ?thesis using assms map_opt_upt [of "MayMatch hash64 (FastLocalBloomBitsReader data k len)" keys]
    by (simp add: Let_def)
qed

lemma batch_legacy:
  assumes "length keys \<le> MAX_BATCH_SIZE"
  shows "MayMatch_batch hash64 (LegacyBloomBitsReader data k N l) keys =
    map_opt (MayMatch hash64 (LegacyBloomBitsReader data k N l)) keys"
proof (cases "N = 0 \<and> keys \<noteq> []")
  case True
  then have "PrepareHashMayMatch False h N l = None" for h
    by (simp add: PrepareHashMayMatch_def GetLine_def umod_def)
  then show ?thesis using True assms by (cases keys) (simp_all add: Let_def)
next
  case False
  let ?off = "\<lambda>h. push_bit l (h mod N)"
  have off: "PrepareHashMayMatch False h N l = Some (?off h)" if "keys \<noteq> []" for h
    using False that by (simp add: PrepareHashMayMatch_def GetLine_def umod_def)
  have offs: "map_opt (\<lambda>h. PrepareHashMayMatch False h N l) (map BloomHash keys) = Some (map (\<lambda>key. ?off (BloomHash key)) keys)"
    using off map_opt_Some [of ?off "map BloomHash keys"] by (cases "keys = []") (simp_all add: comp_def)
  have "map_opt (\<lambda>i. Locality_HashMayMatchPrepared False (map BloomHash keys ! i) k l
      (unat (map (\<lambda>key. ?off (BloomHash key)) keys ! i)) data) [0..<length keys] =
    map_opt (\<lambda>i. MayMatch hash64 (LegacyBloomBitsReader data k N l) (keys ! i)) [0..<length keys]"
    by (rule map_opt_cong) (use off in \<open>cases "keys = []"; simp add: Let_def\<close>)
  then show ?thesis using assms offs map_opt_upt [of "MayMatch hash64 (LegacyBloomBitsReader data k N l)" keys]
    by (simp add: Let_def)
qed

section \<open>Filters that no builder wrote\<close>

lemma log2_line_loop_total:
  assumes "0 < N" "unat len < 2 ^ 28"
  shows "unat N * 2 ^ k < 2 ^ 29 \<Longrightarrow> \<exists>k'. log2_line_loop N len k = Some k' \<and> unat N * 2 ^ k' < 2 ^ 29"
proof (induction "29 - k" arbitrary: k rule: less_induct)
  case less
  have "1 * 2 ^ k \<le> unat N * 2 ^ k" using assms(1) by (intro mult_le_mono1) (simp add: word_less_nat_alt)
  then have "(2 :: nat) ^ k < 2 ^ 29" using less.prems by linarith
  then have k: "k < 29" using power_less_imp_less_exp [of 2 k 29] by simp
  have u: "unat (push_bit k N) = unat N * 2 ^ k" using less.prems by (intro push_bit_unat) simp
  show ?case
  proof (cases "push_bit k N < len")
    case True
    then have "unat N * 2 ^ (k + 1) < 2 ^ 29" using u assms(2) by (simp add: word_less_nat_alt)
    from less.hyps [OF _ this] k True show ?thesis by (subst log2_line_loop.simps) simp
  qed (use less.prems k in \<open>subst log2_line_loop.simps; simp\<close>)
qed

lemma log2_bound:
  assumes "0 < N" "unat N * 2 ^ k < 2 ^ 28"
  shows "k + 3 < 31"
proof -
  have "1 * 2 ^ k \<le> unat N * 2 ^ k" using assms(1) by (intro mult_le_mono1) (simp add: word_less_nat_alt)
  then have "(2 :: nat) ^ k < 2 ^ 28" using assms(2) by linarith
  then show ?thesis using power_less_imp_less_exp [of 2 k 28] by simp
qed

lemma fast_reader_safe:
  assumes "64 \<le> length data" "unat len \<le> length data"
  shows "MayMatch hash64 (FastLocalBloomBitsReader data k len) key \<noteq> None"
proof -
  have "MayMatch hash64 (FastLocalBloomBitsReader data k len) key = fast_may len k (hash64 key) data"
    by (simp only: MayMatch.simps Let_def fast_may_def FastLocal_HashMayMatch_prepared)
  then show ?thesis using fast_entry.may_tests [of len data k "hash64 key"] assms by simp
qed

lemma legacy_reader_safe:
  assumes "0 < N" "l + 3 < 31" "unat N * 2 ^ l < 2 ^ 32" "unat N * 2 ^ l \<le> length data"
  shows "MayMatch hash64 (LegacyBloomBitsReader data k N l) key \<noteq> None"
proof -
  have "MayMatch hash64 (LegacyBloomBitsReader data k N l) key = legacy_may N k l (BloomHash key) data"
    by (simp only: MayMatch.simps Let_def PrepareHashMayMatch_def Locality_HashMayMatch_def bind_assoc Option.bind.simps)
  moreover have "probe_filter (legacy_add N k l) (legacy_may N k l) (locality_probes False N k l) (unat N * 2 ^ l)"
    using assms by (intro locality_probe_filter) auto
  ultimately show ?thesis using probe_filter.may_tests [OF _ assms(4)] by fastforce
qed

text \<open>The number of lines stored in the metadata of a filter in the legacy format.\<close>

definition stored_lines :: "bytes \<Rightarrow> u32" where
  "stored_lines contents = DecodeFixed32 (drop (length contents - 4) contents)"

definition reader_safe :: "(bytes \<Rightarrow> u64) \<Rightarrow> FilterBitsReader \<Rightarrow> bool" where
  "reader_safe hash64 r \<longleftrightarrow> (\<forall>key. MayMatch hash64 r key \<noteq> None)"

lemma trivial_readers_safe [simp]: "reader_safe hash64 AlwaysTrueFilter" "reader_safe hash64 AlwaysFalseFilter"
  by (simp_all add: reader_safe_def)

lemma GetBloomBitsReader_safe:
  assumes l: "length contents = len + 5" "len + 5 < 2 ^ 32" "0 < len" "64 \<le> length contents"
  shows "\<exists>r. GetBloomBitsReader contents = Some r \<and> reader_safe hash64 r"
proof -
  note o = metadata_offsets [OF l(1,2)]
  have ulen: "unat (of_nat len :: u32) = len" using unat_of_nat_u32 [of len] l(2) by simp
  then have "(0 :: u32) < of_nat len" using l(3) by (simp add: word_less_nat_alt)
  moreover have "reader_safe hash64 (FastLocalBloomBitsReader contents k (of_nat len))" for k
    unfolding reader_safe_def using fast_reader_safe [of contents "of_nat len"] l ulen by auto
  ultimately show ?thesis by (auto simp: GetBloomBitsReader_def Let_def o)
qed

lemma GetFilterBitsReader_safe:
  assumes l: "length contents < 2 ^ 28" "64 \<le> length contents" and c: "cache_line_log2 cls l"
    and N: "unat (stored_lines contents) * unat cls < 2 ^ 32"
  shows "\<exists>r. GetFilterBitsReader cls contents = Some r \<and> reader_safe hash64 r"
proof -
  obtain len where len: "length contents = len + 5" using l(2) by (intro that [of "length contents - 5"]) simp
  have len32: "len + 5 < 2 ^ 32" "0 < len" "len < 2 ^ 28" using l len by simp_all
  note o = metadata_offsets [OF len len32(1)] and D = cache_line_log2_D [OF c]
  have ulen: "unat (of_nat len :: u32) = len" using unat_of_nat_u32 [of len] len32 by simp
  have lpos: "(0 :: u32) < of_nat len" using ulen len32(2) by (simp add: word_less_nat_alt)
  define s where "s = sint (contents ! len)"
  define n where "n = DecodeFixed32 (drop (Suc len) contents)"
  have n_lines: "n = stored_lines contents" by (simp add: n_def stored_lines_def len)
  have s127: "s \<le> 127" unfolding s_def using sint_lt [of "contents ! len"] by simp
  have legacy: "reader_safe hash64 (LegacyBloomBitsReader contents k n j)"
    if "0 < n" "unat n * 2 ^ j = len" for k j
    unfolding reader_safe_def using that len32 len log2_bound [OF that(1), of j]
    by (intro allI legacy_reader_safe) simp_all
  have common: "reader_safe hash64 (LegacyBloomBitsReader contents k n l)" if "n * cls = of_nat len" for k
  proof (rule legacy)
    have "unat (n * cls) = unat n * 2 ^ l" using N n_lines D(2) by (subst unat_mult_no_overflow) simp_all
    then show "unat n * 2 ^ l = len" using that ulen by simp
    then show "0 < n" using len32(2) by (auto simp: word_less_nat_alt intro: Nat.gr0I)
  qed
  show ?thesis
  proof (cases "s < 1")
    case True
    then show ?thesis
      using GetBloomBitsReader_safe [OF len len32(1,2) l(2), of hash64] len32(2)
      by (auto simp: GetFilterBitsReader_def Let_def o ulen s_def [symmetric])
  next
    case False
    note R = GetFilterBitsReader_def Let_def o ulen s_def [symmetric] n_def [symmetric]
    consider "n * cls = of_nat len" | "n * cls \<noteq> of_nat len" "n = 0 \<or> of_nat len mod n \<noteq> 0"
      | "n * cls \<noteq> of_nat len" "n \<noteq> 0" "of_nat len mod n = 0" by metis
    then show ?thesis
    proof cases
      case 1
      then show ?thesis using False s127 lpos len32(2) D(1) common by (simp add: R)
    next
      case 2
      then show ?thesis using False s127 lpos len32(2) by (simp add: R)
    next
      case 3
      then have n0: "0 < n" by (simp add: word_neq_0_conv)
      have "n \<le> of_nat len"
      proof (rule ccontr)
        assume "\<not> n \<le> of_nat len"
        then have "of_nat len mod n = of_nat len" by (intro mod_word_less) simp
        then show False using 3(3) lpos by simp
      qed
      then have "unat n * 2 ^ 0 < 2 ^ 29" using ulen len32(3) by (simp add: word_le_nat_alt)
      then obtain j where j: "log2_line_loop n (of_nat len) 0 = Some j" "unat n * 2 ^ j < 2 ^ 29"
        using log2_line_loop_total [OF n0, of "of_nat len" 0] ulen len32(3) by auto
      have "reader_safe hash64 (LegacyBloomBitsReader contents k n j)" if "push_bit j n = of_nat len" for k
      proof (rule legacy [OF n0])
        show "unat n * 2 ^ j = len" using push_bit_unat [of n j] j(2) that ulen by simp
      qed
      then show ?thesis using 3 False s127 lpos len32(2) j(1) by (simp add: R)
    qed
  qed
qed

lemma batch_agrees:
  assumes "length keys \<le> MAX_BATCH_SIZE"
  shows "MayMatch_batch hash64 r keys = map_opt (MayMatch hash64 r) keys"
  using assms by (cases r) (simp_all add: batch_fast batch_legacy del: MayMatch_batch.simps(1,2))

lemma BloomHash_nil: "BloomHash [] = 0xbc9f1d34"
  by code_simp

section \<open>Space\<close>

lemma CalculateNumEntry_unat:
  assumes "0 < m" "m < 2 ^ 31" "millibits_per_key b = int m" "unat bytes = 64 * L + 5" "512000 * L div m < 2 ^ 31"
  shows "FastLocal_CalculateNumEntry b bytes = int (512000 * L div m)"
proof -
  have five: "unat (5 :: u32) = 5" by simp
  have ge: "5 \<le> bytes" using assms(4) five by (simp add: word_le_nat_alt)
  then have u: "unat (bytes - 5) = 64 * L" using assms(4) five by (simp add: unat_sub)
  have "64 * L < 2 ^ 32" using u unsigned_less [of "bytes - 5", where 'a = nat] by simp
  then have e: "(8000 * ucast (bytes - 5) :: u64) = of_nat (512000 * L)"
    using u by (simp add: word_unat_eq_iff unat_mult_no_overflow unsigned_ucast_eq take_bit_nat_eq_self unsigned_of_nat)
  have "(of_nat (512000 * L) :: u64) div word_of_int (int m) = of_nat (512000 * L div m)"
    using \<open>64 * L < 2 ^ 32\<close> assms(2) take_bit_nat_eq_self [of "512000 * L div m" 64] assms(5)
    by (simp add: word_unat_eq_iff unat_div_distrib unsigned_of_nat take_bit_nat_eq_self del: of_nat_mult)
  then have "FastLocal_CalculateNumEntry b bytes = sint (ucast (of_nat (512000 * L div m) :: u64) :: u32)"
    using ge assms(3) e by (simp add: FastLocal_CalculateNumEntry_def Let_def del: of_nat_mult)
  also have "(ucast (of_nat (512000 * L div m) :: u64) :: u32) = of_nat (512000 * L div m)"
    using assms(5) by (simp add: word_unat_eq_iff unsigned_ucast_eq unsigned_of_nat take_bit_nat_eq_self del: of_nat_mult)
  finally show ?thesis using sint_of_nat_u32 [OF assms(5)] by simp
qed

section \<open>Properties\<close>

text \<open>A per-block filter appended to a block answers by the bits of its keys, so that it has no false
  negatives: the reader recovers the number of probes and the number of bits from the filter alone.\<close>

theorem block_filter_exact:
  assumes "millibits_ok dlt d1 d100 to_millibits" "length keys * 100 < 2 ^ 31"
  shows "\<exists>f k. CreateFilter trunc_069 (NewBloomFilterPolicy dlt d1 d100 to_millibits bits True) keys dst = Some (dst @ f) \<and> 1 \<le> k \<and> k \<le> 30 \<and>
    (\<forall>key. KeyMayMatch key f = Some (\<forall>q\<in>set (block_probes (length f - 1) k key).
      \<exists>k'\<in>set keys. q \<in> set (block_probes (length f - 1) k k'))) \<and>
    (\<forall>key\<in>set keys. KeyMayMatch key f = Some True)"
proof -
  note P = policy_millibits [OF assms(1), of bits kDeprecatedBlock]
  define p where "p = NewBloomFilterPolicy dlt d1 d100 to_millibits bits True"
  define w where "w = nat (whole_bits_per_key p)"
  have p: "mode p = kDeprecatedBlock" "whole_bits_per_key p = int w" "w \<le> 100"
    using P by (simp_all add: p_def NewBloomFilterPolicy_def w_def)
  have "length keys * w \<le> length keys * 100" using p(3) by simp
  then have n: "length keys * w < 2 ^ 31" using assms(2) by linarith
  let ?k = "nat (NoLocality_ChooseNumProbes trunc_069 (int w))"
  let ?N = "(max 64 (length keys * w) + 7) div 8"
  obtain f where f: "CreateFilter trunc_069 p keys dst = Some (dst @ f)" "length f = ?N + 1"
    "\<forall>key. KeyMayMatch key f = Some (\<forall>q\<in>set (block_probes ?N ?k key). \<exists>k'\<in>set keys. q \<in> set (block_probes ?N ?k k'))"
    using CreateFilter_answers [OF p(1,2) n, of trunc_069 dst] by blast
  have len: "length f - 1 = ?N" using f(2) by simp
  have k: "1 \<le> ?k" "?k \<le> 30" using NoLocality_ChooseNumProbes_range [of trunc_069 "int w"] by simp_all
  have "KeyMayMatch key f = Some True" if "key \<in> set keys" for key
    using spec [OF f(3), of key] that by auto
  then show ?thesis using f(1,3) k unfolding len [symmetric] p_def by blast
qed

theorem block_filter_exact_witness:
  "\<exists>f. CreateFilter (\<lambda>b. b * 69 div 100) (NewBloomFilterPolicy (<) 1 100 (\<lambda>x. x * 1000) (10 :: int) True) [[1], [2, 3]] [7] =
      Some ([7] @ f) \<and> KeyMayMatch [2, 3] f = Some True"
proof -
  have "length [[1], [2, 3 :: byte]] * 100 < 2 ^ 31" by simp
  from block_filter_exact [OF millibits_ok_int this, of "\<lambda>b. b * 69 div 100" 10 "[7]"] show ?thesis by force
qed




text \<open>C31: Passing the space computed for a number of keys back to the computation of the number of entries returns at
  least that number, as the interface promises, and at most 512 more.\<close>

theorem filter_space_fits_entries:
  assumes "millibits_per_key b = int m" "1000 \<le> m" "m \<le> 100000" "n * 100 < 2 ^ 31"
  shows "int n \<le> FastLocal_CalculateNumEntry b (FastLocal_CalculateSpace b (int n)) \<and>
    FastLocal_CalculateNumEntry b (FastLocal_CalculateSpace b (int n)) \<le> int (n + 512)"
proof -
  let ?L = "fast_lines n m"
  have "n * m \<le> n * 100000" using assms(3) by simp
  then have nm: "n * m < 2 ^ 41" by (rule le_less_trans) (use assms(4) in simp)
  have u: "unat (FastLocal_CalculateSpace b (int n)) = 64 * ?L + 5"
    using FastLocal_CalculateSpace_unat [OF _ assms(1) nm] assms(2) by (simp add: fast_lines_def)
  have lo: "n * m \<le> 512000 * ?L" and hi: "512000 * ?L \<le> n * m + 511999" unfolding fast_lines_def by linarith+
  have "n \<le> 512000 * ?L div m" using div_le_mono [OF lo, of m] assms(2) by simp
  moreover have "512000 * ?L div m \<le> n + 512"
  proof -
    have "512000 * ?L \<le> (n + 512) * m" using hi assms(2) by (simp add: algebra_simps)
    then show ?thesis using div_le_mono [of "512000 * ?L" "(n + 512) * m" m] assms(2) by simp
  qed
  moreover have "FastLocal_CalculateNumEntry b (FastLocal_CalculateSpace b (int n)) = int (512000 * ?L div m)"
    using calculation assms by (intro CalculateNumEntry_unat u) simp_all
  ultimately show ?thesis by simp
qed

theorem filter_space_fits_entries_witness:
  "int 1000 \<le> FastLocal_CalculateNumEntry \<lparr>millibits_per_key = 9900, num_probes = 6, hash_entries = []\<rparr>
     (FastLocal_CalculateSpace \<lparr>millibits_per_key = 9900, num_probes = 6, hash_entries = []\<rparr> (int 1000))"
  using filter_space_fits_entries [of "\<lparr>millibits_per_key = 9900, num_probes = 6, hash_entries = []\<rparr>" 9900 1000] by simp

end
