(* ===== verification/Filter_Block.thy ===== *)
theory Filter_Block
  imports Filter_Safety Comparator
begin

text \<open>
  The filter blocks of a table: \<^verbatim>\<open>table/block_based/block_based_filter_block.cc\<close>, with one filter for every two
  kilobytes of data blocks, and \<^verbatim>\<open>table/block_based/full_filter_block.cc\<close>, with one filter for the whole table.  Both collect
  whole keys, prefixes of keys or both.  Fetching the filter block from the cache or the file is an argument: the contents, or
  None for a status that is not OK.  None as a result is a failed assertion or an access outside the block.
\<close>

section \<open>Definitions\<close>

text \<open>\<^verbatim>\<open>SliceTransform\<close>; the length that \<^verbatim>\<open>FullLengthEnabled\<close> reports, None when it returns false.\<close>

record SliceTransform =
  st_InDomain :: "bytes \<Rightarrow> bool"
  st_Transform :: "bytes \<Rightarrow> bytes"
  st_FullLengthEnabled :: "nat option"

definition FixedPrefixTransform :: "nat \<Rightarrow> SliceTransform" where
  "FixedPrefixTransform n =
     \<lparr>st_InDomain = FixedPrefix_InDomain n, st_Transform = FixedPrefix_Transform n, st_FullLengthEnabled = Some n\<rparr>"

definition CappedPrefixTransform :: "nat \<Rightarrow> SliceTransform" where
  "CappedPrefixTransform n =
     \<lparr>st_InDomain = CappedPrefix_InDomain n, st_Transform = CappedPrefix_Transform n, st_FullLengthEnabled = Some n\<rparr>"

definition NoopTransform :: SliceTransform where
  "NoopTransform = \<lparr>st_InDomain = Noop_InDomain, st_Transform = Noop_Transform, st_FullLengthEnabled = None\<rparr>"

subsection \<open>BlockBasedFilterBlockBuilder\<close>

definition kFilterBaseLg :: nat where
  "kFilterBaseLg = 11"

definition kFilterBase :: u64 where
  "kFilterBase = push_bit kFilterBaseLg 1"

record BlockBasedFilterBlockBuilder =
  bb_policy :: BloomFilterPolicy
  bb_prefix_extractor :: "SliceTransform option"
  bb_whole_key_filtering :: bool
  prev_prefix_start :: nat
  prev_prefix_size :: nat
  bb_entries :: bytes
  bb_start :: "nat list"
  bb_result :: bytes
  filter_offsets :: "u32 list"
  bb_num_added :: nat

definition BlockBasedFilterBlockBuilder_new ::
  "SliceTransform option \<Rightarrow> BloomFilterPolicy \<Rightarrow> bool \<Rightarrow> BlockBasedFilterBlockBuilder" where
  "BlockBasedFilterBlockBuilder_new extractor policy whole =
     \<lparr>bb_policy = policy, bb_prefix_extractor = extractor, bb_whole_key_filtering = whole, prev_prefix_start = 0,
      prev_prefix_size = 0, bb_entries = [], bb_start = [], bb_result = [], filter_offsets = [], bb_num_added = 0\<rparr>"

definition GenerateFilter ::
  "(int \<Rightarrow> int) \<Rightarrow> BlockBasedFilterBlockBuilder \<Rightarrow> BlockBasedFilterBlockBuilder option" where
  "GenerateFilter trunc_069 b =
     (let num_entries = length (bb_start b)
      in if num_entries = 0
         then Some (b\<lparr>filter_offsets := filter_offsets b @ [of_nat (length (bb_result b))]\<rparr>)
         else do {
           let start = bb_start b @ [length (bb_entries b)];
           let tmp_entries = map (\<lambda>i. subslice (bb_entries b) (start ! i) (start ! (i + 1) - start ! i)) [0..<num_entries];
           let offsets = filter_offsets b @ [of_nat (length (bb_result b))];
           result \<leftarrow> CreateFilter trunc_069 (bb_policy b) tmp_entries (bb_result b);
           Some (b\<lparr>filter_offsets := offsets, bb_result := result, bb_entries := [], bb_start := [],
                   prev_prefix_start := 0, prev_prefix_size := 0\<rparr>)
         })"

partial_function (option) generate_until ::
  "(int \<Rightarrow> int) \<Rightarrow> u64 \<Rightarrow> BlockBasedFilterBlockBuilder \<Rightarrow> BlockBasedFilterBlockBuilder option" where
  [code]: "generate_until trunc_069 filter_index b =
     (if unat filter_index > length (filter_offsets b) then do {
        b \<leftarrow> GenerateFilter trunc_069 b;
        generate_until trunc_069 filter_index b
      } else Some b)"

definition StartBlock ::
  "(int \<Rightarrow> int) \<Rightarrow> u64 \<Rightarrow> BlockBasedFilterBlockBuilder \<Rightarrow> BlockBasedFilterBlockBuilder option" where
  "StartBlock trunc_069 block_offset b = do {
     let filter_index = block_offset div kFilterBase;
     assert (unat filter_index \<ge> length (filter_offsets b));
     generate_until trunc_069 filter_index b
   }"

definition BlockBased_AddKey :: "bytes \<Rightarrow> BlockBasedFilterBlockBuilder \<Rightarrow> BlockBasedFilterBlockBuilder" where
  "BlockBased_AddKey key b =
     b\<lparr>bb_num_added := bb_num_added b + 1, bb_start := bb_start b @ [length (bb_entries b)],
       bb_entries := bb_entries b @ key\<rparr>"

definition BlockBased_AddPrefix ::
  "SliceTransform \<Rightarrow> bytes \<Rightarrow> BlockBasedFilterBlockBuilder \<Rightarrow> BlockBasedFilterBlockBuilder" where
  "BlockBased_AddPrefix t key b =
     (let prev = (if prev_prefix_size b > 0 then subslice (bb_entries b) (prev_prefix_start b) (prev_prefix_size b) else []);
          prefix = st_Transform t key
      in if length prev = 0 \<or> \<not> Slice_equal prefix prev
         then BlockBased_AddKey prefix
                (b\<lparr>prev_prefix_start := length (bb_entries b), prev_prefix_size := length prefix\<rparr>)
         else b)"

definition BlockBased_Add :: "bytes \<Rightarrow> BlockBasedFilterBlockBuilder \<Rightarrow> BlockBasedFilterBlockBuilder" where
  "BlockBased_Add key b =
     (let b = (case bb_prefix_extractor b of
                 Some t \<Rightarrow> if st_InDomain t key then BlockBased_AddPrefix t key b else b
               | None \<Rightarrow> b)
      in if bb_whole_key_filtering b then BlockBased_AddKey key b else b)"

definition BlockBased_Finish ::
  "(int \<Rightarrow> int) \<Rightarrow> BlockBasedFilterBlockBuilder \<Rightarrow> (bytes \<times> BlockBasedFilterBlockBuilder) option" where
  "BlockBased_Finish trunc_069 b = do {
     b \<leftarrow> (if bb_start b \<noteq> [] then GenerateFilter trunc_069 b else Some b);
     let array_offset = (of_nat (length (bb_result b)) :: u32);
     let result = foldl (\<lambda>dst off. PutFixed32 dst off) (bb_result b) (filter_offsets b);
     let result = PutFixed32 result array_offset;
     let result = result @ [of_nat kFilterBaseLg];
     Some (result, b\<lparr>bb_result := result\<rparr>)
   }"

subsection \<open>BlockBasedFilterBlockReader\<close>

text \<open>The start of the offset array, its length and the shift; the shift is a \<^verbatim>\<open>char\<close> converted to \<^verbatim>\<open>size_t\<close>.\<close>

definition ParseFieldsFromBlock :: "bytes \<Rightarrow> (nat \<times> nat \<times> u64) option" where
  "ParseFieldsFromBlock contents =
     (let n = length contents
      in if n < 5 then None
         else let last_word = DecodeFixed32 (drop (n - 5) contents)
              in if unat last_word > n - 5 then None
                 else Some (unat last_word, (n - 5 - unat last_word) div 4, scast (contents ! (n - 1))))"

text \<open>A shift by 64 or more is undefined.\<close>

definition BlockBased_MayMatch :: "bytes option \<Rightarrow> bytes \<Rightarrow> u64 \<Rightarrow> bool option" where
  "BlockBased_MayMatch filter_block entry block_offset =
     (case filter_block of None \<Rightarrow> Some True
      | Some data \<Rightarrow>
          (case ParseFieldsFromBlock data of None \<Rightarrow> Some True
           | Some (off, num, base_lg) \<Rightarrow> do {
               assert (unat base_lg < 64);
               let index = unat (drop_bit (unat base_lg) block_offset);
               if index < num then do {
                 assert (off + index * 4 + 8 \<le> length data);
                 let start = DecodeFixed32 (drop (off + index * 4) data);
                 let limit = DecodeFixed32 (drop (off + index * 4 + 4) data);
                 if start \<le> limit \<and> limit \<le> of_nat off then do {
                   assert (unat limit \<le> length data);
                   KeyMayMatch entry (subslice data (unat start) (unat (limit - start)))
                 } else if start = limit then Some False
                 else Some True
               } else Some True
             }))"

definition kNotValid :: u64 where
  "kNotValid = - 1"

definition BlockBased_KeyMayMatch :: "bool \<Rightarrow> bytes option \<Rightarrow> bytes \<Rightarrow> u64 \<Rightarrow> bool option" where
  "BlockBased_KeyMayMatch whole_key_filtering filter_block key block_offset = do {
     assert (block_offset \<noteq> kNotValid);
     if \<not> whole_key_filtering then Some True else BlockBased_MayMatch filter_block key block_offset
   }"

definition BlockBased_PrefixMayMatch :: "bytes option \<Rightarrow> bytes \<Rightarrow> u64 \<Rightarrow> bool option" where
  "BlockBased_PrefixMayMatch filter_block prefix block_offset = do {
     assert (block_offset \<noteq> kNotValid);
     BlockBased_MayMatch filter_block prefix block_offset
   }"

subsection \<open>FullFilterBlockBuilder\<close>

record FullFilterBlockBuilder =
  filter_bits_builder :: FilterBitsBuilder
  ff_prefix_extractor :: "SliceTransform option"
  ff_whole_key_filtering :: bool
  last_whole_key_recorded :: bool
  last_whole_key_str :: bytes
  last_prefix_recorded :: bool
  last_prefix_str :: bytes
  ff_num_added :: u32

definition FullFilterBlockBuilder_new ::
  "SliceTransform option \<Rightarrow> bool \<Rightarrow> FilterBitsBuilder option \<Rightarrow> FullFilterBlockBuilder option" where
  "FullFilterBlockBuilder_new extractor whole bits_builder = do {
     bits_builder \<leftarrow> bits_builder;
     Some \<lparr>filter_bits_builder = bits_builder, ff_prefix_extractor = extractor, ff_whole_key_filtering = whole,
           last_whole_key_recorded = False, last_whole_key_str = [], last_prefix_recorded = False,
           last_prefix_str = [], ff_num_added = 0\<rparr>
   }"

definition Full_AddKey :: "(bytes \<Rightarrow> u64) \<Rightarrow> bytes \<Rightarrow> FullFilterBlockBuilder \<Rightarrow> FullFilterBlockBuilder" where
  "Full_AddKey hash64 key b =
     b\<lparr>filter_bits_builder := AddKey hash64 key (filter_bits_builder b), ff_num_added := ff_num_added b + 1\<rparr>"

definition Full_AddPrefix ::
  "(bytes \<Rightarrow> u64) \<Rightarrow> SliceTransform \<Rightarrow> bytes \<Rightarrow> FullFilterBlockBuilder \<Rightarrow> FullFilterBlockBuilder" where
  "Full_AddPrefix hash64 t key b =
     (let prefix = st_Transform t key
      in if ff_whole_key_filtering b then
           (if \<not> last_prefix_recorded b \<or> Slice_compare (last_prefix_str b) prefix \<noteq> 0
            then (Full_AddKey hash64 prefix b)\<lparr>last_prefix_recorded := True, last_prefix_str := prefix\<rparr>
            else b)
         else Full_AddKey hash64 prefix b)"

definition Full_Add :: "(bytes \<Rightarrow> u64) \<Rightarrow> bytes \<Rightarrow> FullFilterBlockBuilder \<Rightarrow> FullFilterBlockBuilder" where
  "Full_Add hash64 key b =
     (let add_prefix = (case ff_prefix_extractor b of None \<Rightarrow> False | Some t \<Rightarrow> st_InDomain t key);
          b = (if ff_whole_key_filtering b then
                 (if \<not> add_prefix then Full_AddKey hash64 key b
                  else if \<not> last_whole_key_recorded b \<or> Slice_compare (last_whole_key_str b) key \<noteq> 0
                  then (Full_AddKey hash64 key b)\<lparr>last_whole_key_recorded := True, last_whole_key_str := key\<rparr>
                  else b)
               else b)
      in case ff_prefix_extractor b of
           None \<Rightarrow> b
         | Some t \<Rightarrow> if add_prefix then Full_AddPrefix hash64 t key b else b)"

definition Full_Reset :: "FullFilterBlockBuilder \<Rightarrow> FullFilterBlockBuilder" where
  "Full_Reset b = b\<lparr>last_whole_key_recorded := False, last_prefix_recorded := False\<rparr>"

definition Full_Finish :: "u32 \<Rightarrow> FullFilterBlockBuilder \<Rightarrow> (bytes \<times> FullFilterBlockBuilder) option" where
  "Full_Finish cls b = do {
     let b = Full_Reset b;
     if ff_num_added b \<noteq> 0 then do {
       let b = b\<lparr>ff_num_added := 0\<rparr>;
       (contents, bits_builder) \<leftarrow> Finish cls (filter_bits_builder b);
       Some (contents, b\<lparr>filter_bits_builder := bits_builder\<rparr>)
     } else Some ([], b)
   }"

subsection \<open>FullFilterBlockReader\<close>

text \<open>\<^verbatim>\<open>ParsedFullFilterBlock\<close>: the reader of the filter, None for the null pointer of an empty block.\<close>

definition ParsedFullFilterBlock :: "u32 \<Rightarrow> bytes \<Rightarrow> FilterBitsReader option option" where
  "ParsedFullFilterBlock cls contents =
     (if contents \<noteq> [] then map_option Some (GetFilterBitsReader cls contents) else Some None)"

definition Full_MayMatch :: "(bytes \<Rightarrow> u64) \<Rightarrow> FilterBitsReader option option \<Rightarrow> bytes \<Rightarrow> bool option" where
  "Full_MayMatch hash64 filter_block entry =
     (case filter_block of
        None \<Rightarrow> Some True
      | Some None \<Rightarrow> Some True
      | Some (Some r) \<Rightarrow> MayMatch hash64 r entry)"

definition Full_KeyMayMatch ::
  "(bytes \<Rightarrow> u64) \<Rightarrow> bool \<Rightarrow> FilterBitsReader option option \<Rightarrow> bytes \<Rightarrow> u64 \<Rightarrow> bool option" where
  "Full_KeyMayMatch hash64 whole_key_filtering filter_block key block_offset = do {
     assert (block_offset = kNotValid);
     if \<not> whole_key_filtering then Some True else Full_MayMatch hash64 filter_block key
   }"

definition Full_PrefixMayMatch ::
  "(bytes \<Rightarrow> u64) \<Rightarrow> FilterBitsReader option option \<Rightarrow> bytes \<Rightarrow> u64 \<Rightarrow> bool option" where
  "Full_PrefixMayMatch hash64 filter_block prefix block_offset = do {
     assert (block_offset = kNotValid);
     Full_MayMatch hash64 filter_block prefix
   }"

text \<open>The batched query removes the keys that do not match from the range.  Keys outside the domain of the extractor are
  skipped in the query and stay.\<close>

fun skip_misses :: "(bytes \<Rightarrow> bool) \<Rightarrow> bytes list \<Rightarrow> bool list \<Rightarrow> bytes list" where
  "skip_misses queried [] ms = []"
| "skip_misses queried (k # ks) ms =
     (if \<not> queried k then k # skip_misses queried ks ms
      else case ms of
             [] \<Rightarrow> k # skip_misses queried ks []
           | m # ms \<Rightarrow> if m then k # skip_misses queried ks ms else skip_misses queried ks ms)"

definition Full_MayMatch_range ::
  "(bytes \<Rightarrow> u64) \<Rightarrow> FilterBitsReader option option \<Rightarrow> SliceTransform option \<Rightarrow> bytes list \<Rightarrow> bytes list option" where
  "Full_MayMatch_range hash64 filter_block extractor range_keys =
     (case filter_block of
        None \<Rightarrow> Some range_keys
      | Some None \<Rightarrow> Some range_keys
      | Some (Some r) \<Rightarrow> do {
          let queried = (\<lambda>k. case extractor of None \<Rightarrow> True | Some t \<Rightarrow> st_InDomain t k);
          let keys = map (\<lambda>k. case extractor of None \<Rightarrow> k | Some t \<Rightarrow> st_Transform t k) (filter queried range_keys);
          may_match \<leftarrow> MayMatch_batch hash64 r keys;
          Some (skip_misses queried range_keys may_match)
        })"

definition Full_KeysMayMatch ::
  "(bytes \<Rightarrow> u64) \<Rightarrow> bool \<Rightarrow> FilterBitsReader option option \<Rightarrow> bytes list \<Rightarrow> u64 \<Rightarrow> bytes list option" where
  "Full_KeysMayMatch hash64 whole_key_filtering filter_block range_keys block_offset = do {
     assert (block_offset = kNotValid);
     if \<not> whole_key_filtering then Some range_keys else Full_MayMatch_range hash64 filter_block None range_keys
   }"

definition Full_PrefixesMayMatch ::
  "(bytes \<Rightarrow> u64) \<Rightarrow> FilterBitsReader option option \<Rightarrow> SliceTransform option \<Rightarrow> bytes list \<Rightarrow> u64 \<Rightarrow> bytes list option" where
  "Full_PrefixesMayMatch hash64 filter_block extractor range_keys block_offset = do {
     assert (block_offset = kNotValid);
     Full_MayMatch_range hash64 filter_block extractor range_keys
   }"

text \<open>\<open>table_extractor\<close> is the extractor the table was built with; \<open>cmp\<close> and \<open>successor\<close> are
  \<^verbatim>\<open>Compare\<close> and \<^verbatim>\<open>IsSameLengthImmediateSuccessor\<close> of the comparator.\<close>

definition IsFilterCompatible ::
  "(bytes \<Rightarrow> bytes \<Rightarrow> int) \<Rightarrow> (bytes \<Rightarrow> bytes \<Rightarrow> bool) \<Rightarrow> SliceTransform option \<Rightarrow> bytes option \<Rightarrow> bytes \<Rightarrow> bool" where
  "IsFilterCompatible cmp successor table_extractor iterate_upper_bound prefix =
     (case (iterate_upper_bound, table_extractor) of
        (Some upper, Some t) \<Rightarrow>
          (if \<not> st_InDomain t upper then False
           else let upper_bound_xform = st_Transform t upper
                in if cmp prefix upper_bound_xform \<noteq> 0
                   then \<not> (st_FullLengthEnabled t = None \<or> length upper \<noteq> the (st_FullLengthEnabled t) \<or> \<not> successor prefix upper)
                   else True)
      | _ \<Rightarrow> False)"

text \<open>The result and \<^verbatim>\<open>filter_checked\<close>.\<close>

definition RangeMayExist ::
  "(bytes \<Rightarrow> u64) \<Rightarrow> (bytes \<Rightarrow> bytes \<Rightarrow> int) \<Rightarrow> (bytes \<Rightarrow> bytes \<Rightarrow> bool) \<Rightarrow> SliceTransform option \<Rightarrow>
   FilterBitsReader option option \<Rightarrow> bytes option \<Rightarrow> bytes \<Rightarrow> SliceTransform option \<Rightarrow> bool \<Rightarrow> (bool \<times> bool) option" where
  "RangeMayExist hash64 cmp successor table_extractor filter_block iterate_upper_bound user_key extractor need_upper_bound_check =
     (case extractor of
        None \<Rightarrow> Some (True, False)
      | Some t \<Rightarrow>
          if \<not> st_InDomain t user_key then Some (True, False)
          else let prefix = st_Transform t user_key
               in if need_upper_bound_check \<and> \<not> IsFilterCompatible cmp successor table_extractor iterate_upper_bound prefix
                  then Some (True, False)
                  else do {
                    r \<leftarrow> Full_PrefixMayMatch hash64 filter_block prefix kNotValid;
                    Some (r, True)
                  })"

section \<open>Recorded keys\<close>

text \<open>What a key must leave in the filter.\<close>

definition recorded :: "SliceTransform option \<Rightarrow> bool \<Rightarrow> bytes \<Rightarrow> bytes set \<Rightarrow> bool" where
  "recorded extractor whole key S \<longleftrightarrow>
     (whole \<longrightarrow> key \<in> S) \<and> (\<forall>t. extractor = Some t \<and> st_InDomain t key \<longrightarrow> st_Transform t key \<in> S)"

lemma recorded_mono: "recorded extractor whole key S \<Longrightarrow> S \<subseteq> S' \<Longrightarrow> recorded extractor whole key S'"
  unfolding recorded_def by blast

end
