(* ===== verification/Filter_Full.thy ===== *)
theory Filter_Full
  imports Filter_Block
begin

text \<open>
  The full filter of a table: what its builder records of the added keys, and when the reader may answer for a whole range of
  keys by one prefix.
\<close>

section \<open>Keys between two bounds\<close>

lemma between_prefix:
  fixes p :: bytes
  assumes "p @ s \<le> k" "k < p @ u"
  shows "\<exists>r. k = p @ r"
  using assms
proof (induction p arbitrary: k)
  case (Cons x p)
  then obtain y k' where k: "k = y # k'" by (cases k) auto
  with Cons.prems have "y = x" "p @ s \<le> k'" "k' < p @ u" by auto
  with Cons.IH [of k'] show ?case unfolding k by auto
qed simp

lemma le_take:
  fixes p :: bytes
  assumes "p @ s \<le> k" "length p \<le> length k"
  shows "p \<le> take (length p) k"
  using assms
proof (induction p arbitrary: k)
  case (Cons x p)
  then obtain y k' where k: "k = y # k'" by (cases k) auto
  with Cons show ?case by auto
qed simp

lemma take_less:
  fixes t :: bytes
  assumes "k < t" "length t \<le> length k"
  shows "take (length t) k < t"
  using assms
proof (induction t arbitrary: k)
  case (Cons x t)
  then obtain y k' where k: "k = y # k'" by (cases k) auto
  with Cons show ?case by auto
qed simp

lemma be_value_less:
  fixes a :: bytes
  assumes "length a = length b" "a < b"
  shows "be_value a < be_value b"
  using assms
proof (induction a b rule: list_induct2)
  case (Cons x xs y ys)
  show ?case
  proof (cases "x = y")
    case True
    then show ?thesis using Cons by simp
  next
    case False
    then have "unat x + 1 \<le> unat y" using Cons.prems by (simp add: word_less_nat_alt)
    then have "(unat x + 1) * 256 ^ length ys \<le> unat y * 256 ^ length ys" by (rule mult_le_mono1)
    moreover have "be_value xs < 256 ^ length ys" using be_value_bound [of xs] Cons.hyps by simp
    ultimately show ?thesis using Cons.hyps by (simp add: algebra_simps)
  qed
qed simp

text \<open>The two conditions under which a range shares one prefix.\<close>

lemma compatible_range:
  assumes comp: "IsFilterCompatible BytewiseCompare IsSameLengthImmediateSuccessor (Some (FixedPrefixTransform n)) (Some upper) prefix"
    and user: "user_key = prefix @ s" and k: "BytewiseCompare user_key k \<le> 0" "BytewiseCompare k upper < 0" "n \<le> length k"
  shows "take n k = prefix"
proof -
  have le: "prefix @ s \<le> k" "k < upper" using k user by (simp_all add: BytewiseCompare_def Slice_compare_iffs)
  have n: "n \<le> length upper" using comp by (simp add: IsFilterCompatible_def FixedPrefixTransform_def FixedPrefix_InDomain_def split: if_splits)
  show ?thesis
  proof (cases "prefix = take n upper")
    case True
    then have "upper = prefix @ drop n upper" "length prefix = n" using n by simp_all
    then show ?thesis using between_prefix [of prefix s k "drop n upper"] le by auto
  next
    case False
    then have succ: "length upper = n" "IsSameLengthImmediateSuccessor prefix upper"
      using comp n by (auto simp: IsFilterCompatible_def FixedPrefixTransform_def FixedPrefix_InDomain_def FixedPrefix_Transform_def
          BytewiseCompare_def Slice_compare_iffs)
    then have v: "length prefix = n" "be_value upper = be_value prefix + 1" by (simp_all add: immediate_successor_iff)
    have lo: "prefix \<le> take n k" using le_take [OF le(1)] v(1) k(3) by simp
    have "take n k < upper" using take_less [OF le(2)] succ(1) k(3) by simp
    then have "be_value (take n k) < be_value prefix + 1" using be_value_less [of "take n k" upper] succ(1) k(3) v(2) by simp
    moreover have "be_value prefix < be_value (take n k)" if "prefix \<noteq> take n k"
      using be_value_less [of prefix "take n k"] lo that v(1) k(3) by simp
    ultimately show ?thesis by fastforce
  qed
qed

section \<open>What the builder records\<close>

text \<open>The entries the bits builder has received; the last whole key and the last prefix are among them.\<close>

definition full_inv ::
  "(bytes \<Rightarrow> u64) \<Rightarrow> SliceTransform option \<Rightarrow> bool \<Rightarrow> FilterBitsBuilder \<Rightarrow> bytes list \<Rightarrow> FullFilterBlockBuilder \<Rightarrow> bool" where
  "full_inv hash64 extractor whole b0 E b \<longleftrightarrow>
     filter_bits_builder b = fold (AddKey hash64) E b0 \<and> ff_prefix_extractor b = extractor \<and> ff_whole_key_filtering b = whole \<and>
     (last_whole_key_recorded b \<longrightarrow> last_whole_key_str b \<in> set E) \<and> (last_prefix_recorded b \<longrightarrow> last_prefix_str b \<in> set E) \<and>
     ff_num_added b = of_nat (length E)"

lemma Full_AddKey_inv:
  "full_inv hash64 extractor whole b0 E b \<Longrightarrow> full_inv hash64 extractor whole b0 (E @ [key]) (Full_AddKey hash64 key b)"
  by (auto simp: full_inv_def Full_AddKey_def)

lemma Full_AddPrefix_inv:
  assumes "full_inv hash64 extractor whole b0 E b"
  shows "\<exists>E'. full_inv hash64 extractor whole b0 (E @ E') (Full_AddPrefix hash64 t key b) \<and>
     st_Transform t key \<in> set (E @ E') \<and> length E' \<le> 1"
proof (cases "whole \<and> last_prefix_recorded b \<and> Slice_compare (last_prefix_str b) (st_Transform t key) = 0")
  case True
  then show ?thesis using assms by (intro exI [of _ "[]"]) (auto simp: Full_AddPrefix_def full_inv_def Slice_compare_iffs)
next
  case False
  have "full_inv hash64 extractor whole b0 (E @ [st_Transform t key]) (Full_AddPrefix hash64 t key b)"
    using Full_AddKey_inv [OF assms, of "st_Transform t key"] False assms
    by (auto simp: Full_AddPrefix_def full_inv_def Let_def Full_AddKey_def)
  then show ?thesis by (intro exI [of _ "[st_Transform t key]"]) simp
qed

lemma Full_Add_inv:
  assumes "full_inv hash64 extractor whole b0 E b"
  shows "\<exists>E'. full_inv hash64 extractor whole b0 (E @ E') (Full_Add hash64 key b) \<and>
     recorded extractor whole key (set (E @ E')) \<and> length E' \<le> 2"
proof -
  define add_prefix where "add_prefix = (case extractor of None \<Rightarrow> False | Some t \<Rightarrow> st_InDomain t key)"
  define b1 where "b1 = (if whole then
       (if \<not> add_prefix then Full_AddKey hash64 key b
        else if \<not> last_whole_key_recorded b \<or> Slice_compare (last_whole_key_str b) key \<noteq> 0
        then (Full_AddKey hash64 key b)\<lparr>last_whole_key_recorded := True, last_whole_key_str := key\<rparr>
        else b) else b)"
  have ext: "ff_prefix_extractor b = extractor" "ff_whole_key_filtering b = whole" using assms by (simp_all add: full_inv_def)
  have "\<exists>E1. full_inv hash64 extractor whole b0 (E @ E1) b1 \<and> (whole \<longrightarrow> key \<in> set (E @ E1)) \<and> length E1 \<le> 1"
  proof (cases "whole \<and> (\<not> add_prefix \<or> \<not> last_whole_key_recorded b \<or> Slice_compare (last_whole_key_str b) key \<noteq> 0)")
    case True
    then have "full_inv hash64 extractor whole b0 (E @ [key]) b1"
      using Full_AddKey_inv [OF assms, of key] by (auto simp: b1_def full_inv_def)
    then show ?thesis by (intro exI [of _ "[key]"]) simp
  next
    case False
    then show ?thesis using assms by (intro exI [of _ "[]"]) (auto simp: b1_def full_inv_def Slice_compare_iffs)
  qed
  then obtain E1 where E1: "full_inv hash64 extractor whole b0 (E @ E1) b1" "whole \<longrightarrow> key \<in> set (E @ E1)" "length E1 \<le> 1" by blast
  have ext1: "ff_prefix_extractor b1 = extractor" using E1(1) by (simp add: full_inv_def)
  have add: "Full_Add hash64 key b = (case extractor of None \<Rightarrow> b1 | Some t \<Rightarrow> if add_prefix then Full_AddPrefix hash64 t key b1 else b1)"
    using ext ext1 unfolding Full_Add_def b1_def add_prefix_def by (simp add: Let_def)
  show ?thesis
  proof (cases "\<exists>t. extractor = Some t \<and> st_InDomain t key")
    case True
    then obtain t where t: "extractor = Some t" "st_InDomain t key" by blast
    obtain E2 where "full_inv hash64 extractor whole b0 ((E @ E1) @ E2) (Full_AddPrefix hash64 t key b1)"
        "st_Transform t key \<in> set ((E @ E1) @ E2)" "length E2 \<le> 1"
      using Full_AddPrefix_inv [OF E1(1)] by blast
    then show ?thesis using E1 t add by (intro exI [of _ "E1 @ E2"]) (auto simp: recorded_def add_prefix_def)
  next
    case False
    then have "Full_Add hash64 key b = b1" using add by (auto simp: add_prefix_def split: option.splits)
    then show ?thesis using E1 False by (intro exI [of _ E1]) (auto simp: recorded_def)
  qed
qed

lemma Full_Adds_inv:
  assumes "full_inv hash64 extractor whole b0 E b"
  shows "\<exists>E'. full_inv hash64 extractor whole b0 (E @ E') (fold (Full_Add hash64) keys b) \<and>
     (\<forall>key \<in> set keys. recorded extractor whole key (set (E @ E'))) \<and> length E' \<le> 2 * length keys"
  using assms
proof (induction keys arbitrary: E b)
  case Nil
  then show ?case by (intro exI [of _ "[]"]) simp
next
  case (Cons key keys)
  obtain E1 where E1: "full_inv hash64 extractor whole b0 (E @ E1) (Full_Add hash64 key b)"
      "recorded extractor whole key (set (E @ E1))" "length E1 \<le> 2"
    using Full_Add_inv [OF Cons.prems] by blast
  obtain E2 where E2: "full_inv hash64 extractor whole b0 ((E @ E1) @ E2) (fold (Full_Add hash64) keys (Full_Add hash64 key b))"
      "\<forall>key \<in> set keys. recorded extractor whole key (set ((E @ E1) @ E2))" "length E2 \<le> 2 * length keys"
    using Cons.IH [OF E1(1)] by blast
  have "recorded extractor whole key (set (E @ E1 @ E2))" by (rule recorded_mono [OF E1(2)]) auto
  then show ?case using E1(3) E2 by (intro exI [of _ "E1 @ E2"]) simp
qed

section \<open>The reader of a finished filter\<close>

lemma full_filter_reader:
  assumes "fresh_builder b0" "length keys * 200 < 2 ^ 31" "cache_line_log2 cls l" "cache_line_log2 cls' l'"
    and b: "FullFilterBlockBuilder_new extractor whole (Some b0) = Some b"
  shows "\<exists>contents b' r. Full_Finish cls (fold (Full_Add hash64) keys b) = Some (contents, b') \<and>
     ParsedFullFilterBlock cls' contents = Some r \<and>
     (\<forall>key \<in> set keys. recorded extractor whole key {e. Full_MayMatch hash64 (Some r) e = Some True})"
proof -
  have "full_inv hash64 extractor whole b0 [] b"
    using b by (auto simp: FullFilterBlockBuilder_new_def full_inv_def)
  then obtain E where E: "full_inv hash64 extractor whole b0 E (fold (Full_Add hash64) keys b)"
      "\<forall>key \<in> set keys. recorded extractor whole key (set E)" "length E \<le> 2 * length keys"
    using Full_Adds_inv [of hash64 extractor whole b0 "[]" b keys] by auto
  let ?b = "fold (Full_Add hash64) keys b"
  have len: "length E * 100 < 2 ^ 31" using E(3) assms(2) by linarith
  have num: "ff_num_added ?b = of_nat (length E)" "filter_bits_builder ?b = fold (AddKey hash64) E b0"
    using E(1) by (simp_all add: full_inv_def)
  have E32: "length E < 2 ^ 32" using len by simp
  show ?thesis
  proof (cases "E = []")
    case True
    then have "Full_Finish cls ?b = Some ([], Full_Reset ?b)" using num by (simp add: Full_Finish_def Full_Reset_def Let_def)
    then show ?thesis using E(2) True by (auto simp: ParsedFullFilterBlock_def recorded_def Full_MayMatch_def)
  next
    case False
    obtain contents r where r: "Finish cls (fold (AddKey hash64) E b0) = Some (contents, b0)" "GetFilterBitsReader cls' contents = Some r"
        and ans: "\<forall>key. MayMatch hash64 r key = Some (\<forall>p\<in>set (key_probes hash64 l (fold (AddKey hash64) E b0) key).
          \<exists>k\<in>set E. p \<in> set (key_probes hash64 l (fold (AddKey hash64) E b0) k))"
      using fresh_builder_answers [OF assms(1) len assms(3,4), of hash64] unfolding answers_exactly_def by blast
    have hit: "MayMatch hash64 r e = Some True" if "e \<in> set E" for e using spec [OF ans, of e] that by auto
    have ne: "contents \<noteq> []"
    proof
      assume "contents = []"
      then have "r = AlwaysFalseFilter" using r(2) by (simp add: GetFilterBitsReader_def)
      then show False using hit False by (cases E) auto
    qed
    have "ff_num_added (Full_Reset ?b) \<noteq> 0" "filter_bits_builder (Full_Reset ?b) = fold (AddKey hash64) E b0"
      using num False unat_of_nat_u32 [OF E32] by (auto simp: Full_Reset_def word_unat_eq_iff)
    then have "\<exists>b'. Full_Finish cls ?b = Some (contents, b')" using r(1) by (simp add: Full_Finish_def Let_def)
    moreover have "ParsedFullFilterBlock cls' contents = Some (Some r)" using ne r(2) by (simp add: ParsedFullFilterBlock_def)
    moreover have "recorded extractor whole key {e. Full_MayMatch hash64 (Some (Some r)) e = Some True}" if "key \<in> set keys" for key
      by (rule recorded_mono [of extractor whole key "set E"]) (use E(2) that hit in \<open>auto simp: Full_MayMatch_def\<close>)
    ultimately show ?thesis by blast
  qed
qed

lemma map_opt_const: "(\<And>x. x \<in> set xs \<Longrightarrow> f x = Some c) \<Longrightarrow> map_opt f xs = Some (replicate (length xs) c)"
  by (induction xs) auto

lemma skip_misses_all: "skip_misses q ks (replicate (length (filter q ks)) True) = ks"
  by (induction ks) auto

text \<open>A range of keys that all match keeps all its keys.\<close>

lemma Full_MayMatch_range_all:
  assumes "length ks \<le> MAX_BATCH_SIZE"
    and "\<And>k. k \<in> set ks \<Longrightarrow> (case extractor of None \<Rightarrow> True | Some t \<Rightarrow> st_InDomain t k) \<Longrightarrow>
      Full_MayMatch hash64 (Some r) (case extractor of None \<Rightarrow> k | Some t \<Rightarrow> st_Transform t k) = Some True"
  shows "Full_MayMatch_range hash64 (Some r) extractor ks = Some ks"
proof (cases r)
  case None
  then show ?thesis by (simp add: Full_MayMatch_range_def)
next
  case (Some rd)
  let ?q = "\<lambda>k. case extractor of None \<Rightarrow> True | Some t \<Rightarrow> st_InDomain t k"
  let ?qs = "map (\<lambda>k. case extractor of None \<Rightarrow> k | Some t \<Rightarrow> st_Transform t k) (filter ?q ks)"
  have "length ?qs \<le> MAX_BATCH_SIZE" using le_trans [OF length_filter_le assms(1)] by (simp only: length_map)
  then have "MayMatch_batch hash64 rd ?qs = map_opt (MayMatch hash64 rd) ?qs" by (rule batch_agrees)
  also have "\<dots> = Some (replicate (length ?qs) True)"
    by (rule map_opt_const) (use assms(2) Some in \<open>auto simp: Full_MayMatch_def\<close>)
  finally show ?thesis using Some skip_misses_all [of ?q ks] by (simp add: Full_MayMatch_range_def)
qed

section \<open>Properties\<close>



text \<open>C12: The filter may be asked for a whole range.  When a scan starts at a key and stops below an upper bound,
  \<^verbatim>\<open>RangeMayExist\<close> asks for the prefix of the start key; with a table filtered by prefixes of a fixed length, whatever extractor
  is configured now, it never excludes a table that holds a key of the range which is long enough to have a prefix.\<close>

theorem range_filter_complete:
  assumes "fresh_builder b0" "length keys * 200 < 2 ^ 31" "cache_line_log2 cls l" "cache_line_log2 cls' l'"
    and "\<And>t k. extractor = Some t \<Longrightarrow> st_InDomain t k \<Longrightarrow> Slice_starts_with k (st_Transform t k)"
    and "key \<in> set keys" "n \<le> length key" "BytewiseCompare user_key key \<le> 0" "BytewiseCompare key upper < 0"
  shows "\<exists>b contents b' r checked. FullFilterBlockBuilder_new (Some (FixedPrefixTransform n)) whole (Some b0) = Some b \<and>
    Full_Finish cls (fold (Full_Add hash64) keys b) = Some (contents, b') \<and> ParsedFullFilterBlock cls' contents = Some r \<and>
    RangeMayExist hash64 BytewiseCompare IsSameLengthImmediateSuccessor (Some (FixedPrefixTransform n)) (Some r) (Some upper)
      user_key extractor True = Some (True, checked)"
proof -
  let ?T = "FixedPrefixTransform n"
  obtain b where b: "FullFilterBlockBuilder_new (Some ?T) whole (Some b0) = Some b" by (simp add: FullFilterBlockBuilder_new_def)
  obtain contents b' r where r: "Full_Finish cls (fold (Full_Add hash64) keys b) = Some (contents, b')"
      "ParsedFullFilterBlock cls' contents = Some r"
      "\<forall>key \<in> set keys. recorded (Some ?T) whole key {e. Full_MayMatch hash64 (Some r) e = Some True}"
    using full_filter_reader [OF assms(1-4) b, of hash64] by blast
  have hit: "Full_MayMatch hash64 (Some r) (take n key) = Some True"
    using r(3) assms(6,7)
    by (auto simp: recorded_def FixedPrefixTransform_def FixedPrefix_InDomain_def FixedPrefix_Transform_def)
  have "\<exists>checked. RangeMayExist hash64 BytewiseCompare IsSameLengthImmediateSuccessor (Some ?T) (Some r) (Some upper)
      user_key extractor True = Some (True, checked)"
  proof (cases "\<exists>t. extractor = Some t \<and> st_InDomain t user_key \<and>
      IsFilterCompatible BytewiseCompare IsSameLengthImmediateSuccessor (Some ?T) (Some upper) (st_Transform t user_key)")
    case True
    then obtain t where t: "extractor = Some t" "st_InDomain t user_key"
        "IsFilterCompatible BytewiseCompare IsSameLengthImmediateSuccessor (Some ?T) (Some upper) (st_Transform t user_key)" by blast
    obtain s where "user_key = st_Transform t user_key @ s" using assms(5) [OF t(1,2)] Slice_starts_with_iff by blast
    then have "take n key = st_Transform t user_key" using compatible_range [OF t(3) _ assms(8,9,7)] by blast
    then show ?thesis using t hit by (intro exI [of _ True]) (simp add: RangeMayExist_def Full_PrefixMayMatch_def Let_def)
  next
    case False
    then show ?thesis by (auto simp: RangeMayExist_def Let_def split: option.splits)
  qed
  then show ?thesis using b r(1,2) by blast
qed

lemma example_fresh_builder: "fresh_builder (LegacyBuilder \<lparr>bits_per_key = 10, legacy_probes = 6, legacy_entries = []\<rparr>)"
  by simp

theorem range_filter_complete_witness:
  "\<exists>b contents b' r checked.
    FullFilterBlockBuilder_new (Some (FixedPrefixTransform 1)) False
      (Some (LegacyBuilder \<lparr>bits_per_key = 10, legacy_probes = 6, legacy_entries = []\<rparr>)) = Some b \<and>
    Full_Finish 64 (fold (Full_Add (\<lambda>_. 5)) [[97, 2], [98, 3]] b) = Some (contents, b') \<and> ParsedFullFilterBlock 64 contents = Some r \<and>
    RangeMayExist (\<lambda>_. 5) BytewiseCompare IsSameLengthImmediateSuccessor (Some (FixedPrefixTransform 1)) (Some r) (Some [99])
      [98, 1] (Some (FixedPrefixTransform 1)) True = Some (True, checked)"
proof (rule range_filter_complete [where key = "[98, 3]" and l = 6 and l' = 6])
  show "cache_line_log2 64 6" "cache_line_log2 64 6" by (simp_all add: cache_line_log2_def)
  show "Slice_starts_with k (st_Transform t k)"
    if "Some (FixedPrefixTransform 1) = Some t" "st_InDomain t k" for t k
    using that append_take_drop_id [of 1 k]
    by (auto simp: FixedPrefixTransform_def FixedPrefix_Transform_def Slice_starts_with_iff intro: exI [of _ "drop 1 k"])
  show "BytewiseCompare [98, 1] [98, 3] \<le> 0" "BytewiseCompare [98, 3] [99] < 0"
    by (simp_all add: BytewiseCompare_def Slice_compare_iffs)
qed (simp_all add: example_fresh_builder)

lemma map_option_bind_case: "x \<bind> (\<lambda>y. Some (f y)) = map_option f x"
  by (cases x) simp_all


end
