(* ===== verification/Filter_Blocks.thy ===== *)
theory Filter_Blocks
  imports Filter_Block
begin

text \<open>
  The block-based filter block, from the builder to the reader: the keys between two multiples of two kilobytes make one
  filter, and the array of offsets behind the filters leads the reader to the filter of a data block.
\<close>

section \<open>Flattened lists\<close>

text \<open>The positions of the parts in the concatenation, and the parts read back.\<close>

definition starts :: "bytes list \<Rightarrow> nat list" where
  "starts P = map (\<lambda>j. length (concat (take j P))) [0..<length P]"

lemma length_starts [simp]: "length (starts P) = length P"
  by (simp add: starts_def)

lemma starts_snoc: "starts (P @ [e]) = starts P @ [length (concat P)]"
  by (simp add: starts_def)

lemma nth_starts_end: "i \<le> length P \<Longrightarrow> (starts P @ [length (concat P)]) ! i = length (concat (take i P))"
  by (auto simp: nth_append starts_def)

lemma concat_take_Suc: "i < length P \<Longrightarrow> concat (take (Suc i) P) = concat (take i P) @ P ! i"
  by (simp add: take_Suc_conv_app_nth)

lemma subslice_part:
  assumes "i < length P"
  shows "subslice (concat P @ ys) (length (concat (take i P))) (length (P ! i)) = P ! i"
proof -
  have "concat P = concat (take i P) @ P ! i @ concat (drop (Suc i) P)"
    by (metis append.assoc assms concat_append concat_take_Suc append_take_drop_id)
  then show ?thesis by (simp add: subslice_def)
qed

lemma parts_read_back:
  "map (\<lambda>i. subslice (concat P) ((starts P @ [length (concat P)]) ! i)
      ((starts P @ [length (concat P)]) ! (i + 1) - (starts P @ [length (concat P)]) ! i)) [0..<length P] = P"
proof (rule nth_equalityI)
  fix i assume "i < length (map (\<lambda>i. subslice (concat P) ((starts P @ [length (concat P)]) ! i)
      ((starts P @ [length (concat P)]) ! (i + 1) - (starts P @ [length (concat P)]) ! i)) [0..<length P])"
  then have i: "i < length P" by simp
  then show "map (\<lambda>i. subslice (concat P) ((starts P @ [length (concat P)]) ! i)
      ((starts P @ [length (concat P)]) ! (i + 1) - (starts P @ [length (concat P)]) ! i)) [0..<length P] ! i = P ! i"
    using nth_starts_end [of i P] nth_starts_end [of "Suc i" P] concat_take_Suc [OF i] subslice_part [OF i, of "[]"] by simp
qed simp

section \<open>Filters of key lists\<close>

lemma CreateFilter_append: "CreateFilter trunc p keys dst = map_option ((@) dst) (CreateFilter trunc p keys [])"
  by (auto simp: CreateFilter_def Let_def assert_def split: bind_splits)

definition filter_of :: "(int \<Rightarrow> int) \<Rightarrow> BloomFilterPolicy \<Rightarrow> bytes list \<Rightarrow> bytes" where
  "filter_of trunc p keys = (if keys = [] then [] else the (CreateFilter trunc p keys []))"

text \<open>A policy that the deprecated filter block is used with.\<close>

definition block_policy :: "BloomFilterPolicy \<Rightarrow> bool" where
  "block_policy p \<longleftrightarrow> mode p = kDeprecatedBlock \<and> 0 \<le> whole_bits_per_key p \<and> whole_bits_per_key p \<le> 100"

lemma filter_of_answers:
  assumes "block_policy p" "length keys * 100 < 2 ^ 31" "keys \<noteq> []"
  shows "CreateFilter trunc p keys dst = Some (dst @ filter_of trunc p keys)"
    "length (filter_of trunc p keys) \<le> 23 * length keys"
    "k \<in> set keys \<Longrightarrow> KeyMayMatch k (filter_of trunc p keys) = Some True"
proof -
  define w where "w = nat (whole_bits_per_key p)"
  have w: "mode p = kDeprecatedBlock" "whole_bits_per_key p = int w" "w \<le> 100" using assms(1) by (simp_all add: block_policy_def w_def nat_le_iff)
  have "length keys * w \<le> length keys * 100" using w(3) by simp
  then have n: "length keys * w < 2 ^ 31" using assms(2) by linarith
  let ?N = "(max 64 (length keys * w) + 7) div 8" and ?k = "nat (NoLocality_ChooseNumProbes trunc (int w))"
  obtain f where f: "CreateFilter trunc p keys [] = Some ([] @ f)" "length f = ?N + 1"
      "\<forall>key. KeyMayMatch key f = Some (\<forall>q\<in>set (block_probes ?N ?k key). \<exists>k'\<in>set keys. q \<in> set (block_probes ?N ?k k'))"
    using CreateFilter_answers [OF w(1,2) n, of trunc "[]"] by blast
  have fo: "filter_of trunc p keys = f" using f(1) assms(3) by (simp add: filter_of_def)
  show "CreateFilter trunc p keys dst = Some (dst @ filter_of trunc p keys)"
    using CreateFilter_append [of trunc p keys dst] f(1) fo by simp
  have "1 \<le> length keys" using assms(3) by (cases keys) simp_all
  moreover have "?N \<le> (64 + length keys * 100 + 7) div 8"
    by (rule div_le_mono) (use \<open>length keys * w \<le> length keys * 100\<close> in linarith)
  moreover have "8 * ((64 + length keys * 100 + 7) div 8) \<le> 64 + length keys * 100 + 7" by simp
  ultimately show "length (filter_of trunc p keys) \<le> 23 * length keys" unfolding fo f(2) by linarith
  show "KeyMayMatch k (filter_of trunc p keys) = Some True" if "k \<in> set keys" using spec [OF f(3), of k] that fo by auto
qed

section \<open>The invariant of the builder\<close>

text \<open>\<open>Ks\<close> are the key lists of the filters generated so far and \<open>P\<close> the entries of the filter under construction.\<close>

definition bb_inv ::
  "(int \<Rightarrow> int) \<Rightarrow> BloomFilterPolicy \<Rightarrow> SliceTransform option \<Rightarrow> bool \<Rightarrow> bytes list list \<Rightarrow> bytes list \<Rightarrow>
   BlockBasedFilterBlockBuilder \<Rightarrow> bool" where
  "bb_inv trunc p extractor whole Ks P b \<longleftrightarrow>
     bb_policy b = p \<and> bb_prefix_extractor b = extractor \<and> bb_whole_key_filtering b = whole \<and>
     bb_result b = concat (map (filter_of trunc p) Ks) \<and>
     filter_offsets b = map of_nat (starts (map (filter_of trunc p) Ks)) \<and>
     bb_entries b = concat P \<and> bb_start b = starts P \<and>
     (prev_prefix_size b = 0 \<or> subslice (concat P) (prev_prefix_start b) (prev_prefix_size b) \<in> set P \<and>
        prev_prefix_start b + prev_prefix_size b \<le> length (concat P))"

lemma bb_inv_new: "bb_inv trunc p extractor whole [] [] (BlockBasedFilterBlockBuilder_new extractor p whole)"
  by (simp add: bb_inv_def BlockBasedFilterBlockBuilder_new_def starts_def)

lemma bb_inv_offsets: "bb_inv trunc p extractor whole Ks P b \<Longrightarrow> length (filter_offsets b) = length Ks"
  by (simp add: bb_inv_def)

lemma starts_empty_iff: "starts P = [] \<longleftrightarrow> P = []"
  by (simp add: starts_def)

lemma GenerateFilter_inv:
  assumes inv: "bb_inv trunc p extractor whole Ks P b" and p: "block_policy p" and n: "length P * 100 < 2 ^ 31"
  shows "\<exists>b'. GenerateFilter trunc b = Some b' \<and> bb_inv trunc p extractor whole (Ks @ [P]) [] b'"
proof (cases "P = []")
  case True
  then have "GenerateFilter trunc b = Some (b\<lparr>filter_offsets := filter_offsets b @ [of_nat (length (bb_result b))]\<rparr>)"
    using inv by (simp add: GenerateFilter_def bb_inv_def starts_def)
  then show ?thesis using inv True by (simp add: bb_inv_def starts_snoc filter_of_def)
next
  case False
  have tmp: "map (\<lambda>i. subslice (bb_entries b) ((bb_start b @ [length (bb_entries b)]) ! i)
      ((bb_start b @ [length (bb_entries b)]) ! (i + 1) - (bb_start b @ [length (bb_entries b)]) ! i)) [0..<length (bb_start b)] = P"
    using inv parts_read_back [of P] by (simp add: bb_inv_def)
  have "CreateFilter trunc (bb_policy b) P (bb_result b) = Some (bb_result b @ filter_of trunc p P)"
    using filter_of_answers(1) [OF p n False] inv by (simp add: bb_inv_def)
  then have "GenerateFilter trunc b = Some (b\<lparr>filter_offsets := filter_offsets b @ [of_nat (length (bb_result b))],
      bb_result := bb_result b @ filter_of trunc p P, bb_entries := [], bb_start := [], prev_prefix_start := 0, prev_prefix_size := 0\<rparr>)"
    using inv False tmp unfolding GenerateFilter_def Let_def by (simp add: bb_inv_def starts_empty_iff)
  then show ?thesis using inv by (simp add: bb_inv_def starts_snoc) (simp add: starts_def)
qed

text \<open>Which entries are where: \<open>(i, e)\<close> says that the filter with number \<open>i\<close>, finished or not, has the entry \<open>e\<close>.\<close>

definition holds_entry :: "bytes list list \<Rightarrow> bytes list \<Rightarrow> nat \<times> bytes \<Rightarrow> bool" where
  "holds_entry Ks P = (\<lambda>(i, e). i \<le> length Ks \<and> e \<in> set ((Ks @ [P]) ! i))"

lemma holds_entry_generate: "holds_entry Ks P x \<Longrightarrow> holds_entry (Ks @ [P]) [] x"
  by (auto simp: holds_entry_def nth_append split: if_splits)

text \<open>The number of entries bounds the size of every filter.\<close>

definition entries_of :: "bytes list list \<Rightarrow> bytes list \<Rightarrow> nat" where
  "entries_of Ks P = length (concat Ks) + length P"

lemma entries_of_generate: "entries_of (Ks @ [P]) [] = entries_of Ks P"
  by (simp add: entries_of_def)

lemma generate_until_inv:
  assumes "bb_inv trunc p extractor whole Ks P b" "block_policy p" "entries_of Ks P * 100 < 2 ^ 31" "length Ks \<le> unat index"
  shows "\<exists>b' Ks' P'. generate_until trunc index b = Some b' \<and> bb_inv trunc p extractor whole Ks' P' b' \<and>
     length Ks' = unat index \<and> entries_of Ks' P' = entries_of Ks P \<and> (\<forall>x. holds_entry Ks P x \<longrightarrow> holds_entry Ks' P' x)"
  using assms
proof (induction "unat index - length Ks" arbitrary: Ks P b)
  case 0
  then have "generate_until trunc index b = Some b" by (subst generate_until.simps) (simp add: bb_inv_offsets)
  then show ?case using 0 by auto
next
  case (Suc n)
  have len: "length P * 100 < 2 ^ 31" using Suc.prems(3) by (simp add: entries_of_def)
  obtain b1 where b1: "GenerateFilter trunc b = Some b1" "bb_inv trunc p extractor whole (Ks @ [P]) [] b1"
    using GenerateFilter_inv [OF Suc.prems(1,2) len] by blast
  have "n = unat index - length (Ks @ [P])" "length (Ks @ [P]) \<le> unat index" using Suc.hyps(2) by simp_all
  from Suc.hyps(1) [OF this(1) b1(2) Suc.prems(2) _ this(2)] Suc.prems(3)
  obtain b' Ks' P' where b': "generate_until trunc index b1 = Some b'" "bb_inv trunc p extractor whole Ks' P' b'"
      "length Ks' = unat index" "entries_of Ks' P' = entries_of (Ks @ [P]) []"
      "\<forall>x. holds_entry (Ks @ [P]) [] x \<longrightarrow> holds_entry Ks' P' x"
    unfolding entries_of_generate by blast
  have "unat index > length (filter_offsets b)" using Suc.hyps(2) bb_inv_offsets [OF Suc.prems(1)] by simp
  then have "generate_until trunc index b = Some b'" using b1(1) b'(1) by (subst generate_until.simps) simp
  then show ?case using b' holds_entry_generate unfolding entries_of_generate by blast
qed

lemma StartBlock_inv:
  assumes "bb_inv trunc p extractor whole Ks P b" "block_policy p" "entries_of Ks P * 100 < 2 ^ 31"
    "length Ks \<le> unat (off div kFilterBase)"
  shows "\<exists>b' Ks' P'. StartBlock trunc off b = Some b' \<and> bb_inv trunc p extractor whole Ks' P' b' \<and>
     length Ks' = unat (off div kFilterBase) \<and> entries_of Ks' P' = entries_of Ks P \<and>
     (\<forall>x. holds_entry Ks P x \<longrightarrow> holds_entry Ks' P' x)"
  using generate_until_inv [OF assms] assms(4) bb_inv_offsets [OF assms(1)] by (simp add: StartBlock_def)

section \<open>Adding keys\<close>

lemma BlockBased_AddKey_inv:
  assumes "bb_inv trunc p extractor whole Ks P b"
  shows "bb_inv trunc p extractor whole Ks (P @ [key]) (BlockBased_AddKey key b)"
  using assms by (auto simp: bb_inv_def BlockBased_AddKey_def starts_snoc subslice_def)

lemma BlockBased_AddPrefix_inv:
  assumes "bb_inv trunc p extractor whole Ks P b"
  shows "\<exists>E. bb_inv trunc p extractor whole Ks (P @ E) (BlockBased_AddPrefix t key b) \<and>
     st_Transform t key \<in> set (P @ E) \<and> length E \<le> 1"
proof -
  let ?pre = "st_Transform t key"
  let ?prev = "if prev_prefix_size b > 0 then subslice (bb_entries b) (prev_prefix_start b) (prev_prefix_size b) else []"
  show ?thesis
  proof (cases "length ?prev = 0 \<or> ?pre \<noteq> ?prev")
    case True
    let ?b = "b\<lparr>prev_prefix_start := length (bb_entries b), prev_prefix_size := length ?pre\<rparr>"
    have "bb_inv trunc p extractor whole Ks (P @ [?pre]) (BlockBased_AddKey ?pre ?b)"
      using assms by (auto simp: bb_inv_def BlockBased_AddKey_def starts_snoc subslice_def)
    moreover have "BlockBased_AddPrefix t key b = BlockBased_AddKey ?pre ?b"
      using True unfolding BlockBased_AddPrefix_def Let_def Slice_equal_iff by (rule if_P)
    ultimately show ?thesis by (intro exI [of _ "[?pre]"]) simp
  next
    case False
    then have "BlockBased_AddPrefix t key b = b"
      unfolding BlockBased_AddPrefix_def Let_def Slice_equal_iff by (rule if_not_P)
    moreover have "?pre \<in> set P" using False assms by (auto simp: bb_inv_def split: if_splits)
    ultimately show ?thesis using assms by (intro exI [of _ "[]"]) simp
  qed
qed

lemma BlockBased_Add_inv:
  assumes inv: "bb_inv trunc p extractor whole Ks P b"
  shows "\<exists>E. bb_inv trunc p extractor whole Ks (P @ E) (BlockBased_Add key b) \<and>
     recorded extractor whole key (set (P @ E)) \<and> length E \<le> 2"
proof -
  define b1 where "b1 = (case extractor of
      Some t \<Rightarrow> if st_InDomain t key then BlockBased_AddPrefix t key b else b | None \<Rightarrow> b)"
  have "\<exists>E. bb_inv trunc p extractor whole Ks (P @ E) b1 \<and> length E \<le> 1 \<and>
      (\<forall>t. extractor = Some t \<and> st_InDomain t key \<longrightarrow> st_Transform t key \<in> set (P @ E))"
  proof (cases "\<exists>t. extractor = Some t \<and> st_InDomain t key")
    case True
    then obtain t where t: "extractor = Some t" "st_InDomain t key" by blast
    then show ?thesis using BlockBased_AddPrefix_inv [OF inv, of t key] by (auto simp: b1_def)
  next
    case False
    then have "b1 = b" by (auto simp: b1_def split: option.splits)
    then show ?thesis using inv False by (intro exI [of _ "[]"]) auto
  qed
  then obtain E where E: "bb_inv trunc p extractor whole Ks (P @ E) b1" "length E \<le> 1"
      "\<forall>t. extractor = Some t \<and> st_InDomain t key \<longrightarrow> st_Transform t key \<in> set (P @ E)" by blast
  have add: "BlockBased_Add key b = (if whole then BlockBased_AddKey key b1 else b1)"
    using inv E(1) by (simp add: BlockBased_Add_def b1_def bb_inv_def Let_def)
  show ?thesis
  proof (cases whole)
    case True
    have "bb_inv trunc p extractor whole Ks (P @ (E @ [key])) (BlockBased_Add key b)"
      using BlockBased_AddKey_inv [OF E(1), of key] add True by simp
    then show ?thesis using E by (intro exI [of _ "E @ [key]"]) (auto simp: recorded_def)
  next
    case False
    then show ?thesis using E add by (intro exI [of _ E]) (auto simp: recorded_def)
  qed
qed

lemma BlockBased_Adds_inv:
  assumes "bb_inv trunc p extractor whole Ks P b"
  shows "\<exists>E. bb_inv trunc p extractor whole Ks (P @ E) (fold BlockBased_Add keys b) \<and>
     (\<forall>key \<in> set keys. recorded extractor whole key (set (P @ E))) \<and> length E \<le> 2 * length keys"
  using assms
proof (induction keys arbitrary: P b)
  case Nil
  then show ?case by (intro exI [of _ "[]"]) simp
next
  case (Cons key keys)
  obtain E1 where E1: "bb_inv trunc p extractor whole Ks (P @ E1) (BlockBased_Add key b)"
      "recorded extractor whole key (set (P @ E1))" "length E1 \<le> 2"
    using BlockBased_Add_inv [OF Cons.prems] by blast
  obtain E2 where E2: "bb_inv trunc p extractor whole Ks ((P @ E1) @ E2) (fold BlockBased_Add keys (BlockBased_Add key b))"
      "\<forall>key \<in> set keys. recorded extractor whole key (set ((P @ E1) @ E2))" "length E2 \<le> 2 * length keys"
    using Cons.IH [OF E1(1)] by blast
  have "recorded extractor whole key (set (P @ E1 @ E2))" by (rule recorded_mono [OF E1(2)]) auto
  then show ?case using E1(3) E2 by (intro exI [of _ "E1 @ E2"]) simp
qed

section \<open>Building a table\<close>

text \<open>The calls of a table builder: \<^verbatim>\<open>StartBlock\<close> with the offset of each data block, then \<^verbatim>\<open>Add\<close> for its keys.\<close>

fun add_blocks ::
  "(int \<Rightarrow> int) \<Rightarrow> (u64 \<times> bytes list) list \<Rightarrow> BlockBasedFilterBlockBuilder \<Rightarrow> BlockBasedFilterBlockBuilder option" where
  "add_blocks trunc [] b = Some b"
| "add_blocks trunc ((off, keys) # blocks) b = do {
     b \<leftarrow> StartBlock trunc off b;
     add_blocks trunc blocks (fold BlockBased_Add keys b)
   }"

definition num_keys :: "(u64 \<times> bytes list) list \<Rightarrow> nat" where
  "num_keys blocks = sum_list (map (length \<circ> snd) blocks)"

lemma num_keys_Cons: "num_keys ((off, keys) # blocks) = length keys + num_keys blocks"
  by (simp add: num_keys_def)

lemma filter_index_mono: "off \<le> off' \<Longrightarrow> unat (off div kFilterBase) \<le> unat (off' div kFilterBase)"
  by (simp add: unat_div_distrib div_le_mono word_le_nat_alt)

lemma holds_entry_add: "holds_entry Ks P x \<Longrightarrow> holds_entry Ks (P @ E) x"
  by (auto simp: holds_entry_def nth_append split: if_splits)

lemma holds_entry_current: "e \<in> set P \<Longrightarrow> holds_entry Ks P (length Ks, e)"
  by (simp add: holds_entry_def)

lemma entries_of_add: "entries_of Ks (P @ E) = entries_of Ks P + length E"
  by (simp add: entries_of_def)

lemma add_blocks_inv:
  assumes "bb_inv trunc p extractor whole Ks P b" "block_policy p" "(entries_of Ks P + 2 * num_keys blocks) * 100 < 2 ^ 31"
    "sorted (map fst blocks)" "\<forall>x \<in> set blocks. length Ks \<le> unat (fst x div kFilterBase)"
  shows "\<exists>b' Ks' P'. add_blocks trunc blocks b = Some b' \<and> bb_inv trunc p extractor whole Ks' P' b' \<and>
    entries_of Ks' P' \<le> entries_of Ks P + 2 * num_keys blocks \<and> (\<forall>x. holds_entry Ks P x \<longrightarrow> holds_entry Ks' P' x) \<and>
    (\<forall>(off, keys) \<in> set blocks. \<forall>key \<in> set keys.
       recorded extractor whole key {e. holds_entry Ks' P' (unat (off div kFilterBase), e)})"
  using assms
proof (induction blocks arbitrary: Ks P b)
  case Nil
  then show ?case by (auto simp: num_keys_def)
next
  case (Cons x blocks)
  obtain off keys where x: "x = (off, keys)" by (cases x)
  note nk = num_keys_Cons [of off keys blocks]
  have lim: "entries_of Ks P * 100 < 2 ^ 31" "length Ks \<le> unat (off div kFilterBase)"
    using Cons.prems(3,5) by (simp_all add: x)
  obtain b1 Ks1 P1 where b1: "StartBlock trunc off b = Some b1" "bb_inv trunc p extractor whole Ks1 P1 b1"
      "length Ks1 = unat (off div kFilterBase)" "entries_of Ks1 P1 = entries_of Ks P" "\<forall>x. holds_entry Ks P x \<longrightarrow> holds_entry Ks1 P1 x"
    using StartBlock_inv [OF Cons.prems(1,2) lim] by blast
  obtain E where E: "bb_inv trunc p extractor whole Ks1 (P1 @ E) (fold BlockBased_Add keys b1)"
      "\<forall>key \<in> set keys. recorded extractor whole key (set (P1 @ E))" "length E \<le> 2 * length keys"
    using BlockBased_Adds_inv [OF b1(2)] by blast
  have "\<forall>x \<in> set blocks. length Ks1 \<le> unat (fst x div kFilterBase)"
    using Cons.prems(4) b1(3) by (auto simp: x intro: filter_index_mono)
  moreover have "entries_of Ks1 (P1 @ E) + 2 * num_keys blocks \<le> entries_of Ks P + 2 * num_keys (x # blocks)"
    using E(3) b1(4) by (simp add: x nk entries_of_add)
  then have "(entries_of Ks1 (P1 @ E) + 2 * num_keys blocks) * 100 < 2 ^ 31"
    by (rule le_less_trans [OF mult_le_mono1 Cons.prems(3)])
  ultimately obtain b' Ks' P' where b': "add_blocks trunc blocks (fold BlockBased_Add keys b1) = Some b'"
      "bb_inv trunc p extractor whole Ks' P' b'" "entries_of Ks' P' \<le> entries_of Ks1 (P1 @ E) + 2 * num_keys blocks"
      "\<forall>x. holds_entry Ks1 (P1 @ E) x \<longrightarrow> holds_entry Ks' P' x"
      "\<forall>(off, keys) \<in> set blocks. \<forall>key \<in> set keys. recorded extractor whole key {e. holds_entry Ks' P' (unat (off div kFilterBase), e)}"
    using Cons.IH [OF E(1) Cons.prems(2)] Cons.prems(4) by (auto simp: x)
  have "recorded extractor whole key {e. holds_entry Ks' P' (unat (off div kFilterBase), e)}" if "key \<in> set keys" for key
    by (rule recorded_mono [of extractor whole key "set (P1 @ E)"])
      (use E(2) that b'(4) holds_entry_current [of _ "P1 @ E" Ks1] b1(3) in auto)
  moreover have "entries_of Ks' P' \<le> entries_of Ks P + 2 * num_keys (x # blocks)"
    using b'(3) E(3) b1(4) by (simp add: x nk entries_of_add)
  moreover have "add_blocks trunc (x # blocks) b = Some b'" using b1(1) b'(1) by (simp add: x)
  moreover have "holds_entry Ks' P' y" if "holds_entry Ks P y" for y using that b1(5) b'(4) holds_entry_add by blast
  ultimately show ?case using b'(2,5) by (intro exI conjI) (auto simp: x)
qed

section \<open>The finished block\<close>

text \<open>The filters, the words of the offset array with the offset of the array itself behind it, and the shift.\<close>

definition filter_block :: "bytes list \<Rightarrow> bytes" where
  "filter_block F = concat F @ concat (map (\<lambda>n. EncodeFixed32 (of_nat n)) (starts F @ [length (concat F)])) @ [of_nat kFilterBaseLg]"

lemma BlockBased_Finish_block:
  assumes "bb_inv trunc p extractor whole Ks P b" "block_policy p" "entries_of Ks P * 100 < 2 ^ 31"
  shows "\<exists>b'. BlockBased_Finish trunc b = Some (filter_block (map (filter_of trunc p) (if P = [] then Ks else Ks @ [P])), b')"
proof -
  let ?K = "if P = [] then Ks else Ks @ [P]"
  have "length P * 100 < 2 ^ 31" using assms(3) by (simp add: entries_of_def)
  then obtain b1 where b1: "GenerateFilter trunc b = Some b1" "bb_inv trunc p extractor whole (Ks @ [P]) [] b1"
    using GenerateFilter_inv [OF assms(1,2)] by blast
  have "bb_start b = starts P" using assms(1) by (simp add: bb_inv_def)
  then have "\<exists>b1 P'. (if bb_start b \<noteq> [] then GenerateFilter trunc b else Some b) = Some b1 \<and> bb_inv trunc p extractor whole ?K P' b1"
    using assms(1) b1 by (cases "P = []") (auto simp: starts_empty_iff)
  then obtain b1 P' where b1: "(if bb_start b \<noteq> [] then GenerateFilter trunc b else Some b) = Some b1"
      "bb_result b1 = concat (map (filter_of trunc p) ?K)" "filter_offsets b1 = map of_nat (starts (map (filter_of trunc p) ?K))"
    unfolding bb_inv_def by blast
  then show ?thesis
    unfolding BlockBased_Finish_def b1(1) by (simp add: Let_def foldl_PutFixed32 PutFixed32_def filter_block_def comp_def)
qed

lemma length_encoded_words: "length (concat (map (\<lambda>n. EncodeFixed32 (of_nat n)) ns)) = 4 * length ns"
  by (induction ns) (simp_all add: length_EncodeFixed)

lemma encoded_word:
  "i < length ns \<Longrightarrow> DecodeFixed32 (drop (4 * i) (concat (map (\<lambda>n. EncodeFixed32 (of_nat n)) ns) @ r)) = of_nat (ns ! i)"
proof (induction ns arbitrary: i)
  case (Cons n ns)
  then show ?case by (cases i) (simp_all add: DecodeFixed32_Encode length_EncodeFixed)
qed simp

lemma filter_block_word:
  assumes "i \<le> length F"
  shows "DecodeFixed32 (drop (length (concat F) + i * 4) (filter_block F)) = of_nat (length (concat (take i F)))"
  using encoded_word [of i "starts F @ [length (concat F)]" "[of_nat kFilterBaseLg]"] assms nth_starts_end [OF assms]
  by (simp add: filter_block_def mult.commute [of i])

lemma length_filter_block: "length (filter_block F) = length (concat F) + 4 * length F + 5"
  unfolding filter_block_def by (simp add: length_encoded_words del: map_append concat_append)

lemma filter_block_fields:
  assumes "length (concat F) < 2 ^ 32"
  shows "ParseFieldsFromBlock (filter_block F) = Some (length (concat F), length F, 11)"
proof -
  have "filter_block F ! (length (filter_block F) - 1) = of_nat kFilterBaseLg"
    unfolding length_filter_block unfolding filter_block_def append_assoc [symmetric]
    by (rule nth_append_length [THEN subst]) (simp add: nth_append length_encoded_words del: map_append concat_append)
  moreover have "DecodeFixed32 (drop (length (filter_block F) - 5) (filter_block F)) = of_nat (length (concat F))"
    using filter_block_word [of "length F" F] by (simp add: length_filter_block mult.commute)
  ultimately show ?thesis
    using assms by (simp add: ParseFieldsFromBlock_def Let_def length_filter_block kFilterBaseLg_def unsigned_of_nat take_bit_nat_eq_self)
qed

section \<open>The reader\<close>

lemma length_concat_take_le: "length (concat (take i F)) \<le> length (concat F)"
proof -
  have "length (concat (take i F)) \<le> length (concat (take i F) @ concat (drop i F))" by simp
  then show ?thesis by (simp only: concat_append [symmetric] append_take_drop_id)
qed

lemma filter_index_shift: "unat (drop_bit 11 (off :: u64)) = unat (off div kFilterBase)"
  by (simp add: drop_bit_eq_div kFilterBase_def kFilterBaseLg_def push_bit_eq_mult)

text \<open>The reader asks the filter that covers the offset.\<close>

lemma filter_block_match:
  assumes "unat (off div kFilterBase) < length F" "length (concat F) < 2 ^ 32"
  shows "BlockBased_MayMatch (Some (filter_block F)) e off = KeyMayMatch e (F ! unat (off div kFilterBase))"
proof -
  define i where "i = unat (off div kFilterBase)"
  have i: "i < length F" using assms(1) by (simp add: i_def)
  let ?s = "length (concat (take i F))" and ?l = "length (concat (take (Suc i) F))"
  have l: "?l = ?s + length (F ! i)" using concat_take_Suc [OF i] by simp
  have bounds: "?s < 2 ^ 32" "?l < 2 ^ 32" "?l \<le> length (concat F)"
    using length_concat_take_le [of i F] length_concat_take_le [of "Suc i" F] assms(2) by simp_all
  have words: "DecodeFixed32 (drop (length (concat F) + i * 4) (filter_block F)) = of_nat ?s"
    "DecodeFixed32 (drop (length (concat F) + i * 4 + 4) (filter_block F)) = of_nat ?l"
    using filter_block_word [of i F] filter_block_word [of "Suc i" F] i by (simp_all add: ac_simps)
  have un: "unat (of_nat ?s :: u32) = ?s" "unat (of_nat ?l :: u32) = ?l" "unat (of_nat (length (concat F)) :: u32) = length (concat F)"
    using unat_of_nat_u32 bounds assms(2) by blast+
  have le: "(of_nat ?s :: u32) \<le> of_nat ?l" "(of_nat ?l :: u32) \<le> of_nat (length (concat F))"
    unfolding word_le_nat_alt un using bounds(3) l by simp_all
  have "subslice (filter_block F) (unat (of_nat ?s :: u32)) (unat ((of_nat ?l :: u32) - of_nat ?s)) = F ! i"
    using subslice_part [OF i] un l le(1) unfolding filter_block_def by (simp only: unat_sub) simp
  moreover have "length (concat F) + i * 4 + 8 \<le> length (filter_block F)" using i by (simp add: length_filter_block)
  ultimately show ?thesis
    using i words le filter_block_fields [OF assms(2)] un(2) bounds(3) length_filter_block [of F]
    by (simp add: BlockBased_MayMatch_def filter_index_shift i_def [symmetric])
qed

lemma length_filters:
  assumes "block_policy p" "length (concat K) * 100 < 2 ^ 31"
  shows "length (concat (map (filter_of trunc p) K)) \<le> 23 * length (concat K)"
  using assms(2)
proof (induction K)
  case (Cons ks K)
  have "length (filter_of trunc p ks) \<le> 23 * length ks"
    using filter_of_answers(2) [OF assms(1), of ks trunc] Cons.prems by (cases "ks = []") (simp_all add: filter_of_def)
  then show ?case using Cons by simp
qed simp

text \<open>A finished block, read at the offset of a block, knows the entries recorded for that block.\<close>

lemma finished_block_knows:
  assumes p: "block_policy p" and n: "entries_of Ks P * 100 < 2 ^ 31" and h: "holds_entry Ks P (unat (off div kFilterBase), e)"
  shows "BlockBased_MayMatch (Some (filter_block (map (filter_of trunc p) (if P = [] then Ks else Ks @ [P])))) e off = Some True"
proof -
  define K where "K = (if P = [] then Ks else Ks @ [P])"
  let ?i = "unat (off div kFilterBase)"
  have i: "?i < length K" "e \<in> set (K ! ?i)" using h by (auto simp: holds_entry_def K_def nth_append split: if_splits)
  have len: "length (concat K) * 100 < 2 ^ 31" using n by (simp add: entries_of_def K_def)
  have "length (concat (map (filter_of trunc p) K)) < 2 ^ 32" using length_filters [OF p len, of trunc] len by simp
  then have "BlockBased_MayMatch (Some (filter_block (map (filter_of trunc p) K))) e off = KeyMayMatch e (filter_of trunc p (K ! ?i))"
    using filter_block_match [of off "map (filter_of trunc p) K" e] i(1) by simp
  moreover have "length (K ! ?i) \<le> length (concat K)"
    using i(1) concat_take_Suc [OF i(1)] length_concat_take_le [of "Suc ?i" K] by simp
  then have "length (K ! ?i) * 100 < 2 ^ 31" using len by simp
  moreover have "K ! ?i \<noteq> []" using i(2) by auto
  ultimately show ?thesis using filter_of_answers(3) [OF p _ _ i(2), of trunc] unfolding K_def by simp
qed

section \<open>Properties\<close>

text \<open>C10: The block-based filter block has no false negatives.  Start the data blocks at any offsets in ascending order and add
  up to five million keys between them, with any prefix extractor (or none) and with or without whole keys.  No assertion of the
  builder fails, the loop in \<^verbatim>\<open>StartBlock\<close> ends, and in the finished block, at the offset of its data block, every added key
  may match and so may its prefix: the reader finds the filter of a block although the filters have no fixed size, blocks share
  filters, long blocks leave empty filters and repeated prefixes are added once.\<close>

theorem block_based_filter_complete:
  assumes "millibits_ok dlt d1 d100 to_millibits" "sorted (map fst blocks)" "num_keys blocks * 200 < 2 ^ 31"
    and "\<forall>x \<in> set blocks. fst x \<noteq> kNotValid"
  shows "\<exists>b contents b'.
    add_blocks trunc_069 blocks
      (BlockBasedFilterBlockBuilder_new extractor (NewBloomFilterPolicy dlt d1 d100 to_millibits bits True) whole) = Some b \<and>
    BlockBased_Finish trunc_069 b = Some (contents, b') \<and>
    (\<forall>(off, keys) \<in> set blocks. \<forall>key \<in> set keys.
       BlockBased_KeyMayMatch whole (Some contents) key off = Some True \<and>
       (\<forall>t. extractor = Some t \<and> st_InDomain t key \<longrightarrow>
          BlockBased_PrefixMayMatch (Some contents) (st_Transform t key) off = Some True))"
proof -
  define p where "p = NewBloomFilterPolicy dlt d1 d100 to_millibits bits True"
  have p: "block_policy p"
    using policy_millibits [OF assms(1), of bits kDeprecatedBlock] by (simp add: block_policy_def p_def NewBloomFilterPolicy_def)
  have lim: "(entries_of [] [] + 2 * num_keys blocks) * 100 < 2 ^ 31" using assms(3) by (simp add: entries_of_def)
  obtain b Ks P where b: "add_blocks trunc_069 blocks (BlockBasedFilterBlockBuilder_new extractor p whole) = Some b"
      "bb_inv trunc_069 p extractor whole Ks P b" "entries_of Ks P \<le> entries_of [] [] + 2 * num_keys blocks"
      and rec: "\<forall>(off, keys) \<in> set blocks. \<forall>key \<in> set keys.
        recorded extractor whole key {e. holds_entry Ks P (unat (off div kFilterBase), e)}"
    using add_blocks_inv [OF bb_inv_new [of trunc_069 p extractor whole] p lim assms(2)] unfolding list.size by blast
  have n: "entries_of Ks P * 100 < 2 ^ 31" by (rule le_less_trans [OF mult_le_mono1 [OF b(3)] lim])
  let ?c = "filter_block (map (filter_of trunc_069 p) (if P = [] then Ks else Ks @ [P]))"
  obtain b' where b': "BlockBased_Finish trunc_069 b = Some (?c, b')" using BlockBased_Finish_block [OF b(2) p n] by blast
  have "BlockBased_KeyMayMatch whole (Some ?c) key off = Some True \<and>
       (\<forall>t. extractor = Some t \<and> st_InDomain t key \<longrightarrow> BlockBased_PrefixMayMatch (Some ?c) (st_Transform t key) off = Some True)"
    if k: "(off, keys) \<in> set blocks" "key \<in> set keys" for off keys key
  proof -
    have "recorded extractor whole key {e. BlockBased_MayMatch (Some ?c) e off = Some True}"
      by (rule recorded_mono [of extractor whole key "{e. holds_entry Ks P (unat (off div kFilterBase), e)}"])
        (use rec k finished_block_knows [OF p n] in auto)
    moreover have "off \<noteq> kNotValid" using assms(4) k(1) by force
    ultimately show ?thesis
      by (simp add: recorded_def BlockBased_KeyMayMatch_def BlockBased_PrefixMayMatch_def)
  qed
  then show ?thesis using b(1) b' unfolding p_def by blast
qed

theorem block_based_filter_complete_witness:
  "\<exists>b contents b'.
    add_blocks (\<lambda>b. b * 69 div 100) [(0, [[97], [97, 1]]), (1500, [[98]]), (9000, [[98, 7], [99]])]
      (BlockBasedFilterBlockBuilder_new (Some (CappedPrefixTransform 1)) (NewBloomFilterPolicy (<) 1 100 (\<lambda>x. x * 1000) (10 :: int) True) True) = Some b \<and>
    BlockBased_Finish (\<lambda>b. b * 69 div 100) b = Some (contents, b') \<and>
    BlockBased_KeyMayMatch True (Some contents) [98, 7] 9000 = Some True \<and>
    BlockBased_PrefixMayMatch (Some contents) [98] 9000 = Some True"
proof -
  let ?blocks = "[(0, [[97], [97, 1]]), (1500, [[98]]), (9000, [[98, 7], [99]])] :: (u64 \<times> bytes list) list"
  have h: "sorted (map fst ?blocks)" "num_keys ?blocks * 200 < 2 ^ 31" "\<forall>x \<in> set ?blocks. fst x \<noteq> kNotValid"
    by (simp_all add: num_keys_def kNotValid_def)
  have t: "st_InDomain (CappedPrefixTransform 1) [98, 7]" "st_Transform (CappedPrefixTransform 1) [98, 7] = [98]"
    by (simp_all add: CappedPrefixTransform_def CappedPrefix_InDomain_def CappedPrefix_Transform_def)
  show ?thesis
    using block_based_filter_complete [OF millibits_ok_int h, of "\<lambda>b. b * 69 div 100" "Some (CappedPrefixTransform 1)" 10 True] t by force
qed

lemma scast_byte: "unat (scast (x :: byte) :: u64) < 64 \<longleftrightarrow> x < 64"
proof -
  have "sint x = (uint x + 128) mod 256 - 128"
    by (simp add: sint_uint signed_take_bit_eq_take_bit_shift take_bit_eq_mod)
  moreover have "(uint x + 128) mod 256 = (if uint x < 128 then uint x + 128 else uint x - 128)"
    using uint_bounded [of x] mod_add_self2 [of "uint x - 128" 256] by (cases "uint x < 128") (simp_all add: add.commute)
  ultimately have s: "sint x = (if uint x < 128 then uint x else uint x - 256)" by simp
  define y where "y = uint (scast x :: u64)"
  have "y = sint x mod 2 ^ 64" unfolding y_def scast_eq by (simp only: uint_word_of_int) simp
  then have "y = (if uint x < 128 then uint x else uint x - 256 + 2 ^ 64)"
    using uint_bounded [of x] mod_add_self2 [of "uint x - 256" "2 ^ 64"] unfolding s by (cases "uint x < 128") simp_all
  then have "y < 64 \<longleftrightarrow> uint x < 64" using uint_bounded [of x] by (simp split: if_splits)
  moreover have "unat (scast x :: u64) < 64 \<longleftrightarrow> y < 64" unfolding y_def uint_nat by (simp only: of_nat_less_numeral_iff)
  ultimately show ?thesis by (simp add: word_less_def)
qed

text \<open>Below 512 MB the number of bits does not wrap around, and every probe falls into the filter.\<close>

lemma KeyMayMatch_safe:
  assumes "length f \<le> 2 ^ 29"
  shows "KeyMayMatch key f \<noteq> None"
proof (cases "length f < 2 \<or> length f > 0xffffffff")
  case False
  define n where "n = length f - 1"
  have n: "0 < n" "8 * n < 2 ^ 32" "n \<le> length f" using False assms by (simp_all add: n_def)
  have "unat ((of_nat n :: u32) * 8) = 8 * n"
    using n(2) by (simp add: unat_word_ariths unsigned_of_nat take_bit_nat_eq_self mult.commute)
  then have bits: "(of_nat n :: u32) * 8 \<noteq> 0" "unat ((of_nat n :: u32) * 8) \<le> 8 * length f"
    using n by (auto simp: word_unat_eq_iff)
  show ?thesis
    using False NoLocality_HashMayMatch_loop_tests [OF bits]
    unfolding KeyMayMatch_def Let_def NoLocality_HashMayMatch_def n_def [symmetric] by auto
qed (simp add: KeyMayMatch_def)

lemma ParseFields_bounds:
  assumes "ParseFieldsFromBlock data = Some (off, num, base_lg)"
  shows "off + 4 * num + 5 \<le> length data" "base_lg = scast (last data)"
proof -
  have n: "5 \<le> length data" "off \<le> length data - 5" "num = (length data - 5 - off) div 4" "base_lg = scast (data ! (length data - 1))"
    using assms by (auto simp: ParseFieldsFromBlock_def Let_def split: if_splits)
  show "off + 4 * num + 5 \<le> length data" using n(1,2) unfolding n(3) by simp
  show "base_lg = scast (last data)" using n(1,4) by (subst last_conv_nth) auto
qed

text \<open>C25: On any bytes up to 512 MB in place of the filter block the reader never reads outside them: the only unsafe step left
  is the shift by the last byte, which nothing checks, so that the query is undefined exactly for a block whose fields parse and
  whose last byte is 64 or more.\<close>

theorem block_based_reader_safe:
  assumes "length data \<le> 2 ^ 29"
  shows "BlockBased_MayMatch (Some data) entry block_offset = None \<longleftrightarrow> ParseFieldsFromBlock data \<noteq> None \<and> last data \<ge> 64"
proof (cases "ParseFieldsFromBlock data")
  case None
  then show ?thesis by (simp add: BlockBased_MayMatch_def)
next
  case (Some x)
  then obtain off num base_lg where f: "ParseFieldsFromBlock data = Some (off, num, base_lg)" by (cases x) auto
  note b = ParseFields_bounds [OF f]
  show ?thesis
  proof (cases "last data < 64")
    case True
    then have lg: "unat base_lg < 64" using scast_byte b(2) by simp
    have "length (subslice data s l) \<le> 2 ^ 29" for s l using assms by (simp add: subslice_def)
    then have key: "(KeyMayMatch entry (subslice data s l) = None) = False" for s l using KeyMayMatch_safe by blast
    have word: "(off + i * 4 + 8 \<le> length data) = True" if "i < num" for i using that b(1) by simp
    have "unat (of_nat off :: u32) \<le> off" by (simp add: unsigned_of_nat)
    then have slice: "(unat limit \<le> length data) = True" if "limit \<le> of_nat off" for limit :: u32
      using that b(1) by (simp add: word_le_nat_alt)
    have "BlockBased_MayMatch (Some data) entry block_offset \<noteq> None"
      using f lg word slice key by (simp add: BlockBased_MayMatch_def Let_def del: not_None_eq)
    then show ?thesis using True unfolding not_le [symmetric] by blast
  next
    case False
    then have "(unat base_lg < 64) = False" using scast_byte b(2) by simp
    then have "BlockBased_MayMatch (Some data) entry block_offset = None" using f by (simp add: BlockBased_MayMatch_def)
    then show ?thesis using False f by (simp add: not_less)
  qed
qed

theorem block_based_reader_safe_witness:
  "BlockBased_MayMatch (Some [0, 0, 0, 0, 65]) [1] 0 = None \<and> BlockBased_MayMatch (Some [9, 9, 0, 0, 0, 11]) [1] 0 \<noteq> None"
proof -
  have l: "length [0, 0, 0, 0, 65 :: byte] \<le> 2 ^ 29" "length [9, 9, 0, 0, 0, 11 :: byte] \<le> 2 ^ 29" by simp_all
  have "ParseFieldsFromBlock [0, 0, 0, 0, 65] \<noteq> None"
    by (simp add: ParseFieldsFromBlock_def DecodeFixed32_def Let_def)
  then show ?thesis
    using block_based_reader_safe [OF l(1), of "[1]" 0] block_based_reader_safe [OF l(2), of "[1]" 0] by simp
qed

text \<open>A damaged offset array can hide keys.  The reader means to treat errors as potential matches, but a filter whose two
  offsets are equal and point behind the filters, which no builder writes, is taken for an empty one and matches nothing.\<close>

lemma damaged_offsets_hide_keys:
  "BlockBased_MayMatch (Some [5, 0, 0, 0, 5, 0, 0, 0, 0, 0, 0, 0, 11]) entry 0 = Some False"
  by (simp add: BlockBased_MayMatch_def ParseFieldsFromBlock_def DecodeFixed32_def Let_def)

end
