(* ===== verification/Merging_Iterator.thy ===== *)
theory Merging_Iterator
  imports Heap Block_Cursor "HOL-Library.Monad_Syntax"
begin

text \<open>
  The merging iterator, \<^verbatim>\<open>table/merging_iterator.cc\<close>, with the wrapper of
  \<^verbatim>\<open>table/iterator_wrapper.h\<close> that caches the validity and the key of a child.  The children are any
  implementations of the virtual class \<^verbatim>\<open>InternalIterator\<close>: a record of its functions on a state.
  A pointer to a child is its index; the heaps hold such pointers and compare the cached keys of the children they
  point to.  A failed assertion, a null pointer that is followed and a call of a child that does not return are None.
  The pinning of memory and the performance counters are not modelled.
\<close>

section \<open>Definitions\<close>

subsection \<open>InternalIterator and IteratorWrapper\<close>

text \<open>The six positioning functions are one function of the operation.\<close>

record 'i InternalIterator =
  vt_Valid :: "'i \<Rightarrow> bool"
  vt_key :: "'i \<Rightarrow> bytes"
  vt_value :: "'i \<Rightarrow> bytes"
  vt_status :: "'i \<Rightarrow> Status"
  vt_MayBeOutOfLowerBound :: "'i \<Rightarrow> bool"
  vt_MayBeOutOfUpperBound :: "'i \<Rightarrow> bool"
  vt_move :: "iter_op \<Rightarrow> 'i \<Rightarrow> 'i option"

record 'i IteratorWrapper =
  w_iter :: 'i
  w_valid :: bool
  w_key :: bytes
  w_may_be_out_of_upper_bound :: bool

definition Wrapper_Update :: "'i InternalIterator \<Rightarrow> 'i IteratorWrapper \<Rightarrow> 'i IteratorWrapper option" where
  "Wrapper_Update V w = do {
     let w = w\<lparr>w_valid := vt_Valid V (w_iter w)\<rparr>;
     if w_valid w then do {
       assert (ok (vt_status V (w_iter w)));
       Some (w\<lparr>w_key := vt_key V (w_iter w), w_may_be_out_of_upper_bound := True\<rparr>)
     } else Some w
   }"

definition Wrapper_Set :: "'i InternalIterator \<Rightarrow> 'i \<Rightarrow> 'i IteratorWrapper option" where
  "Wrapper_Set V it =
     Wrapper_Update V \<lparr>w_iter = it, w_valid = False, w_key = [], w_may_be_out_of_upper_bound = False\<rparr>"

text \<open>\<^verbatim>\<open>Prev\<close> and the four seeks.\<close>

definition Wrapper_move :: "'i InternalIterator \<Rightarrow> iter_op \<Rightarrow> 'i IteratorWrapper \<Rightarrow> 'i IteratorWrapper option" where
  "Wrapper_move V op w = do {
     it \<leftarrow> vt_move V op (w_iter w);
     Wrapper_Update V (w\<lparr>w_iter := it\<rparr>)
   }"

text \<open>\<^verbatim>\<open>Next\<close>, through \<^verbatim>\<open>NextAndGetResult\<close> of the child.\<close>

definition Wrapper_Next :: "'i InternalIterator \<Rightarrow> 'i IteratorWrapper \<Rightarrow> 'i IteratorWrapper option" where
  "Wrapper_Next V w = do {
     it \<leftarrow> vt_move V Op_Next (w_iter w);
     let is_valid = vt_Valid V it;
     let w = w\<lparr>w_iter := it, w_valid := is_valid\<rparr>;
     let w = (if is_valid then w\<lparr>w_key := vt_key V it,
                                 w_may_be_out_of_upper_bound := vt_MayBeOutOfUpperBound V it\<rparr> else w);
     assert (\<not> w_valid w \<or> ok (vt_status V it));
     Some w
   }"

subsection \<open>MergingIterator\<close>

datatype Direction = kForward | kReverse

record 'i MergingIterator =
  children :: "'i IteratorWrapper list"
  current :: "nat option"
  m_status :: Status
  direction :: Direction
  minHeap :: "nat BinaryHeap"
  maxHeap :: "nat BinaryHeap option"
  prefix_seek_mode :: bool

definition child_key :: "'i MergingIterator \<Rightarrow> nat \<Rightarrow> bytes" where
  "child_key m i = w_key (children m ! i)"

abbreviation min_cmp :: "(bytes \<Rightarrow> bytes \<Rightarrow> int) \<Rightarrow> 'i MergingIterator \<Rightarrow> nat \<Rightarrow> nat \<Rightarrow> bool" where
  "min_cmp cmp m \<equiv> MinIteratorComparator cmp (child_key m)"

abbreviation max_cmp :: "(bytes \<Rightarrow> bytes \<Rightarrow> int) \<Rightarrow> 'i MergingIterator \<Rightarrow> nat \<Rightarrow> nat \<Rightarrow> bool" where
  "max_cmp cmp m \<equiv> MaxIteratorComparator cmp (child_key m)"

definition considerStatus :: "Status \<Rightarrow> 'i MergingIterator \<Rightarrow> 'i MergingIterator" where
  "considerStatus s m = (if \<not> ok s \<and> ok (m_status m) then m\<lparr>m_status := s\<rparr> else m)"

definition AddToMinHeapOrCheckStatus ::
  "'i InternalIterator \<Rightarrow> (bytes \<Rightarrow> bytes \<Rightarrow> int) \<Rightarrow> nat \<Rightarrow> 'i MergingIterator \<Rightarrow> 'i MergingIterator option" where
  "AddToMinHeapOrCheckStatus V cmp i m =
     (let child = children m ! i
      in if w_valid child then do {
           assert (ok (vt_status V (w_iter child)));
           Some (m\<lparr>minHeap := heap_push (min_cmp cmp m) i (minHeap m)\<rparr>)
         } else Some (considerStatus (vt_status V (w_iter child)) m))"

definition AddToMaxHeapOrCheckStatus ::
  "'i InternalIterator \<Rightarrow> (bytes \<Rightarrow> bytes \<Rightarrow> int) \<Rightarrow> nat \<Rightarrow> 'i MergingIterator \<Rightarrow> 'i MergingIterator option" where
  "AddToMaxHeapOrCheckStatus V cmp i m =
     (let child = children m ! i
      in if w_valid child then do {
           assert (ok (vt_status V (w_iter child)));
           h \<leftarrow> maxHeap m;
           Some (m\<lparr>maxHeap := Some (heap_push (max_cmp cmp m) i h)\<rparr>)
         } else Some (considerStatus (vt_status V (w_iter child)) m))"

definition ClearHeaps :: "'i MergingIterator \<Rightarrow> 'i MergingIterator" where
  "ClearHeaps m = m\<lparr>minHeap := heap_clear (minHeap m), maxHeap := map_option heap_clear (maxHeap m)\<rparr>"

definition InitMaxHeap :: "'i MergingIterator \<Rightarrow> 'i MergingIterator" where
  "InitMaxHeap m = (if maxHeap m = None then m\<lparr>maxHeap := Some BinaryHeap_new\<rparr> else m)"

definition CurrentForward :: "'i MergingIterator \<Rightarrow> nat option option" where
  "CurrentForward m = do {
     assert (direction m = kForward);
     Some (if \<not> heap_empty (minHeap m) then Some (heap_top (minHeap m)) else None)
   }"

definition CurrentReverse :: "'i MergingIterator \<Rightarrow> nat option option" where
  "CurrentReverse m = do {
     assert (direction m = kReverse);
     h \<leftarrow> maxHeap m;
     Some (if \<not> heap_empty h then Some (heap_top h) else None)
   }"

definition set_current_forward :: "'i MergingIterator \<Rightarrow> 'i MergingIterator option" where
  "set_current_forward m = do { c \<leftarrow> CurrentForward m; Some (m\<lparr>current := c\<rparr>) }"

definition set_current_reverse :: "'i MergingIterator \<Rightarrow> 'i MergingIterator option" where
  "set_current_reverse m = do { c \<leftarrow> CurrentReverse m; Some (m\<lparr>current := c\<rparr>) }"

text \<open>\<^verbatim>\<open>for (auto& child : children_)\<close>, and a call of the child at an index.\<close>

fun for_children :: "(nat \<Rightarrow> 'm \<Rightarrow> 'm option) \<Rightarrow> nat list \<Rightarrow> 'm \<Rightarrow> 'm option" where
  "for_children f [] m = Some m"
| "for_children f (i # is) m = f i m \<bind> for_children f is"

definition at_child ::
  "('i IteratorWrapper \<Rightarrow> 'i IteratorWrapper option) \<Rightarrow> nat \<Rightarrow> 'i MergingIterator \<Rightarrow> 'i MergingIterator option" where
  "at_child f i m = do { w \<leftarrow> f (children m ! i); Some (m\<lparr>children := (children m)[i := w]\<rparr>) }"

definition MergingIterator_new ::
  "'i InternalIterator \<Rightarrow> (bytes \<Rightarrow> bytes \<Rightarrow> int) \<Rightarrow> 'i list \<Rightarrow> bool \<Rightarrow> 'i MergingIterator option" where
  "MergingIterator_new V cmp its prefix_mode = do {
     ws \<leftarrow> those (map (Wrapper_Set V) its);
     let m = \<lparr>children = ws, current = None, m_status = Status_OK, direction = kForward,
              minHeap = BinaryHeap_new, maxHeap = None, prefix_seek_mode = prefix_mode\<rparr>;
     m \<leftarrow> for_children (AddToMinHeapOrCheckStatus V cmp) [0..<length ws] m;
     set_current_forward m
   }"

text \<open>\<^verbatim>\<open>AddIterator\<close> pushes the address of a local copy of the new wrapper, which dangles when the function
  returns: None when that happens.\<close>

definition Merging_AddIterator ::
  "'i InternalIterator \<Rightarrow> 'i \<Rightarrow> 'i MergingIterator \<Rightarrow> 'i MergingIterator option" where
  "Merging_AddIterator V it m = do {
     assert (direction m = kForward);
     w \<leftarrow> Wrapper_Set V it;
     let m = m\<lparr>children := children m @ [w]\<rparr>;
     if w_valid w then None
     else Some (considerStatus (vt_status V (w_iter w)) m)
   }"

definition Merging_Valid :: "'i MergingIterator \<Rightarrow> bool" where
  "Merging_Valid m \<longleftrightarrow> current m \<noteq> None \<and> ok (m_status m)"

definition Merging_SeekToFirst ::
  "'i InternalIterator \<Rightarrow> (bytes \<Rightarrow> bytes \<Rightarrow> int) \<Rightarrow> 'i MergingIterator \<Rightarrow> 'i MergingIterator option" where
  "Merging_SeekToFirst V cmp m = do {
     let m = ClearHeaps m;
     let m = m\<lparr>m_status := Status_OK\<rparr>;
     m \<leftarrow> for_children (\<lambda>i m. do {
            m \<leftarrow> at_child (Wrapper_move V Op_SeekToFirst) i m;
            AddToMinHeapOrCheckStatus V cmp i m
          }) [0..<length (children m)] m;
     let m = m\<lparr>direction := kForward\<rparr>;
     set_current_forward m
   }"

definition Merging_SeekToLast ::
  "'i InternalIterator \<Rightarrow> (bytes \<Rightarrow> bytes \<Rightarrow> int) \<Rightarrow> 'i MergingIterator \<Rightarrow> 'i MergingIterator option" where
  "Merging_SeekToLast V cmp m = do {
     let m = ClearHeaps m;
     let m = InitMaxHeap m;
     let m = m\<lparr>m_status := Status_OK\<rparr>;
     m \<leftarrow> for_children (\<lambda>i m. do {
            m \<leftarrow> at_child (Wrapper_move V Op_SeekToLast) i m;
            AddToMaxHeapOrCheckStatus V cmp i m
          }) [0..<length (children m)] m;
     let m = m\<lparr>direction := kReverse\<rparr>;
     set_current_reverse m
   }"

definition Merging_Seek ::
  "'i InternalIterator \<Rightarrow> (bytes \<Rightarrow> bytes \<Rightarrow> int) \<Rightarrow> bytes \<Rightarrow> 'i MergingIterator \<Rightarrow> 'i MergingIterator option" where
  "Merging_Seek V cmp target m = do {
     let m = ClearHeaps m;
     let m = m\<lparr>m_status := Status_OK\<rparr>;
     m \<leftarrow> for_children (\<lambda>i m. do {
            m \<leftarrow> at_child (Wrapper_move V (Op_Seek target)) i m;
            AddToMinHeapOrCheckStatus V cmp i m
          }) [0..<length (children m)] m;
     let m = m\<lparr>direction := kForward\<rparr>;
     set_current_forward m
   }"

definition Merging_SeekForPrev ::
  "'i InternalIterator \<Rightarrow> (bytes \<Rightarrow> bytes \<Rightarrow> int) \<Rightarrow> bytes \<Rightarrow> 'i MergingIterator \<Rightarrow> 'i MergingIterator option" where
  "Merging_SeekForPrev V cmp target m = do {
     let m = ClearHeaps m;
     let m = InitMaxHeap m;
     let m = m\<lparr>m_status := Status_OK\<rparr>;
     m \<leftarrow> for_children (\<lambda>i m. do {
            m \<leftarrow> at_child (Wrapper_move V (Op_SeekForPrev target)) i m;
            AddToMaxHeapOrCheckStatus V cmp i m
          }) [0..<length (children m)] m;
     let m = m\<lparr>direction := kReverse\<rparr>;
     set_current_reverse m
   }"

definition Merging_key :: "'i MergingIterator \<Rightarrow> bytes option" where
  "Merging_key m = do {
     assert (Merging_Valid m);
     c \<leftarrow> current m;
     assert (w_valid (children m ! c));
     Some (w_key (children m ! c))
   }"

definition Merging_value :: "'i InternalIterator \<Rightarrow> 'i MergingIterator \<Rightarrow> bytes option" where
  "Merging_value V m = do {
     assert (Merging_Valid m);
     c \<leftarrow> current m;
     assert (w_valid (children m ! c));
     Some (vt_value V (w_iter (children m ! c)))
   }"

definition SwitchToForward ::
  "'i InternalIterator \<Rightarrow> (bytes \<Rightarrow> bytes \<Rightarrow> int) \<Rightarrow> 'i MergingIterator \<Rightarrow> 'i MergingIterator option" where
  "SwitchToForward V cmp m = do {
     let m = ClearHeaps m;
     target \<leftarrow> Merging_key m;
     m \<leftarrow> for_children (\<lambda>i m. do {
            m \<leftarrow> (if Some i \<noteq> current m then do {
                     m \<leftarrow> at_child (Wrapper_move V (Op_Seek target)) i m;
                     if w_valid (children m ! i) \<and> cmp target (child_key m i) = 0 then do {
                       assert (ok (vt_status V (w_iter (children m ! i))));
                       at_child (Wrapper_Next V) i m
                     } else Some m
                   } else Some m);
            AddToMinHeapOrCheckStatus V cmp i m
          }) [0..<length (children m)] m;
     Some (m\<lparr>direction := kForward\<rparr>)
   }"

definition SwitchToBackward ::
  "'i InternalIterator \<Rightarrow> (bytes \<Rightarrow> bytes \<Rightarrow> int) \<Rightarrow> 'i MergingIterator \<Rightarrow> 'i MergingIterator option" where
  "SwitchToBackward V cmp m = do {
     let m = ClearHeaps m;
     let m = InitMaxHeap m;
     target \<leftarrow> Merging_key m;
     m \<leftarrow> for_children (\<lambda>i m. do {
            m \<leftarrow> (if Some i \<noteq> current m then do {
                     m \<leftarrow> at_child (Wrapper_move V (Op_SeekForPrev target)) i m;
                     if w_valid (children m ! i) \<and> cmp target (child_key m i) = 0 then do {
                       assert (ok (vt_status V (w_iter (children m ! i))));
                       at_child (Wrapper_move V Op_Prev) i m
                     } else Some m
                   } else Some m);
            AddToMaxHeapOrCheckStatus V cmp i m
          }) [0..<length (children m)] m;
     let m = m\<lparr>direction := kReverse\<rparr>;
     m \<leftarrow> (if \<not> prefix_seek_mode m then set_current_reverse m else Some m);
     c \<leftarrow> CurrentReverse m;
     assert (current m = c);
     Some m
   }"

definition Merging_Next ::
  "'i InternalIterator \<Rightarrow> (bytes \<Rightarrow> bytes \<Rightarrow> int) \<Rightarrow> 'i MergingIterator \<Rightarrow> 'i MergingIterator option" where
  "Merging_Next V cmp m = do {
     assert (Merging_Valid m);
     m \<leftarrow> (if direction m \<noteq> kForward then SwitchToForward V cmp m else Some m);
     top \<leftarrow> CurrentForward m;
     assert (current m = top);
     c \<leftarrow> current m;
     m \<leftarrow> at_child (Wrapper_Next V) c m;
     m \<leftarrow> (if w_valid (children m ! c) then do {
              assert (ok (vt_status V (w_iter (children m ! c))));
              h \<leftarrow> heap_replace_top (min_cmp cmp m) c (minHeap m);
              Some (m\<lparr>minHeap := h\<rparr>)
            } else do {
              let m = considerStatus (vt_status V (w_iter (children m ! c))) m;
              h \<leftarrow> heap_pop (min_cmp cmp m) (minHeap m);
              Some (m\<lparr>minHeap := h\<rparr>)
            });
     set_current_forward m
   }"

definition Merging_Prev ::
  "'i InternalIterator \<Rightarrow> (bytes \<Rightarrow> bytes \<Rightarrow> int) \<Rightarrow> 'i MergingIterator \<Rightarrow> 'i MergingIterator option" where
  "Merging_Prev V cmp m = do {
     assert (Merging_Valid m);
     m \<leftarrow> (if direction m \<noteq> kReverse then SwitchToBackward V cmp m else Some m);
     top \<leftarrow> CurrentReverse m;
     assert (current m = top);
     c \<leftarrow> current m;
     m \<leftarrow> at_child (Wrapper_move V Op_Prev) c m;
     h \<leftarrow> maxHeap m;
     m \<leftarrow> (if w_valid (children m ! c) then do {
              assert (ok (vt_status V (w_iter (children m ! c))));
              h \<leftarrow> heap_replace_top (max_cmp cmp m) c h;
              Some (m\<lparr>maxHeap := Some h\<rparr>)
            } else do {
              let m = considerStatus (vt_status V (w_iter (children m ! c))) m;
              h \<leftarrow> heap_pop (max_cmp cmp m) h;
              Some (m\<lparr>maxHeap := Some h\<rparr>)
            });
     set_current_reverse m
   }"

text \<open>\<^verbatim>\<open>MayBeOutOfLowerBound\<close> and \<^verbatim>\<open>MayBeOutOfUpperBound\<close> relay the answer of the current child.\<close>

definition Merging_MayBeOutOfLowerBound :: "'i InternalIterator \<Rightarrow> 'i MergingIterator \<Rightarrow> bool option" where
  "Merging_MayBeOutOfLowerBound V m = do {
     assert (Merging_Valid m);
     c \<leftarrow> current m;
     Some (vt_MayBeOutOfLowerBound V (w_iter (children m ! c)))
   }"

definition Merging_MayBeOutOfUpperBound :: "'i MergingIterator \<Rightarrow> bool option" where
  "Merging_MayBeOutOfUpperBound m = do {
     assert (Merging_Valid m);
     c \<leftarrow> current m;
     Some (w_may_be_out_of_upper_bound (children m ! c))
   }"

text \<open>The result of \<^verbatim>\<open>NextAndGetResult\<close>: the key and the bound flag while the iterator is valid.\<close>

definition Merging_NextAndGetResult ::
  "'i InternalIterator \<Rightarrow> (bytes \<Rightarrow> bytes \<Rightarrow> int) \<Rightarrow> 'i MergingIterator \<Rightarrow> ('i MergingIterator \<times> (bytes \<times> bool) option) option" where
  "Merging_NextAndGetResult V cmp m = do {
     m \<leftarrow> Merging_Next V cmp m;
     if Merging_Valid m then do {
       k \<leftarrow> Merging_key m;
       b \<leftarrow> Merging_MayBeOutOfUpperBound m;
       Some (m, Some (k, b))
     } else Some (m, None)
   }"

subsection \<open>NewMergingIterator and MergeIteratorBuilder\<close>

datatype 'i merged = Empty_Iterator | One_Iterator 'i | Merged_Iterator "'i MergingIterator"

definition NewMergingIterator ::
  "'i InternalIterator \<Rightarrow> (bytes \<Rightarrow> bytes \<Rightarrow> int) \<Rightarrow> 'i list \<Rightarrow> bool \<Rightarrow> 'i merged option" where
  "NewMergingIterator V cmp its prefix_mode =
     (if length its = 0 then Some Empty_Iterator
      else if length its = 1 then Some (One_Iterator (its ! 0))
      else map_option Merged_Iterator (MergingIterator_new V cmp its prefix_mode))"

record 'i MergeIteratorBuilder =
  first_iter :: "'i option"
  merge_iter :: "'i MergingIterator"
  use_merging_iter :: bool

definition MergeIteratorBuilder_new ::
  "'i InternalIterator \<Rightarrow> (bytes \<Rightarrow> bytes \<Rightarrow> int) \<Rightarrow> bool \<Rightarrow> 'i MergeIteratorBuilder option" where
  "MergeIteratorBuilder_new V cmp prefix_mode = do {
     m \<leftarrow> MergingIterator_new V cmp [] prefix_mode;
     Some \<lparr>first_iter = None, merge_iter = m, use_merging_iter = False\<rparr>
   }"

definition MergeIteratorBuilder_AddIterator ::
  "'i InternalIterator \<Rightarrow> 'i \<Rightarrow> 'i MergeIteratorBuilder \<Rightarrow> 'i MergeIteratorBuilder option" where
  "MergeIteratorBuilder_AddIterator V it b = do {
     b \<leftarrow> (case first_iter b of
             Some f \<Rightarrow> if \<not> use_merging_iter b then do {
                 m \<leftarrow> Merging_AddIterator V f (merge_iter b);
                 Some (b\<lparr>merge_iter := m, use_merging_iter := True, first_iter := None\<rparr>)
               } else Some b
           | None \<Rightarrow> Some b);
     if use_merging_iter b then do {
       m \<leftarrow> Merging_AddIterator V it (merge_iter b);
       Some (b\<lparr>merge_iter := m\<rparr>)
     } else Some (b\<lparr>first_iter := Some it\<rparr>)
   }"

text \<open>None in the result is the null pointer that a builder without iterators returns.\<close>

definition MergeIteratorBuilder_Finish :: "'i MergeIteratorBuilder \<Rightarrow> 'i merged option" where
  "MergeIteratorBuilder_Finish b =
     (if \<not> use_merging_iter b then map_option One_Iterator (first_iter b)
      else Some (Merged_Iterator (merge_iter b)))"

end
