(* ===== verification/Merge_Positions.thy ===== *)
theory Merge_Positions
  imports Block_Cursor "HOL-Library.Multiset"
begin

text \<open>
  Positions in several sorted lists of entries and in the sorted list of all their entries: how far a list has been
  consumed when the merged list has been consumed up to some entry.  The lemmas are about lists only; the merging
  iterator uses them.
\<close>

section \<open>Prefixes of sorted lists\<close>

lemma filter_eq_takeWhile:
  assumes "sorted_wrt (\<lambda>x y. P y \<longrightarrow> P x) xs"
  shows "filter P xs = takeWhile P xs"
  using assms by (induction xs) (auto simp: filter_empty_conv)

lemma nth_filter_prefix:
  assumes "sorted_wrt (\<lambda>x y. P y \<longrightarrow> P x) xs" "i < length xs"
  shows "P (xs ! i) \<longleftrightarrow> i < length (filter P xs)"
proof
  assume "i < length (filter P xs)"
  then show "P (xs ! i)"
    using assms(1) by (metis filter_eq_takeWhile nth_mem set_takeWhileD takeWhile_nth)
next
  assume i: "P (xs ! i)"
  show "i < length (filter P xs)"
  proof (rule ccontr)
    let ?n = "length (takeWhile P xs)"
    assume "\<not> i < length (filter P xs)"
    then have n: "?n \<le> i" using filter_eq_takeWhile [OF assms(1)] by simp
    then have "\<not> P (xs ! ?n)" using assms(2) nth_length_takeWhile [of P xs] by simp
    moreover have "P (xs ! ?n)"
      using i n assms sorted_wrt_nth_less [OF assms(1), of ?n i] by (cases "?n = i") auto
    ultimately show False by simp
  qed
qed

lemma length_filter_insert:
  assumes "distinct xs" "a \<notin> A"
  shows "length (filter (\<lambda>e. e = a \<or> e \<in> A) xs) = length (filter (\<lambda>e. e \<in> A) xs) + (if a \<in> set xs then 1 else 0)"
  using assms by (induction xs) auto

lemma distinct_concat_owner:
  assumes "distinct (concat xss)" "i < length xss" "j < length xss" "x \<in> set (xss ! i)" "x \<in> set (xss ! j)"
  shows "i = j"
  using assms
proof (induction xss arbitrary: i j)
  case (Cons xs xss)
  have d: "set xs \<inter> set (concat xss) = {}" using Cons.prems(1) by simp
  have out: "x \<notin> set xs" if "k < length xss" "x \<in> set (xss ! k)" for k
    using d that by (auto dest: nth_mem)
  show ?case using Cons out by (auto simp: less_Suc_eq_0_disj)
qed simp

section \<open>The merged list\<close>

definition merges :: "(bytes \<Rightarrow> bytes \<Rightarrow> int) \<Rightarrow> (bytes \<times> bytes) list list \<Rightarrow> (bytes \<times> bytes) list \<Rightarrow> bool" where
  "merges cmp kvss L \<longleftrightarrow>
     keys_sorted cmp (map fst L) \<and> (\<forall>kvs \<in> set kvss. keys_sorted cmp (map fst kvs)) \<and> mset L = mset (concat kvss)"

text \<open>How many entries of a list are among the first \<open>p\<close> of the merged list, and the position of the last of them,
  or the end of the list when there are none.\<close>

definition fpos :: "(bytes \<times> bytes) list \<Rightarrow> nat \<Rightarrow> (bytes \<times> bytes) list \<Rightarrow> nat" where
  "fpos L p kvs = length (filter (\<lambda>e. e \<in> set (take p L)) kvs)"

definition bpos :: "(bytes \<times> bytes) list \<Rightarrow> nat \<Rightarrow> (bytes \<times> bytes) list \<Rightarrow> nat" where
  "bpos L q kvs = (if fpos L q kvs = 0 then length kvs else fpos L q kvs - 1)"

lemma fpos_le: "fpos L p kvs \<le> length kvs"
  by (simp add: fpos_def)

lemma fpos_0 [simp]: "fpos L 0 kvs = 0"
  by (simp add: fpos_def)

locale merged_lists = key_comparator +
  fixes kvss :: "(bytes \<times> bytes) list list" and L :: "(bytes \<times> bytes) list"
  assumes merges: "merges Compare kvss L"
begin

lemma L_less: "a < b \<Longrightarrow> b < length L \<Longrightarrow> Compare (fst (L ! a)) (fst (L ! b)) < 0"
  using merges by (simp add: merges_def keys_sorted_def)

lemma L_less_iff: "a < length L \<Longrightarrow> b < length L \<Longrightarrow> Compare (fst (L ! a)) (fst (L ! b)) < 0 \<longleftrightarrow> a < b"
  using L_less [of a b] L_less [of b a] cmp_refl cmp_sym
  by (metis less_irrefl linorder_neqE_nat not_less_iff_gr_or_eq)

lemma L_eq_iff: "a < length L \<Longrightarrow> b < length L \<Longrightarrow> Compare (fst (L ! a)) (fst (L ! b)) = 0 \<longleftrightarrow> a = b"
  using L_less_iff [of a b] L_less_iff [of b a] cmp_sym cmp_refl
  by (metis less_irrefl linorder_neqE linorder_neqE_nat)

lemma L_distinct: "distinct L"
  by (metis L_less_iff distinct_conv_nth linorder_neqE_nat less_irrefl)

lemma concat_distinct: "distinct (concat kvss)"
  using L_distinct merges by (metis merges_def mset_eq_imp_distinct_iff)

lemma set_L: "set L = (\<Union>kvs\<in>set kvss. set kvs)"
  using merges by (metis merges_def mset_eq_setD set_concat)

lemma mem_L: "kvs \<in> set kvss \<Longrightarrow> x \<in> set kvs \<Longrightarrow> x \<in> set L"
  using set_L by blast

lemma nth_mem_L:
  assumes "kvs \<in> set kvss" "i < length kvs"
  obtains b where "b < length L" "L ! b = kvs ! i"
  using mem_L [OF assms(1) nth_mem [OF assms(2)]] by (auto simp: in_set_conv_nth)

lemma kvs_distinct: "kvs \<in> set kvss \<Longrightarrow> distinct kvs"
  using concat_distinct by (simp add: distinct_concat_iff)

lemma kvs_less: "kvs \<in> set kvss \<Longrightarrow> a < b \<Longrightarrow> b < length kvs \<Longrightarrow> Compare (fst (kvs ! a)) (fst (kvs ! b)) < 0"
  using merges by (simp add: merges_def keys_sorted_def)

lemma in_take_L: "b < length L \<Longrightarrow> L ! b \<in> set (take p L) \<longleftrightarrow> b < p"
  using L_distinct by (auto simp: in_set_conv_nth nth_eq_iff_index_eq)

lemma prefix_closed:
  assumes "kvs \<in> set kvss"
  shows "sorted_wrt (\<lambda>x y. y \<in> set (take p L) \<longrightarrow> x \<in> set (take p L)) kvs"
  unfolding sorted_wrt_iff_nth_less
proof (intro allI impI)
  fix i j
  assume ij: "i < j" "j < length kvs" and j: "kvs ! j \<in> set (take p L)"
  have i: "i < length kvs" using ij by simp
  obtain a where a: "a < length L" "L ! a = kvs ! i" by (rule nth_mem_L [OF assms i])
  obtain b where b: "b < length L" "L ! b = kvs ! j" by (rule nth_mem_L [OF assms ij(2)])
  have "a < b" using kvs_less [OF assms ij] L_less_iff [OF a(1) b(1)] a b by simp
  then show "kvs ! i \<in> set (take p L)" using j in_take_L [OF a(1), of p] in_take_L [OF b(1), of p] a(2) b(2) by simp
qed

lemma fpos_iff: "kvs \<in> set kvss \<Longrightarrow> i < length kvs \<Longrightarrow> kvs ! i \<in> set (take p L) \<longleftrightarrow> i < fpos L p kvs"
  unfolding fpos_def by (rule nth_filter_prefix [OF prefix_closed])

lemma fpos_all: "kvs \<in> set kvss \<Longrightarrow> fpos L (length L) kvs = length kvs"
  using mem_L [of kvs] by (simp add: fpos_def)

lemma fpos_Suc:
  assumes "kvs \<in> set kvss" "p < length L"
  shows "fpos L (Suc p) kvs = fpos L p kvs + (if L ! p \<in> set kvs then 1 else 0)"
  using length_filter_insert [OF kvs_distinct [OF assms(1)], of "L ! p" "set (take p L)"] in_take_L [OF assms(2), of p] assms(2)
  by (simp add: fpos_def take_Suc_conv_app_nth disj_commute)

text \<open>The list that owns the next entry of the merged list is at that entry.\<close>

lemma fpos_owner:
  assumes "kvs \<in> set kvss" "p < length L" "L ! p \<in> set kvs"
  shows "fpos L p kvs < length kvs" "kvs ! fpos L p kvs = L ! p"
proof -
  obtain i where i: "i < length kvs" "kvs ! i = L ! p" using assms(3) by (auto simp: in_set_conv_nth)
  have "i < fpos L (Suc p) kvs" "\<not> i < fpos L p kvs"
    using fpos_iff [OF assms(1) i(1), of "Suc p"] fpos_iff [OF assms(1) i(1), of p] i(2) in_take_L [OF assms(2)] by simp_all
  then have "i = fpos L p kvs" using fpos_Suc [OF assms(1,2)] assms(3) by simp
  then show "fpos L p kvs < length kvs" "kvs ! fpos L p kvs = L ! p" using i by simp_all
qed

lemma owner_exists:
  assumes "p < length L"
  obtains c where "c < length kvss" "L ! p \<in> set (kvss ! c)"
  using set_L assms by (metis UN_E in_set_conv_nth nth_mem)

lemma owner_unique:
  "c < length kvss \<Longrightarrow> d < length kvss \<Longrightarrow> x \<in> set (kvss ! c) \<Longrightarrow> x \<in> set (kvss ! d) \<Longrightarrow> c = d"
  using distinct_concat_owner [OF concat_distinct] by blast

text \<open>The other lists are at later entries, and in the other direction at earlier ones.\<close>

lemma fpos_later:
  assumes "kvs \<in> set kvss" "fpos L p kvs < length kvs"
  obtains b where "b < length L" "p \<le> b" "kvs ! fpos L p kvs = L ! b"
proof -
  obtain b where b: "b < length L" "L ! b = kvs ! fpos L p kvs"
    by (rule nth_mem_L [OF assms])
  moreover have "\<not> b < p" using fpos_iff [OF assms, of p] in_take_L [OF b(1), of p] b(2) by simp
  ultimately show thesis using that [of b] by simp
qed

lemma bpos_le: "bpos L q kvs \<le> length kvs"
  using fpos_le [of L q kvs] by (auto simp: bpos_def)

lemma bpos_valid_iff: "bpos L q kvs < length kvs \<longleftrightarrow> 0 < fpos L q kvs"
  using fpos_le [of L q kvs] by (auto simp: bpos_def)

lemma bpos_earlier:
  assumes "kvs \<in> set kvss" "bpos L q kvs < length kvs"
  obtains b where "b < length L" "b < q" "kvs ! bpos L q kvs = L ! b"
proof -
  have f: "bpos L q kvs < fpos L q kvs" using assms(2) by (simp add: bpos_def split: if_splits)
  obtain b where b: "b < length L" "L ! b = kvs ! bpos L q kvs"
    by (rule nth_mem_L [OF assms])
  moreover have "b < q" using fpos_iff [OF assms, of q] in_take_L [OF b(1), of q] b(2) f by simp
  ultimately show thesis using that [of b] by simp
qed

lemma bpos_owner:
  assumes "kvs \<in> set kvss" "q < length L" "L ! q \<in> set kvs"
  shows "bpos L (Suc q) kvs = fpos L q kvs" "bpos L (Suc q) kvs < length kvs" "kvs ! bpos L (Suc q) kvs = L ! q"
  using fpos_owner [OF assms] fpos_Suc [OF assms(1,2)] assms(3) by (simp_all add: bpos_def)

lemma bpos_other:
  assumes "kvs \<in> set kvss" "q < length L" "L ! q \<notin> set kvs"
  shows "bpos L (Suc q) kvs = bpos L q kvs" "fpos L (Suc q) kvs = fpos L q kvs"
  using fpos_Suc [OF assms(1,2)] assms(3) by (simp_all add: bpos_def)

section \<open>Seeks in the merged list\<close>

text \<open>A downward closed set of keys cuts every list where it cuts the merged list.\<close>

lemma cut_position:
  assumes "kvs \<in> set kvss"
    and down: "\<And>k l. Compare k l < 0 \<Longrightarrow> P l \<Longrightarrow> P k"
  shows "length (takeWhile P (map fst kvs)) = fpos L (length (takeWhile P (map fst L))) kvs"
proof -
  have tw: "length (takeWhile P (map fst xs)) = length (filter (P \<circ> fst) xs)" if "keys_sorted Compare (map fst xs)" for xs
  proof -
    have "sorted_wrt (\<lambda>x y. (P \<circ> fst) y \<longrightarrow> (P \<circ> fst) x) xs"
      unfolding sorted_wrt_iff_nth_less using that down by (auto simp: keys_sorted_def)
    then show ?thesis using filter_eq_takeWhile [of "P \<circ> fst" xs] by (simp add: takeWhile_map comp_def)
  qed
  have sorted: "keys_sorted Compare (map fst kvs)" "keys_sorted Compare (map fst L)"
    using merges assms(1) by (simp_all add: merges_def)
  let ?p = "length (takeWhile P (map fst L))"
  have sL: "sorted_wrt (\<lambda>x y. (P \<circ> fst) y \<longrightarrow> (P \<circ> fst) x) L"
    unfolding sorted_wrt_iff_nth_less using sorted(2) down by (auto simp: keys_sorted_def)
  have "(P \<circ> fst) e \<longleftrightarrow> e \<in> set (take ?p L)" if "e \<in> set kvs" for e
  proof -
    have "e \<in> set L" by (rule mem_L [OF assms(1) that])
    then obtain b where b: "b < length L" "L ! b = e" by (auto simp: in_set_conv_nth)
    then have "(P \<circ> fst) e \<longleftrightarrow> b < ?p" using nth_filter_prefix [OF sL, of b] tw [OF sorted(2)] b by (simp add: comp_def)
    then show ?thesis using in_take_L [OF b(1), of ?p] b(2) by simp
  qed
  then have "filter (P \<circ> fst) kvs = filter (\<lambda>e. e \<in> set (take ?p L)) kvs" by (intro filter_cong) auto
  then show ?thesis using tw [OF sorted(1)] by (simp add: fpos_def)
qed

lemma lower_bound_fpos:
  "kvs \<in> set kvss \<Longrightarrow> lower_bound Compare t (map fst kvs) = fpos L (lower_bound Compare t (map fst L)) kvs"
  unfolding lower_bound_def by (rule cut_position) (use cmp_le_less less_imp_le in blast)+

definition upper :: "bytes \<Rightarrow> nat" where
  "upper t = length (takeWhile (\<lambda>k. Compare k t \<le> 0) (map fst L))"

lemma upper_bound_bpos:
  assumes "kvs \<in> set kvss"
  shows "upper_bound_prev Compare t (map fst kvs) = bpos L (upper t) kvs"
proof -
  have "length (takeWhile (\<lambda>k. Compare k t \<le> 0) (map fst kvs)) = fpos L (upper t) kvs"
    unfolding upper_def by (rule cut_position [OF assms]) (use cmp_less_le less_imp_le in blast)
  then show ?thesis by (simp add: upper_bound_prev_def bpos_def)
qed

lemma upper_bound_L: "upper_bound_prev Compare t (map fst L) = (if upper t = 0 then length L else upper t - 1)"
  by (simp add: upper_bound_prev_def upper_def)

lemma upper_le: "upper t \<le> length L"
  unfolding upper_def by (metis length_map length_takeWhile_le)

lemma lower_le: "lower_bound Compare t (map fst L) \<le> length L"
  unfolding lower_bound_def by (metis length_map length_takeWhile_le)

lemma seek_at_entry:
  assumes "j < length L"
  shows "lower_bound Compare (fst (L ! j)) (map fst L) = j" "upper (fst (L ! j)) = Suc j"
proof -
  have *: "length (takeWhile P (map fst L)) = n" if "n \<le> length L" "\<And>b. b < length L \<Longrightarrow> P (fst (L ! b)) \<longleftrightarrow> b < n" for P n
  proof -
    have "length (takeWhile P (map fst L)) = length (takeWhile (P \<circ> fst) L)" by (simp add: takeWhile_map comp_def)
    also have "takeWhile (P \<circ> fst) L = take n L"
      by (rule takeWhile_eq_take_P_nth) (use that in auto)
    finally show ?thesis using that(1) by simp
  qed
  show "lower_bound Compare (fst (L ! j)) (map fst L) = j"
    unfolding lower_bound_def by (rule *) (use assms L_less_iff in auto)
  show "upper (fst (L ! j)) = Suc j"
    unfolding upper_def
  proof (rule *)
    show "Compare (fst (L ! b)) (fst (L ! j)) \<le> 0 \<longleftrightarrow> b < Suc j" if "b < length L" for b
      using L_less_iff [OF that assms] L_eq_iff [OF that assms] by (auto simp: le_less)
  qed (use assms in simp)
qed

end

end
