(* ===== verification/Merge_Refinement.thy ===== *)
theory Merge_Refinement
  imports Merging_Iterator Merge_Positions
begin

text \<open>
  The merging iterator refines a cursor over the merged list.  The two directions of the code are mirror images: the
  functions \<open>side_...\<close> take the direction as an argument and are proved equal to the functions of the code, so that
  every lemma is proved once.
\<close>

section \<open>Both directions at once\<close>

fun side_cmp :: "(bytes \<Rightarrow> bytes \<Rightarrow> int) \<Rightarrow> Direction \<Rightarrow> 'i MergingIterator \<Rightarrow> nat \<Rightarrow> nat \<Rightarrow> bool" where
  "side_cmp cmp kForward m = min_cmp cmp m"
| "side_cmp cmp kReverse m = max_cmp cmp m"

fun side_heap :: "Direction \<Rightarrow> 'i MergingIterator \<Rightarrow> nat BinaryHeap option" where
  "side_heap kForward m = Some (minHeap m)"
| "side_heap kReverse m = maxHeap m"

fun set_side_heap :: "Direction \<Rightarrow> nat BinaryHeap \<Rightarrow> 'i MergingIterator \<Rightarrow> 'i MergingIterator" where
  "set_side_heap kForward h m = m\<lparr>minHeap := h\<rparr>"
| "set_side_heap kReverse h m = m\<lparr>maxHeap := Some h\<rparr>"

fun side_ready :: "Direction \<Rightarrow> 'i MergingIterator \<Rightarrow> 'i MergingIterator" where
  "side_ready kForward m = ClearHeaps m"
| "side_ready kReverse m = InitMaxHeap (ClearHeaps m)"

definition side_add ::
  "'i InternalIterator \<Rightarrow> (bytes \<Rightarrow> bytes \<Rightarrow> int) \<Rightarrow> Direction \<Rightarrow> nat \<Rightarrow> 'i MergingIterator \<Rightarrow> 'i MergingIterator option" where
  "side_add V cmp d i m =
     (let child = children m ! i
      in if w_valid child then do {
           assert (ok (vt_status V (w_iter child)));
           h \<leftarrow> side_heap d m;
           Some (set_side_heap d (heap_push (side_cmp cmp d m) i h) m)
         } else Some (considerStatus (vt_status V (w_iter child)) m))"

definition side_set_current :: "Direction \<Rightarrow> 'i MergingIterator \<Rightarrow> 'i MergingIterator option" where
  "side_set_current d m = do {
     assert (direction m = d);
     h \<leftarrow> side_heap d m;
     Some (m\<lparr>current := (if \<not> heap_empty h then Some (heap_top h) else None)\<rparr>)
   }"

definition side_seek ::
  "'i InternalIterator \<Rightarrow> (bytes \<Rightarrow> bytes \<Rightarrow> int) \<Rightarrow> Direction \<Rightarrow> iter_op \<Rightarrow> 'i MergingIterator \<Rightarrow> 'i MergingIterator option" where
  "side_seek V cmp d op m = do {
     let m = side_ready d m;
     let m = m\<lparr>m_status := Status_OK\<rparr>;
     m \<leftarrow> for_children (\<lambda>i m. do {
            m \<leftarrow> at_child (Wrapper_move V op) i m;
            side_add V cmp d i m
          }) [0..<length (children m)] m;
     let m = m\<lparr>direction := d\<rparr>;
     side_set_current d m
   }"

fun side_op :: "Direction \<Rightarrow> bytes \<Rightarrow> iter_op" where
  "side_op kForward target = Op_Seek target"
| "side_op kReverse target = Op_SeekForPrev target"

fun side_step :: "'i InternalIterator \<Rightarrow> Direction \<Rightarrow> 'i IteratorWrapper \<Rightarrow> 'i IteratorWrapper option" where
  "side_step V kForward = Wrapper_Next V"
| "side_step V kReverse = Wrapper_move V Op_Prev"

definition side_skip ::
  "'i InternalIterator \<Rightarrow> (bytes \<Rightarrow> bytes \<Rightarrow> int) \<Rightarrow> Direction \<Rightarrow> bytes \<Rightarrow> nat \<Rightarrow> 'i MergingIterator \<Rightarrow> 'i MergingIterator option" where
  "side_skip V cmp d target i m =
     (if Some i \<noteq> current m then do {
        m \<leftarrow> at_child (Wrapper_move V (side_op d target)) i m;
        if w_valid (children m ! i) \<and> cmp target (child_key m i) = 0 then do {
          assert (ok (vt_status V (w_iter (children m ! i))));
          at_child (side_step V d) i m
        } else Some m
      } else Some m)"

definition side_switch ::
  "'i InternalIterator \<Rightarrow> (bytes \<Rightarrow> bytes \<Rightarrow> int) \<Rightarrow> Direction \<Rightarrow> 'i MergingIterator \<Rightarrow> 'i MergingIterator option" where
  "side_switch V cmp d m = do {
     let m = side_ready d m;
     target \<leftarrow> Merging_key m;
     m \<leftarrow> for_children (\<lambda>i m. do { m \<leftarrow> side_skip V cmp d target i m; side_add V cmp d i m }) [0..<length (children m)] m;
     Some (m\<lparr>direction := d\<rparr>)
   }"

definition side_settle ::
  "'i InternalIterator \<Rightarrow> (bytes \<Rightarrow> bytes \<Rightarrow> int) \<Rightarrow> Direction \<Rightarrow> nat \<Rightarrow> 'i MergingIterator \<Rightarrow> 'i MergingIterator option" where
  "side_settle V cmp d c m = do {
     h \<leftarrow> side_heap d m;
     if w_valid (children m ! c) then do {
       assert (ok (vt_status V (w_iter (children m ! c))));
       h \<leftarrow> heap_replace_top (side_cmp cmp d m) c h;
       Some (set_side_heap d h m)
     } else do {
       let m = considerStatus (vt_status V (w_iter (children m ! c))) m;
       h \<leftarrow> heap_pop (side_cmp cmp d m) h;
       Some (set_side_heap d h m)
     }
   }"

definition side_advance ::
  "'i InternalIterator \<Rightarrow> (bytes \<Rightarrow> bytes \<Rightarrow> int) \<Rightarrow> Direction \<Rightarrow> 'i MergingIterator \<Rightarrow> 'i MergingIterator option" where
  "side_advance V cmp d m = do {
     m' \<leftarrow> side_set_current d m;
     assert (current m = current m');
     c \<leftarrow> current m;
     m \<leftarrow> at_child (side_step V d) c m;
     m \<leftarrow> side_settle V cmp d c m;
     side_set_current d m
   }"

lemma AddTo_side:
  "AddToMinHeapOrCheckStatus V cmp = side_add V cmp kForward"
  "AddToMaxHeapOrCheckStatus V cmp = side_add V cmp kReverse"
  by (intro ext; simp add: side_add_def AddToMinHeapOrCheckStatus_def AddToMaxHeapOrCheckStatus_def Let_def cong: if_cong)+

lemma considerStatus_heaps [simp]:
  "minHeap (considerStatus s m) = minHeap m" "maxHeap (considerStatus s m) = maxHeap m"
  "children (considerStatus s m) = children m" "current (considerStatus s m) = current m"
  "direction (considerStatus s m) = direction m"
  by (simp_all add: considerStatus_def)

lemma bind_map_option: "map_option f x \<bind> g = x \<bind> (\<lambda>y. g (f y))"
  by (cases x) simp_all

lemma set_current_side:
  "set_current_forward m = side_set_current kForward m"
  "set_current_reverse m = side_set_current kReverse m"
  by (simp_all add: side_set_current_def set_current_forward_def set_current_reverse_def CurrentForward_def CurrentReverse_def
      split: bind_splits)

lemma Current_side:
  "CurrentForward m = map_option current (side_set_current kForward m)"
  "CurrentReverse m = map_option current (side_set_current kReverse m)"
  by (simp_all add: side_set_current_def CurrentForward_def CurrentReverse_def assert_def split: bind_splits)

lemma seek_side:
  "Merging_SeekToFirst V cmp m = side_seek V cmp kForward Op_SeekToFirst m"
  "Merging_SeekToLast V cmp m = side_seek V cmp kReverse Op_SeekToLast m"
  "Merging_Seek V cmp target m = side_seek V cmp kForward (Op_Seek target) m"
  "Merging_SeekForPrev V cmp target m = side_seek V cmp kReverse (Op_SeekForPrev target) m"
  by (simp_all add: side_seek_def Merging_SeekToFirst_def Merging_SeekToLast_def Merging_Seek_def Merging_SeekForPrev_def
      AddTo_side set_current_side)

lemma switch_side:
  "SwitchToForward V cmp m = side_switch V cmp kForward m"
  by (simp add: side_switch_def SwitchToForward_def AddTo_side side_skip_def Let_def cong: if_cong)

lemma switch_side_reverse:
  "SwitchToBackward V cmp m = do {
     m \<leftarrow> side_switch V cmp kReverse m;
     m \<leftarrow> (if \<not> prefix_seek_mode m then set_current_reverse m else Some m);
     c \<leftarrow> CurrentReverse m;
     assert (current m = c);
     Some m
   }"
  by (simp add: side_switch_def SwitchToBackward_def AddTo_side side_skip_def Let_def cong: if_cong)

lemma Next_side:
  "Merging_Next V cmp m = do {
     assert (Merging_Valid m);
     m \<leftarrow> (if direction m \<noteq> kForward then SwitchToForward V cmp m else Some m);
     side_advance V cmp kForward m
   }"
  by (simp add: Merging_Next_def side_advance_def side_settle_def Current_side set_current_side bind_map_option Let_def cong: if_cong)

lemma Prev_side:
  "Merging_Prev V cmp m = do {
     assert (Merging_Valid m);
     m \<leftarrow> (if direction m \<noteq> kReverse then SwitchToBackward V cmp m else Some m);
     side_advance V cmp kReverse m
   }"
  by (simp add: Merging_Prev_def side_advance_def side_settle_def Current_side set_current_side bind_map_option Let_def cong: if_cong)

section \<open>Child iterators as cursors\<close>

text \<open>What the merging iterator relies on: a child is a cursor over a sorted list of entries, and is moved by
  \<^verbatim>\<open>Next\<close> and \<^verbatim>\<open>Prev\<close> only while it is valid.\<close>

fun needs_valid :: "iter_op \<Rightarrow> bool" where
  "needs_valid Op_Next = True"
| "needs_valid Op_Prev = True"
| "needs_valid _ = False"

locale cursor_iterator = key_comparator +
  fixes V :: "'i InternalIterator" and R :: "(bytes \<times> bytes) list \<Rightarrow> 'i \<Rightarrow> nat \<Rightarrow> bool"
  assumes R_Valid: "R kvs it j \<Longrightarrow> vt_Valid V it \<longleftrightarrow> j < length kvs"
    and R_key: "R kvs it j \<Longrightarrow> j < length kvs \<Longrightarrow> vt_key V it = fst (kvs ! j)"
    and R_value: "R kvs it j \<Longrightarrow> j < length kvs \<Longrightarrow> vt_value V it = snd (kvs ! j)"
    and R_status: "R kvs it j \<Longrightarrow> ok (vt_status V it)"
    and R_move: "R kvs it j \<Longrightarrow> keys_sorted Compare (map fst kvs) \<Longrightarrow> needs_valid op \<longrightarrow> j < length kvs \<Longrightarrow>
      \<exists>it'. vt_move V op it = Some it' \<and> R kvs it' (cursor_step Compare (map fst kvs) j op)"
begin

definition WR :: "(bytes \<times> bytes) list \<Rightarrow> 'i IteratorWrapper \<Rightarrow> nat \<Rightarrow> bool" where
  "WR kvs w j \<longleftrightarrow> R kvs (w_iter w) j \<and> w_valid w = (j < length kvs) \<and> (j < length kvs \<longrightarrow> w_key w = fst (kvs ! j))"

lemma WR_valid: "WR kvs w j \<Longrightarrow> w_valid w \<longleftrightarrow> j < length kvs"
  by (simp add: WR_def)

lemma WR_key: "WR kvs w j \<Longrightarrow> j < length kvs \<Longrightarrow> w_key w = fst (kvs ! j)"
  by (simp add: WR_def)

lemma WR_ok: "WR kvs w j \<Longrightarrow> ok (vt_status V (w_iter w))"
  using R_status by (auto simp: WR_def)

lemma Wrapper_Update_WR:
  assumes "R kvs (w_iter w) j"
  shows "\<exists>w'. Wrapper_Update V w = Some w' \<and> WR kvs w' j"
  using R_Valid [OF assms] R_key [OF assms] R_status [OF assms] assms by (auto simp: Wrapper_Update_def WR_def Let_def)

lemma Wrapper_move_WR:
  assumes "WR kvs w j" "keys_sorted Compare (map fst kvs)" "needs_valid op \<longrightarrow> j < length kvs"
  shows "\<exists>w'. Wrapper_move V op w = Some w' \<and> WR kvs w' (cursor_step Compare (map fst kvs) j op)"
proof -
  obtain it where "vt_move V op (w_iter w) = Some it" "R kvs it (cursor_step Compare (map fst kvs) j op)"
    using R_move [of kvs "w_iter w" j op] assms by (auto simp: WR_def)
  then show ?thesis using Wrapper_Update_WR [of kvs "w\<lparr>w_iter := it\<rparr>"] by (simp add: Wrapper_move_def)
qed

lemma Wrapper_Next_WR:
  assumes "WR kvs w j" "keys_sorted Compare (map fst kvs)" "j < length kvs"
  shows "\<exists>w'. Wrapper_Next V w = Some w' \<and> WR kvs w' (Suc j)"
proof -
  obtain it where it: "vt_move V Op_Next (w_iter w) = Some it" "R kvs it (Suc j)"
    using R_move [of kvs "w_iter w" j Op_Next] assms by (auto simp: WR_def)
  then show ?thesis using R_Valid [OF it(2)] R_key [OF it(2)] R_status [OF it(2)]
    by (auto simp: Wrapper_Next_def WR_def Let_def)
qed

end

section \<open>The states of the merging iterator\<close>

fun side_pos :: "Direction \<Rightarrow> (bytes \<times> bytes) list \<Rightarrow> nat \<Rightarrow> (bytes \<times> bytes) list \<Rightarrow> nat" where
  "side_pos kForward = fpos"
| "side_pos kReverse = bpos"

text \<open>The entry of the merged list that is current when \<open>p\<close> entries lie before the gap between the children that
  move forward, or behind which the children that move backward stand.\<close>

fun side_entry :: "Direction \<Rightarrow> (bytes \<times> bytes) list \<Rightarrow> nat \<Rightarrow> nat" where
  "side_entry kForward L p = p"
| "side_entry kReverse L p = (if p = 0 then length L else p - 1)"

fun side_gap :: "Direction \<Rightarrow> nat \<Rightarrow> nat" where
  "side_gap kForward j = j"
| "side_gap kReverse j = Suc j"

lemma heap_inv_cong:
  assumes "heap_inv cmp h" "\<And>a b. a \<in> set (heap_data h) \<Longrightarrow> b \<in> set (heap_data h) \<Longrightarrow> cmp' a b = cmp a b"
  shows "heap_inv cmp' h"
proof -
  have p: "get_parent i < length (heap_data h)" if "0 < i" "i < length (heap_data h)" for i
    using get_parent_less [OF that(1)] that(2) by simp
  have "is_heap cmp' (heap_data h)"
    using assms p by (auto simp: heap_inv_def is_heap_def)
  moreover have "root_cache_ok cmp' (heap_data h) (root_cmp_cache h)"
    using assms by (auto simp: heap_inv_def root_cache_ok_def)
  ultimately show ?thesis using assms(1) by (simp add: heap_inv_def)
qed

locale merging_contract = cursor_iterator + merged_lists +
  assumes few_children: "length kvss + 1 < kMaxSizet"
begin

lemma nth_kvss: "i < length kvss \<Longrightarrow> kvss ! i \<in> set kvss"
  by simp

lemma kvs_sorted: "i < length kvss \<Longrightarrow> keys_sorted Compare (map fst (kvss ! i))"
  using merges by (simp add: merges_def)

definition at_positions :: "(nat \<Rightarrow> nat) \<Rightarrow> 'a MergingIterator \<Rightarrow> bool" where
  "at_positions f m \<longleftrightarrow> length (children m) = length kvss \<and> (\<forall>i < length kvss. WR (kvss ! i) (children m ! i) (f i))"

definition heap_holds :: "Direction \<Rightarrow> nat \<Rightarrow> 'a MergingIterator \<Rightarrow> bool" where
  "heap_holds d k m \<longleftrightarrow> (\<exists>h. side_heap d m = Some h \<and> heap_inv (side_cmp Compare d m) h \<and>
     distinct (heap_data h) \<and> (\<forall>a. a \<in> set (heap_data h) \<longleftrightarrow> a < k \<and> w_valid (children m ! a)))"

lemma side_cmp_cong:
  "child_key m' a = child_key m a \<Longrightarrow> child_key m' b = child_key m b \<Longrightarrow> side_cmp Compare d m' a b = side_cmp Compare d m a b"
  by (cases d) (simp_all add: MinIteratorComparator_def MaxIteratorComparator_def)

lemma side_heap_order: "heap_order (side_cmp Compare d m)"
  using heap_order_of_Compare [OF key_comparator_axioms] by (cases d) simp_all

text \<open>The loop over the children: child by child, move it and put it into the heap.\<close>

definition loop_inv :: "Direction \<Rightarrow> (nat \<Rightarrow> nat) \<Rightarrow> (nat \<Rightarrow> nat) \<Rightarrow> nat option \<Rightarrow> Direction \<Rightarrow> nat \<Rightarrow> 'a MergingIterator \<Rightarrow> bool" where
  "loop_inv d f f' cur dir k m \<longleftrightarrow>
     at_positions (\<lambda>i. if i < k then f' i else f i) m \<and> heap_holds d k m \<and> ok (m_status m) \<and> current m = cur \<and> direction m = dir"

lemma side_add_step:
  assumes at: "at_positions g m" and holds: "heap_holds d i m" and i: "i < length kvss" and okm: "ok (m_status m)"
  shows "\<exists>m'. side_add V Compare d i m = Some m' \<and> at_positions g m' \<and> heap_holds d (Suc i) m' \<and> ok (m_status m') \<and>
     current m' = current m \<and> direction m' = direction m"
proof -
  obtain h where h: "side_heap d m = Some h" "heap_inv (side_cmp Compare d m) h"
      "distinct (heap_data h)" "\<And>a. a \<in> set (heap_data h) \<longleftrightarrow> a < i \<and> w_valid (children m ! a)"
    using holds by (auto simp: heap_holds_def)
  have okc: "ok (vt_status V (w_iter (children m ! i)))" using at i WR_ok by (auto simp: at_positions_def)
  show ?thesis
  proof (cases "w_valid (children m ! i)")
    case False
    then have "side_add V Compare d i m = Some m" using okc by (simp add: side_add_def considerStatus_def)
    moreover have "heap_holds d (Suc i) m" using holds False by (auto simp: heap_holds_def less_Suc_eq)
    ultimately show ?thesis using at okm by simp
  next
    case True
    let ?m = "set_side_heap d (heap_push (side_cmp Compare d m) i h) m"
    have "set (heap_data h) \<subseteq> {..<i}" using h(4) by auto
    then have "length (heap_data h) \<le> i" using card_mono [OF finite_lessThan] distinct_card [OF h(3)] by (metis card_lessThan)
    then have "length (heap_data h) + 1 < kMaxSizet" using i few_children by simp
    note push = heap_order.push_heap [OF side_heap_order h(2) this, of i]
    have m: "side_add V Compare d i m = Some ?m" using True okc h by (simp add: side_add_def)
    have keep: "children ?m = children m" "current ?m = current m" "direction ?m = direction m" "m_status ?m = m_status m"
      "side_cmp Compare d ?m = side_cmp Compare d m" "side_heap d ?m = Some (heap_push (side_cmp Compare d m) i h)"
      by (cases d; simp add: child_key_def [abs_def])+
    have ms: "mset (heap_data (heap_push (side_cmp Compare d m) i h)) = mset (i # heap_data h)" using push by simp
    then have "distinct (heap_data (heap_push (side_cmp Compare d m) i h))"
      "set (heap_data (heap_push (side_cmp Compare d m) i h)) = insert i (set (heap_data h))"
      using h(3) h(4) [of i] mset_eq_imp_distinct_iff [OF ms] mset_eq_setD [OF ms] by simp_all
    then have "heap_holds d (Suc i) ?m" using push h(4) True keep by (auto simp: heap_holds_def less_Suc_eq)
    then show ?thesis using m keep at okm by (simp add: at_positions_def)
  qed
qed

lemma heap_holds_move:
  assumes "heap_holds d i m" "i < length (children m)"
  shows "heap_holds d i (m\<lparr>children := (children m)[i := w]\<rparr>)"
proof -
  let ?m = "m\<lparr>children := (children m)[i := w]\<rparr>"
  obtain h where h: "side_heap d m = Some h" "heap_inv (side_cmp Compare d m) h"
      "distinct (heap_data h)" "\<And>a. a \<in> set (heap_data h) \<longleftrightarrow> a < i \<and> w_valid (children m ! a)"
    using assms(1) by (auto simp: heap_holds_def)
  have "child_key ?m a = child_key m a" if "a \<in> set (heap_data h)" for a
    using that h(4) [of a] by (simp add: child_key_def)
  then have "side_cmp Compare d ?m a b = side_cmp Compare d m a b" if "a \<in> set (heap_data h)" "b \<in> set (heap_data h)" for a b
    using that side_cmp_cong by blast
  then have "heap_inv (side_cmp Compare d ?m) h" using heap_inv_cong [OF h(2)] by blast
  moreover have "side_heap d ?m = Some h" using h(1) by (cases d) simp_all
  moreover have "a \<in> set (heap_data h) \<longleftrightarrow> a < i \<and> w_valid (children ?m ! a)" for a using h(4) [of a] by auto
  ultimately show ?thesis using h(3) by (auto simp: heap_holds_def)
qed

lemma at_positions_move:
  assumes "at_positions g m" "i < length kvss" "WR (kvss ! i) w j"
  shows "at_positions (g(i := j)) (m\<lparr>children := (children m)[i := w]\<rparr>)"
  using assms by (auto simp: at_positions_def nth_list_update)

lemma at_positions_cong: "at_positions g m \<Longrightarrow> (\<And>i. i < length kvss \<Longrightarrow> g i = g' i) \<Longrightarrow> at_positions g' m"
  by (simp add: at_positions_def)

text \<open>The step \<open>g\<close> moves the child at an index from \<open>f\<close> to \<open>f'\<close>.\<close>

lemma children_loop:
  assumes move: "\<And>i m. i < length kvss \<Longrightarrow> length (children m) = length kvss \<Longrightarrow> WR (kvss ! i) (children m ! i) (f i) \<Longrightarrow>
      current m = cur \<Longrightarrow> \<exists>w. g i m = Some (m\<lparr>children := (children m)[i := w]\<rparr>) \<and> WR (kvss ! i) w (f' i)"
    and "loop_inv d f f' cur dir k m" "k \<le> length kvss"
  shows "\<exists>m'. for_children (\<lambda>i m. g i m \<bind> side_add V Compare d i) [k..<length kvss] m = Some m' \<and>
     loop_inv d f f' cur dir (length kvss) m'"
  using assms(2,3)
proof (induction "length kvss - k" arbitrary: k m)
  case 0
  then show ?case by simp
next
  case (Suc n)
  then have k: "k < length kvss" by simp
  note inv = Suc.prems(1) [unfolded loop_inv_def]
  have wr: "length (children m) = length kvss" "WR (kvss ! k) (children m ! k) (f k)" using inv k by (auto simp: at_positions_def)
  obtain w where w: "g k m = Some (m\<lparr>children := (children m)[k := w]\<rparr>)" "WR (kvss ! k) w (f' k)"
    using move [OF k wr] inv by blast
  let ?m = "m\<lparr>children := (children m)[k := w]\<rparr>"
  have "at_positions (\<lambda>i. if i < Suc k then f' i else f i) ?m"
    by (rule at_positions_cong [OF at_positions_move [OF _ k w(2)]]) (use inv in \<open>auto simp: less_Suc_eq\<close>)
  moreover have "heap_holds d k ?m" using heap_holds_move inv wr k by simp
  ultimately obtain m' where m': "side_add V Compare d k ?m = Some m'" "loop_inv d f f' cur dir (Suc k) m'"
    using side_add_step [of _ ?m d k] k inv by (auto simp: loop_inv_def)
  then have "\<exists>m''. for_children (\<lambda>i m. g i m \<bind> side_add V Compare d i) [Suc k..<length kvss] m' = Some m'' \<and>
     loop_inv d f f' cur dir (length kvss) m''"
    using Suc.hyps k by simp
  then show ?case using m' w k by (simp add: upt_conv_Cons)
qed

text \<open>The child that owns the current entry, and no other, is on top of the heap.\<close>

definition is_current :: "nat \<Rightarrow> nat option \<Rightarrow> bool" where
  "is_current j cur \<longleftrightarrow>
     (case cur of None \<Rightarrow> j = length L | Some c \<Rightarrow> j < length L \<and> c < length kvss \<and> L ! j \<in> set (kvss ! c))"

lemma side_gap_entry: "side_entry d L p < length L \<Longrightarrow> side_gap d (side_entry d L p) = p"
  by (cases d) (auto split: if_splits)

lemma side_entry_gap [simp]: "side_entry d L (side_gap d j) = j"
  by (cases d) simp_all

lemma side_owner:
  assumes "kvs \<in> set kvss" "j < length L" "L ! j \<in> set kvs"
  shows "side_pos d L (side_gap d j) kvs = fpos L j kvs" "fpos L j kvs < length kvs" "kvs ! fpos L j kvs = L ! j"
  using fpos_owner [OF assms] bpos_owner [OF assms] by (cases d; simp)+

lemma side_other:
  assumes "kvs \<in> set kvss" "side_pos d L (side_gap d j) kvs < length kvs"
  obtains b where "b < length L" "kvs ! side_pos d L (side_gap d j) kvs = L ! b"
    "d = kForward \<Longrightarrow> j \<le> b" "d = kReverse \<Longrightarrow> b \<le> j"
proof (cases d)
  case kForward
  with assms show thesis using fpos_later [OF assms(1), of j] that by auto
next
  case kReverse
  with assms show thesis using bpos_earlier [OF assms(1), of "Suc j"] that by (auto simp: less_Suc_eq_le)
qed

lemma side_none:
  assumes "kvs \<in> set kvss" "p \<le> length L" "\<not> side_entry d L p < length L"
  shows "side_pos d L p kvs = length kvs"
proof (cases d)
  case kForward
  with assms have "p = length L" by simp
  then show ?thesis using kForward fpos_all [OF assms(1)] by simp
next
  case kReverse
  with assms have "p = 0" by (simp split: if_splits)
  then show ?thesis using kReverse by (simp add: bpos_def)
qed

lemma in_side_heap:
  assumes "heap_holds d (length kvss) m" "side_heap d m = Some h"
  shows "a \<in> set (heap_data h) \<longleftrightarrow> a < length kvss \<and> w_valid (children m ! a)"
  using assms by (auto simp: heap_holds_def)

lemma side_top:
  assumes at: "at_positions (\<lambda>i. side_pos d L p (kvss ! i)) m" and holds: "heap_holds d (length kvss) m"
    and p: "p \<le> length L" and h: "side_heap d m = Some h"
  shows "is_current (side_entry d L p) (if heap_data h = [] then None else Some (heap_top h))"
proof (cases "side_entry d L p < length L")
  case False
  have "\<not> w_valid (children m ! a)" if "a < length kvss" for a
  proof -
    have "WR (kvss ! a) (children m ! a) (side_pos d L p (kvss ! a))" using at that by (simp add: at_positions_def)
    then show ?thesis using side_none [OF nth_kvss [OF that] p False] WR_valid by fastforce
  qed
  then have "heap_data h = []" using in_side_heap [OF holds h] by (metis list.set_sel(1))
  moreover have "side_entry d L p = length L" using False p by (cases d) (auto split: if_splits)
  ultimately show ?thesis by (simp add: is_current_def)
next
  case True
  define j where "j = side_entry d L p"
  have j: "j < length L" "p = side_gap d j" using True side_gap_entry [OF True] by (simp_all add: j_def)
  have wr: "WR (kvss ! a) (children m ! a) (side_pos d L (side_gap d j) (kvss ! a))" if "a < length kvss" for a
    using at that j by (simp add: at_positions_def)
  obtain c where c: "c < length kvss" "L ! j \<in> set (kvss ! c)" by (rule owner_exists [OF j(1)])
  note own = side_owner [OF nth_kvss [OF c(1)] j(1) c(2)]
  have ch: "c \<in> set (heap_data h)" using in_side_heap [OF holds h, of c] wr [OF c(1)] own WR_valid c(1) by auto
  have ck: "child_key m c = fst (L ! j)" using WR_key [OF wr [OF c(1)]] own by (simp add: child_key_def)
  define t where "t = heap_top h"
  have inv: "heap_inv (side_cmp Compare d m) h" using holds h by (auto simp: heap_holds_def)
  have "heap_data h \<noteq> []" using ch by auto
  then have th: "t \<in> set (heap_data h)" by (simp add: t_def heap_top_def)
  then have t: "t < length kvss" "w_valid (children m ! t)" using in_side_heap [OF holds h, of t] by simp_all
  then have v: "side_pos d L (side_gap d j) (kvss ! t) < length (kvss ! t)" using wr [OF t(1)] WR_valid by blast
  obtain b where b: "b < length L" "kvss ! t ! side_pos d L (side_gap d j) (kvss ! t) = L ! b"
    "d = kForward \<Longrightarrow> j \<le> b" "d = kReverse \<Longrightarrow> b \<le> j"
    using side_other [OF nth_kvss [OF t(1)] v] by blast
  have tk: "child_key m t = fst (L ! b)" using WR_key [OF wr [OF t(1)] v] b(2) by (simp add: child_key_def)
  have top: "\<not> side_cmp Compare d m t c"
    unfolding t_def by (rule heap_order.heap_top_maximal [OF side_heap_order inv ch])
  have "b = j"
  proof (cases d)
    case kForward
    then have "\<not> Compare (fst (L ! j)) (fst (L ! b)) < 0"
      using top cmp_sym [of "fst (L ! j)" "fst (L ! b)"] by (simp add: MinIteratorComparator_def ck tk)
    then show ?thesis using L_less [of j b] b(1,3) kForward by (simp add: le_eq_less_or_eq) blast
  next
    case kReverse
    then have "\<not> Compare (fst (L ! b)) (fst (L ! j)) < 0" using top by (simp add: MaxIteratorComparator_def ck tk)
    then show ?thesis using L_less [of b j] b(4) j(1) kReverse by (simp add: le_eq_less_or_eq) blast
  qed
  then have "L ! j \<in> set (kvss ! t)" using b(2) v by (metis nth_mem)
  then show ?thesis
    unfolding j_def [symmetric] t_def [symmetric] is_current_def using t(1) j(1) \<open>heap_data h \<noteq> []\<close> by simp
qed

definition MR :: "Direction \<Rightarrow> nat \<Rightarrow> 'a MergingIterator \<Rightarrow> bool" where
  "MR d p m \<longleftrightarrow> p \<le> length L \<and> direction m = d \<and> at_positions (\<lambda>i. side_pos d L p (kvss ! i)) m \<and>
     heap_holds d (length kvss) m \<and> ok (m_status m) \<and> is_current (side_entry d L p) (current m)"

lemma MR_Valid: "MR d p m \<Longrightarrow> Merging_Valid m \<longleftrightarrow> side_entry d L p < length L"
  by (auto simp: MR_def is_current_def Merging_Valid_def split: option.splits)

lemma side_set_current_MR:
  assumes "at_positions (\<lambda>i. side_pos d L p (kvss ! i)) m" "heap_holds d (length kvss) m" "p \<le> length L"
    "direction m = d" "ok (m_status m)"
  shows "\<exists>m'. side_set_current d m = Some m' \<and> MR d p m'"
proof -
  obtain h where h: "side_heap d m = Some h" using assms(2) by (auto simp: heap_holds_def)
  let ?c = "if heap_data h = [] then None else Some (heap_top h)"
  let ?m = "m\<lparr>current := ?c\<rparr>"
  have "side_set_current d m = Some ?m" using assms(4) h by (simp add: side_set_current_def heap_empty_def)
  moreover have "at_positions (\<lambda>i. side_pos d L p (kvss ! i)) ?m" using assms(1) by (simp add: at_positions_def)
  moreover have "heap_holds d (length kvss) ?m"
    using assms(2) by (cases d) (simp_all add: heap_holds_def child_key_def [abs_def])
  ultimately show ?thesis using side_top [OF assms(1-3) h] assms(3-5) by (simp add: MR_def)
qed

section \<open>The operations\<close>

lemma side_ready_keeps [simp]:
  "children (side_ready d m) = children m" "current (side_ready d m) = current m"
  "m_status (side_ready d m) = m_status m" "direction (side_ready d m) = direction m"
  by (cases d; simp add: ClearHeaps_def InitMaxHeap_def)+

lemma side_ready_heap: "side_heap d (side_ready d m) = Some BinaryHeap_new"
  by (cases d) (auto simp: ClearHeaps_def InitMaxHeap_def heap_clear_def BinaryHeap_new_def)

lemma heap_holds_0:
  assumes "side_heap d m = Some BinaryHeap_new"
  shows "heap_holds d 0 m"
  using heap_order.new_heap [OF side_heap_order [of d m]] assms by (simp add: heap_holds_def BinaryHeap_new_def)

lemma loop_inv_start:
  assumes "at_positions f m" "ok (m_status m)" "current m = cur" "direction m = dir" "side_heap d m = Some BinaryHeap_new"
  shows "loop_inv d f f' cur dir 0 m"
  using assms heap_holds_0 by (simp add: loop_inv_def)

lemma loop_inv_end:
  assumes "loop_inv d f f' cur dir (length kvss) m"
  shows "at_positions f' m" "heap_holds d (length kvss) m" "ok (m_status m)" "current m = cur" "direction m = dir"
  using assms by (auto simp: loop_inv_def at_positions_def)

lemma with_direction [simp]:
  "at_positions f (m\<lparr>direction := d'\<rparr>) = at_positions f m" "heap_holds d k (m\<lparr>direction := d'\<rparr>) = heap_holds d k m"
  by (simp add: at_positions_def) (cases d; simp add: heap_holds_def child_key_def [abs_def])

lemma side_seek_MR:
  assumes at: "at_positions g m" and op: "\<not> needs_valid op" and p: "p \<le> length L"
    and pos: "\<And>kvs j. kvs \<in> set kvss \<Longrightarrow> cursor_step Compare (map fst kvs) j op = side_pos d L p kvs"
  shows "\<exists>m'. side_seek V Compare d op m = Some m' \<and> MR d p m'"
proof -
  let ?f' = "\<lambda>i. side_pos d L p (kvss ! i)"
  let ?m = "(side_ready d m)\<lparr>m_status := Status_OK\<rparr>"
  have move: "\<exists>w. at_child (Wrapper_move V op) i m = Some (m\<lparr>children := (children m)[i := w]\<rparr>) \<and> WR (kvss ! i) w (?f' i)"
    if i: "i < length kvss" and wr: "WR (kvss ! i) (children m ! i) (g i)" for i m
  proof -
    obtain w where "Wrapper_move V op (children m ! i) = Some w"
        "WR (kvss ! i) w (cursor_step Compare (map fst (kvss ! i)) (g i) op)"
      using Wrapper_move_WR [OF wr kvs_sorted [OF i], of op] op by auto
    then show ?thesis using pos [OF nth_kvss [OF i]] by (simp add: at_child_def) blast
  qed
  have "side_heap d ?m = Some BinaryHeap_new" using side_ready_heap [of d m] by (cases d) simp_all
  moreover have "at_positions g ?m" using at by (simp add: at_positions_def)
  ultimately have inv: "loop_inv d g ?f' (current m) (direction m) 0 ?m" by (intro loop_inv_start) (simp_all add: ok_def Status_OK_def)
  have "\<exists>m'. for_children (\<lambda>i m. at_child (Wrapper_move V op) i m \<bind> side_add V Compare d i) [0..<length kvss] ?m = Some m' \<and>
      loop_inv d g ?f' (current m) (direction m) (length kvss) m'"
    by (rule children_loop [OF _ inv]) (rule move, assumption+, simp)
  then obtain m' where m': "for_children (\<lambda>i m. at_child (Wrapper_move V op) i m \<bind> side_add V Compare d i) [0..<length kvss] ?m = Some m'"
      "loop_inv d g ?f' (current m) (direction m) (length kvss) m'"
    by blast
  have "length (children m) = length kvss" using at by (simp add: at_positions_def)
  then have "side_seek V Compare d op m = side_set_current d (m'\<lparr>direction := d\<rparr>)"
    using m'(1) by (simp add: side_seek_def)
  then show ?thesis using side_set_current_MR [of d p "m'\<lparr>direction := d\<rparr>"] loop_inv_end [OF m'(2)] p by simp
qed

lemma MR_positions: "MR d p m \<Longrightarrow> at_positions (\<lambda>i. side_pos d L p (kvss ! i)) m"
  by (simp add: MR_def)

lemma MR_current:
  assumes "MR d p m" "side_entry d L p < length L"
  obtains c where "current m = Some c" "c < length kvss" "L ! side_entry d L p \<in> set (kvss ! c)"
    "WR (kvss ! c) (children m ! c) (fpos L (side_entry d L p) (kvss ! c))"
proof -
  obtain c where c: "current m = Some c" "c < length kvss" "L ! side_entry d L p \<in> set (kvss ! c)"
    using assms by (auto simp: MR_def is_current_def split: option.splits)
  have "WR (kvss ! c) (children m ! c) (side_pos d L p (kvss ! c))" using MR_positions [OF assms(1)] c(2) by (simp add: at_positions_def)
  then show thesis
    using that c side_owner(1) [OF nth_kvss [OF c(2)] assms(2) c(3)] side_gap_entry [OF assms(2)] by metis
qed

lemma MR_view:
  assumes "MR d p m"
  shows "Merging_key m = map_option fst (cursor_view L (side_entry d L p))"
    "Merging_value V m = map_option snd (cursor_view L (side_entry d L p))"
proof -
  let ?j = "side_entry d L p"
  have "Merging_key m = map_option fst (cursor_view L ?j) \<and> Merging_value V m = map_option snd (cursor_view L ?j)"
  proof (cases "?j < length L")
    case True
    obtain c where c: "current m = Some c" "c < length kvss" "L ! ?j \<in> set (kvss ! c)"
        "WR (kvss ! c) (children m ! c) (fpos L ?j (kvss ! c))"
      by (rule MR_current [OF assms True])
    note own = side_owner [OF nth_kvss [OF c(2)] True c(3)]
    have "w_valid (children m ! c)" "w_key (children m ! c) = fst (L ! ?j)" "vt_value V (w_iter (children m ! c)) = snd (L ! ?j)"
      using c(4) own R_value by (auto simp: WR_def)
    then show ?thesis using MR_Valid [OF assms] True c(1) by (simp add: Merging_key_def Merging_value_def cursor_view_def)
  next
    case False
    then show ?thesis using MR_Valid [OF assms] by (simp add: Merging_key_def Merging_value_def cursor_view_def)
  qed
  then show "Merging_key m = map_option fst (cursor_view L ?j)" "Merging_value V m = map_option snd (cursor_view L ?j)" by simp_all
qed

lemma side_op_position:
  assumes "j < length L" "kvs \<in> set kvss"
  shows "cursor_step Compare (map fst kvs) i (side_op d (fst (L ! j))) = side_pos d L (side_gap d j) kvs"
  using lower_bound_fpos [OF assms(2)] upper_bound_bpos [OF assms(2)] seek_at_entry [OF assms(1)] by (cases d) simp_all

text \<open>When the direction changes, no other child has the current key, so none is moved twice.\<close>

lemma side_skip_moves:
  assumes j: "j < length L" and c: "c < length kvss" "L ! j \<in> set (kvss ! c)" and i: "i < length kvss"
    and wr: "WR (kvss ! i) (children m ! i) k" and k: "i = c \<Longrightarrow> k = fpos L j (kvss ! i)"
    and len: "length (children m) = length kvss" and cur: "current m = Some c"
  shows "\<exists>w. side_skip V Compare d (fst (L ! j)) i m = Some (m\<lparr>children := (children m)[i := w]\<rparr>) \<and>
     WR (kvss ! i) w (side_pos d L (side_gap d j) (kvss ! i))"
proof (cases "i = c")
  case True
  then have "side_skip V Compare d (fst (L ! j)) i m = Some (m\<lparr>children := (children m)[i := children m ! i]\<rparr>)"
    using cur by (simp add: side_skip_def)
  moreover have "WR (kvss ! i) (children m ! i) (side_pos d L (side_gap d j) (kvss ! i))"
    using wr k True side_owner(1) [OF nth_kvss [OF c(1)] j c(2), of d] by simp
  ultimately show ?thesis by blast
next
  case False
  let ?p = "side_pos d L (side_gap d j) (kvss ! i)"
  have nv: "\<not> needs_valid (side_op d (fst (L ! j)))" by (cases d) simp_all
  obtain w where w: "Wrapper_move V (side_op d (fst (L ! j))) (children m ! i) = Some w" "WR (kvss ! i) w ?p"
    using Wrapper_move_WR [OF wr kvs_sorted [OF i], of "side_op d (fst (L ! j))"] nv side_op_position [OF j nth_kvss [OF i]] by auto
  have "Compare (fst (L ! j)) (w_key w) \<noteq> 0" if "w_valid w"
  proof
    assume eq: "Compare (fst (L ! j)) (w_key w) = 0"
    have v: "?p < length (kvss ! i)" using that WR_valid [OF w(2)] by simp
    obtain b where b: "b < length L" "kvss ! i ! ?p = L ! b" using side_other [OF nth_kvss [OF i] v] by blast
    then have "j = b" using eq WR_key [OF w(2) v] L_eq_iff [OF j b(1)] by simp
    then have "L ! j \<in> set (kvss ! i)" using b(2) v by (metis nth_mem)
    then show False using owner_unique [OF i c(1) _ c(2)] False by blast
  qed
  then have "side_skip V Compare d (fst (L ! j)) i m = Some (m\<lparr>children := (children m)[i := w]\<rparr>)"
    using False cur w(1) i len by (auto simp: side_skip_def child_key_def at_child_def)
  then show ?thesis using w(2) by blast
qed

lemma side_switch_MR:
  assumes MR: "MR d0 p m" and j: "side_entry d0 L p < length L"
  shows "\<exists>m'. side_switch V Compare d m = Some m' \<and> MR d (side_gap d (side_entry d0 L p)) m'"
proof -
  define j where "j = side_entry d0 L p"
  have jL: "j < length L" using j by (simp add: j_def)
  obtain c where c: "current m = Some c" "c < length kvss" "L ! j \<in> set (kvss ! c)"
      "WR (kvss ! c) (children m ! c) (fpos L j (kvss ! c))"
    using MR_current [OF MR j] unfolding j_def by metis
  let ?f = "\<lambda>i. side_pos d0 L p (kvss ! i)"
  let ?f' = "\<lambda>i. side_pos d L (side_gap d j) (kvss ! i)"
  let ?m = "side_ready d m"
  have fc: "?f c = fpos L j (kvss ! c)"
    using side_owner(1) [OF nth_kvss [OF c(2)] jL c(3), of d0] side_gap_entry [OF j] by (simp add: j_def)
  have key: "Merging_key ?m = Some (fst (L ! j))"
    using MR_view(1) [OF MR] jL by (simp add: Merging_key_def Merging_Valid_def cursor_view_def j_def)
  have move: "\<exists>w. side_skip V Compare d (fst (L ! j)) i m = Some (m\<lparr>children := (children m)[i := w]\<rparr>) \<and> WR (kvss ! i) w (?f' i)"
    if "i < length kvss" "length (children m) = length kvss" "WR (kvss ! i) (children m ! i) (?f i)" "current m = Some c" for i m
    by (rule side_skip_moves [OF jL c(2,3) that(1,3) _ that(2,4)]) (simp add: fc)
  have "at_positions ?f ?m" "ok (m_status ?m)" using MR by (simp_all add: MR_def at_positions_def)
  then have inv: "loop_inv d ?f ?f' (Some c) (direction m) 0 ?m" by (intro loop_inv_start) (simp_all add: side_ready_heap c(1))
  have "\<exists>m'. for_children (\<lambda>i m. side_skip V Compare d (fst (L ! j)) i m \<bind> side_add V Compare d i) [0..<length kvss] ?m = Some m' \<and>
      loop_inv d ?f ?f' (Some c) (direction m) (length kvss) m'"
    by (rule children_loop [OF _ inv]) (rule move, assumption+, simp)
  then obtain m' where m': "for_children (\<lambda>i m. side_skip V Compare d (fst (L ! j)) i m \<bind> side_add V Compare d i) [0..<length kvss] ?m = Some m'"
      "loop_inv d ?f ?f' (Some c) (direction m) (length kvss) m'"
    by blast
  have "length (children m) = length kvss" using MR by (simp add: MR_def at_positions_def)
  then have "side_switch V Compare d m = Some (m'\<lparr>direction := d\<rparr>)" using m'(1) key by (simp add: side_switch_def)
  moreover have "MR d (side_gap d j) (m'\<lparr>direction := d\<rparr>)"
    using loop_inv_end [OF m'(2)] jL c(2,3) by (cases d) (simp_all add: MR_def is_current_def)
  ultimately show ?thesis by (simp add: j_def)
qed

text \<open>One step in a direction moves the owner of the current entry and nothing else.\<close>

fun side_next :: "Direction \<Rightarrow> nat \<Rightarrow> nat" where
  "side_next kForward j = Suc j"
| "side_next kReverse j = j"

lemma side_next_owner:
  assumes j: "j < length L" and kvs: "kvs \<in> set kvss" "L ! j \<in> set kvs" "keys_sorted Compare (map fst kvs)"
    and wr: "WR kvs w (fpos L j kvs)"
  shows "\<exists>w'. side_step V d w = Some w' \<and> WR kvs w' (side_pos d L (side_next d j) kvs)"
proof -
  note v = side_owner(2) [OF kvs(1) j kvs(2)]
  show ?thesis
  proof (cases d)
    case kForward
    then show ?thesis using Wrapper_Next_WR [OF wr kvs(3) v] fpos_Suc [OF kvs(1) j] kvs(2) by simp
  next
    case kReverse
    then show ?thesis using Wrapper_move_WR [OF wr kvs(3), of Op_Prev] v by (simp add: bpos_def split: if_splits)
  qed
qed

lemma side_next_other:
  assumes "j < length L" "kvs \<in> set kvss" "L ! j \<notin> set kvs"
  shows "side_pos d L (side_next d j) kvs = side_pos d L (side_gap d j) kvs"
  using bpos_other [OF assms(2,1,3)] by (cases d) simp_all

text \<open>The new key of the child on top sinks to its place, or the child leaves the heap.\<close>

lemma heap_holds_top:
  assumes holds: "heap_holds d n m" and h: "side_heap d m = Some h" and c: "heap_data h = c # xs"
    and m': "m' = m\<lparr>children := (children m)[c := w]\<rparr>" and len: "n \<le> length (children m)"
  shows "w_valid w \<Longrightarrow> \<exists>h'. heap_replace_top (side_cmp Compare d m') c h = Some h' \<and> heap_holds d n (set_side_heap d h' m')"
    "\<not> w_valid w \<Longrightarrow> \<exists>h'. heap_pop (side_cmp Compare d m') h = Some h' \<and> heap_holds d n (set_side_heap d h' m')"
proof -
  have inv: "heap_inv (side_cmp Compare d m) h" "distinct (c # xs)"
      "\<And>a. a \<in> set (c # xs) \<longleftrightarrow> a < n \<and> w_valid (children m ! a)"
    using holds h c by (auto simp: heap_holds_def)
  have cn: "c < length (children m)" using inv(3) [of c] len by simp
  have "child_key m' a = child_key m a" if "a \<in> set xs" for a
    using that inv(2) by (cases "a = c") (simp_all add: child_key_def m')
  then have agree: "side_cmp Compare d m' a b = side_cmp Compare d m a b" if "a \<in> set xs" "b \<in> set xs" for a b
    using that side_cmp_cong by blast
  have xs: "a \<in> set xs \<longleftrightarrow> a \<noteq> c \<and> a < n \<and> w_valid (children m' ! a)" for a
    using inv(2) inv(3) [of a] by (cases "a = c") (simp_all add: m')
  have keep: "side_heap d (set_side_heap d h' m') = Some h'" "children (set_side_heap d h' m') = children m'"
      "side_cmp Compare d (set_side_heap d h' m') = side_cmp Compare d m'" for h'
    by (cases d; simp add: child_key_def [abs_def])+
  have holdsI: "heap_holds d n (set_side_heap d h' m')"
    if "heap_inv (side_cmp Compare d m') h'" "mset (heap_data h') = mset ys" "distinct ys"
      "\<And>a. a \<in> set ys \<longleftrightarrow> a < n \<and> w_valid (children m' ! a)" for h' ys
    using that mset_eq_setD [OF that(2)] mset_eq_imp_distinct_iff [OF that(2)] by (simp add: heap_holds_def keep)
  note order = side_heap_order [of d m']
  {
    assume "w_valid w"
    then have "a \<in> set (c # xs) \<longleftrightarrow> a < n \<and> w_valid (children m' ! a)" for a
      using xs [of a] inv(3) [of c] cn by (auto simp: m')
    moreover obtain h' where "heap_replace_top (side_cmp Compare d m') c h = Some h'" "heap_inv (side_cmp Compare d m') h'"
        "mset (heap_data h') = mset (c # xs)"
      using heap_order.replace_top_changed [OF order inv(1) c agree, of c] by auto
    ultimately show "\<exists>h'. heap_replace_top (side_cmp Compare d m') c h = Some h' \<and> heap_holds d n (set_side_heap d h' m')"
      using holdsI inv(2) by blast
  next
    assume "\<not> w_valid w"
    then have "a \<in> set xs \<longleftrightarrow> a < n \<and> w_valid (children m' ! a)" for a
      using xs [of a] cn by (auto simp: m')
    moreover obtain h' where "heap_pop (side_cmp Compare d m') h = Some h'" "heap_inv (side_cmp Compare d m') h'"
        "mset (heap_data h') = mset xs"
      using heap_order.pop_changed [OF order inv(1) c agree] by auto
    moreover have "distinct xs" using inv(2) by simp
    ultimately show "\<exists>h'. heap_pop (side_cmp Compare d m') h = Some h' \<and> heap_holds d n (set_side_heap d h' m')"
      using holdsI by blast
  }
qed

lemma MR_top:
  assumes "MR d p m" "side_heap d m = Some h"
  shows "current m = (if heap_data h = [] then None else Some (heap_top h))"
proof -
  have "is_current (side_entry d L p) (if heap_data h = [] then None else Some (heap_top h))"
    using side_top [OF _ _ _ assms(2)] assms(1) by (simp add: MR_def)
  moreover have "is_current (side_entry d L p) (current m)" using assms(1) by (simp add: MR_def)
  ultimately show ?thesis
    using owner_unique by (auto simp: is_current_def split: option.splits if_splits)
qed

lemma MR_set_current:
  assumes "MR d p m"
  shows "side_set_current d m = Some m"
proof -
  obtain h where h: "side_heap d m = Some h" using assms by (auto simp: MR_def heap_holds_def)
  have "direction m = d" using assms by (simp add: MR_def)
  then show ?thesis using h MR_top [OF assms h] by (cases m) (simp add: side_set_current_def heap_empty_def)
qed

lemma side_advance_MR:
  assumes MR: "MR d p m" and j: "side_entry d L p < length L"
  shows "\<exists>m'. side_advance V Compare d m = Some m' \<and> MR d (side_next d (side_entry d L p)) m'"
proof -
  define j where "j = side_entry d L p"
  have jL: "j < length L" "p = side_gap d j" using j side_gap_entry [OF j] by (simp_all add: j_def)
  obtain c where c: "current m = Some c" "c < length kvss" "L ! j \<in> set (kvss ! c)"
      "WR (kvss ! c) (children m ! c) (fpos L j (kvss ! c))"
    using MR_current [OF MR j] unfolding j_def by metis
  obtain w where w: "side_step V d (children m ! c) = Some w" "WR (kvss ! c) w (side_pos d L (side_next d j) (kvss ! c))"
    using side_next_owner [OF jL(1) nth_kvss [OF c(2)] c(3) kvs_sorted [OF c(2)] c(4)] by blast
  define m1 where "m1 = m\<lparr>children := (children m)[c := w]\<rparr>"
  have len: "length (children m) = length kvss" using MR by (simp add: MR_def at_positions_def)
  have at: "at_positions (\<lambda>i. side_pos d L (side_next d j) (kvss ! i)) m1"
    unfolding m1_def
  proof (rule at_positions_cong [OF at_positions_move [OF MR_positions [OF MR] c(2) w(2)]])
    fix i assume i: "i < length kvss"
    show "((\<lambda>i. side_pos d L p (kvss ! i))(c := side_pos d L (side_next d j) (kvss ! c))) i = side_pos d L (side_next d j) (kvss ! i)"
    proof (cases "i = c")
      case False
      then have "L ! j \<notin> set (kvss ! i)" using owner_unique [OF i c(2) _ c(3)] by blast
      then show ?thesis using side_next_other [OF jL(1) nth_kvss [OF i]] False unfolding jL(2) by simp
    qed simp
  qed
  have holds: "heap_holds d (length kvss) m" using MR by (simp add: MR_def)
  obtain h where h: "side_heap d m = Some h" using holds by (auto simp: heap_holds_def)
  have "heap_data h \<noteq> []" "heap_top h = c"
    using MR_top [OF MR h] c(1) by (simp_all split: if_splits)
  then obtain xs where xs: "heap_data h = c # xs" by (cases "heap_data h") (simp_all add: heap_top_def)
  note top = heap_holds_top [OF holds h xs m1_def, simplified len, OF order_refl]
  have step: "side_advance V Compare d m = (if w_valid w then do {
        h \<leftarrow> heap_replace_top (side_cmp Compare d m1) c h; side_set_current d (set_side_heap d h m1)
      } else do { h \<leftarrow> heap_pop (side_cmp Compare d m1) h; side_set_current d (set_side_heap d h m1) })"
  proof -
    have h1: "side_heap d m1 = Some h" using h by (cases d) (simp_all add: m1_def)
    have w1: "children m1 ! c = w" using len c(2) by (simp add: m1_def)
    have "considerStatus (vt_status V (w_iter w)) m1 = m1" using WR_ok [OF w(2)] by (simp add: considerStatus_def)
    then show ?thesis
      using MR_set_current [OF MR] c(1,2) len w(1) h1 w1 WR_ok [OF w(2)]
      by (simp add: side_advance_def side_settle_def at_child_def m1_def [symmetric] Let_def)
  qed
  have "\<exists>h'. side_advance V Compare d m = side_set_current d (set_side_heap d h' m1) \<and>
      heap_holds d (length kvss) (set_side_heap d h' m1)"
    using top step by (cases "w_valid w") auto
  then obtain h' where h': "side_advance V Compare d m = side_set_current d (set_side_heap d h' m1)"
      "heap_holds d (length kvss) (set_side_heap d h' m1)"
    by blast
  have "at_positions (\<lambda>i. side_pos d L (side_next d j) (kvss ! i)) (set_side_heap d h' m1)"
    using at by (cases d) (simp_all add: at_positions_def)
  moreover have "side_next d j \<le> length L" using jL(1) by (cases d) simp_all
  moreover have "direction (set_side_heap d h' m1) = d" "ok (m_status (set_side_heap d h' m1))"
    using MR by (cases d; simp add: MR_def m1_def)+
  ultimately show ?thesis using side_set_current_MR h' unfolding j_def by simp
qed

text \<open>The cursor: the iterator is in one of the two kinds of states for its entry.\<close>

definition at_cursor :: "'a MergingIterator \<Rightarrow> nat \<Rightarrow> bool" where
  "at_cursor m j \<longleftrightarrow> (\<exists>d p. MR d p m \<and> side_entry d L p = j)"

lemma MR_switched:
  assumes "MR d0 p m" "side_entry d0 L p < length L"
  shows "\<exists>m'. (if direction m \<noteq> kForward then SwitchToForward V Compare m else Some m) = Some m' \<and>
      MR kForward (side_entry d0 L p) m'"
    "\<exists>m'. (if direction m \<noteq> kReverse then SwitchToBackward V Compare m else Some m) = Some m' \<and>
      MR kReverse (Suc (side_entry d0 L p)) m'"
proof -
  have d0: "direction m = d0" using assms(1) by (simp add: MR_def)
  have p: "MR d0 (side_gap d0 (side_entry d0 L p)) m" using assms side_gap_entry by simp
  show "\<exists>m'. (if direction m \<noteq> kForward then SwitchToForward V Compare m else Some m) = Some m' \<and>
      MR kForward (side_entry d0 L p) m'"
  proof (cases d0)
    case kForward
    then show ?thesis using assms(1) d0 by simp
  next
    case kReverse
    then show ?thesis using side_switch_MR [OF assms, of kForward] d0 by (simp add: switch_side)
  qed
  show "\<exists>m'. (if direction m \<noteq> kReverse then SwitchToBackward V Compare m else Some m) = Some m' \<and>
      MR kReverse (Suc (side_entry d0 L p)) m'"
  proof (cases d0)
    case kForward
    obtain m' where m': "side_switch V Compare kReverse m = Some m'" "MR kReverse (Suc (side_entry d0 L p)) m'"
      using side_switch_MR [OF assms, of kReverse] by auto
    then show ?thesis using kForward d0 MR_set_current [OF m'(2)] by (simp add: switch_side_reverse set_current_side Current_side)
  next
    case kReverse
    then show ?thesis using p d0 by simp
  qed
qed

lemma Merging_Next_cursor:
  assumes "at_cursor m j" "j < length L"
  shows "\<exists>m'. Merging_Next V Compare m = Some m' \<and> at_cursor m' (Suc j)"
proof -
  obtain d p where dp: "MR d p m" "side_entry d L p = j" using assms(1) by (auto simp: at_cursor_def)
  obtain m1 where m1: "(if direction m \<noteq> kForward then SwitchToForward V Compare m else Some m) = Some m1" "MR kForward j m1"
    using MR_switched(1) [OF dp(1)] dp(2) assms(2) by auto
  obtain m2 where "side_advance V Compare kForward m1 = Some m2" "MR kForward (Suc j) m2"
    using side_advance_MR [OF m1(2)] assms(2) by auto
  moreover have "Merging_Valid m" using MR_Valid [OF dp(1)] dp(2) assms(2) by simp
  ultimately have "Merging_Next V Compare m = Some m2" using m1(1) by (simp add: Next_side)
  then show ?thesis using \<open>MR kForward (Suc j) m2\<close> unfolding at_cursor_def by force
qed

lemma Merging_Prev_cursor:
  assumes "at_cursor m j" "j < length L"
  shows "\<exists>m'. Merging_Prev V Compare m = Some m' \<and> at_cursor m' (if j = 0 then length L else j - 1)"
proof -
  obtain d p where dp: "MR d p m" "side_entry d L p = j" using assms(1) by (auto simp: at_cursor_def)
  obtain m1 where m1: "(if direction m \<noteq> kReverse then SwitchToBackward V Compare m else Some m) = Some m1" "MR kReverse (Suc j) m1"
    using MR_switched(2) [OF dp(1)] dp(2) assms(2) by auto
  obtain m2 where "side_advance V Compare kReverse m1 = Some m2" "MR kReverse j m2"
    using side_advance_MR [OF m1(2)] assms(2) by auto
  moreover have "Merging_Valid m" using MR_Valid [OF dp(1)] dp(2) assms(2) by simp
  ultimately have "Merging_Prev V Compare m = Some m2" using m1(1) by (simp add: Prev_side)
  then show ?thesis using \<open>MR kReverse j m2\<close> unfolding at_cursor_def by force
qed

lemma Merging_seek_cursor:
  assumes "at_cursor m j" "\<not> needs_valid op" "p \<le> length L"
    "\<And>kvs j. kvs \<in> set kvss \<Longrightarrow> cursor_step Compare (map fst kvs) j op = side_pos d L p kvs"
  shows "\<exists>m'. side_seek V Compare d op m = Some m' \<and> at_cursor m' (side_entry d L p)"
proof -
  obtain d0 p0 where "MR d0 p0 m" using assms(1) by (auto simp: at_cursor_def)
  then show ?thesis using side_seek_MR [OF MR_positions assms(2-4)] unfolding at_cursor_def by blast
qed

lemma SeekToLast_position: "kvs \<in> set kvss \<Longrightarrow> length kvs - 1 = bpos L (length L) kvs"
  using fpos_all [of kvs] by (simp add: bpos_def)

end

section \<open>Any sequence of calls\<close>

text \<open>A client calls \<^verbatim>\<open>Next\<close> and \<^verbatim>\<open>Prev\<close> only on a valid iterator.\<close>

fun Merging_step ::
  "'i InternalIterator \<Rightarrow> (bytes \<Rightarrow> bytes \<Rightarrow> int) \<Rightarrow> iter_op \<Rightarrow> 'i MergingIterator \<Rightarrow> 'i MergingIterator option" where
  "Merging_step V cmp Op_SeekToFirst m = Merging_SeekToFirst V cmp m"
| "Merging_step V cmp Op_SeekToLast m = Merging_SeekToLast V cmp m"
| "Merging_step V cmp (Op_Seek target) m = Merging_Seek V cmp target m"
| "Merging_step V cmp (Op_SeekForPrev target) m = Merging_SeekForPrev V cmp target m"
| "Merging_step V cmp Op_Next m = (if Merging_Valid m then Merging_Next V cmp m else Some m)"
| "Merging_step V cmp Op_Prev m = (if Merging_Valid m then Merging_Prev V cmp m else Some m)"

fun Merging_run ::
  "'i InternalIterator \<Rightarrow> (bytes \<Rightarrow> bytes \<Rightarrow> int) \<Rightarrow> iter_op list \<Rightarrow> 'i MergingIterator \<Rightarrow> 'i MergingIterator option" where
  "Merging_run V cmp [] m = Some m"
| "Merging_run V cmp (op # ops) m = Merging_step V cmp op m \<bind> Merging_run V cmp ops"

context merging_contract
begin

lemma at_cursor_view:
  assumes "at_cursor m j"
  shows "Merging_Valid m \<longleftrightarrow> j < length L" "Merging_key m = map_option fst (cursor_view L j)"
    "Merging_value V m = map_option snd (cursor_view L j)" "ok (m_status m)"
proof -
  obtain d p where m: "MR d p m" "side_entry d L p = j" using assms by (auto simp: at_cursor_def)
  then show "Merging_Valid m \<longleftrightarrow> j < length L" "Merging_key m = map_option fst (cursor_view L j)"
    "Merging_value V m = map_option snd (cursor_view L j)" "ok (m_status m)"
    using MR_Valid [OF m(1)] MR_view [OF m(1)] m by (simp_all add: MR_def)
qed

lemma Merging_step_cursor:
  assumes m: "at_cursor m j"
  shows "\<exists>m'. Merging_step V Compare op m = Some m' \<and> at_cursor m' (cursor_step Compare (map fst L) j op)"
proof (cases op)
  case Op_SeekToFirst
  then show ?thesis using Merging_seek_cursor [OF m, of op 0 kForward] by (simp add: seek_side)
next
  case Op_SeekToLast
  then show ?thesis using Merging_seek_cursor [OF m, of op "length L" kReverse] SeekToLast_position
    by (auto simp: seek_side split: if_splits)
next
  case (Op_Seek t)
  then show ?thesis using Merging_seek_cursor [OF m, of op "lower_bound Compare t (map fst L)" kForward] lower_bound_fpos lower_le
    by (simp add: seek_side)
next
  case (Op_SeekForPrev t)
  then show ?thesis using Merging_seek_cursor [OF m, of op "upper t" kReverse] upper_bound_bpos upper_le
    by (simp add: seek_side upper_bound_L)
next
  case Op_Next
  then show ?thesis using Merging_Next_cursor [OF m] at_cursor_view(1) [OF m] m by simp
next
  case Op_Prev
  then show ?thesis using Merging_Prev_cursor [OF m] at_cursor_view(1) [OF m] m
    by (cases "j < length L"; cases "j = 0") simp_all
qed

lemma Merging_run_cursor:
  assumes "at_cursor m j"
  shows "\<exists>m'. Merging_run V Compare ops m = Some m' \<and> at_cursor m' (foldl (cursor_step Compare (map fst L)) j ops)"
  using assms
proof (induction ops arbitrary: m j)
  case (Cons op ops)
  obtain m1 where "Merging_step V Compare op m = Some m1" "at_cursor m1 (cursor_step Compare (map fst L) j op)"
    using Merging_step_cursor [OF Cons.prems] by blast
  then show ?case using Cons.IH by fastforce
qed simp

text \<open>A new iterator over children that are not positioned yet.\<close>

lemma MergingIterator_new_cursor:
  assumes "list_all2 (\<lambda>kvs it. R kvs it (length kvs)) kvss its"
  shows "\<exists>m. MergingIterator_new V Compare its prefix_mode = Some m \<and> at_cursor m (length L)"
proof -
  have "\<exists>ws. those (map (Wrapper_Set V) its) = Some ws \<and> list_all2 (\<lambda>kvs w. WR kvs w (length kvs)) kvss ws"
    using assms
  proof (induction rule: list_all2_induct)
    case (Cons kvs kvss it its)
    obtain w where "Wrapper_Set V it = Some w" "WR kvs w (length kvs)"
      using Wrapper_Update_WR [of kvs "\<lparr>w_iter = it, w_valid = False, w_key = [], w_may_be_out_of_upper_bound = False\<rparr>"] Cons(1)
      by (auto simp: Wrapper_Set_def)
    then show ?case using Cons by auto
  qed simp
  then obtain ws where ws: "those (map (Wrapper_Set V) its) = Some ws" "list_all2 (\<lambda>kvs w. WR kvs w (length kvs)) kvss ws" by blast
  then have len: "length ws = length kvss" by (simp add: list_all2_lengthD)
  let ?m = "\<lparr>children = ws, current = None, m_status = Status_OK, direction = kForward,
              minHeap = BinaryHeap_new, maxHeap = None, prefix_seek_mode = prefix_mode\<rparr>"
  let ?f = "\<lambda>i. fpos L (length L) (kvss ! i)"
  have "at_positions ?f ?m"
    using ws(2) len fpos_all by (simp add: at_positions_def list_all2_conv_all_nth)
  then have inv: "loop_inv kForward ?f ?f None kForward 0 ?m" by (intro loop_inv_start) (simp_all add: ok_def Status_OK_def)
  have move: "\<exists>w. Some m = Some (m\<lparr>children := (children m)[i := w]\<rparr>) \<and> WR (kvss ! i) w (?f i)"
    if "WR (kvss ! i) (children m ! i) (?f i)" for i m
    using that by (intro exI [of _ "children m ! i"]) simp
  have "\<exists>m'. for_children (\<lambda>i m. Some m \<bind> side_add V Compare kForward i) [0..<length kvss] ?m = Some m' \<and>
      loop_inv kForward ?f ?f None kForward (length kvss) m'"
    by (rule children_loop [OF _ inv]) (rule move, assumption+, simp)
  then obtain m' where m': "for_children (side_add V Compare kForward) [0..<length kvss] ?m = Some m'"
      "loop_inv kForward ?f ?f None kForward (length kvss) m'" by auto
  have new: "MergingIterator_new V Compare its prefix_mode = set_current_forward m'"
    using ws(1) m'(1) len by (simp add: MergingIterator_new_def AddTo_side Let_def)
  then show ?thesis
    using side_set_current_MR [of kForward "length L" m'] loop_inv_end [OF m'(2)]
    by (force simp: set_current_side at_cursor_def)
qed

end

end
