(* ===== verification/Merge_Properties.thy ===== *)
theory Merge_Properties
  imports Merge_Refinement
begin

text \<open>
  The merging iterator over data block iterators, and its handling of errors for any children.
\<close>

section \<open>Data block iterators as children\<close>

text \<open>The virtual functions of a data block iterator; the two bound checks are the defaults of
  \<^verbatim>\<open>table/internal_iterator.h\<close>.\<close>

definition data_iter_vtable :: "'k dbformat \<Rightarrow> (bytes \<Rightarrow> bytes \<Rightarrow> int) \<Rightarrow> 'k DataBlockIter InternalIterator" where
  "data_iter_vtable F cmp =
     \<lparr>vt_Valid = it_Valid, vt_key = (\<lambda>it. ik_GetKey F (it_key it)), vt_value = it_value_bytes, vt_status = it_status,
      vt_MayBeOutOfLowerBound = (\<lambda>it. True), vt_MayBeOutOfUpperBound = (\<lambda>it. True), vt_move = iter_step F cmp\<rparr>"

definition data_iter_at :: "'k dbformat \<Rightarrow> (bytes \<times> bytes) list \<Rightarrow> 'k DataBlockIter \<Rightarrow> nat \<Rightarrow> bool" where
  "data_iter_at F kvs it j \<longleftrightarrow> (\<exists>data es rs. map (\<lambda>e. (e_key e, e_value e)) es = kvs \<and> it_rel F data es rs it j)"

lemma data_iter_is_cursor:
  assumes "key_comparator cmp"
  shows "cursor_iterator cmp (data_iter_vtable F cmp) (data_iter_at F)"
proof (intro cursor_iterator.intro [OF assms] cursor_iterator_axioms.intro)
  fix kvs it j
  assume "data_iter_at F kvs it j"
  then obtain data es rs where es: "kvs = map (\<lambda>e. (e_key e, e_value e)) es" "it_rel F data es rs it j"
    by (auto simp: data_iter_at_def)
  show "vt_Valid (data_iter_vtable F cmp) it \<longleftrightarrow> j < length kvs"
    using it_rel_Valid [OF es(2)] es(1) by (simp add: data_iter_vtable_def)
  show "ok (vt_status (data_iter_vtable F cmp) it)"
    using it_relD(3) [OF es(2)] by (simp add: data_iter_vtable_def ok_def Status_OK_def)
  {
    assume "j < length kvs"
    then show "vt_key (data_iter_vtable F cmp) it = fst (kvs ! j)" "vt_value (data_iter_vtable F cmp) it = snd (kvs ! j)"
      using it_rel_key(1) [OF es(2)] it_rel_value [OF es(2)] es(1) by (simp_all add: data_iter_vtable_def)
  next
    fix op
    assume "keys_sorted cmp (map fst kvs)"
    then have "keys_sorted cmp (map e_key es)" using es(1) by (simp add: comp_def)
    then obtain it' where "iter_step F cmp op it = Some it'" "it_rel F data es rs it' (cursor_step cmp (map e_key es) j op)"
      using iter_step_it_rel [OF es(2) assms] by blast
    moreover have "map fst kvs = map e_key es" using es(1) by (simp add: comp_def)
    moreover have "vt_move (data_iter_vtable F cmp) op it = iter_step F cmp op it" by (simp add: data_iter_vtable_def)
    ultimately show "\<exists>it'. vt_move (data_iter_vtable F cmp) op it = Some it' \<and> data_iter_at F kvs it' (cursor_step cmp (map fst kvs) j op)"
      using es(1) unfolding data_iter_at_def by (intro exI [of _ it'] conjI exI [of _ data] exI [of _ es] exI [of _ rs]) (simp_all add: comp_def)
  }
qed

interpretation data_block_cursor: cursor_iterator BytewiseCompare "data_iter_vtable F BytewiseCompare" "data_iter_at F" for F
  by (rule data_iter_is_cursor [OF bytewise.key_comparator_axioms])

text \<open>A new iterator over a block that the block builder wrote.\<close>

definition block_child ::
  "'k dbformat \<Rightarrow> 'd double_ops \<Rightarrow> (bytes \<Rightarrow> bytes) \<Rightarrow> (bytes \<times> bytes) list \<Rightarrow> 'k DataBlockIter \<Rightarrow> bool" where
  "block_child F D U kvs it \<longleftrightarrow> (\<exists>interval use_delta index_type ratio b0 b.
     BlockBuilder_new D interval use_delta False index_type ratio = Some b0 \<and> BlockBuilder_Adds D U kvs b0 = Some b \<and>
     length (fst (BlockBuilder_Finish D b)) < 2 ^ 32 \<and>
     it = Block_NewDataIterator F (kDisableGlobalSequenceNumber F) (Block_new (fst (BlockBuilder_Finish D b))))"

lemma block_child_at:
  assumes "IterKey_contract F" "block_child F D U kvs it"
  shows "data_iter_at F kvs it (length kvs)"
proof -
  obtain interval use_delta index_type ratio b0 b where b:
      "BlockBuilder_new D interval use_delta False index_type ratio = Some b0" "BlockBuilder_Adds D U kvs b0 = Some b"
      "length (fst (BlockBuilder_Finish D b)) < 2 ^ 32"
    and it: "it = Block_NewDataIterator F (kDisableGlobalSequenceNumber F) (Block_new (fst (BlockBuilder_Finish D b)))"
    using assms(2) unfolding block_child_def by blast
  obtain es rs where es: "map (\<lambda>e. (e_key e, e_value e)) es = kvs"
      "it_rel F (fst (BlockBuilder_Finish D b)) es rs it (length es)"
    unfolding it using built_block_it_rel [OF assms(1) b] by blast
  have "length es = length kvs" using arg_cong [OF es(1), of length] by simp
  then show ?thesis unfolding data_iter_at_def using es by auto
qed

section \<open>Errors of the children\<close>

text \<open>While the status is OK, the first \<open>k\<close> children have reported no error.\<close>

definition errors_seen :: "'i InternalIterator \<Rightarrow> nat \<Rightarrow> 'i MergingIterator \<Rightarrow> bool" where
  "errors_seen V k m \<longleftrightarrow> (ok (m_status m) \<longrightarrow> (\<forall>i < k. i < length (children m) \<longrightarrow> ok (vt_status V (w_iter (children m ! i)))))"

lemma set_side_heap_keeps [simp]:
  "children (set_side_heap d h m) = children m" "m_status (set_side_heap d h m) = m_status m"
  by (cases d; simp)+

lemma considerStatus_ok: "ok (m_status (considerStatus s m)) \<longleftrightarrow> ok s \<and> ok (m_status m)"
  by (simp add: considerStatus_def)

lemma errors_seen_cong:
  "children m' = children m \<Longrightarrow> m_status m' = m_status m \<Longrightarrow> errors_seen V k m' = errors_seen V k m"
  by (simp add: errors_seen_def)

lemma side_add_errors:
  assumes "side_add V cmp d i m = Some m'" "errors_seen V i m"
  shows "errors_seen V (Suc i) m'" "children m' = children m"
  using assms
  by (auto simp: side_add_def errors_seen_def less_Suc_eq considerStatus_ok Let_def assert_def split: if_splits bind_splits)

definition moves_child :: "(nat \<Rightarrow> 'i MergingIterator \<Rightarrow> 'i MergingIterator option) \<Rightarrow> bool" where
  "moves_child g \<longleftrightarrow> (\<forall>i m m'. g i m = Some m' \<longrightarrow> (\<exists>w. children m' = (children m)[i := w]) \<and> m_status m' = m_status m)"

lemma at_child_moves: "moves_child (at_child f)"
  by (auto simp: moves_child_def at_child_def split: bind_splits)

lemma side_skip_moves_child: "moves_child (side_skip V cmp d target)"
proof -
  have "\<exists>w. children m = (children m)[i := w]" for i and m :: "'a MergingIterator" by (metis list_update_id)
  then show ?thesis
    by (auto simp: moves_child_def side_skip_def at_child_def assert_def split: bind_splits if_splits)
qed

lemma children_loop_errors:
  assumes "for_children (\<lambda>i m. g i m \<bind> side_add V cmp d i) [k..<n] m = Some m'" "moves_child g" "errors_seen V k m" "k \<le> n"
    "length (children m) = n"
  shows "errors_seen V n m' \<and> length (children m') = n"
  using assms
proof (induction "n - k" arbitrary: k m)
  case (Suc l)
  then have k: "k < n" by simp
  then obtain m1 m2 where m1: "g k m = Some m1" "side_add V cmp d k m1 = Some m2"
      "for_children (\<lambda>i m. g i m \<bind> side_add V cmp d i) [Suc k..<n] m2 = Some m'"
    using Suc.prems(1) by (auto simp: upt_conv_Cons split: bind_splits)
  obtain w where "children m1 = (children m)[k := w]" "m_status m1 = m_status m"
    using m1(1) Suc.prems(2) unfolding moves_child_def by blast
  then have "errors_seen V k m1" "length (children m1) = n" using Suc.prems(3,5) by (auto simp: errors_seen_def)
  then show ?case using Suc.hyps(1) [OF _ m1(3) Suc.prems(2)] side_add_errors [OF m1(2)] Suc.hyps(2) k by simp
qed simp

lemma side_ready_same [simp]: "children (side_ready d m) = children m" "m_status (side_ready d m) = m_status m"
  by (cases d; simp add: ClearHeaps_def InitMaxHeap_def)+

lemma side_set_current_errors:
  assumes "side_set_current d m = Some m'"
  shows "errors_seen V k m' = errors_seen V k m" "length (children m') = length (children m)"
  using assms by (auto simp: side_set_current_def errors_seen_def split: bind_splits)

definition all_errors_seen :: "'i InternalIterator \<Rightarrow> 'i MergingIterator \<Rightarrow> bool" where
  "all_errors_seen V m \<longleftrightarrow> errors_seen V (length (children m)) m"

lemma side_seek_errors:
  assumes "side_seek V cmp d op m = Some m'"
  shows "all_errors_seen V m'"
proof -
  let ?m = "(side_ready d m)\<lparr>m_status := Status_OK\<rparr>"
  obtain m1 where m1: "for_children (\<lambda>i m. at_child (Wrapper_move V op) i m \<bind> side_add V cmp d i) [0..<length (children m)] ?m = Some m1"
      "side_set_current d (m1\<lparr>direction := d\<rparr>) = Some m'"
    using assms by (auto simp: side_seek_def Let_def split: bind_splits)
  have "errors_seen V (length (children m)) m1 \<and> length (children m1) = length (children m)"
    by (rule children_loop_errors [OF m1(1) at_child_moves]) (simp_all add: errors_seen_def)
  then show ?thesis
    using side_set_current_errors(1) [OF m1(2), of V "length (children m)"] side_set_current_errors(2) [OF m1(2)] errors_seen_cong [of "m1\<lparr>direction := d\<rparr>" m1 V]
    by (simp add: all_errors_seen_def)
qed

lemma side_switch_errors:
  assumes "side_switch V cmp d m = Some m'"
  shows "all_errors_seen V m'"
proof -
  obtain target m1 where m1: "for_children (\<lambda>i m. side_skip V cmp d target i m \<bind> side_add V cmp d i) [0..<length (children m)] (side_ready d m) = Some m1"
      "m' = m1\<lparr>direction := d\<rparr>"
    using assms by (auto simp: side_switch_def Let_def split: bind_splits)
  have "errors_seen V (length (children m)) m1 \<and> length (children m1) = length (children m)"
    by (rule children_loop_errors [OF m1(1) side_skip_moves_child]) (simp_all add: errors_seen_def)
  then show ?thesis by (simp add: all_errors_seen_def errors_seen_def m1(2))
qed

lemma side_settle_errors:
  assumes "side_settle V cmp d c m = Some m'"
  shows "children m' = children m" "ok (m_status m') \<longrightarrow> ok (m_status m) \<and> ok (vt_status V (w_iter (children m ! c)))"
  using assms
  by (auto simp: side_settle_def assert_def Let_def considerStatus_ok split: bind_splits if_splits)

lemma side_advance_errors:
  assumes "side_advance V cmp d m = Some m'" "all_errors_seen V m"
  shows "all_errors_seen V m'"
proof -
  obtain c m1 m2 where m: "at_child (side_step V d) c m = Some m1" "side_settle V cmp d c m1 = Some m2"
      "side_set_current d m2 = Some m'"
    using assms(1) by (auto simp: side_advance_def split: bind_splits)
  obtain w where w: "children m1 = (children m)[c := w]" "m_status m1 = m_status m"
    using at_child_moves m(1) unfolding moves_child_def by blast
  have "errors_seen V (length (children m2)) m2"
    using assms(2) w side_settle_errors [OF m(2)]
    by (auto simp: all_errors_seen_def errors_seen_def) (metis nth_list_update_neq)
  then show ?thesis using side_set_current_errors [OF m(3)] by (simp add: all_errors_seen_def)
qed

lemma Merging_step_errors:
  assumes "Merging_step V cmp op m = Some m'" "all_errors_seen V m"
  shows "all_errors_seen V m'"
proof (cases "op = Op_Next \<or> op = Op_Prev")
  case False
  then show ?thesis using assms(1) side_seek_errors by (cases op) (auto simp: seek_side)
next
  case True
  have set_cur: "all_errors_seen V m2" if "set_current_reverse m1 = Some m2" "all_errors_seen V m1" for m1 m2
    using that side_set_current_errors unfolding set_current_side all_errors_seen_def by metis
  have bwd: "all_errors_seen V m1" if sw: "SwitchToBackward V cmp m = Some m1" for m1
  proof -
    obtain x where x: "side_switch V cmp kReverse m = Some x" "m1 = x \<or> set_current_reverse x = Some m1"
      using sw unfolding switch_side_reverse by (auto simp: assert_def split: bind_splits if_splits)
    then show ?thesis using side_switch_errors [OF x(1)] set_cur by blast
  qed
  have fwd: "all_errors_seen V m1" if "SwitchToForward V cmp m = Some m1" for m1
    using that side_switch_errors unfolding switch_side by blast
  from True show ?thesis
  proof
    assume "op = Op_Next"
    then show ?thesis using assms fwd side_advance_errors
      by (auto simp: Next_side assert_def split: bind_splits if_splits)
  next
    assume "op = Op_Prev"
    then show ?thesis using assms bwd side_advance_errors
      by (auto simp: Prev_side assert_def split: bind_splits if_splits)
  qed
qed

lemma Merging_run_errors:
  "Merging_run V cmp ops m = Some m' \<Longrightarrow> all_errors_seen V m \<Longrightarrow> all_errors_seen V m'"
  by (induction ops arbitrary: m) (auto split: bind_splits dest: Merging_step_errors)

lemma MergingIterator_new_errors:
  assumes "MergingIterator_new V cmp its prefix_mode = Some m"
  shows "all_errors_seen V m"
proof -
  obtain ws m1 where "for_children (side_add V cmp kForward) [0..<length ws]
        \<lparr>children = ws, current = None, m_status = Status_OK, direction = kForward,
         minHeap = BinaryHeap_new, maxHeap = None, prefix_seek_mode = prefix_mode\<rparr> = Some m1"
    and cur: "side_set_current kForward m1 = Some m"
    using assms by (auto simp: MergingIterator_new_def AddTo_side set_current_side Let_def split: bind_splits)
  then have loop: "for_children (\<lambda>i m. Some m \<bind> side_add V cmp kForward i) [0..<length ws]
        \<lparr>children = ws, current = None, m_status = Status_OK, direction = kForward,
         minHeap = BinaryHeap_new, maxHeap = None, prefix_seek_mode = prefix_mode\<rparr> = Some m1"
    by simp
  have "moves_child (\<lambda>i m. Some m)" by (simp add: moves_child_def) (metis list_update_id)
  then have "errors_seen V (length ws) m1 \<and> length (children m1) = length ws"
    using children_loop_errors [OF loop] by (simp add: errors_seen_def)
  then show ?thesis using side_set_current_errors [OF cur] by (simp add: all_errors_seen_def)
qed

section \<open>Two blocks\<close>

definition example_entries_2 :: "(bytes \<times> bytes) list" where
  "example_entries_2 = [([97, 97], [9])]"

definition example_merged :: "(bytes \<times> bytes) list" where
  "example_merged = [([97], [1]), ([97, 97], [9]), ([97, 98], [2, 2]), ([97, 99], [3])]"

definition example_block_2 :: bytes where
  "example_block_2 = [0, 2, 1, 97, 97, 9, 0, 0, 0, 0, 1, 0, 0, 0]"

definition example_children :: "bytes DataBlockIter list" where
  "example_children = map (\<lambda>data. Block_NewDataIterator plain_dbformat (kDisableGlobalSequenceNumber plain_dbformat) (Block_new data))
     [example_block, example_block_2]"

lemma example_block_2_built:
  "\<exists>b. BlockBuilder_Adds int_double id example_entries_2 example_builder = Some b \<and>
       fst (BlockBuilder_Finish int_double b) = example_block_2"
proof -
  have "map_option (\<lambda>b. fst (BlockBuilder_Finish int_double b))
      (BlockBuilder_Adds int_double id example_entries_2 example_builder) = Some example_block_2"
    by code_simp
  then show ?thesis by auto
qed

lemma block_childI:
  assumes "BlockBuilder_Adds int_double id kvs example_builder = Some b" "fst (BlockBuilder_Finish int_double b) = data"
    "length data < 2 ^ 32"
  shows "block_child plain_dbformat int_double id kvs
     (Block_NewDataIterator plain_dbformat (kDisableGlobalSequenceNumber plain_dbformat) (Block_new data))"
  unfolding block_child_def using example_builder_new assms by blast

lemma example_children_built:
  "list_all2 (block_child plain_dbformat int_double id) [example_entries, example_entries_2] example_children"
proof -
  have len: "length example_block < 2 ^ 32" "length example_block_2 < 2 ^ 32"
    by (simp_all add: example_block_def example_block_2_def)
  obtain b b2 where "BlockBuilder_Adds int_double id example_entries example_builder = Some b"
      "fst (BlockBuilder_Finish int_double b) = example_block"
      "BlockBuilder_Adds int_double id example_entries_2 example_builder = Some b2"
      "fst (BlockBuilder_Finish int_double b2) = example_block_2"
    using example_block_built example_block_2_built by blast
  then show ?thesis using block_childI [OF _ _ len(1)] block_childI [OF _ _ len(2)] by (simp add: example_children_def)
qed

lemma example_merges: "merges BytewiseCompare [example_entries, example_entries_2] example_merged"
proof -
  have "keys_sorted BytewiseCompare (map fst example_merged)"
    using sorted_wrt_iff_nth_less [of "\<lambda>a b. BytewiseCompare a b < 0" "map fst example_merged"]
    by (simp add: keys_sorted_def example_merged_def BytewiseCompare_def Slice_compare_iffs)
  moreover have "keys_sorted BytewiseCompare (map fst example_entries_2)"
    by (simp add: keys_sorted_def example_entries_2_def)
  ultimately show ?thesis using example_keys_sorted
    by (simp add: merges_def example_merged_def example_entries_def example_entries_2_def)
qed

interpretation example_merging: merging_contract BytewiseCompare "data_iter_vtable plain_dbformat BytewiseCompare"
  "data_iter_at plain_dbformat" "[example_entries, example_entries_2]" example_merged
  by unfold_locales (simp_all add: example_merges kMaxSizet_def)

lemma example_merging_runs:
  "\<exists>m0 m. MergingIterator_new (data_iter_vtable plain_dbformat BytewiseCompare) BytewiseCompare example_children False = Some m0 \<and>
     Merging_run (data_iter_vtable plain_dbformat BytewiseCompare) BytewiseCompare [Op_SeekToLast, Op_Prev] m0 = Some m \<and>
     Merging_Valid m"
proof -
  have "list_all2 (\<lambda>kvs it. data_iter_at plain_dbformat kvs it (length kvs)) [example_entries, example_entries_2] example_children"
    using example_children_built block_child_at [OF plain_dbformat_contract] by (rule list_all2_mono)
  then obtain m0 where m0: "MergingIterator_new (data_iter_vtable plain_dbformat BytewiseCompare) BytewiseCompare example_children False = Some m0"
      "example_merging.at_cursor m0 (length example_merged)"
    using example_merging.MergingIterator_new_cursor by blast
  have "foldl (cursor_step BytewiseCompare (map fst example_merged)) (length example_merged) [Op_SeekToLast, Op_Prev] = 2"
    by (simp add: example_merged_def)
  then obtain m where m: "Merging_run (data_iter_vtable plain_dbformat BytewiseCompare) BytewiseCompare [Op_SeekToLast, Op_Prev] m0 = Some m"
      "example_merging.at_cursor m 2"
    using example_merging.Merging_run_cursor [OF m0(2), of "[Op_SeekToLast, Op_Prev]"] by metis
  then show ?thesis using m0(1) example_merging.at_cursor_view(1) [OF m(2)] by (auto simp: example_merged_def)
qed

section \<open>Properties\<close>

text \<open>C4: The merging iterator is a faithful cursor over the union of its children.  Take new iterators over any
  number of data blocks, each built from keys in increasing order and below 4 GiB, no key twice, and merge them: after any
  sequence of \<^verbatim>\<open>SeekToFirst\<close>, \<^verbatim>\<open>SeekToLast\<close>, \<^verbatim>\<open>Seek\<close>, \<^verbatim>\<open>SeekForPrev\<close>, \<^verbatim>\<open>Next\<close> and
  \<^verbatim>\<open>Prev\<close>, with every change of direction, no assertion fails, every call returns, and the iterator is valid exactly
  when the cursor over the sorted list of all entries is at an entry, with its key and value.\<close>

theorem merging_iterator_refines_cursor:
  assumes "IterKey_contract F" and "key_comparator cmp" and "list_all2 (block_child F D U) kvss its"
    and "merges cmp kvss L" and "length kvss + 1 < kMaxSizet"
  shows "\<exists>m0 m. MergingIterator_new (data_iter_vtable F cmp) cmp its prefix_mode = Some m0 \<and>
     Merging_run (data_iter_vtable F cmp) cmp ops m0 = Some m \<and>
     (Merging_Valid m \<longleftrightarrow> cursor_run cmp (map fst L) ops < length L) \<and>
     Merging_key m = map_option fst (cursor_view L (cursor_run cmp (map fst L) ops)) \<and>
     Merging_value (data_iter_vtable F cmp) m = map_option snd (cursor_view L (cursor_run cmp (map fst L) ops)) \<and>
     ok (m_status m)"
proof -
  have contract: "merging_contract cmp (data_iter_vtable F cmp) (data_iter_at F) kvss L"
    using data_iter_is_cursor [OF assms(2)] assms(2,4,5)
    by (simp add: merging_contract_def merged_lists_def merged_lists_axioms_def merging_contract_axioms_def)
  have its: "list_all2 (\<lambda>kvs it. data_iter_at F kvs it (length kvs)) kvss its"
    using assms(3) block_child_at [OF assms(1)] by (rule list_all2_mono)
  obtain m0 where m0: "MergingIterator_new (data_iter_vtable F cmp) cmp its prefix_mode = Some m0"
      "merging_contract.at_cursor cmp (data_iter_at F) kvss L m0 (length L)"
    using merging_contract.MergingIterator_new_cursor [OF contract its] by blast
  obtain m where m: "Merging_run (data_iter_vtable F cmp) cmp ops m0 = Some m"
      "merging_contract.at_cursor cmp (data_iter_at F) kvss L m (cursor_run cmp (map fst L) ops)"
    using merging_contract.Merging_run_cursor [OF contract m0(2)] unfolding cursor_run_def by auto
  show ?thesis using m0(1) m(1) merging_contract.at_cursor_view [OF contract m(2)] by blast
qed

theorem merging_iterator_refines_cursor_witness:
  "\<exists>m0 m. MergingIterator_new (data_iter_vtable plain_dbformat BytewiseCompare) BytewiseCompare example_children False = Some m0 \<and>
     Merging_run (data_iter_vtable plain_dbformat BytewiseCompare) BytewiseCompare
       [Op_Seek [97, 97], Op_Prev, Op_Next, Op_Next] m0 = Some m \<and>
     Merging_key m = Some [97, 98] \<and> Merging_value (data_iter_vtable plain_dbformat BytewiseCompare) m = Some [2, 2]"
proof -
  let ?ops = "[Op_Seek [97, 97], Op_Prev, Op_Next, Op_Next]"
  have "cursor_view example_merged (cursor_run BytewiseCompare (map fst example_merged) ?ops) = Some ([97, 98], [2, 2])"
    by (simp add: cursor_view_def cursor_run_def example_merged_def lower_bound_def BytewiseCompare_def Slice_compare_iffs)
  moreover have "length [example_entries, example_entries_2] + 1 < kMaxSizet" by (simp add: kMaxSizet_def)
  ultimately show ?thesis
    using merging_iterator_refines_cursor [OF plain_dbformat_contract bytewise.key_comparator_axioms example_children_built
        example_merges, of False ?ops] by auto
qed



end
