(* ===== verification/Random_Lcg.thy ===== *)
theory Random_Lcg
  imports Rocks_Prelude "HOL-Library.Monad_Syntax"
begin

text \<open>
  The generator \<^verbatim>\<open>Random\<close> of \<^verbatim>\<open>util/random.h\<close>: multiplication by 16807 modulo the prime \<open>2 ^ 31 - 1\<close>, with the
  remainder computed by shifts.  None is a division by zero or a shift that is undefined.
\<close>

section \<open>Definitions\<close>

definition Random_M :: u32 where
  "Random_M = 2147483647"

definition Random_A :: u64 where
  "Random_A = 16807"

record Random =
  rnd_seed :: u32

definition GoodSeed :: "u32 \<Rightarrow> u32" where
  "GoodSeed s = (if s AND Random_M \<noteq> 0 then s AND Random_M else 1)"

definition Random_new :: "u32 \<Rightarrow> Random" where
  "Random_new s = \<lparr>rnd_seed = GoodSeed s\<rparr>"

definition Random_Reset :: "u32 \<Rightarrow> Random \<Rightarrow> Random" where
  "Random_Reset s r = r\<lparr>rnd_seed := GoodSeed s\<rparr>"

definition kMaxNext :: u32 where
  "kMaxNext = Random_M"

definition Random_Next :: "Random \<Rightarrow> u32 \<times> Random" where
  "Random_Next r =
     (let product = ucast (rnd_seed r) * Random_A;
          seed = ucast (drop_bit 31 product + (product AND ucast Random_M)) :: u32;
          seed = (if seed > Random_M then seed - Random_M else seed)
      in (seed, r\<lparr>rnd_seed := seed\<rparr>))"

definition Uniform :: "int \<Rightarrow> Random \<Rightarrow> (u32 \<times> Random) option" where
  "Uniform n r =
     (let (x, r) = Random_Next r
      in if (word_of_int n :: u32) = 0 then None else Some (x mod word_of_int n, r))"

definition OneIn :: "int \<Rightarrow> Random \<Rightarrow> (bool \<times> Random) option" where
  "OneIn n r = do { (x, r) \<leftarrow> Uniform n r; Some (x = 0, r) }"

definition OneInOpt :: "int \<Rightarrow> Random \<Rightarrow> (bool \<times> Random) option" where
  "OneInOpt n r = (if n > 0 then OneIn n r else Some (False, r))"

definition PercentTrue :: "int \<Rightarrow> Random \<Rightarrow> (bool \<times> Random) option" where
  "PercentTrue percentage r = do { (x, r) \<leftarrow> Uniform 100 r; Some (sint x < percentage, r) }"

definition Skewed :: "int \<Rightarrow> Random \<Rightarrow> (u32 \<times> Random) option" where
  "Skewed max_log r = do {
     (base, r) \<leftarrow> Uniform (max_log + 1) r;
     assert (base < 31);
     Uniform (2 ^ unat base) r
   }"

section \<open>The step of the generator\<close>

lemma coprime_A_M: "coprime (16807 :: nat) 2147483647"
  by (simp add: coprime_iff_gcd_eq_1 gcd_non_0_nat)

text \<open>A reduction of the product: the quotient by \<open>2 ^ 31\<close> plus the remainder, less the modulus when that is too large.\<close>

lemma fold_remainder:
  fixes p :: nat
  assumes "0 < p mod 2147483647" "p < 2 ^ 31 * 16807"
  shows "(let s = p div 2 ^ 31 + p mod 2 ^ 31 in if s > 2147483647 then s - 2147483647 else s) = p mod 2147483647"
proof -
  define q r where "q = p div 2 ^ 31" and "r = p mod 2 ^ 31"
  have p: "p = 2147483647 * q + (q + r)" unfolding q_def r_def using div_mult_mod_eq [of p "2 ^ 31"] by simp
  have q: "q < 16807" unfolding q_def using assms(2) by (simp add: less_mult_imp_div_less mult.commute)
  have r: "r < 2 ^ 31" by (simp add: r_def)
  have m: "p mod 2147483647 = (q + r) mod 2147483647" unfolding p by (rule mod_mult_self4)
  then have ne: "q + r \<noteq> 2147483647" using assms(1) by auto
  show ?thesis
  proof (cases "q + r > 2147483647")
    case True
    then have "(q + r) mod 2147483647 = q + r - 2147483647" using q r by (simp add: mod_if)
    then show ?thesis using True m by (simp add: q_def r_def)
  next
    case False
    then show ?thesis using ne m by (simp add: q_def r_def)
  qed
qed

lemma product_mod_pos:
  fixes s :: nat
  assumes "0 < s" "s < 2147483647"
  shows "0 < s * 16807 mod 2147483647"
proof (rule ccontr)
  assume "\<not> ?thesis"
  then have "2147483647 dvd s * 16807" by (simp add: mod_eq_0_iff_dvd)
  then have "2147483647 dvd s" using coprime_A_M by (simp add: coprime_dvd_mult_left_iff coprime_commute)
  then show False using assms by (auto dest: dvd_imp_le)
qed

lemma Random_Next_value:
  assumes "0 < unat (rnd_seed r)" "unat (rnd_seed r) < 2147483647"
  shows "unat (fst (Random_Next r)) = unat (rnd_seed r) * 16807 mod 2147483647"
proof -
  define s where "s = unat (rnd_seed r)"
  define p where "p = (ucast (rnd_seed r) :: u64) * Random_A"
  define q :: u32 where "q = ucast (drop_bit 31 p + (p AND ucast Random_M))"
  have s: "0 < s" "s < 2147483647" using assms by (simp_all add: s_def)
  have us: "unat (ucast (rnd_seed r) :: u64) = s" 
    using s(2) unfolding s_def by (simp add: unsigned_ucast_eq take_bit_nat_eq_self)
  have A: "unat Random_A = 16807" by (simp add: Random_A_def)
  have up: "unat p = s * 16807" unfolding p_def using unat_mult_no_overflow [of "ucast (rnd_seed r) :: u64" Random_A] us A s(2) by simp
  have m: "p AND ucast Random_M = take_bit 31 p"
    by (simp add: Random_M_def take_bit_eq_mask mask_eq_exp_minus_1)
  have sum: "unat (drop_bit 31 p + take_bit 31 p) = s * 16807 div 2 ^ 31 + s * 16807 mod 2 ^ 31"
  proof (subst unat_add_no_overflow)
    have "s * 16807 div 2 ^ 31 < 2 ^ 62" "s * 16807 mod 2 ^ 31 < 2 ^ 31" using s(2) by simp_all
    then show "unat (drop_bit 31 p) + unat (take_bit 31 p) < 2 ^ LENGTH(64)" unfolding unat_drop_bit_div unat_take_bit_mod up by simp
    show "unat (drop_bit 31 p) + unat (take_bit 31 p) = s * 16807 div 2 ^ 31 + s * 16807 mod 2 ^ 31"
      unfolding unat_drop_bit_div unat_take_bit_mod up ..
  qed
  define t where "t = s * 16807 div 2 ^ 31 + s * 16807 mod 2 ^ 31"
  have "s * 16807 div 2 ^ 31 < 16807" using s(2) by simp
  then have t: "t < 2 ^ 32" unfolding t_def using mod_less_divisor [of "2 ^ 31" "s * 16807"] by simp
  then have uq: "unat q = t" unfolding q_def m using sum by (simp add: unsigned_ucast_eq t_def take_bit_nat_eq_self)
  have M: "unat Random_M = 2147483647" by (simp add: Random_M_def)
  have "unat (if q > Random_M then q - Random_M else q) = (if t > 2147483647 then t - 2147483647 else t)"
    using uq M by (simp add: word_less_nat_alt unat_sub word_le_nat_alt)
  also have "\<dots> = s * 16807 mod 2147483647"
    using fold_remainder [of "s * 16807"] product_mod_pos [OF s] s(2) unfolding t_def Let_def by simp
  finally show ?thesis unfolding Random_Next_def Let_def p_def [symmetric] q_def [symmetric] s_def by simp
qed

lemma Random_Next_seed: "rnd_seed (snd (Random_Next r)) = fst (Random_Next r)"
  by (simp add: Random_Next_def Let_def)

lemma lcg_inj:
  assumes "s \<in> {1..<2147483647 :: nat}" "t \<in> {1..<2147483647}" "s * 16807 mod 2147483647 = t * 16807 mod 2147483647"
  shows "s = t"
proof -
  have "s = t" if "s \<le> t" "s \<in> {1..<2147483647 :: nat}" "t \<in> {1..<2147483647}"
      "s * 16807 mod 2147483647 = t * 16807 mod 2147483647" for s t
  proof -
    have "2147483647 dvd t * 16807 - s * 16807" using that(1,4) mod_eq_dvd_iff_nat [of "s * 16807" "t * 16807" 2147483647] by simp
    then have "2147483647 dvd (t - s) * 16807" by (simp add: diff_mult_distrib)
    then have "2147483647 dvd t - s" using coprime_A_M by (simp add: coprime_dvd_mult_left_iff coprime_commute)
    then show ?thesis using that by (auto dest: dvd_imp_le)
  qed
  from this [of s t] this [of t s] show ?thesis using assms by linarith
qed

section \<open>Properties\<close>

text \<open>C35: \<^verbatim>\<open>Random::Next\<close> computes the remainder of the product by \<open>2 ^ 31 - 1\<close> without a division, and it permutes the good
  seeds \<open>1 .. 2 ^ 31 - 2\<close>: it never reaches the two seeds from which it cannot leave.\<close>

theorem random_next_permutes_seeds:
  "bij_betw (\<lambda>s. unat (fst (Random_Next \<lparr>rnd_seed = of_nat s\<rparr>))) {1..<2147483647} {1..<2147483647} \<and>
   (\<forall>s \<in> {1..<2147483647}. unat (fst (Random_Next \<lparr>rnd_seed = of_nat s\<rparr>)) = s * 16807 mod 2147483647)"
proof -
  let ?f = "\<lambda>s. unat (fst (Random_Next \<lparr>rnd_seed = of_nat s\<rparr>))"
  have f: "?f s = s * 16807 mod 2147483647" if "s \<in> {1..<2147483647}" for s
    using Random_Next_value [of "\<lparr>rnd_seed = of_nat s\<rparr>"] that by (simp add: unat_of_nat_u32)
  have "inj_on ?f {1..<2147483647}" by (rule inj_onI) (use f lcg_inj in metis)
  moreover have "?f ` {1..<2147483647} \<subseteq> {1..<2147483647}"
  proof (clarsimp simp only: image_subset_iff)
    fix s :: nat assume s: "s \<in> {1..<2147483647}"
    then show "?f s \<in> {1..<2147483647}" unfolding f [OF s] using product_mod_pos [of s] by simp
  qed
  ultimately have "bij_betw ?f {1..<2147483647} {1..<2147483647}"
    unfolding bij_betw_def by (intro conjI endo_inj_surj) simp_all
  then show ?thesis using f by blast
qed

theorem random_next_permutes_seeds_witness: "unat (fst (Random_Next \<lparr>rnd_seed = of_nat 127773\<rparr>)) = 127773 * 16807 mod 2147483647"
  using conjunct2 [OF random_next_permutes_seeds] by (rule bspec) simp

text \<open>\<^verbatim>\<open>GoodSeed\<close> excludes one of these two seeds only.  Seeded with \<open>2 ^ 31 - 1\<close>, or with all bits set, the generator
  returns the same number for ever.\<close>

lemma GoodSeed_bad:
  "Random_new 0x7fffffff = \<lparr>rnd_seed = Random_M\<rparr>" "Random_new 0xffffffff = \<lparr>rnd_seed = Random_M\<rparr>"
  "Random_Next \<lparr>rnd_seed = Random_M\<rparr> = (Random_M, \<lparr>rnd_seed = Random_M\<rparr>)"
  by (simp_all add: Random_new_def GoodSeed_def Random_M_def Random_Next_def Random_A_def Let_def)

end
