(* ===== verification/Skip_List.thy ===== *)
theory Skip_List
  imports Random_Lcg Comparator
begin

text \<open>
  The skip list of \<^verbatim>\<open>memtable/skiplist.h\<close>.  The nodes live in a store from addresses to nodes; a null pointer is None.
  The key of the head is never initialised, and neither is a link before it is set: reading either is None, like a failed
  assertion, a dangling pointer or a search that does not end.  The address of a new node is an argument.
\<close>

section \<open>Definitions\<close>

subsection \<open>Nodes\<close>

record Node =
  n_key :: "bytes option"
  n_height :: nat
  n_next :: "nat \<rightharpoonup> nat option"

type_synonym node_store = "nat \<rightharpoonup> Node"

definition Node_Next :: "node_store \<Rightarrow> nat \<Rightarrow> nat \<Rightarrow> nat option option" where
  "Node_Next st a n = do { x \<leftarrow> st a; n_next x n }"

definition Node_SetNext :: "node_store \<Rightarrow> nat \<Rightarrow> nat \<Rightarrow> nat option \<Rightarrow> node_store option" where
  "Node_SetNext st a n p = do {
     x \<leftarrow> st a;
     assert (n < n_height x);
     Some (st(a \<mapsto> x\<lparr>n_next := (n_next x)(n \<mapsto> p)\<rparr>))
   }"

definition Node_key :: "node_store \<Rightarrow> nat \<Rightarrow> bytes option" where
  "Node_key st a = do { x \<leftarrow> st a; n_key x }"

definition NewNode :: "nat \<Rightarrow> bytes option \<Rightarrow> nat \<Rightarrow> node_store \<Rightarrow> node_store" where
  "NewNode addr key height st = st(addr \<mapsto> \<lparr>n_key = key, n_height = height, n_next = Map.empty\<rparr>)"

subsection \<open>The list\<close>

record SkipList =
  kMaxHeight :: u16
  kBranching :: u16
  kScaledInverseBranching :: u32
  sl_head :: nat
  max_height :: nat
  sl_prev :: "nat list"
  prev_height :: nat
  sl_nodes :: node_store

fun clear_head :: "nat \<Rightarrow> nat list \<Rightarrow> node_store \<Rightarrow> node_store option" where
  "clear_head head [] st = Some st"
| "clear_head head (i # is) st = do { st \<leftarrow> Node_SetNext st head i None; clear_head head is st }"

text \<open>The arguments are of type \<^verbatim>\<open>int32_t\<close>.\<close>

definition SkipList_new :: "nat \<Rightarrow> u32 \<Rightarrow> u32 \<Rightarrow> SkipList option" where
  "SkipList_new addr max_h branching_factor = do {
     let kMaxH = (ucast max_h :: u16);
     let kB = (ucast branching_factor :: u16);
     assert (kB \<noteq> 0);
     let kScaled = (kMaxNext + 1) div ucast kB;
     let st = NewNode addr None (nat (sint max_h)) Map.empty;
     assert (sint max_h > 0 \<and> ucast kMaxH = max_h);
     assert (sint branching_factor > 0 \<and> ucast kB = branching_factor);
     assert (kScaled > 0);
     st \<leftarrow> clear_head addr [0..<unat kMaxH] st;
     Some \<lparr>kMaxHeight = kMaxH, kBranching = kB, kScaledInverseBranching = kScaled, sl_head = addr, max_height = 1,
           sl_prev = replicate (unat kMaxH) addr, prev_height = 1, sl_nodes = st\<rparr>
   }"

function random_height_loop :: "nat \<Rightarrow> u32 \<Rightarrow> nat \<Rightarrow> Random \<Rightarrow> nat \<times> Random" where
  "random_height_loop kMax kScaled height rnd =
     (if height < kMax then
        let (x, rnd) = Random_Next rnd
        in if x < kScaled then random_height_loop kMax kScaled (height + 1) rnd else (height, rnd)
      else (height, rnd))"
  by pat_completeness auto
termination by (relation "measure (\<lambda>(kMax, kScaled, height, rnd). kMax - height)") auto

declare random_height_loop.simps [simp del]

definition RandomHeight :: "SkipList \<Rightarrow> Random \<Rightarrow> (nat \<times> Random) option" where
  "RandomHeight s rnd = do {
     let (height, rnd) = random_height_loop (unat (kMaxHeight s)) (kScaledInverseBranching s) 1 rnd;
     assert (height > 0);
     assert (height \<le> unat (kMaxHeight s));
     Some (height, rnd)
   }"

definition KeyIsAfterNode :: "(bytes \<Rightarrow> bytes \<Rightarrow> int) \<Rightarrow> node_store \<Rightarrow> bytes \<Rightarrow> nat option \<Rightarrow> bool option" where
  "KeyIsAfterNode cmp st key n =
     (case n of None \<Rightarrow> Some False | Some a \<Rightarrow> do { k \<leftarrow> Node_key st a; Some (cmp k key < 0) })"

text \<open>The two assertions at the top of both search loops.\<close>

definition search_asserts :: "(bytes \<Rightarrow> bytes \<Rightarrow> int) \<Rightarrow> SkipList \<Rightarrow> bytes \<Rightarrow> nat \<Rightarrow> nat option \<Rightarrow> unit option" where
  "search_asserts cmp s key x next = do {
     sorted \<leftarrow> (if x = sl_head s then Some True
               else case next of None \<Rightarrow> Some True
                    | Some b \<Rightarrow> do { k \<leftarrow> Node_key (sl_nodes s) b; KeyIsAfterNode cmp (sl_nodes s) k (Some x) });
     assert sorted;
     not_past \<leftarrow> (if x = sl_head s then Some True else KeyIsAfterNode cmp (sl_nodes s) key (Some x));
     assert not_past
   }"

text \<open>One round of the search: it reads one link.\<close>

datatype search = Searching nat nat "nat option" | Found "nat option"

definition find_iteration ::
  "(bytes \<Rightarrow> bytes \<Rightarrow> int) \<Rightarrow> SkipList \<Rightarrow> bytes \<Rightarrow> nat \<Rightarrow> nat \<Rightarrow> nat option \<Rightarrow> search option" where
  "find_iteration cmp s key x level last_bigger = do {
     next \<leftarrow> Node_Next (sl_nodes s) x level;
     search_asserts cmp s key x next;
     c \<leftarrow> (if next = None \<or> next = last_bigger then Some 1
           else do { k \<leftarrow> Node_key (sl_nodes s) (the next); Some (cmp k key) });
     Some (if c = 0 \<or> c > 0 \<and> level = 0 then Found next
           else if c < 0 then Searching (the next) level last_bigger
           else Searching x (level - 1) next)
   }"

partial_function (option) find_greater_or_equal ::
  "(bytes \<Rightarrow> bytes \<Rightarrow> int) \<Rightarrow> SkipList \<Rightarrow> bytes \<Rightarrow> nat \<Rightarrow> nat \<Rightarrow> nat option \<Rightarrow> nat option option" where
  [code]: "find_greater_or_equal cmp s key x level last_bigger = do {
     r \<leftarrow> find_iteration cmp s key x level last_bigger;
     case r of
       Found next \<Rightarrow> Some next
     | Searching x level last_bigger \<Rightarrow> find_greater_or_equal cmp s key x level last_bigger
   }"

definition FindGreaterOrEqual :: "(bytes \<Rightarrow> bytes \<Rightarrow> int) \<Rightarrow> SkipList \<Rightarrow> bytes \<Rightarrow> nat option option" where
  "FindGreaterOrEqual cmp s key = find_greater_or_equal cmp s key (sl_head s) (max_height s - 1) None"

text \<open>The array to fill, or None for the null pointer.\<close>

partial_function (option) find_less_than ::
  "(bytes \<Rightarrow> bytes \<Rightarrow> int) \<Rightarrow> SkipList \<Rightarrow> bytes \<Rightarrow> nat \<Rightarrow> nat \<Rightarrow> nat option \<Rightarrow> nat list option \<Rightarrow> (nat \<times> nat list option) option" where
  [code]: "find_less_than cmp s key x level last_not_after prev = do {
     next \<leftarrow> Node_Next (sl_nodes s) x level;
     search_asserts cmp s key x next;
     after \<leftarrow> (if next \<noteq> last_not_after then KeyIsAfterNode cmp (sl_nodes s) key next else Some False);
     if after then find_less_than cmp s key (the next) level last_not_after prev
     else do {
       prev \<leftarrow> (case prev of None \<Rightarrow> Some None
               | Some p \<Rightarrow> do { assert (level < length p); Some (Some (p[level := x])) });
       if level = 0 then Some (x, prev)
       else find_less_than cmp s key x (level - 1) next prev
     }
   }"

definition FindLessThan ::
  "(bytes \<Rightarrow> bytes \<Rightarrow> int) \<Rightarrow> SkipList \<Rightarrow> bytes \<Rightarrow> nat list option \<Rightarrow> (nat \<times> nat list option) option" where
  "FindLessThan cmp s key prev = find_less_than cmp s key (sl_head s) (max_height s - 1) None prev"

partial_function (option) find_last :: "SkipList \<Rightarrow> nat \<Rightarrow> nat \<Rightarrow> nat option" where
  [code]: "find_last s x level = do {
     next \<leftarrow> Node_Next (sl_nodes s) x level;
     case next of
       None \<Rightarrow> if level = 0 then Some x else find_last s x (level - 1)
     | Some b \<Rightarrow> find_last s b level
   }"

definition FindLast :: "SkipList \<Rightarrow> nat option" where
  "FindLast s = find_last s (sl_head s) (max_height s - 1)"

partial_function (option) estimate_count ::
  "(bytes \<Rightarrow> bytes \<Rightarrow> int) \<Rightarrow> SkipList \<Rightarrow> bytes \<Rightarrow> nat \<Rightarrow> nat \<Rightarrow> u64 \<Rightarrow> u64 option" where
  [code]: "estimate_count cmp s key x level count = do {
     before \<leftarrow> (if x = sl_head s then Some True else do { k \<leftarrow> Node_key (sl_nodes s) x; Some (cmp k key < 0) });
     assert before;
     next \<leftarrow> Node_Next (sl_nodes s) x level;
     stop \<leftarrow> (case next of None \<Rightarrow> Some True | Some b \<Rightarrow> do { k \<leftarrow> Node_key (sl_nodes s) b; Some (cmp k key \<ge> 0) });
     if stop then
       (if level = 0 then Some count
        else estimate_count cmp s key x (level - 1) (count * ucast (kBranching s)))
     else estimate_count cmp s key (the next) level (count + 1)
   }"

definition EstimateCount :: "(bytes \<Rightarrow> bytes \<Rightarrow> int) \<Rightarrow> SkipList \<Rightarrow> bytes \<Rightarrow> u64 option" where
  "EstimateCount cmp s key = estimate_count cmp s key (sl_head s) (max_height s - 1) 0"

subsection \<open>Insertion\<close>

text \<open>The predecessors of the key at every level: from the last insertion, or by a search.\<close>

definition find_prev :: "(bytes \<Rightarrow> bytes \<Rightarrow> int) \<Rightarrow> SkipList \<Rightarrow> bytes \<Rightarrow> nat list option" where
  "find_prev cmp s key = do {
     let prev = sl_prev s;
     next \<leftarrow> Node_Next (sl_nodes s) (prev ! 0) 0;
     past_next \<leftarrow> KeyIsAfterNode cmp (sl_nodes s) key next;
     fast \<leftarrow> (if past_next then Some False
             else if prev ! 0 = sl_head s then Some True
             else KeyIsAfterNode cmp (sl_nodes s) key (Some (prev ! 0)));
     if fast then do {
       assert (prev ! 0 \<noteq> sl_head s \<or> (prev_height s = 1 \<and> max_height s = 1));
       Some (foldl (\<lambda>p i. p[i := p ! 0]) prev [1..<prev_height s])
     } else do {
       (x, p) \<leftarrow> FindLessThan cmp s key (Some prev);
       p
     }
   }"

fun link_levels :: "nat \<Rightarrow> nat list \<Rightarrow> nat list \<Rightarrow> node_store \<Rightarrow> node_store option" where
  "link_levels addr prev [] st = Some st"
| "link_levels addr prev (i # is) st = do {
     next \<leftarrow> Node_Next st (prev ! i) i;
     st \<leftarrow> Node_SetNext st addr i next;
     st \<leftarrow> Node_SetNext st (prev ! i) i (Some addr);
     link_levels addr prev is st
   }"

text \<open>What \<^verbatim>\<open>Insert\<close> does before it allocates the node: the predecessors, the new height of the list and the height of
  the node.\<close>

definition insert_prepare ::
  "(bytes \<Rightarrow> bytes \<Rightarrow> int) \<Rightarrow> bytes \<Rightarrow> Random \<Rightarrow> SkipList \<Rightarrow> (nat list \<times> nat \<times> nat \<times> Random) option" where
  "insert_prepare cmp key rnd s = do {
     prev \<leftarrow> find_prev cmp s key;
     next \<leftarrow> Node_Next (sl_nodes s) (prev ! 0) 0;
     duplicate \<leftarrow> (case next of None \<Rightarrow> Some False | Some b \<Rightarrow> do { k \<leftarrow> Node_key (sl_nodes s) b; Some (cmp key k = 0) });
     assert (\<not> duplicate);
     (height, rnd) \<leftarrow> RandomHeight s rnd;
     Some (if height > max_height s
           then (foldl (\<lambda>p i. p[i := sl_head s]) prev [max_height s..<height], height, height, rnd)
           else (prev, max_height s, height, rnd))
   }"

definition Skip_Insert ::
  "(bytes \<Rightarrow> bytes \<Rightarrow> int) \<Rightarrow> nat \<Rightarrow> bytes \<Rightarrow> Random \<Rightarrow> SkipList \<Rightarrow> (Random \<times> SkipList) option" where
  "Skip_Insert cmp addr key rnd s = do {
     (prev, max_h, height, rnd) \<leftarrow> insert_prepare cmp key rnd s;
     st \<leftarrow> link_levels addr prev [0..<height] (NewNode addr (Some key) height (sl_nodes s));
     Some (rnd, s\<lparr>max_height := max_h, sl_nodes := st, sl_prev := prev[0 := addr], prev_height := height\<rparr>)
   }"

definition Skip_Contains :: "(bytes \<Rightarrow> bytes \<Rightarrow> int) \<Rightarrow> SkipList \<Rightarrow> bytes \<Rightarrow> bool option" where
  "Skip_Contains cmp s key = do {
     x \<leftarrow> FindGreaterOrEqual cmp s key;
     case x of None \<Rightarrow> Some False
     | Some a \<Rightarrow> do { k \<leftarrow> Node_key (sl_nodes s) a; Some (cmp key k = 0) }
   }"

subsection \<open>Iterator\<close>

text \<open>The iterator is the node it stands at.\<close>

definition SkipIter_new :: "nat option" where
  "SkipIter_new = None"

definition SkipIter_Valid :: "nat option \<Rightarrow> bool" where
  "SkipIter_Valid node \<longleftrightarrow> node \<noteq> None"

definition SkipIter_key :: "SkipList \<Rightarrow> nat option \<Rightarrow> bytes option" where
  "SkipIter_key s node = do { a \<leftarrow> node; Node_key (sl_nodes s) a }"

definition SkipIter_Next :: "SkipList \<Rightarrow> nat option \<Rightarrow> nat option option" where
  "SkipIter_Next s node = do { a \<leftarrow> node; Node_Next (sl_nodes s) a 0 }"

definition SkipIter_Prev :: "(bytes \<Rightarrow> bytes \<Rightarrow> int) \<Rightarrow> SkipList \<Rightarrow> nat option \<Rightarrow> nat option option" where
  "SkipIter_Prev cmp s node = do {
     k \<leftarrow> SkipIter_key s node;
     (x, _) \<leftarrow> FindLessThan cmp s k None;
     Some (if x = sl_head s then None else Some x)
   }"

definition SkipIter_Seek :: "(bytes \<Rightarrow> bytes \<Rightarrow> int) \<Rightarrow> SkipList \<Rightarrow> bytes \<Rightarrow> nat option option" where
  "SkipIter_Seek cmp s target = FindGreaterOrEqual cmp s target"

definition SkipIter_SeekToFirst :: "SkipList \<Rightarrow> nat option option" where
  "SkipIter_SeekToFirst s = Node_Next (sl_nodes s) (sl_head s) 0"

definition SkipIter_SeekToLast :: "SkipList \<Rightarrow> nat option option" where
  "SkipIter_SeekToLast s = do { x \<leftarrow> FindLast s; Some (if x = sl_head s then None else Some x) }"

partial_function (option) retreat :: "(bytes \<Rightarrow> bytes \<Rightarrow> int) \<Rightarrow> SkipList \<Rightarrow> bytes \<Rightarrow> nat option \<Rightarrow> nat option option" where
  [code]: "retreat cmp s target node =
     (if SkipIter_Valid node then do {
        k \<leftarrow> SkipIter_key s node;
        if cmp target k < 0 then do { node \<leftarrow> SkipIter_Prev cmp s node; retreat cmp s target node }
        else Some node
      } else Some node)"

definition SkipIter_SeekForPrev :: "(bytes \<Rightarrow> bytes \<Rightarrow> int) \<Rightarrow> SkipList \<Rightarrow> bytes \<Rightarrow> nat option option" where
  "SkipIter_SeekForPrev cmp s target = do {
     node \<leftarrow> SkipIter_Seek cmp s target;
     node \<leftarrow> (if \<not> SkipIter_Valid node then SkipIter_SeekToLast s else Some node);
     retreat cmp s target node
   }"

end
