(* ===== verification/Skip_Levels.thy ===== *)
theory Skip_Levels
  imports Skip_List
begin

text \<open>
  What the searches of the skip list rely on: every level is a sorted chain of nodes from the head and is part of the level
  below.  The levels are given as a function, so that the same facts serve a list in which a new node is linked at some of its
  levels only, as a reader meets it during an insertion.
\<close>

section \<open>Chains\<close>

fun linked :: "node_store \<Rightarrow> nat \<Rightarrow> nat list \<Rightarrow> bool" where
  "linked st i [] \<longleftrightarrow> True"
| "linked st i [a] \<longleftrightarrow> Node_Next st a i = Some None"
| "linked st i (a # b # r) \<longleftrightarrow> Node_Next st a i = Some (Some b) \<and> linked st i (b # r)"

definition head_of :: "'a list \<Rightarrow> 'a option" where
  "head_of r = (case r of [] \<Rightarrow> None | b # _ \<Rightarrow> Some b)"

lemma head_of_simps [simp]: "head_of [] = None" "head_of (b # r) = Some b"
  by (simp_all add: head_of_def)

lemma head_of_append: "head_of (xs @ ys) = (if xs = [] then head_of ys else head_of xs)"
  by (cases xs) simp_all

lemma linked_Cons: "linked st i (a # r) \<longleftrightarrow> Node_Next st a i = Some (head_of r) \<and> (r = [] \<or> linked st i r)"
  by (cases r) auto

lemma linked_append: "linked st i (A @ x # B) \<Longrightarrow> linked st i (x # B)"
  by (induction A) (auto simp: linked_Cons)

lemma linked_next: "linked st i (A @ x # B) \<Longrightarrow> Node_Next st x i = Some (head_of B)"
  using linked_append linked_Cons by blast

lemma linked_cong:
  assumes "\<And>a. a \<in> set r \<Longrightarrow> Node_Next st' a i = Node_Next st a i"
  shows "linked st' i r \<longleftrightarrow> linked st i r"
  using assms by (induction r) (auto simp: linked_Cons)

section \<open>Levels\<close>

definition node_key_of :: "SkipList \<Rightarrow> nat \<Rightarrow> bytes" where
  "node_key_of s a = the (Node_key (sl_nodes s) a)"

definition levels :: "(bytes \<Rightarrow> bytes \<Rightarrow> int) \<Rightarrow> SkipList \<Rightarrow> (nat \<Rightarrow> nat list) \<Rightarrow> bool" where
  "levels cmp s L \<longleftrightarrow>
     1 \<le> max_height s \<and> max_height s \<le> unat (kMaxHeight s) \<and>
     (\<forall>i < unat (kMaxHeight s). linked (sl_nodes s) i (sl_head s # L i)) \<and>
     (\<forall>i. set (L (Suc i)) \<subseteq> set (L i)) \<and> (\<forall>i \<ge> max_height s. L i = []) \<and>
     (\<forall>i. sorted_wrt (\<lambda>a b. cmp (node_key_of s a) (node_key_of s b) < 0) (L i)) \<and>
     sl_head s \<notin> set (L 0) \<and> (\<forall>a \<in> set (L 0). Node_key (sl_nodes s) a \<noteq> None)"

text \<open>The nodes of a level before a key, and the others.\<close>

definition before :: "(bytes \<Rightarrow> bytes \<Rightarrow> int) \<Rightarrow> SkipList \<Rightarrow> bytes \<Rightarrow> nat list \<Rightarrow> nat list" where
  "before cmp s t = filter (\<lambda>a. cmp (node_key_of s a) t < 0)"

definition from_key :: "(bytes \<Rightarrow> bytes \<Rightarrow> int) \<Rightarrow> SkipList \<Rightarrow> bytes \<Rightarrow> nat list \<Rightarrow> nat list" where
  "from_key cmp s t = filter (\<lambda>a. \<not> cmp (node_key_of s a) t < 0)"

lemma levels_subset:
  assumes "levels cmp s L" "i \<le> j"
  shows "set (L j) \<subseteq> set (L i)"
  using assms(2,1) by (induction rule: dec_induct) (auto simp: levels_def)

lemma levels_node:
  assumes "levels cmp s L" "a \<in> set (L i)"
  shows "Node_key (sl_nodes s) a = Some (node_key_of s a)" "a \<noteq> sl_head s" "a \<in> set (L 0)"
proof -
  show "a \<in> set (L 0)" using levels_subset [OF assms(1), of 0 i] assms(2) by auto
  then show "Node_key (sl_nodes s) a = Some (node_key_of s a)" "a \<noteq> sl_head s"
    using assms(1) by (auto simp: levels_def node_key_of_def)
qed

lemma levels_height: "levels cmp s L \<Longrightarrow> 0 < max_height s"
  by (simp add: levels_def)

lemma levels_chain: "levels cmp s L \<Longrightarrow> i < max_height s \<Longrightarrow> linked (sl_nodes s) i (sl_head s # L i)"
  by (auto simp: levels_def)

lemma levels_sorted: "levels cmp s L \<Longrightarrow> sorted_wrt (\<lambda>a b. cmp (node_key_of s a) (node_key_of s b) < 0) (L i)"
  by (simp add: levels_def)

context key_comparator
begin

lemma before_from_key:
  assumes "sorted_wrt (\<lambda>a b. Compare (node_key_of s a) (node_key_of s b) < 0) xs"
  shows "xs = before Compare s t xs @ from_key Compare s t xs"
  using assms
proof (induction xs)
  case (Cons a xs)
  have "before Compare s t xs = []" if "\<not> Compare (node_key_of s a) t < 0"
  proof -
    have "\<not> Compare (node_key_of s b) t < 0" if "b \<in> set xs" for b
      using Cons.prems \<open>\<not> Compare (node_key_of s a) t < 0\<close> that cmp_less_le less_imp_le by (metis list.set_intros(2) sorted_wrt.simps(2))
    then show ?thesis by (simp add: before_def filter_empty_conv)
  qed
  then show ?case using Cons by (auto simp: before_def from_key_def)
qed (simp_all add: before_def from_key_def)

lemma level_split: "levels Compare s L \<Longrightarrow> L i = before Compare s t (L i) @ from_key Compare s t (L i)"
  by (rule before_from_key [OF levels_sorted])

lemma cmp_irrefl: "\<not> Compare a a < 0"
  by (simp add: cmp_refl)

text \<open>The state of a search: at some level, at the head or at a node before the key, with the rest of the nodes before the key.\<close>

definition at_level :: "SkipList \<Rightarrow> (nat \<Rightarrow> nat list) \<Rightarrow> bytes \<Rightarrow> nat \<Rightarrow> nat \<Rightarrow> nat list \<Rightarrow> bool" where
  "at_level s L t i x B \<longleftrightarrow> i < max_height s \<and> (\<exists>A. sl_head s # before Compare s t (L i) = A @ x # B)"

lemma at_level_start:
  assumes "levels Compare s L"
  shows "at_level s L t (max_height s - 1) (sl_head s) (before Compare s t (L (max_height s - 1)))"
  using assms by (auto simp: at_level_def levels_def)

lemma at_level_step: "at_level s L t i x (b # B) \<Longrightarrow> at_level s L t i b B"
  unfolding at_level_def by (metis append.assoc append_Cons append_Nil)

lemma at_level_end: "at_level s L t i x [] \<Longrightarrow> x = last (sl_head s # before Compare s t (L i))"
  unfolding at_level_def by (metis last_snoc)

lemma at_level_mem: "at_level s L t i x B \<Longrightarrow> x \<in> set (sl_head s # before Compare s t (L i))"
  unfolding at_level_def by (metis in_set_conv_decomp)

lemma at_level_down:
  assumes "levels Compare s L" "at_level s L t i x B" "0 < i"
  shows "\<exists>B'. at_level s L t (i - 1) x B'"
proof -
  have "x \<in> set (sl_head s # before Compare s t (L i))" using at_level_mem [OF assms(2)] .
  moreover have "set (L i) \<subseteq> set (L (i - 1))" using levels_subset [OF assms(1)] by simp
  ultimately have "x \<in> set (sl_head s # before Compare s t (L (i - 1)))" by (auto simp: before_def)
  then show ?thesis using assms(2,3) unfolding at_level_def by (metis less_imp_diff_less split_list)
qed

lemma at_level_next:
  assumes "levels Compare s L" "at_level s L t i x B"
  shows "Node_Next (sl_nodes s) x i = Some (head_of (B @ from_key Compare s t (L i)))"
proof -
  obtain A where "sl_head s # before Compare s t (L i) = A @ x # B" using assms(2) by (auto simp: at_level_def)
  then have "sl_head s # L i = A @ x # B @ from_key Compare s t (L i)"
    using level_split [OF assms(1), of i t] by (metis append.assoc append_Cons)
  moreover have "linked (sl_nodes s) i (sl_head s # L i)" using assms by (auto simp: at_level_def intro: levels_chain)
  ultimately show ?thesis using linked_next by metis
qed

lemma at_level_before:
  assumes "at_level s L t i x B" "b \<in> set B"
  shows "b \<in> set (L i)" "Compare (node_key_of s b) t < 0"
proof -
  obtain A where "sl_head s # before Compare s t (L i) = A @ x # B" using assms(1) by (auto simp: at_level_def)
  then have "set B \<subseteq> set (before Compare s t (L i))" by (cases A) auto
  then show "b \<in> set (L i)" "Compare (node_key_of s b) t < 0" using assms(2) by (auto simp: before_def)
qed

lemma at_level_x:
  assumes "at_level s L t i x B" "x \<noteq> sl_head s"
  shows "x \<in> set (L i)" "Compare (node_key_of s x) t < 0"
  using at_level_mem [OF assms(1)] assms(2) by (auto simp: before_def)

text \<open>The assertions of the search hold in such a state.\<close>

lemma at_level_asserts:
  assumes lv: "levels Compare s L" and at: "at_level s L t i x B"
  shows "search_asserts Compare s t x (head_of (B @ from_key Compare s t (L i))) = Some ()"
proof (cases "x = sl_head s")
  case False
  note x = at_level_x [OF at False]
  note kx = levels_node(1) [OF lv x(1)]
  have "Node_key (sl_nodes s) b = Some (node_key_of s b) \<and> Compare (node_key_of s x) (node_key_of s b) < 0"
    if b: "head_of (B @ from_key Compare s t (L i)) = Some b" for b
  proof -
    obtain A where A: "sl_head s # before Compare s t (L i) = A @ x # B" using at by (auto simp: at_level_def)
    then obtain A' where "A = sl_head s # A'" using False by (cases A) auto
    then have "L i = A' @ x # B @ from_key Compare s t (L i)" using A level_split [OF lv, of i t] by (metis append.assoc append_Cons list.inject)
    moreover obtain r where "B @ from_key Compare s t (L i) = b # r" using b by (auto simp: head_of_def split: list.splits)
    ultimately have "L i = A' @ x # b # r" by simp
    then have "b \<in> set (L i)" "Compare (node_key_of s x) (node_key_of s b) < 0"
      using levels_sorted [OF lv, of i] by (auto simp: sorted_wrt_append)
    then show ?thesis using levels_node(1) [OF lv] by blast
  qed
  then show ?thesis using False kx x(2) by (auto simp: search_asserts_def KeyIsAfterNode_def split: option.splits)
qed (simp add: search_asserts_def)

lemma from_key_node:
  assumes "levels Compare s L" "head_of (from_key Compare s t (L i)) = Some b"
  shows "b \<in> set (L i)" "\<not> Compare (node_key_of s b) t < 0" "Node_key (sl_nodes s) b = Some (node_key_of s b)"
proof -
  have "b \<in> set (from_key Compare s t (L i))" using assms(2) by (auto simp: head_of_def split: list.splits)
  then show "b \<in> set (L i)" "\<not> Compare (node_key_of s b) t < 0" by (auto simp: from_key_def)
  then show "Node_key (sl_nodes s) b = Some (node_key_of s b)" using levels_node(1) [OF assms(1)] by blast
qed

text \<open>Both searches step over the nodes before the key.\<close>

lemma find_less_than_walk:
  assumes lv: "levels Compare s L" and lna: "\<forall>a. lna = Some a \<longrightarrow> \<not> Compare (node_key_of s a) t < 0"
    and at: "at_level s L t i x B"
  shows "find_less_than Compare s t x i lna prev = find_less_than Compare s t (last (x # B)) i lna prev"
  using at
proof (induction B arbitrary: x)
  case (Cons b B)
  note b = at_level_before [OF Cons.prems, of b]
  have "Some b \<noteq> lna" using lna b by auto
  then have "find_less_than Compare s t x i lna prev = find_less_than Compare s t b i lna prev"
    using at_level_next [OF lv Cons.prems] at_level_asserts [OF lv Cons.prems] levels_node(1) [OF lv b(1)] b(2)
    by (subst find_less_than.simps) (simp add: KeyIsAfterNode_def)
  then show ?case using Cons.IH [OF at_level_step [OF Cons.prems]] by simp
qed simp

lemma at_level_last: "at_level s L t i x B \<Longrightarrow> at_level s L t i (last (x # B)) []"
proof (induction B arbitrary: x)
  case (Cons b B)
  then show ?case using Cons.IH [OF at_level_step [OF Cons.prems]] by simp
qed simp

lemma find_less_than_stop:
  assumes lv: "levels Compare s L" and at: "at_level s L t i x []" and p: "\<And>p. prev = Some p \<Longrightarrow> i < length p"
  shows "find_less_than Compare s t x i lna prev =
    (let prev' = map_option (\<lambda>p. p[i := x]) prev
     in if i = 0 then Some (x, prev')
        else find_less_than Compare s t x (i - 1) (head_of (from_key Compare s t (L i))) prev')"
proof -
  let ?n = "head_of (from_key Compare s t (L i))"
  have "(if ?n \<noteq> lna then KeyIsAfterNode Compare (sl_nodes s) t ?n else Some False) = Some False"
    using from_key_node [OF lv, of t i] by (auto simp: KeyIsAfterNode_def split: option.splits)
  then show ?thesis
    using at_level_next [OF lv at] at_level_asserts [OF lv at] p
    by (subst find_less_than.simps) (cases prev; simp add: Let_def)
qed

lemma find_less_than_result:
  assumes lv: "levels Compare s L" and lna: "\<forall>a. lna = Some a \<longrightarrow> \<not> Compare (node_key_of s a) t < 0"
    and at: "at_level s L t i x B" and p: "\<forall>p. prev = Some p \<longrightarrow> max_height s \<le> length p"
  shows "\<exists>prev'. find_less_than Compare s t x i lna prev = Some (last (sl_head s # before Compare s t (L 0)), prev') \<and>
    (prev = None \<longrightarrow> prev' = None) \<and>
    (\<forall>p. prev = Some p \<longrightarrow> (\<exists>p'. prev' = Some p' \<and> length p' = length p \<and>
       (\<forall>j \<le> i. p' ! j = last (sl_head s # before Compare s t (L j))) \<and> (\<forall>j > i. p' ! j = p ! j)))"
  using lna at p
proof (induction i arbitrary: x B lna prev)
  case 0
  let ?x = "last (x # B)"
  note e = at_level_last [OF 0(2)]
  have "0 < length p" if "prev = Some p" for p using 0(3) that levels_height [OF lv] by fastforce
  then have "find_less_than Compare s t x 0 lna prev = Some (?x, map_option (\<lambda>p. p[0 := ?x]) prev)"
    using find_less_than_walk [OF lv 0(1,2)] find_less_than_stop [OF lv e, of prev lna] by simp
  then show ?case using at_level_end [OF e] \<open>\<And>p. prev = Some p \<Longrightarrow> 0 < length p\<close> by (cases prev) auto
next
  case (Suc i)
  let ?x = "last (x # B)"
  note e = at_level_last [OF Suc.prems(2)]
  have i: "Suc i < max_height s" using Suc.prems(2) by (simp add: at_level_def)
  have pl: "Suc i < length p" if "prev = Some p" for p using Suc.prems(3) that i by fastforce
  let ?prev = "map_option (\<lambda>p. p[Suc i := ?x]) prev" and ?n = "head_of (from_key Compare s t (L (Suc i)))"
  have step: "find_less_than Compare s t x (Suc i) lna prev = find_less_than Compare s t ?x i ?n ?prev"
    using find_less_than_walk [OF lv Suc.prems(1,2)] find_less_than_stop [OF lv e, of prev lna] pl by simp
  obtain B' where at': "at_level s L t i ?x B'" using at_level_down [OF lv e] by auto
  have n': "\<forall>a. ?n = Some a \<longrightarrow> \<not> Compare (node_key_of s a) t < 0" using from_key_node(2) [OF lv] by blast
  have p': "\<forall>p. ?prev = Some p \<longrightarrow> max_height s \<le> length p" using Suc.prems(3) by auto
  from Suc.IH [of ?n ?x B' ?prev, OF n' at' p']
  obtain prev' where prev': "find_less_than Compare s t ?x i ?n ?prev = Some (last (sl_head s # before Compare s t (L 0)), prev')"
      "?prev = None \<longrightarrow> prev' = None"
      "\<forall>p. ?prev = Some p \<longrightarrow> (\<exists>p'. prev' = Some p' \<and> length p' = length p \<and>
         (\<forall>j \<le> i. p' ! j = last (sl_head s # before Compare s t (L j))) \<and> (\<forall>j > i. p' ! j = p ! j))"
    by (elim exE conjE)
  show ?case
  proof (cases prev)
    case None
    then show ?thesis using step prev'(1,2) by simp
  next
    case (Some p)
    then obtain p' where p': "prev' = Some p'" "length p' = length p" "\<forall>j \<le> i. p' ! j = last (sl_head s # before Compare s t (L j))"
        "\<forall>j > i. p' ! j = p[Suc i := ?x] ! j"
      using prev'(3) by auto
    have "p' ! Suc i = ?x" using p'(4) pl [OF Some] by simp
    then have "\<forall>j \<le> Suc i. p' ! j = last (sl_head s # before Compare s t (L j))"
      using p'(3) at_level_end [OF e] by (auto simp: le_Suc_eq)
    moreover have "\<forall>j > Suc i. p' ! j = p ! j" using p'(4) by simp
    ultimately show ?thesis using step prev'(1) p'(1,2) Some by simp
  qed
qed

lemma FindLessThan_result:
  assumes lv: "levels Compare s L"
  shows "FindLessThan Compare s t None = Some (last (sl_head s # before Compare s t (L 0)), None)"
    "max_height s \<le> length p \<Longrightarrow> \<exists>p'. FindLessThan Compare s t (Some p) = Some (last (sl_head s # before Compare s t (L 0)), Some p') \<and>
       length p' = length p \<and> (\<forall>j < max_height s. p' ! j = last (sl_head s # before Compare s t (L j)))"
proof -
  have mh: "j < max_height s \<longleftrightarrow> j \<le> max_height s - 1" for j using lv unfolding levels_def by linarith
  show "FindLessThan Compare s t None = Some (last (sl_head s # before Compare s t (L 0)), None)"
    unfolding FindLessThan_def using find_less_than_result [OF lv _ at_level_start [OF lv], of None t None] by simp
  show "\<exists>p'. FindLessThan Compare s t (Some p) = Some (last (sl_head s # before Compare s t (L 0)), Some p') \<and>
       length p' = length p \<and> (\<forall>j < max_height s. p' ! j = last (sl_head s # before Compare s t (L j)))"
    if "max_height s \<le> length p"
    unfolding FindLessThan_def mh using find_less_than_result [OF lv _ at_level_start [OF lv], of None t "Some p"] that by auto
qed

text \<open>The search for the first node that is not before the key may end early, at a node with an equal key.\<close>

lemma equal_is_first:
  assumes lv: "levels Compare s L" and b: "b \<in> set (L i)" "Compare (node_key_of s b) t = 0"
  shows "head_of (from_key Compare s t (L 0)) = Some b"
proof -
  have b0: "b \<in> set (from_key Compare s t (L 0))" using levels_node(3) [OF lv b(1)] b(2) by (simp add: from_key_def)
  obtain c r where c: "from_key Compare s t (L 0) = c # r" using b0 by (cases "from_key Compare s t (L 0)") auto
  have "sorted_wrt (\<lambda>a b. Compare (node_key_of s a) (node_key_of s b) < 0) (c # r)"
    using levels_sorted [OF lv, of 0] unfolding c [symmetric] from_key_def by (rule sorted_wrt_filter)
  then have "c = b"
  proof (rule contrapos_pp)
    assume "c \<noteq> b"
    then have "Compare (node_key_of s c) (node_key_of s b) < 0" if "sorted_wrt (\<lambda>a b. Compare (node_key_of s a) (node_key_of s b) < 0) (c # r)"
      using that b0 c by auto
    moreover have "\<not> Compare (node_key_of s c) t < 0" using c from_key_node(2) [OF lv, of t 0 c] by simp
    ultimately show "\<not> sorted_wrt (\<lambda>a b. Compare (node_key_of s a) (node_key_of s b) < 0) (c # r)"
      using cmp_less_le [of "node_key_of s c" "node_key_of s b" t] b(2) by auto
  qed
  then show ?thesis using c by simp
qed

lemma find_iteration_step:
  assumes "Node_Next (sl_nodes s) x i = Some n" "search_asserts cmp s t x n = Some ()"
    "\<forall>b. n = Some b \<longrightarrow> Node_key (sl_nodes s) b = Some (node_key_of s b)"
  shows "find_iteration cmp s t x i lb =
    Some (let c = (if n = None \<or> n = lb then 1 else cmp (node_key_of s (the n)) t)
          in if c = 0 \<or> c > 0 \<and> i = 0 then Found n else if c < 0 then Searching (the n) i lb else Searching x (i - 1) n)"
proof -
  have "(if n = None \<or> n = lb then Some 1 else do { k \<leftarrow> Node_key (sl_nodes s) (the n); Some (cmp k t) }) =
      Some (if n = None \<or> n = lb then 1 else cmp (node_key_of s (the n)) t)"
    using assms(3) by (cases n) auto
  then show ?thesis unfolding find_iteration_def Let_def by (simp only: assms(1,2) bind.bind_lunit)
qed

text \<open>A round steps to the next node before the key, or else goes down, or ends with the first node that is not before the key.\<close>

lemma find_iteration_walk:
  assumes lv: "levels Compare s L" and lb: "\<forall>a. lb = Some a \<longrightarrow> Compare (node_key_of s a) t > 0" and at: "at_level s L t i x (b # B)"
  shows "find_iteration Compare s t x i lb = Some (Searching b i lb)"
proof -
  note b = at_level_before [OF at, of b] and n = at_level_next [OF lv at] at_level_asserts [OF lv at]
  have "Some b \<noteq> lb" using lb b by auto
  then show ?thesis using find_iteration_step [OF n, of lb] levels_node(1) [OF lv b(1)] b(2) by (simp add: Let_def)
qed

text \<open>The node that the level above has passed is greater than the key, and not only not less.\<close>

lemma find_iteration_end:
  assumes lv: "levels Compare s L" and lb: "\<forall>a. lb = Some a \<longrightarrow> Compare (node_key_of s a) t > 0" and at: "at_level s L t i x []"
  shows "find_iteration Compare s t x i lb = Some (Found (head_of (from_key Compare s t (L 0)))) \<or>
    0 < i \<and> find_iteration Compare s t x i lb = Some (Searching x (i - 1) (head_of (from_key Compare s t (L i)))) \<and>
      (\<forall>a. head_of (from_key Compare s t (L i)) = Some a \<longrightarrow> Compare (node_key_of s a) t > 0)"
proof -
  let ?n = "head_of (from_key Compare s t (L i))"
  note n = at_level_next [OF lv at, unfolded append_Nil] at_level_asserts [OF lv at, unfolded append_Nil]
  note k = from_key_node [OF lv, of t i]
  have it: "find_iteration Compare s t x i lb =
      Some (let c = (if ?n = None \<or> ?n = lb then 1 else Compare (node_key_of s (the ?n)) t)
            in if c = 0 \<or> c > 0 \<and> i = 0 then Found ?n else if c < 0 then Searching (the ?n) i lb else Searching x (i - 1) ?n)"
    by (rule find_iteration_step [OF n]) (use k(3) in blast)
  show ?thesis
  proof (cases "\<exists>b. ?n = Some b \<and> Compare (node_key_of s b) t = 0")
    case True
    then obtain b where b: "?n = Some b" "Compare (node_key_of s b) t = 0" by blast
    then have "Some b \<noteq> lb" using lb by auto
    then show ?thesis using it b equal_is_first [OF lv k(1) [OF b(1)] b(2)] by (simp add: Let_def)
  next
    case False
    have gt: "\<forall>a. ?n = Some a \<longrightarrow> Compare (node_key_of s a) t > 0" using False k(2) by (metis linorder_neqE)
    then show ?thesis using it by (cases ?n; cases "i = 0") (auto simp: Let_def)
  qed
qed

lemma find_greater_result:
  assumes lv: "levels Compare s L" and lb: "\<forall>a. lb = Some a \<longrightarrow> Compare (node_key_of s a) t > 0"
    and at: "at_level s L t i x B"
  shows "find_greater_or_equal Compare s t x i lb = Some (head_of (from_key Compare s t (L 0)))"
  using lb at
proof (induction i arbitrary: x B lb)
  case (0 x B lb)
  from 0(2) show ?case
  proof (induction B arbitrary: x)
    case Nil
    then show ?case using find_iteration_end [OF lv 0(1) Nil] by (subst find_greater_or_equal.simps) auto
  next
    case (Cons b B)
    then show ?case using find_iteration_walk [OF lv 0(1) Cons.prems] at_level_step [OF Cons.prems]
      by (subst find_greater_or_equal.simps) simp
  qed
next
  case (Suc i x B lb)
  from Suc.prems(2) show ?case
  proof (induction B arbitrary: x)
    case Nil
    obtain B' where "at_level s L t i x B'" using at_level_down [OF lv Nil] by auto
    then show ?case using find_iteration_end [OF lv Suc.prems(1) Nil] Suc.IH by (subst find_greater_or_equal.simps) auto
  next
    case (Cons b B)
    then show ?case using find_iteration_walk [OF lv Suc.prems(1) Cons.prems] at_level_step [OF Cons.prems]
      by (subst find_greater_or_equal.simps) simp
  qed
qed

lemma FindGreaterOrEqual_result:
  "levels Compare s L \<Longrightarrow> FindGreaterOrEqual Compare s t = Some (head_of (from_key Compare s t (L 0)))"
  unfolding FindGreaterOrEqual_def by (rule find_greater_result [OF _ _ at_level_start]) auto

end

section \<open>The last node and the estimate\<close>

lemma find_last_result:
  assumes lv: "levels cmp s L" and i: "i < max_height s" and x: "sl_head s # L i = A @ x # B"
  shows "find_last s x i = Some (last (sl_head s # L 0))"
  using i x
proof (induction i arbitrary: A x B)
  case 0
  then show ?case
  proof (induction B arbitrary: A x)
    case Nil
    have "Node_Next (sl_nodes s) x 0 = Some None" using linked_next [of "sl_nodes s" 0 A x "[]"] levels_chain [OF lv 0(1)] Nil(2) by simp
    then have "find_last s x 0 = Some x" by (subst find_last.simps) simp
    then show ?case using Nil(2) by simp
  next
    case (Cons b B)
    have "Node_Next (sl_nodes s) x 0 = Some (Some b)"
      using linked_next [of "sl_nodes s" 0 A x "b # B"] levels_chain [OF lv 0(1)] Cons.prems(2) by simp
    then have "find_last s x 0 = find_last s b 0" by (subst find_last.simps) simp
    then show ?case using Cons.IH [OF 0(1), of "A @ [x]" b] Cons.prems(2) by simp
  qed
next
  case (Suc i)
  from Suc.prems show ?case
  proof (induction B arbitrary: A x)
    case Nil
    have "Node_Next (sl_nodes s) x (Suc i) = Some None"
      using linked_next [of "sl_nodes s" "Suc i" A x "[]"] levels_chain [OF lv Nil(1)] Nil(2) by simp
    then have step: "find_last s x (Suc i) = find_last s x i" by (subst find_last.simps) simp
    have "x \<in> set (sl_head s # L (Suc i))" using Nil(2) by (metis in_set_conv_decomp)
    then have "x \<in> set (sl_head s # L i)" using levels_subset [OF lv, of i "Suc i"] by auto
    then obtain A' B' where "sl_head s # L i = A' @ x # B'" using split_list by metis
    then show ?case using step Suc.IH Nil(1) by simp
  next
    case (Cons b B)
    have "Node_Next (sl_nodes s) x (Suc i) = Some (Some b)"
      using linked_next [of "sl_nodes s" "Suc i" A x "b # B"] levels_chain [OF lv Cons.prems(1)] Cons.prems(2) by simp
    then have "find_last s x (Suc i) = find_last s b (Suc i)" by (subst find_last.simps) simp
    then show ?case using Cons.IH [OF Cons.prems(1), of "A @ [x]" b] Cons.prems(2) by simp
  qed
qed

lemma FindLast_result: "levels cmp s L \<Longrightarrow> FindLast s = Some (last (sl_head s # L 0))"
  unfolding FindLast_def by (rule find_last_result [of _ _ _ _ "[]"]) (auto dest: levels_height)

end
