(* ===== verification/Skip_Insert.thy ===== *)
theory Skip_Insert
  imports Skip_Levels
begin

text \<open>
  Insertion into the skip list: the predecessors that it uses, remembered from the last insertion or found by a search, and the
  links it sets level by level.  Every state between two links is a skip list on its own.
\<close>

section \<open>The state between insertions\<close>

definition skip_inv :: "(bytes \<Rightarrow> bytes \<Rightarrow> int) \<Rightarrow> SkipList \<Rightarrow> (nat \<Rightarrow> nat list) \<Rightarrow> bool" where
  "skip_inv cmp s L \<longleftrightarrow>
     levels cmp s L \<and>
     (\<forall>a \<in> set (L 0). \<exists>n. sl_nodes s a = Some n \<and> (\<forall>i. a \<in> set (L i) \<longleftrightarrow> i < n_height n)) \<and>
     (\<exists>n. sl_nodes s (sl_head s) = Some n \<and> n_height n = unat (kMaxHeight s)) \<and>
     length (sl_prev s) = unat (kMaxHeight s) \<and>
     (if L 0 = [] then sl_prev s ! 0 = sl_head s \<and> prev_height s = 1 \<and> max_height s = 1
      else sl_prev s ! 0 \<in> set (L 0) \<and> (\<forall>i. sl_prev s ! 0 \<in> set (L i) \<longleftrightarrow> i < prev_height s) \<and>
           (\<forall>i. 1 \<le> i \<and> i < max_height s \<longrightarrow>
              sl_prev s ! i = last (sl_head s # before cmp s (node_key_of s (sl_prev s ! 0)) (L i))))"

lemma skip_inv_levels: "skip_inv cmp s L \<Longrightarrow> levels cmp s L"
  by (simp add: skip_inv_def)

lemma skip_inv_height: "skip_inv cmp s L \<Longrightarrow> max_height s \<le> length (sl_prev s)"
  by (auto simp: skip_inv_def levels_def)

section \<open>Predecessors\<close>

lemma copy_first:
  "length (foldl (\<lambda>p i. p[i := p ! 0]) p [1..<h]) = length p \<and>
   (\<forall>j < length p. foldl (\<lambda>p i. p[i := p ! 0]) p [1..<h] ! j = (if 1 \<le> j \<and> j < h then p ! 0 else p ! j))"
proof (induction h)
  case (Suc h)
  show ?case
  proof (cases "1 \<le> h")
    case True
    let ?q = "foldl (\<lambda>p i. p[i := p ! 0]) p [1..<h]"
    have q: "foldl (\<lambda>p i. p[i := p ! 0]) p [1..<Suc h] = ?q[h := ?q ! 0]" using True by simp
    have 0: "?q ! 0 = p ! 0" if "0 < length p" using Suc.IH that by auto
    have "?q[h := ?q ! 0] ! j = (if 1 \<le> j \<and> j < Suc h then p ! 0 else p ! j)" if "j < length p" for j
    proof -
      have "0 < length p" using that by linarith
      then show ?thesis using Suc.IH that True 0 by (cases "j = h") (simp_all add: less_Suc_eq)
    qed
    then show ?thesis using Suc unfolding q by simp
  qed auto
qed simp

lemma fill_head:
  "length (foldl (\<lambda>p i. p[i := x]) p [m..<h]) = length p \<and>
   (\<forall>j < length p. foldl (\<lambda>p i. p[i := x]) p [m..<h] ! j = (if m \<le> j \<and> j < h then x else p ! j))"
proof (induction h)
  case (Suc h)
  then show ?case by (cases "m \<le> h") (auto simp: less_Suc_eq nth_list_update)
qed simp

lemma filter_single: "distinct xs \<Longrightarrow> filter (\<lambda>a. a = p) xs = (if p \<in> set xs then [p] else [])"
  by (induction xs) (auto simp: filter_empty_conv)

context key_comparator
begin

lemma strictly_sorted_distinct: "sorted_wrt (\<lambda>a b. Compare (f a) (f b) < 0) xs \<Longrightarrow> distinct xs"
  by (induction xs) (auto simp: cmp_refl)

text \<open>A key just behind the node of the last insertion has that node and its predecessors as predecessors.\<close>

lemma behind_last_insertion:
  assumes lv: "levels Compare s L" and p: "p \<in> set (L 0)" "Compare (node_key_of s p) key < 0"
    and nx: "Node_Next (sl_nodes s) p 0 = Some n" "\<forall>b. n = Some b \<longrightarrow> \<not> Compare (node_key_of s b) key < 0"
  shows "before Compare s key (L i) = before Compare s (node_key_of s p) (L i) @ (if p \<in> set (L i) then [p] else [])"
proof -
  obtain A B where AB: "L 0 = A @ p # B" using p(1) split_list by metis
  have n: "n = head_of B" using linked_next [of "sl_nodes s" 0 "sl_head s # A" p B] levels_chain [OF lv levels_height [OF lv]] AB nx(1) by simp
  have sorted: "sorted_wrt (\<lambda>a b. Compare (node_key_of s a) (node_key_of s b) < 0) (A @ p # B)" using levels_sorted [OF lv, of 0] AB by simp
  have B: "\<not> Compare (node_key_of s b) key < 0" if "b \<in> set B" for b
  proof (cases B)
    case (Cons c r)
    then have c: "\<not> Compare (node_key_of s c) key < 0" using nx(2) n by simp
    have "b = c \<or> Compare (node_key_of s c) (node_key_of s b) < 0" using sorted Cons that by (auto simp: sorted_wrt_append)
    then show ?thesis using c cmp_less_le [of "node_key_of s c" "node_key_of s b" key] by auto
  qed (use that in simp)
  have iff: "Compare (node_key_of s a) key < 0 \<longleftrightarrow> Compare (node_key_of s a) (node_key_of s p) < 0 \<or> a = p" if a: "a \<in> set (L 0)" for a
  proof -
    consider "a \<in> set A" | "a = p" | "a \<in> set B" using a AB by auto
    then show ?thesis
    proof cases
      case 1
      then have "Compare (node_key_of s a) (node_key_of s p) < 0" using sorted by (auto simp: sorted_wrt_append)
      then show ?thesis using cmp_less_le [of "node_key_of s a" "node_key_of s p" key] p(2) by auto
    next
      case 2
      then show ?thesis using p(2) by simp
    next
      case 3
      then have "Compare (node_key_of s p) (node_key_of s a) < 0" using sorted by (auto simp: sorted_wrt_append)
      then have "\<not> Compare (node_key_of s a) (node_key_of s p) < 0" "a \<noteq> p" using cmp_sym [of "node_key_of s p" "node_key_of s a"] by (auto simp: cmp_refl)
      then show ?thesis using B [OF 3] by simp
    qed
  qed
  have "before Compare s key (L i) = filter (\<lambda>a. Compare (node_key_of s a) (node_key_of s p) < 0 \<or> a = p) (L i)"
    unfolding before_def by (rule filter_cong) (use iff levels_node(3) [OF lv] in blast)+
  also have "\<dots> = filter (\<lambda>a. Compare (node_key_of s a) (node_key_of s p) < 0 \<or> a = p)
      (before Compare s (node_key_of s p) (L i) @ from_key Compare s (node_key_of s p) (L i))"
    using level_split [OF lv, of i "node_key_of s p"] by simp
  also have "\<dots> = before Compare s (node_key_of s p) (L i) @ filter (\<lambda>a. a = p) (from_key Compare s (node_key_of s p) (L i))"
    unfolding before_def from_key_def filter_append filter_filter
    by (intro arg_cong2 [of _ _ _ _ "(@)"] filter_cong) auto
  also have "filter (\<lambda>a. a = p) (from_key Compare s (node_key_of s p) (L i)) = filter (\<lambda>a. a = p) (L i)"
    by (auto simp: from_key_def cmp_refl intro: filter_cong)
  also have "\<dots> = (if p \<in> set (L i) then [p] else [])"
    by (rule filter_single [OF strictly_sorted_distinct [OF levels_sorted [OF lv]]])
  finally show ?thesis .
qed

lemma find_prev_cases:
  assumes "Node_Next (sl_nodes s) (sl_prev s ! 0) 0 = Some n" "sl_prev s ! 0 \<noteq> sl_head s"
    "KeyIsAfterNode cmp (sl_nodes s) key n = Some past" "KeyIsAfterNode cmp (sl_nodes s) key (Some (sl_prev s ! 0)) = Some behind"
  shows "find_prev cmp s key =
    (if \<not> past \<and> behind then Some (foldl (\<lambda>p i. p[i := p ! 0]) (sl_prev s) [1..<prev_height s])
     else do { (x, p) \<leftarrow> FindLessThan cmp s key (Some (sl_prev s)); p })"
  using assms by (auto simp: find_prev_def Let_def)

lemma find_prev_result:
  assumes inv: "skip_inv Compare s L"
  shows "\<exists>p. find_prev Compare s key = Some p \<and> length p = unat (kMaxHeight s) \<and>
    (\<forall>j < max_height s. p ! j = last (sl_head s # before Compare s key (L j)))"
proof -
  note lv = skip_inv_levels [OF inv]
  let ?p = "sl_prev s ! 0"
  have len: "length (sl_prev s) = unat (kMaxHeight s)" using inv by (simp add: skip_inv_def)
  have mh: "0 < max_height s" "max_height s \<le> length (sl_prev s)" using levels_height [OF lv] skip_inv_height [OF inv] by auto
  show ?thesis
  proof (cases "L 0 = []")
    case True
    then have e: "?p = sl_head s" "prev_height s = 1" "max_height s = 1" using inv by (simp_all add: skip_inv_def)
    have "Node_Next (sl_nodes s) ?p 0 = Some None" using levels_chain [OF lv mh(1)] True e(1) by simp
    then have "find_prev Compare s key = Some (sl_prev s)" using e by (simp add: find_prev_def KeyIsAfterNode_def)
    then show ?thesis using True e len by (simp add: before_def)
  next
    case False
    then have p: "?p \<in> set (L 0)" "\<forall>i. ?p \<in> set (L i) \<longleftrightarrow> i < prev_height s"
        "\<forall>i. 1 \<le> i \<and> i < max_height s \<longrightarrow> sl_prev s ! i = last (sl_head s # before Compare s (node_key_of s ?p) (L i))"
      using inv unfolding skip_inv_def by metis+
    obtain A B where AB: "L 0 = A @ ?p # B" using p(1) split_list by metis
    have nx: "Node_Next (sl_nodes s) ?p 0 = Some (head_of B)"
      using linked_next [of "sl_nodes s" 0 "sl_head s # A" ?p B] levels_chain [OF lv mh(1)] AB by simp
    have kb: "Node_key (sl_nodes s) b = Some (node_key_of s b)" if "head_of B = Some b" for b
      by (rule levels_node(1) [OF lv, of _ 0]) (use that AB in \<open>auto simp: head_of_def split: list.splits\<close>)
    note kp = levels_node(1,2) [OF lv p(1)]
    let ?past = "\<exists>b. head_of B = Some b \<and> Compare (node_key_of s b) key < 0"
    have "KeyIsAfterNode Compare (sl_nodes s) key (head_of B) = Some ?past" using kb by (cases "head_of B") (simp_all add: KeyIsAfterNode_def)
    moreover have "KeyIsAfterNode Compare (sl_nodes s) key (Some ?p) = Some (Compare (node_key_of s ?p) key < 0)"
      using kp(1) by (simp add: KeyIsAfterNode_def)
    ultimately have found: "find_prev Compare s key =
        (if \<not> ?past \<and> Compare (node_key_of s ?p) key < 0 then Some (foldl (\<lambda>p i. p[i := p ! 0]) (sl_prev s) [1..<prev_height s])
         else do { (x, p) \<leftarrow> FindLessThan Compare s key (Some (sl_prev s)); p })"
      by (intro find_prev_cases [OF nx kp(2)])
    show ?thesis
    proof (cases "\<not> ?past \<and> Compare (node_key_of s ?p) key < 0")
      case True
      let ?q = "foldl (\<lambda>p i. p[i := p ! 0]) (sl_prev s) [1..<prev_height s]"
      have fast: "find_prev Compare s key = Some ?q"
        unfolding found using True by (rule if_P)
      have "?q ! j = last (sl_head s # before Compare s key (L j))" if j: "j < max_height s" for j
      proof -
        have "?q ! j = (if 1 \<le> j \<and> j < prev_height s then ?p else sl_prev s ! j)" using copy_first [of "sl_prev s" "prev_height s"] j mh by simp
        moreover have "before Compare s key (L j) =
            before Compare s (node_key_of s ?p) (L j) @ (if ?p \<in> set (L j) then [?p] else [])"
          by (rule behind_last_insertion [OF lv p(1) _ nx]) (use True in auto)
        moreover have "j = 0 \<Longrightarrow> ?p \<in> set (L j)" using p(1) by simp
        ultimately show ?thesis using spec [OF p(2), of j] spec [OF p(3), of j] j by (cases "j = 0"; cases "j < prev_height s") simp_all
      qed
      then show ?thesis using fast copy_first [of "sl_prev s" "prev_height s"] len by auto
    next
      case False
      obtain q where q: "FindLessThan Compare s key (Some (sl_prev s)) = Some (last (sl_head s # before Compare s key (L 0)), Some q)"
          "length q = length (sl_prev s)" "\<forall>j < max_height s. q ! j = last (sl_head s # before Compare s key (L j))"
        using FindLessThan_result(2) [OF lv mh(2)] by blast
      have "find_prev Compare s key = do { (x, p) \<leftarrow> FindLessThan Compare s key (Some (sl_prev s)); p }"
        unfolding found using False by (rule if_not_P)
      then show ?thesis using q len by simp
    qed
  qed
qed

end

section \<open>Heights\<close>

lemma random_height_range:
  "height \<le> kMax \<Longrightarrow> height \<le> fst (random_height_loop kMax kScaled height rnd) \<and> fst (random_height_loop kMax kScaled height rnd) \<le> kMax"
proof (induction kMax kScaled height rnd rule: random_height_loop.induct)
  case (1 kMax kScaled height rnd)
  obtain x rnd' where r: "Random_Next rnd = (x, rnd')" by (cases "Random_Next rnd")
  show ?case
  proof (cases "height < kMax \<and> x < kScaled")
    case True
    then have "random_height_loop kMax kScaled height rnd = random_height_loop kMax kScaled (height + 1) rnd'"
      by (subst random_height_loop.simps) (simp add: r)
    moreover have "Suc height \<le> fst (random_height_loop kMax kScaled (height + 1) rnd') \<and> fst (random_height_loop kMax kScaled (height + 1) rnd') \<le> kMax"
      using 1(1) [of "(x, rnd')" x rnd'] True r by simp
    ultimately show ?thesis by simp
  next
    case False
    then have "fst (random_height_loop kMax kScaled height rnd) = height"
      by (subst random_height_loop.simps) (auto simp: r)
    then show ?thesis using 1(2) by simp
  qed
qed

lemma RandomHeight_range:
  assumes "0 < unat (kMaxHeight s)"
  shows "\<exists>h rnd'. RandomHeight s rnd = Some (h, rnd') \<and> 1 \<le> h \<and> h \<le> unat (kMaxHeight s)"
proof -
  obtain h rnd' where "random_height_loop (unat (kMaxHeight s)) (kScaledInverseBranching s) 1 rnd = (h, rnd')" by (rule prod.exhaust)
  then show ?thesis
    using random_height_range [of 1 "unat (kMaxHeight s)" "kScaledInverseBranching s" rnd] assms by (simp add: RandomHeight_def)
qed

section \<open>Links\<close>

lemma Node_SetNext_next:
  "Node_SetNext st a n p = Some st' \<Longrightarrow> Node_Next st' b m = (if b = a \<and> m = n then Some p else Node_Next st b m)"
  by (auto simp: Node_SetNext_def Node_Next_def assert_def split: bind_splits if_splits)

text \<open>The parts of the store that a link does not change.\<close>

definition same_nodes :: "node_store \<Rightarrow> node_store \<Rightarrow> bool" where
  "same_nodes st st' \<longleftrightarrow> (\<forall>a. map_option n_key (st' a) = map_option n_key (st a) \<and> map_option n_height (st' a) = map_option n_height (st a))"

lemma same_nodes_refl: "same_nodes st st"
  by (simp add: same_nodes_def)

lemma same_nodes_trans: "same_nodes st st1 \<Longrightarrow> same_nodes st1 st2 \<Longrightarrow> same_nodes st st2"
  by (simp add: same_nodes_def)

lemma same_nodes_key:
  assumes "same_nodes st st'"
  shows "Node_key st' a = Node_key st a"
proof -
  have "map_option n_key (st' a) = map_option n_key (st a)" using assms by (simp add: same_nodes_def)
  then show ?thesis by (cases "st a"; cases "st' a") (simp_all add: Node_key_def)
qed

lemma Node_SetNext_ok:
  assumes "map_option n_height (st a) = Some h" "n < h"
  shows "\<exists>st'. Node_SetNext st a n p = Some st' \<and> same_nodes st st'"
  using assms by (auto simp: Node_SetNext_def same_nodes_def)

text \<open>A node between two neighbours of a chain.\<close>

lemma linked_insert:
  assumes "linked st i (A @ x # B)" "distinct (A @ x # B)" "y \<notin> set (A @ x # B)"
    "\<And>b. Node_Next st' b i = (if b = x then Some (Some y) else if b = y then Some (head_of B) else Node_Next st b i)"
  shows "linked st' i (A @ x # y # B)"
  using assms(1-3)
proof (induction A)
  case Nil
  have "linked st' i B \<longleftrightarrow> linked st i B" by (rule linked_cong) (use Nil assms(4) in auto)
  then show ?case using Nil assms(4) by (auto simp: linked_Cons)
next
  case (Cons a A)
  then show ?case using assms(4) by (auto simp: linked_Cons head_of_append)
qed

section \<open>Inserting a node\<close>

text \<open>The levels when the new node is linked at the levels below \<open>j\<close>.\<close>

definition with_node :: "(bytes \<Rightarrow> bytes \<Rightarrow> int) \<Rightarrow> SkipList \<Rightarrow> (nat \<Rightarrow> nat list) \<Rightarrow> bytes \<Rightarrow> nat \<Rightarrow> nat \<Rightarrow> nat \<Rightarrow> nat list" where
  "with_node cmp s L key addr j i =
     (if i < j then before cmp s key (L i) @ addr # from_key cmp s key (L i) else L i)"

text \<open>What an insertion knows before it sets the first link.\<close>

definition insert_ready ::
  "(bytes \<Rightarrow> bytes \<Rightarrow> int) \<Rightarrow> SkipList \<Rightarrow> (nat \<Rightarrow> nat list) \<Rightarrow> bytes \<Rightarrow> nat \<Rightarrow> nat \<Rightarrow> nat list \<Rightarrow> bool" where
  "insert_ready cmp s L key addr h p \<longleftrightarrow>
     levels cmp s L \<and> sl_nodes s addr = None \<and> (\<forall>a \<in> set (L 0). cmp (node_key_of s a) key \<noteq> 0) \<and> 1 \<le> h \<and> h \<le> unat (kMaxHeight s) \<and>
     (\<forall>i. \<forall>a \<in> set (L i). \<exists>n. sl_nodes s a = Some n \<and> i < n_height n) \<and>
     (\<exists>n. sl_nodes s (sl_head s) = Some n \<and> n_height n = unat (kMaxHeight s)) \<and>
     (\<forall>i < h. p ! i = last (sl_head s # before cmp s key (L i)))"

definition link_state ::
  "(bytes \<Rightarrow> bytes \<Rightarrow> int) \<Rightarrow> SkipList \<Rightarrow> (nat \<Rightarrow> nat list) \<Rightarrow> bytes \<Rightarrow> nat \<Rightarrow> nat \<Rightarrow> nat \<Rightarrow> node_store \<Rightarrow> bool" where
  "link_state cmp s L key addr h j st \<longleftrightarrow>
     (\<forall>i < unat (kMaxHeight s). linked st i (sl_head s # with_node cmp s L key addr j i)) \<and>
     same_nodes (NewNode addr (Some key) h (sl_nodes s)) st"

lemma insert_ready_fresh:
  assumes "insert_ready cmp s L key addr h p"
  shows "addr \<noteq> sl_head s" "addr \<notin> set (L i)"
  using assms unfolding insert_ready_def by (metis option.distinct(1))+

lemma link_state_0:
  assumes r: "insert_ready cmp s L key addr h p"
  shows "link_state cmp s L key addr h 0 (NewNode addr (Some key) h (sl_nodes s))"
proof -
  have "linked (NewNode addr (Some key) h (sl_nodes s)) i (sl_head s # L i) \<longleftrightarrow> linked (sl_nodes s) i (sl_head s # L i)" for i
    by (rule linked_cong) (use insert_ready_fresh [OF r] in \<open>auto simp: NewNode_def Node_Next_def\<close>)
  then show ?thesis using r by (auto simp: link_state_def with_node_def same_nodes_refl insert_ready_def levels_def)
qed

context key_comparator
begin

text \<open>One round of the loop: the link of the new node, then the link of its predecessor.\<close>

lemma link_round:
  assumes r: "insert_ready Compare s L key addr h p" and ls: "link_state Compare s L key addr h j st" and j: "j < h"
  shows "\<exists>n st1 st2. Node_Next st (p ! j) j = Some n \<and> Node_SetNext st addr j n = Some st1 \<and>
    Node_SetNext st1 (p ! j) j (Some addr) = Some st2 \<and>
    link_state Compare s L key addr h j st1 \<and> link_state Compare s L key addr h (Suc j) st2"
proof -
  let ?b = "before Compare s key (L j)" and ?f = "from_key Compare s key (L j)"
  have lv: "levels Compare s L" and jk: "j < unat (kMaxHeight s)" using r j by (auto simp: insert_ready_def)
  note fresh = insert_ready_fresh [OF r]
  have pj: "p ! j = last (sl_head s # ?b)" using r j by (simp add: insert_ready_def)
  define A where "A = butlast (sl_head s # ?b)"
  have A: "sl_head s # ?b = A @ [p ! j]" unfolding A_def pj by simp
  have chain: "sl_head s # L j = A @ p ! j # ?f"
    using level_split [OF lv, of j key] A by (metis append.assoc append_Cons append_Nil)
  have lk: "linked st j (A @ p ! j # ?f)" using ls jk chain by (auto simp: link_state_def with_node_def)
  have same: "same_nodes (NewNode addr (Some key) h (sl_nodes s)) st" using ls by (simp add: link_state_def)
  have "map_option n_height (st addr) = Some h" using same by (simp add: same_nodes_def NewNode_def)
  then obtain st1 where st1: "Node_SetNext st addr j (head_of ?f) = Some st1" "same_nodes st st1" using Node_SetNext_ok j by blast
  have pn: "p ! j \<in> set (sl_head s # L j)" unfolding chain by simp
  then have pa: "p ! j \<noteq> addr" using fresh by auto
  from pn obtain hp where hp: "map_option n_height (sl_nodes s (p ! j)) = Some hp" "j < hp"
    using r jk unfolding insert_ready_def by (metis list.set_cases option.simps(9) set_ConsD)
  then have "map_option n_height (st1 (p ! j)) = Some hp"
    using same_nodes_trans [OF same st1(2)] pa by (simp add: same_nodes_def NewNode_def)
  then obtain st2 where st2: "Node_SetNext st1 (p ! j) j (Some addr) = Some st2" "same_nodes st1 st2" using Node_SetNext_ok hp(2) by blast
  note n1 = Node_SetNext_next [OF st1(1)] and n2 = Node_SetNext_next [OF st2(1)]
  have "linked st1 i (sl_head s # with_node Compare s L key addr j i) \<longleftrightarrow> linked st i (sl_head s # with_node Compare s L key addr j i)" for i
    by (rule linked_cong) (use fresh n1 in \<open>auto simp: with_node_def\<close>)
  then have "link_state Compare s L key addr h j st1"
    using ls same_nodes_trans [OF same st1(2)] by (simp add: link_state_def)
  moreover have "linked st2 i (sl_head s # with_node Compare s L key addr (Suc j) i)" if i: "i < unat (kMaxHeight s)" for i
  proof (cases "i = j")
    case True
    have "linked st2 j (A @ p ! j # addr # ?f)"
    proof (rule linked_insert [OF lk])
      show "distinct (A @ p ! j # ?f)" unfolding chain [symmetric]
        using strictly_sorted_distinct [OF levels_sorted [OF lv, of j]] levels_node(2) [OF lv] by auto
      show "addr \<notin> set (A @ p ! j # ?f)" unfolding chain [symmetric] using fresh by simp
      show "Node_Next st2 b j = (if b = p ! j then Some (Some addr) else if b = addr then Some (head_of ?f) else Node_Next st b j)" for b
        using n1 n2 by simp
    qed
    moreover have "sl_head s # with_node Compare s L key addr (Suc j) j = A @ p ! j # addr # ?f"
      using A by (simp add: with_node_def)
    ultimately show ?thesis using True by simp
  next
    case False
    then have "with_node Compare s L key addr (Suc j) i = with_node Compare s L key addr j i" by (simp add: with_node_def)
    moreover have "linked st2 i xs \<longleftrightarrow> linked st i xs" for xs by (rule linked_cong) (use False n1 n2 in simp)
    ultimately show ?thesis using ls i by (simp add: link_state_def)
  qed
  then have "link_state Compare s L key addr h (Suc j) st2"
    using same_nodes_trans [OF same_nodes_trans [OF same st1(2)] st2(2)] by (simp add: link_state_def)
  ultimately show ?thesis using linked_next [OF lk] st1(1) st2(1) by blast
qed

lemma link_levels_result:
  assumes r: "insert_ready Compare s L key addr h p"
  shows "link_state Compare s L key addr h j st \<Longrightarrow> j \<le> h \<Longrightarrow>
    \<exists>st'. link_levels addr p [j..<h] st = Some st' \<and> link_state Compare s L key addr h h st'"
proof (induction "h - j" arbitrary: j st)
  case (Suc n)
  then have j: "j < h" by simp
  obtain nx st1 st2 where s: "Node_Next st (p ! j) j = Some nx" "Node_SetNext st addr j nx = Some st1"
      "Node_SetNext st1 (p ! j) j (Some addr) = Some st2" "link_state Compare s L key addr h (Suc j) st2"
    using link_round [OF r Suc.prems(1) j] by blast
  have "n = h - Suc j" using Suc.hyps(2) by simp
  from Suc.hyps(1) [OF this s(4)] j
  obtain st' where "link_levels addr p [Suc j..<h] st2 = Some st'" "link_state Compare s L key addr h h st'" by auto
  then show ?case using s(1-3) upt_conv_Cons [OF j] by simp
qed simp

text \<open>Between two links the list is a skip list for the readers, with the new node at the levels below \<open>j\<close>.\<close>

lemma link_state_keys:
  assumes r: "insert_ready Compare s L key addr h p" and ls: "link_state Compare s L key addr h j st"
  shows "Node_key st addr = Some key" "a \<in> set (L i) \<Longrightarrow> Node_key st a = Node_key (sl_nodes s) a"
proof -
  have k: "Node_key st b = Node_key (NewNode addr (Some key) h (sl_nodes s)) b" for b
    using ls same_nodes_key by (auto simp: link_state_def)
  show "Node_key st addr = Some key" unfolding k by (simp add: NewNode_def Node_key_def)
  show "Node_key st a = Node_key (sl_nodes s) a" if "a \<in> set (L i)"
    using insert_ready_fresh(2) [OF r, of i] that unfolding k by (auto simp: NewNode_def Node_key_def)
qed

lemma link_state_levels:
  assumes r: "insert_ready Compare s L key addr h p" and ls: "link_state Compare s L key addr h j st"
    and s': "kMaxHeight s' = kMaxHeight s" "sl_head s' = sl_head s" "sl_nodes s' = st" "max_height s \<le> max_height s'"
      "j \<le> max_height s'" "max_height s' \<le> unat (kMaxHeight s)"
  shows "levels Compare s' (with_node Compare s L key addr j)"
proof -
  let ?L = "with_node Compare s L key addr j"
  have lv: "levels Compare s L" and ne: "\<forall>a \<in> set (L 0). Compare (node_key_of s a) key \<noteq> 0" using r by (simp_all add: insert_ready_def)
  note fresh = insert_ready_fresh [OF r] and keys = link_state_keys [OF r ls]
  have key: "node_key_of s' addr = key" "a \<in> set (L i) \<Longrightarrow> node_key_of s' a = node_key_of s a" for a i
    using keys s'(3) by (simp_all add: node_key_of_def)
  have mem: "a \<in> set (?L i) \<longleftrightarrow> a \<in> set (L i) \<or> i < j \<and> a = addr" for a i
    by (auto simp: with_node_def before_def from_key_def)
  have sub: "set (L (Suc i)) \<subseteq> set (L i)" for i using lv by (simp add: levels_def)
  have sorted: "sorted_wrt (\<lambda>a b. Compare (node_key_of s' a) (node_key_of s' b) < 0) (?L i)" for i
  proof -
    have old: "sorted_wrt (\<lambda>a b. Compare (node_key_of s' a) (node_key_of s' b) < 0) (L i)"
      using levels_sorted [OF lv, of i] by (rule sorted_wrt_mono_rel [rotated]) (simp add: key(2))
    have gt: "Compare key (node_key_of s' a) < 0" if "a \<in> set (from_key Compare s key (L i))" for a
    proof -
      have a: "a \<in> set (L i)" "\<not> Compare (node_key_of s a) key < 0" using that by (auto simp: from_key_def)
      then have "Compare (node_key_of s a) key > 0" using ne levels_node(3) [OF lv a(1)] by (metis linorder_neqE)
      then show ?thesis using cmp_sym [of key "node_key_of s a"] key(2) [OF a(1)] by simp
    qed
    have lt: "Compare (node_key_of s' a) key < 0" if "a \<in> set (before Compare s key (L i))" for a
      using that key(2) [of a i] by (auto simp: before_def)
    have "sorted_wrt (\<lambda>a b. Compare (node_key_of s' a) (node_key_of s' b) < 0) (before Compare s key (L i) @ from_key Compare s key (L i))"
      using old level_split [OF lv, of i key] by simp
    then show ?thesis using old key(1) gt lt by (cases "i < j") (auto simp: with_node_def sorted_wrt_append)
  qed
  show ?thesis
    unfolding levels_def
  proof (intro conjI allI impI ballI)
    show "1 \<le> max_height s'" using levels_height [OF lv] s'(4) by simp
    show "max_height s' \<le> unat (kMaxHeight s')" using s' by simp
    show "linked (sl_nodes s') i (sl_head s' # ?L i)" if "i < unat (kMaxHeight s')" for i using ls that s' by (simp add: link_state_def)
    show "set (?L (Suc i)) \<subseteq> set (?L i)" for i using mem sub [of i] by auto
    show "?L i = []" if "max_height s' \<le> i" for i using that lv s'(4,5) by (auto simp: with_node_def levels_def)
    show "sorted_wrt (\<lambda>a b. Compare (node_key_of s' a) (node_key_of s' b) < 0) (?L i)" for i by (rule sorted)
    show "sl_head s' \<notin> set (?L 0)" using mem levels_node(2) [OF lv] fresh(1) s'(2) by auto
    show "Node_key (sl_nodes s') a \<noteq> None" if "a \<in> set (?L 0)" for a
      using that mem keys levels_node(1) [OF lv] s'(3) by (metis option.distinct(1))
  qed
qed

text \<open>The whole insertion.\<close>

lemma skip_inv_ready:
  assumes inv: "skip_inv Compare s L" and "sl_nodes s addr = None" "\<forall>a \<in> set (L 0). Compare (node_key_of s a) key \<noteq> 0"
    and "1 \<le> h" "h \<le> unat (kMaxHeight s)" "\<forall>i < h. p ! i = last (sl_head s # before Compare s key (L i))"
  shows "insert_ready Compare s L key addr h p"
proof -
  have "\<exists>n. sl_nodes s a = Some n \<and> i < n_height n" if "a \<in> set (L i)" for a i
    using inv levels_node(3) [OF skip_inv_levels [OF inv] that] that by (auto simp: skip_inv_def)
  then show ?thesis using assms by (auto simp: insert_ready_def skip_inv_def)
qed

end

end
