(* ===== verification/Skip_Properties.thy ===== *)
theory Skip_Properties
  imports Skip_Insert Block_Cursor
begin

text \<open>
  The skip list as a sorted set of keys with an iterator: the effect of one insertion, of every operation of the iterator, and of
  any sequence of them.
\<close>

section \<open>Insertion\<close>

definition insert_key :: "(bytes \<Rightarrow> bytes \<Rightarrow> int) \<Rightarrow> bytes \<Rightarrow> bytes list \<Rightarrow> bytes list" where
  "insert_key cmp key ks = filter (\<lambda>k. cmp k key < 0) ks @ key # filter (\<lambda>k. \<not> cmp k key < 0) ks"

definition keys_of :: "SkipList \<Rightarrow> (nat \<Rightarrow> nat list) \<Rightarrow> bytes list" where
  "keys_of s L = map (node_key_of s) (L 0)"

context key_comparator
begin

lemma with_node_inv:
  assumes inv: "skip_inv Compare s L" and r: "insert_ready Compare s L key addr h p" and ls: "link_state Compare s L key addr h h st"
    and len: "length p = unat (kMaxHeight s)" and mh: "mh = max h (max_height s)"
    and p: "\<forall>i < mh. p ! i = last (sl_head s # before Compare s key (L i))"
  shows "skip_inv Compare (s\<lparr>max_height := mh, sl_nodes := st, sl_prev := p[0 := addr], prev_height := h\<rparr>) (with_node Compare s L key addr h)"
    (is "skip_inv Compare ?s ?L")
proof -
  have lv: "levels Compare s L" and h: "1 \<le> h" "h \<le> unat (kMaxHeight s)" using r by (simp_all add: insert_ready_def)
  have mhk: "max_height s \<le> unat (kMaxHeight s)" using lv by (simp add: levels_def)
  have lv': "levels Compare ?s ?L" by (rule link_state_levels [OF r ls]) (use mh h mhk in auto)
  note fresh = insert_ready_fresh [OF r] and keys = link_state_keys [OF r ls]
  have mem: "a \<in> set (?L i) \<longleftrightarrow> a \<in> set (L i) \<or> i < h \<and> a = addr" for a i
    by (auto simp: with_node_def before_def from_key_def)
  have same: "same_nodes (NewNode addr (Some key) h (sl_nodes s)) st" using ls by (simp add: link_state_def)
  have ht: "map_option n_height (st a) = (if a = addr then Some h else map_option n_height (sl_nodes s a))" for a
    using same by (simp add: same_nodes_def NewNode_def)
  have heights: "\<exists>n. st a = Some n \<and> (\<forall>i. a \<in> set (?L i) \<longleftrightarrow> i < n_height n)" if "a \<in> set (?L 0)" for a
  proof (cases "a = addr")
    case True
    then show ?thesis using ht [of addr] mem fresh(2) by auto
  next
    case False
    then have "a \<in> set (L 0)" using that mem by auto
    then obtain n where "sl_nodes s a = Some n" "\<forall>i. a \<in> set (L i) \<longleftrightarrow> i < n_height n" using inv by (auto simp: skip_inv_def)
    then show ?thesis using ht [of a] mem False by auto
  qed
  have head: "\<exists>n. st (sl_head s) = Some n \<and> n_height n = unat (kMaxHeight s)"
    using inv ht [of "sl_head s"] fresh(1) by (auto simp: skip_inv_def)
  have "before Compare ?s key (?L i) = before Compare s key (L i)" for i
  proof -
    have k: "node_key_of ?s addr = key" "\<And>a. a \<in> set (L i) \<Longrightarrow> node_key_of ?s a = node_key_of s a"
      using keys by (simp_all add: node_key_of_def)
    have old: "before Compare ?s key xs = before Compare s key xs" if "set xs \<subseteq> set (L i)" for xs
      unfolding before_def by (rule filter_cong) (use k(2) that in auto)
    have "before Compare s key (before Compare s key (L i)) = before Compare s key (L i)" "before Compare s key (from_key Compare s key (L i)) = []"
      by (simp_all add: before_def from_key_def)
    moreover have "set (before Compare s key (L i)) \<subseteq> set (L i)" "set (from_key Compare s key (L i)) \<subseteq> set (L i)" by (auto simp: before_def from_key_def)
    moreover have "before Compare ?s key (addr # xs) = before Compare ?s key xs" for xs using k(1) by (simp add: before_def cmp_refl)
    moreover have "before Compare ?s key (xs @ ys) = before Compare ?s key xs @ before Compare ?s key ys" for xs ys by (simp add: before_def)
    ultimately show ?thesis using old by (simp add: with_node_def)
  qed
  then have prev: "p[0 := addr] ! i = last (sl_head s # before Compare ?s (node_key_of ?s addr) (?L i))" if "1 \<le> i" "i < mh" for i
    using p that keys(1) by (simp add: node_key_of_def)
  have p0: "p[0 := addr] ! 0 = addr" using len h by simp
  have "?L 0 \<noteq> []" using h(1) by (simp add: with_node_def)
  then show ?thesis
    unfolding skip_inv_def using lv' heights head len prev p0 mem [of addr] fresh(2) h(1) by auto
qed

text \<open>The next node after the predecessors, which the check for duplicates looks at.\<close>

lemma predecessor_next:
  assumes lv: "levels Compare s L" and p: "p = last (sl_head s # before Compare s key (L 0))"
  shows "Node_Next (sl_nodes s) p 0 = Some (head_of (from_key Compare s key (L 0)))"
proof -
  have "at_level s L key 0 (sl_head s) (before Compare s key (L 0))" using levels_height [OF lv] by (auto simp: at_level_def)
  then show ?thesis using at_level_next [OF lv at_level_last] p by fastforce
qed

lemma insert_prepare_duplicate:
  assumes inv: "skip_inv Compare s L" and a: "a \<in> set (L 0)" "Compare (node_key_of s a) key = 0"
  shows "insert_prepare Compare key rnd s = None"
proof -
  note lv = skip_inv_levels [OF inv]
  obtain p where p: "find_prev Compare s key = Some p" "\<forall>j < max_height s. p ! j = last (sl_head s # before Compare s key (L j))"
    using find_prev_result [OF inv] by blast
  have "p ! 0 = last (sl_head s # before Compare s key (L 0))" using p(2) levels_height [OF lv] by blast
  then have "Node_Next (sl_nodes s) (p ! 0) 0 = Some (Some a)" using predecessor_next [OF lv] equal_is_first [OF lv a] by simp
  moreover have "Compare key (node_key_of s a) = 0" using a(2) cmp_sym [of key "node_key_of s a"] cmp_sym [of "node_key_of s a" key] by linarith
  ultimately show ?thesis using p(1) levels_node(1) [OF lv a(1)] by (simp add: insert_prepare_def)
qed

lemma insert_prepare_result:
  assumes inv: "skip_inv Compare s L" and new: "\<forall>a \<in> set (L 0). Compare (node_key_of s a) key \<noteq> 0"
  shows "\<exists>p h rnd'. insert_prepare Compare key rnd s = Some (p, max h (max_height s), h, rnd') \<and> 1 \<le> h \<and> h \<le> unat (kMaxHeight s) \<and>
    length p = unat (kMaxHeight s) \<and> (\<forall>j < max h (max_height s). p ! j = last (sl_head s # before Compare s key (L j)))"
proof -
  note lv = skip_inv_levels [OF inv]
  have km: "0 < unat (kMaxHeight s)" "max_height s \<le> unat (kMaxHeight s)" using lv by (auto simp: levels_def)
  obtain p where p: "find_prev Compare s key = Some p" "length p = unat (kMaxHeight s)"
      "\<forall>j < max_height s. p ! j = last (sl_head s # before Compare s key (L j))"
    using find_prev_result [OF inv] by blast
  obtain h rnd' where h: "RandomHeight s rnd = Some (h, rnd')" "1 \<le> h" "h \<le> unat (kMaxHeight s)" using RandomHeight_range [OF km(1)] by blast
  define p' where "p' = (if h > max_height s then foldl (\<lambda>p i. p[i := sl_head s]) p [max_height s..<h] else p)"
  have len: "length p' = unat (kMaxHeight s)" using fill_head [of "sl_head s" p "max_height s" h] p(2) by (simp add: p'_def)
  have p': "p' ! j = last (sl_head s # before Compare s key (L j))" if j: "j < max h (max_height s)" for j
  proof -
    have "before Compare s key (L j) = []" if "max_height s \<le> j" using lv that by (simp add: levels_def before_def)
    then show ?thesis
      using fill_head [of "sl_head s" p "max_height s" h] p(2,3) j h(3) km(2) unfolding p'_def by (cases "max_height s \<le> j") auto
  qed
  have "p ! 0 = last (sl_head s # before Compare s key (L 0))" using p(3) levels_height [OF lv] by blast
  then have nx: "Node_Next (sl_nodes s) (p ! 0) 0 = Some (head_of (from_key Compare s key (L 0)))" by (rule predecessor_next [OF lv])
  have "(case head_of (from_key Compare s key (L 0)) of None \<Rightarrow> Some False
      | Some b \<Rightarrow> do { k \<leftarrow> Node_key (sl_nodes s) b; Some (Compare key k = 0) }) = Some False"
  proof (cases "head_of (from_key Compare s key (L 0))")
    case (Some b)
    note b = from_key_node [OF lv Some]
    have "Compare key (node_key_of s b) \<noteq> 0" using new b(1) cmp_sym [of key "node_key_of s b"] cmp_sym [of "node_key_of s b" key] by force
    then show ?thesis using Some b(3) by simp
  qed simp
  then have "insert_prepare Compare key rnd s = Some (p', max h (max_height s), h, rnd')"
    using p(1) nx h(1) unfolding insert_prepare_def p'_def by (cases "max_height s < h") (simp_all add: max_def)
  then show ?thesis using h(2,3) len p' by blast
qed

lemma keys_of_with_node:
  assumes r: "insert_ready Compare s L key addr h p" and ls: "link_state Compare s L key addr h j (sl_nodes s')"
  shows "keys_of s' (with_node Compare s L key addr j) = (if j = 0 then keys_of s L else insert_key Compare key (keys_of s L))"
    "a \<in> set (L i) \<Longrightarrow> node_key_of s' a = node_key_of s a"
proof -
  note keys = link_state_keys [OF r ls]
  show old: "node_key_of s' a = node_key_of s a" if "a \<in> set (L i)" for a i using keys(2) [OF that] by (simp add: node_key_of_def)
  have "map (node_key_of s') (filter P (L 0)) = map (node_key_of s) (filter P (L 0))" "map (node_key_of s') (L 0) = map (node_key_of s) (L 0)" for P
    using old [of _ 0] by simp_all
  moreover have "filter (\<lambda>k. Q k) (map f xs) = map f (filter (\<lambda>a. Q (f a)) xs)" for Q :: "bytes \<Rightarrow> bool" and f and xs :: "nat list"
    by (simp add: filter_map comp_def)
  ultimately show "keys_of s' (with_node Compare s L key addr j) = (if j = 0 then keys_of s L else insert_key Compare key (keys_of s L))"
    using keys(1) by (simp add: keys_of_def insert_key_def with_node_def before_def from_key_def node_key_of_def)
qed

lemma Skip_Insert_result:
  assumes inv: "skip_inv Compare s L" and fresh: "sl_nodes s addr = None" and new: "\<forall>a \<in> set (L 0). Compare (node_key_of s a) key \<noteq> 0"
  shows "\<exists>rnd' s' h. Skip_Insert Compare addr key rnd s = Some (rnd', s') \<and> skip_inv Compare s' (with_node Compare s L key addr h) \<and>
    keys_of s' (with_node Compare s L key addr h) = insert_key Compare key (keys_of s L) \<and> sl_head s' = sl_head s \<and>
    (\<forall>a. a \<noteq> addr \<and> sl_nodes s a = None \<longrightarrow> sl_nodes s' a = None) \<and>
    (\<forall>a \<in> set (L 0). a \<in> set (with_node Compare s L key addr h 0) \<and> node_key_of s' a = node_key_of s a)"
proof -
  obtain p h rnd' where p: "insert_prepare Compare key rnd s = Some (p, max h (max_height s), h, rnd')" "1 \<le> h" "h \<le> unat (kMaxHeight s)"
      "length p = unat (kMaxHeight s)" "\<forall>j < max h (max_height s). p ! j = last (sl_head s # before Compare s key (L j))"
    using insert_prepare_result [OF inv new, of rnd] by blast
  have r: "insert_ready Compare s L key addr h p" by (rule skip_inv_ready [OF inv fresh new p(2,3)]) (use p(5) in simp)
  obtain st where st: "link_levels addr p [0..<h] (NewNode addr (Some key) h (sl_nodes s)) = Some st" "link_state Compare s L key addr h h st"
    using link_levels_result [OF r link_state_0 [OF r]] by auto
  let ?s = "s\<lparr>max_height := max h (max_height s), sl_nodes := st, sl_prev := p[0 := addr], prev_height := h\<rparr>"
  have "Skip_Insert Compare addr key rnd s = Some (rnd', ?s)" using p(1) st(1) by (simp add: Skip_Insert_def)
  moreover have "skip_inv Compare ?s (with_node Compare s L key addr h)" by (rule with_node_inv [OF inv r st(2) p(4) refl p(5)])
  moreover have "sl_nodes ?s a = None" if "a \<noteq> addr \<and> sl_nodes s a = None" for a
  proof -
    have "map_option n_height (st a) = None" using st(2) that by (simp add: link_state_def same_nodes_def NewNode_def)
    then show ?thesis by simp
  qed
  moreover have "a \<in> set (with_node Compare s L key addr h 0)" if "a \<in> set (L 0)" for a using that by (auto simp: with_node_def before_def from_key_def)
  moreover have "link_state Compare s L key addr h h (sl_nodes ?s)" using st(2) by simp
  note keys_of_with_node [OF r this]
  ultimately show ?thesis using p(2) by (intro exI [of _ rnd'] exI [of _ ?s] exI [of _ h]) simp
qed

end

section \<open>A new list\<close>

lemma clear_head_result:
  assumes "map_option n_height (st head) = Some h" "\<forall>i \<in> set is. i < h"
  shows "\<exists>st'. clear_head head is st = Some st' \<and> same_nodes st st' \<and>
    (\<forall>b m. Node_Next st' b m = (if b = head \<and> m \<in> set is then Some None else Node_Next st b m))"
  using assms
proof (induction "is" arbitrary: st)
  case (Cons i "is")
  obtain st1 where st1: "Node_SetNext st head i None = Some st1" "same_nodes st st1"
    using Node_SetNext_ok [of st head h i None] Cons.prems by auto
  have "map_option n_height (st1 head) = Some h" using st1(2) Cons.prems(1) by (simp add: same_nodes_def)
  then obtain st' where st': "clear_head head is st1 = Some st'" "same_nodes st1 st'"
      "\<forall>b m. Node_Next st' b m = (if b = head \<and> m \<in> set is then Some None else Node_Next st1 b m)"
    using Cons.IH [of st1] Cons.prems(2) by auto
  then show ?case using st1 same_nodes_trans Node_SetNext_next [OF st1(1)] by auto
qed (simp add: same_nodes_refl)

lemma unat_ucast_u16: "unat (ucast (k :: u16) :: u32) = unat k"
  using unsigned_less [of k, where 'a = nat] by (simp add: unsigned_ucast_eq take_bit_nat_eq_self)

lemma SkipList_new_inv:
  assumes new: "SkipList_new head mh bf = Some s"
  shows "skip_inv cmp s (\<lambda>i. [])" "sl_head s = head" "a \<noteq> head \<Longrightarrow> sl_nodes s a = None"
proof -
  let ?k = "ucast mh :: u16"
  let ?st = "NewNode head None (nat (sint mh)) Map.empty"
  have g: "sint mh > 0" "(ucast ?k :: u32) = mh"
    using new by (auto simp: SkipList_new_def Let_def assert_def split: if_splits bind_splits)
  have k16: "unat ?k < 2 ^ 16" using unsigned_less [of ?k, where 'a = nat] by simp
  have uk: "unat ?k = unat mh" using unat_ucast_u16 [of ?k] unfolding g(2) by (rule sym)
  have "unat mh < 2 ^ 31" using k16 unfolding uk by simp
  from sint_of_nat_u32 [OF this] have "sint mh = int (unat mh)" by simp
  then have smh: "nat (sint mh) = unat mh" "0 < unat mh" using g(1) by (simp_all only: nat_int of_nat_0_less_iff)
  obtain st where st: "clear_head head [0..<unat ?k] ?st = Some st" "same_nodes ?st st"
      "\<forall>b m. Node_Next st b m = (if b = head \<and> m \<in> set [0..<unat ?k] then Some None else Node_Next ?st b m)"
    using clear_head_result [of ?st head "unat mh" "[0..<unat ?k]"] smh uk by (auto simp: NewNode_def)
  have s: "sl_head s = head" "sl_nodes s = st" "kMaxHeight s = ?k" "max_height s = 1" "prev_height s = 1" "sl_prev s = replicate (unat ?k) head"
    using new st(1) by (auto simp: SkipList_new_def Let_def assert_def split: if_splits)
  show "sl_head s = head" by (rule s(1))
  have h: "map_option n_height (st head) = Some (unat mh)" using st(2) smh by (simp add: same_nodes_def NewNode_def)
  show "sl_nodes s a = None" if "a \<noteq> head"
  proof -
    have "map_option n_key (st a) = None" using st(2) that by (simp add: same_nodes_def NewNode_def)
    then show ?thesis using s(2) by simp
  qed
  have "levels cmp s (\<lambda>i. [])" using s st(3) uk smh by (auto simp: levels_def)
  then show "skip_inv cmp s (\<lambda>i. [])" using s h uk smh by (auto simp: skip_inv_def)
qed

section \<open>The iterator\<close>

definition last_of :: "'a list \<Rightarrow> 'a option" where
  "last_of xs = (if xs = [] then None else Some (last xs))"

lemma last_of_snoc [simp]: "last_of (xs @ [x]) = Some x"
  by (simp add: last_of_def)

lemma head_of_map: "head_of (map f xs) = map_option f (head_of xs)"
  by (cases xs) simp_all

lemma last_of_map: "last_of (map f xs) = map_option f (last_of xs)"
  by (simp add: last_of_def last_map)

text \<open>A sorted set with a cursor at one of its keys; \<^verbatim>\<open>Next\<close> and \<^verbatim>\<open>Prev\<close> are relative to the key, so that they make
  sense in a set that grows.\<close>

fun set_iter_step :: "(bytes \<Rightarrow> bytes \<Rightarrow> int) \<Rightarrow> iter_op \<Rightarrow> bytes list \<Rightarrow> bytes option \<Rightarrow> bytes option" where
  "set_iter_step cmp Op_SeekToFirst ks cur = head_of ks"
| "set_iter_step cmp Op_SeekToLast ks cur = last_of ks"
| "set_iter_step cmp (Op_Seek t) ks cur = head_of (filter (\<lambda>k. \<not> cmp k t < 0) ks)"
| "set_iter_step cmp (Op_SeekForPrev t) ks cur = last_of (filter (\<lambda>k. cmp k t \<le> 0) ks)"
| "set_iter_step cmp Op_Next ks cur = (case cur of None \<Rightarrow> None | Some c \<Rightarrow> head_of (filter (\<lambda>k. cmp c k < 0) ks))"
| "set_iter_step cmp Op_Prev ks cur = (case cur of None \<Rightarrow> None | Some c \<Rightarrow> last_of (filter (\<lambda>k. cmp k c < 0) ks))"

fun skip_iter_step :: "(bytes \<Rightarrow> bytes \<Rightarrow> int) \<Rightarrow> iter_op \<Rightarrow> SkipList \<Rightarrow> nat option \<Rightarrow> nat option option" where
  "skip_iter_step cmp Op_SeekToFirst s node = SkipIter_SeekToFirst s"
| "skip_iter_step cmp Op_SeekToLast s node = SkipIter_SeekToLast s"
| "skip_iter_step cmp (Op_Seek t) s node = SkipIter_Seek cmp s t"
| "skip_iter_step cmp (Op_SeekForPrev t) s node = SkipIter_SeekForPrev cmp s t"
| "skip_iter_step cmp Op_Next s node = (if SkipIter_Valid node then SkipIter_Next s node else Some node)"
| "skip_iter_step cmp Op_Prev s node = (if SkipIter_Valid node then SkipIter_Prev cmp s node else Some node)"

lemma last_of_mem: "last_of xs = Some a \<Longrightarrow> a \<in> set xs"
  by (auto simp: last_of_def split: if_splits)

text \<open>The iterator stands at a node of the list, or at none.\<close>

definition node_ok :: "(nat \<Rightarrow> nat list) \<Rightarrow> nat option \<Rightarrow> bool" where
  "node_ok L node \<longleftrightarrow> (\<forall>a. node = Some a \<longrightarrow> a \<in> set (L 0))"

lemma node_okI: "set xs \<subseteq> set (L 0) \<Longrightarrow> node_ok L (head_of xs)" "set xs \<subseteq> set (L 0) \<Longrightarrow> node_ok L (last_of xs)"
  by (auto simp: node_ok_def head_of_def dest: last_of_mem split: list.splits)

lemma last_of_head: "(if last (h # xs) = h then None else Some (last (h # xs))) = last_of xs" if "h \<notin> set xs"
  using that last_in_set [of xs] by (cases "xs = []") (auto simp: last_of_def)

context key_comparator
begin

lemma keys_of_filter: "filter P (keys_of s L) = map (node_key_of s) (filter (\<lambda>a. P (node_key_of s a)) (L 0))"
  by (simp add: keys_of_def filter_map comp_def)

lemma Prev_result:
  assumes lv: "levels Compare s L" and a: "a \<in> set (L 0)"
  shows "SkipIter_Prev Compare s (Some a) = Some (last_of (before Compare s (node_key_of s a) (L 0)))"
proof -
  have "sl_head s \<notin> set (before Compare s (node_key_of s a) (L 0))" using lv by (auto simp: levels_def before_def)
  from last_of_head [OF this] show ?thesis
    using FindLessThan_result(1) [OF lv] levels_node(1) [OF lv a]
    by (simp add: SkipIter_Prev_def SkipIter_key_def del: last.simps)
qed

lemma SeekToLast_result:
  assumes lv: "levels Compare s L"
  shows "SkipIter_SeekToLast s = Some (last_of (L 0))"
proof -
  have "sl_head s \<notin> set (L 0)" using lv by (auto simp: levels_def)
  from last_of_head [OF this] show ?thesis
    using FindLast_result [OF lv] by (simp add: SkipIter_SeekToLast_def del: last.simps)
qed

lemma retreat_stop:
  assumes lv: "levels Compare s L" and n: "\<forall>a. n = Some a \<longrightarrow> a \<in> set (L 0) \<and> \<not> Compare t (node_key_of s a) < 0"
  shows "retreat Compare s t n = Some n"
  using n levels_node(1) [OF lv, of _ 0]
  by (subst retreat.simps) (auto simp: SkipIter_Valid_def SkipIter_key_def)

lemma SeekForPrev_result:
  assumes lv: "levels Compare s L"
  shows "SkipIter_SeekForPrev Compare s t = Some (last_of (filter (\<lambda>a. Compare (node_key_of s a) t \<le> 0) (L 0)))"
proof -
  let ?b = "before Compare s t (L 0)" and ?f = "from_key Compare s t (L 0)"
  note split = level_split [OF lv, of 0 t]
  have b: "a \<in> set ?b \<Longrightarrow> a \<in> set (L 0) \<and> \<not> Compare t (node_key_of s a) < 0 \<and> Compare (node_key_of s a) t \<le> 0" for a
    using cmp_sym [of t "node_key_of s a"] by (auto simp: before_def)
  show ?thesis
  proof (cases ?f)
    case Nil
    then have "L 0 = ?b" using split by simp
    moreover have "filter (\<lambda>a. Compare (node_key_of s a) t \<le> 0) (L 0) = L 0" using b calculation by (metis filter_True)
    moreover note SeekToLast_result [OF lv]
    moreover have "retreat Compare s t (last_of (L 0)) = Some (last_of (L 0))"
      by (rule retreat_stop [OF lv]) (use b calculation(1) last_of_mem in metis)
    ultimately show ?thesis
      using FindGreaterOrEqual_result [OF lv, of t] Nil by (simp add: SkipIter_SeekForPrev_def SkipIter_Seek_def SkipIter_Valid_def)
  next
    case (Cons c r)
    have c: "c \<in> set (L 0)" "\<not> Compare (node_key_of s c) t < 0" using from_key_node [OF lv, of t 0 c] Cons by simp_all
    have sorted: "sorted_wrt (\<lambda>a b. Compare (node_key_of s a) (node_key_of s b) < 0) (?b @ c # r)"
      using levels_sorted [OF lv, of 0] split Cons by simp
    have r: "\<not> Compare (node_key_of s a) t \<le> 0" if "a \<in> set r" for a
    proof -
      have "Compare t (node_key_of s c) \<le> 0" using c(2) cmp_not_less by blast
      moreover have "Compare (node_key_of s c) (node_key_of s a) < 0" using sorted that by (simp add: sorted_wrt_append)
      ultimately show ?thesis using cmp_le_less [of t "node_key_of s c" "node_key_of s a"] cmp_sym [of t "node_key_of s a"] by simp
    qed
    have le: "filter (\<lambda>a. Compare (node_key_of s a) t \<le> 0) (L 0) = ?b @ (if Compare (node_key_of s c) t \<le> 0 then [c] else [])"
    proof -
      have "filter (\<lambda>a. Compare (node_key_of s a) t \<le> 0) ?b = ?b" using b by (metis filter_True)
      moreover have "filter (\<lambda>a. Compare (node_key_of s a) t \<le> 0) r = []" using r by (simp add: filter_empty_conv)
      moreover have "filter (\<lambda>a. Compare (node_key_of s a) t \<le> 0) (L 0) = filter (\<lambda>a. Compare (node_key_of s a) t \<le> 0) (?b @ c # r)"
        using split Cons by simp
      ultimately show ?thesis by simp
    qed
    have seek: "SkipIter_SeekForPrev Compare s t = retreat Compare s t (Some c)"
      using FindGreaterOrEqual_result [OF lv, of t] Cons by (simp add: SkipIter_SeekForPrev_def SkipIter_Seek_def SkipIter_Valid_def)
    show ?thesis
    proof (cases "Compare t (node_key_of s c) < 0")
      case True
      then have gt: "\<not> Compare (node_key_of s c) t \<le> 0" using cmp_sym [of t "node_key_of s c"] by simp
      have "before Compare s (node_key_of s c) (L 0) = ?b"
      proof -
        have "before Compare s (node_key_of s c) (L 0) = before Compare s (node_key_of s c) (?b @ c # r)" using split Cons by simp
        moreover have "Compare (node_key_of s a) (node_key_of s c) < 0" if "a \<in> set ?b" for a using sorted that by (simp add: sorted_wrt_append)
        moreover have "\<not> Compare (node_key_of s a) (node_key_of s c) < 0" if "a \<in> set r" for a
          using sorted that cmp_sym [of "node_key_of s c" "node_key_of s a"] by (simp add: sorted_wrt_append)
        ultimately show ?thesis by (simp add: before_def cmp_refl filter_empty_conv) (auto intro: filter_cong)
      qed
      then have "retreat Compare s t (Some c) = retreat Compare s t (last_of ?b)"
        using True Prev_result [OF lv c(1)] levels_node(1) [OF lv c(1)]
        by (subst retreat.simps) (simp add: SkipIter_Valid_def SkipIter_key_def)
      moreover have "retreat Compare s t (last_of ?b) = Some (last_of ?b)"
        by (rule retreat_stop [OF lv]) (use b last_of_mem in metis)
      ultimately show ?thesis using seek le gt by simp
    next
      case False
      then have "Compare (node_key_of s c) t \<le> 0" using cmp_not_less by blast
      moreover have "retreat Compare s t (Some c) = Some (Some c)" by (rule retreat_stop [OF lv]) (use False c(1) in auto)
      ultimately show ?thesis using seek le by simp
    qed
  qed
qed

text \<open>Every operation of the iterator moves it as the cursor of the sorted set moves.\<close>

lemma Next_result:
  assumes lv: "levels Compare s L" and a: "a \<in> set (L 0)"
  shows "SkipIter_Next s (Some a) = Some (head_of (filter (\<lambda>b. Compare (node_key_of s a) (node_key_of s b) < 0) (L 0)))"
proof -
  obtain A B where AB: "L 0 = A @ a # B" using a split_list by metis
  have sorted: "sorted_wrt (\<lambda>a b. Compare (node_key_of s a) (node_key_of s b) < 0) (A @ a # B)" using levels_sorted [OF lv, of 0] AB by simp
  have "\<not> Compare (node_key_of s a) (node_key_of s b) < 0" if "b \<in> set A" for b
    using sorted that cmp_sym [of "node_key_of s b" "node_key_of s a"] by (simp add: sorted_wrt_append)
  moreover have "Compare (node_key_of s a) (node_key_of s b) < 0" if "b \<in> set B" for b using sorted that by (simp add: sorted_wrt_append)
  ultimately have "filter (\<lambda>b. Compare (node_key_of s a) (node_key_of s b) < 0) (L 0) = B"
    unfolding AB by (simp add: cmp_refl filter_empty_conv filter_id_conv)
  then show ?thesis
    using linked_next [of "sl_nodes s" 0 "sl_head s # A" a B] levels_chain [OF lv levels_height [OF lv]] AB by (simp add: SkipIter_Next_def)
qed

lemma skip_iter_step_result:
  assumes lv: "levels Compare s L" and ok: "node_ok L node"
  shows "\<exists>node'. skip_iter_step Compare op s node = Some node' \<and> node_ok L node' \<and>
    map_option (node_key_of s) node' = set_iter_step Compare op (keys_of s L) (map_option (node_key_of s) node)"
proof (cases op)
  case Op_SeekToFirst
  have "SkipIter_SeekToFirst s = Some (head_of (L 0))"
    using levels_chain [OF lv levels_height [OF lv]] by (simp add: SkipIter_SeekToFirst_def linked_Cons)
  then show ?thesis using Op_SeekToFirst node_okI(1) [of "L 0" L] by (simp add: keys_of_def head_of_map)
next
  case Op_SeekToLast
  then show ?thesis using SeekToLast_result [OF lv] node_okI(2) [of "L 0" L] by (simp add: keys_of_def last_of_map)
next
  case (Op_Seek t)
  then show ?thesis
    using FindGreaterOrEqual_result [OF lv, of t] node_okI(1) [of "from_key Compare s t (L 0)" L]
    by (simp add: SkipIter_Seek_def keys_of_filter head_of_map from_key_def)
next
  case (Op_SeekForPrev t)
  then show ?thesis
    using SeekForPrev_result [OF lv, of t] node_okI(2) [of "filter (\<lambda>a. Compare (node_key_of s a) t \<le> 0) (L 0)" L]
    by (simp add: keys_of_filter last_of_map)
next
  case Op_Next
  show ?thesis
  proof (cases node)
    case (Some a)
    then have a: "a \<in> set (L 0)" using ok by (simp add: node_ok_def)
    show ?thesis
      using Op_Next Some Next_result [OF lv a] node_okI(1) [of "filter (\<lambda>b. Compare (node_key_of s a) (node_key_of s b) < 0) (L 0)" L]
      by (simp add: SkipIter_Valid_def keys_of_filter head_of_map)
  qed (simp add: Op_Next SkipIter_Valid_def node_ok_def)
next
  case Op_Prev
  show ?thesis
  proof (cases node)
    case (Some a)
    then have a: "a \<in> set (L 0)" using ok by (simp add: node_ok_def)
    show ?thesis
      using Op_Prev Some Prev_result [OF lv a] node_okI(2) [of "before Compare s (node_key_of s a) (L 0)" L]
      by (simp add: SkipIter_Valid_def keys_of_filter last_of_map before_def)
  qed (simp add: Op_Prev SkipIter_Valid_def node_ok_def)
qed

lemma Contains_result:
  assumes lv: "levels Compare s L"
  shows "Skip_Contains Compare s t = Some (\<exists>k \<in> set (keys_of s L). Compare k t = 0)"
proof (cases "\<exists>a \<in> set (L 0). Compare (node_key_of s a) t = 0")
  case True
  then obtain a where a: "a \<in> set (L 0)" "Compare (node_key_of s a) t = 0" by blast
  have "Compare t (node_key_of s a) = 0" using a(2) cmp_sym [of t "node_key_of s a"] cmp_sym [of "node_key_of s a" t] by linarith
  then show ?thesis
    using FindGreaterOrEqual_result [OF lv, of t] equal_is_first [OF lv a] levels_node(1) [OF lv a(1)] a
    by (auto simp: Skip_Contains_def keys_of_def)
next
  case False
  have "Compare t (node_key_of s b) \<noteq> 0" if "b \<in> set (L 0)" for b
    using False that cmp_sym [of t "node_key_of s b"] cmp_sym [of "node_key_of s b" t] by force
  then show ?thesis
    using FindGreaterOrEqual_result [OF lv, of t] from_key_node [OF lv, of t 0] False
    by (cases "head_of (from_key Compare s t (L 0))") (auto simp: Skip_Contains_def keys_of_def)
qed

end

section \<open>Sequences of operations\<close>

datatype skip_op = Sk_Insert nat bytes | Sk_Iter iter_op

fun skip_step ::
  "(bytes \<Rightarrow> bytes \<Rightarrow> int) \<Rightarrow> skip_op \<Rightarrow> Random \<times> SkipList \<times> nat option \<Rightarrow> (Random \<times> SkipList \<times> nat option) option" where
  "skip_step cmp (Sk_Insert addr key) (rnd, s, node) = do { (rnd, s) \<leftarrow> Skip_Insert cmp addr key rnd s; Some (rnd, s, node) }"
| "skip_step cmp (Sk_Iter op) (rnd, s, node) = do { node \<leftarrow> skip_iter_step cmp op s node; Some (rnd, s, node) }"

fun skip_run ::
  "(bytes \<Rightarrow> bytes \<Rightarrow> int) \<Rightarrow> skip_op list \<Rightarrow> Random \<times> SkipList \<times> nat option \<Rightarrow> (Random \<times> SkipList \<times> nat option) option" where
  "skip_run cmp [] st = Some st"
| "skip_run cmp (op # ops) st = do { st \<leftarrow> skip_step cmp op st; skip_run cmp ops st }"

text \<open>The specification: None when a key is inserted that is there already.\<close>

fun set_step :: "(bytes \<Rightarrow> bytes \<Rightarrow> int) \<Rightarrow> skip_op \<Rightarrow> bytes list \<times> bytes option \<Rightarrow> (bytes list \<times> bytes option) option" where
  "set_step cmp (Sk_Insert addr key) (ks, cur) = (if \<exists>k \<in> set ks. cmp k key = 0 then None else Some (insert_key cmp key ks, cur))"
| "set_step cmp (Sk_Iter op) (ks, cur) = Some (ks, set_iter_step cmp op ks cur)"

fun set_run :: "(bytes \<Rightarrow> bytes \<Rightarrow> int) \<Rightarrow> skip_op list \<Rightarrow> bytes list \<times> bytes option \<Rightarrow> (bytes list \<times> bytes option) option" where
  "set_run cmp [] st = Some st"
| "set_run cmp (op # ops) st = do { st \<leftarrow> set_step cmp op st; set_run cmp ops st }"

fun new_nodes :: "skip_op list \<Rightarrow> nat list" where
  "new_nodes [] = []"
| "new_nodes (Sk_Insert addr key # ops) = addr # new_nodes ops"
| "new_nodes (Sk_Iter op # ops) = new_nodes ops"

context key_comparator
begin

lemma skip_run_refines:
  assumes "skip_inv Compare s L" "node_ok L node" "distinct (new_nodes ops)" "\<forall>a \<in> set (new_nodes ops). sl_nodes s a = None"
  shows "case set_run Compare ops (keys_of s L, map_option (node_key_of s) node) of
      None \<Rightarrow> skip_run Compare ops (rnd, s, node) = None
    | Some (ks, cur) \<Rightarrow> \<exists>rnd' s' node' L'. skip_run Compare ops (rnd, s, node) = Some (rnd', s', node') \<and> skip_inv Compare s' L' \<and> node_ok L' node' \<and>
        keys_of s' L' = ks \<and> map_option (node_key_of s') node' = cur"
  using assms
proof (induction ops arbitrary: rnd s L node)
  case Nil
  then show ?case by auto
next
  case (Cons op ops)
  note lv = skip_inv_levels [OF Cons.prems(1)]
  show ?case
  proof (cases op)
    case (Sk_Iter it)
    obtain node1 where n: "skip_iter_step Compare it s node = Some node1" "node_ok L node1"
        "map_option (node_key_of s) node1 = set_iter_step Compare it (keys_of s L) (map_option (node_key_of s) node)"
      using skip_iter_step_result [OF lv Cons.prems(2)] by blast
    have "set_run Compare (op # ops) (keys_of s L, map_option (node_key_of s) node) =
        set_run Compare ops (keys_of s L, map_option (node_key_of s) node1)"
      "skip_run Compare (op # ops) (rnd, s, node) = skip_run Compare ops (rnd, s, node1)"
      using n(1,3) by (simp_all add: Sk_Iter)
    then show ?thesis using Cons.IH [OF Cons.prems(1) n(2), of rnd] Cons.prems(3,4) by (simp only: Sk_Iter new_nodes.simps)
  next
    case (Sk_Insert addr key)
    have fresh: "sl_nodes s addr = None" using Cons.prems(4) by (simp add: Sk_Insert)
    show ?thesis
    proof (cases "\<exists>k \<in> set (keys_of s L). Compare k key = 0")
      case True
      then obtain a where "a \<in> set (L 0)" "Compare (node_key_of s a) key = 0" by (auto simp: keys_of_def)
      then show ?thesis using insert_prepare_duplicate [OF Cons.prems(1)] True by (simp add: Sk_Insert Skip_Insert_def)
    next
      case False
      then have "\<forall>a \<in> set (L 0). Compare (node_key_of s a) key \<noteq> 0" by (simp add: keys_of_def)
      then obtain rnd' s' h where s': "Skip_Insert Compare addr key rnd s = Some (rnd', s')"
          "skip_inv Compare s' (with_node Compare s L key addr h)"
          "keys_of s' (with_node Compare s L key addr h) = insert_key Compare key (keys_of s L)"
          "\<forall>a. a \<noteq> addr \<and> sl_nodes s a = None \<longrightarrow> sl_nodes s' a = None"
          "\<forall>a \<in> set (L 0). a \<in> set (with_node Compare s L key addr h 0) \<and> node_key_of s' a = node_key_of s a"
        using Skip_Insert_result [OF Cons.prems(1) fresh, of key rnd] by blast
      have ok: "node_ok (with_node Compare s L key addr h) node" "map_option (node_key_of s') node = map_option (node_key_of s) node"
        using Cons.prems(2) s'(5) by (auto simp: node_ok_def intro: option.map_cong0)
      have "distinct (new_nodes ops)" "\<forall>a \<in> set (new_nodes ops). sl_nodes s' a = None"
        using Cons.prems(3,4) s'(4) by (auto simp: Sk_Insert)
      note IH = Cons.IH [OF s'(2) ok(1) this, of rnd']
      have "set_run Compare (op # ops) (keys_of s L, map_option (node_key_of s) node) =
          set_run Compare ops (keys_of s' (with_node Compare s L key addr h), map_option (node_key_of s') node)"
        "skip_run Compare (op # ops) (rnd, s, node) = skip_run Compare ops (rnd', s', node)"
        using False s'(1,3) ok(2) by (simp_all add: Sk_Insert)
      then show ?thesis using IH by (simp only:)
    qed
  qed
qed

text \<open>The estimate of a position ends.\<close>

lemma estimate_before:
  assumes lv: "levels Compare s L" and at: "at_level s L t i x B"
  shows "(if x = sl_head s then Some True else do { k \<leftarrow> Node_key (sl_nodes s) x; Some (Compare k t < 0) }) = Some True"
  using at_level_x [OF at] levels_node(1) [OF lv] by auto

lemma estimate_step:
  assumes lv: "levels Compare s L" and at: "at_level s L t i x (b # B)"
  shows "estimate_count Compare s t x i count = estimate_count Compare s t b i (count + 1)"
  using estimate_before [OF lv at] at_level_next [OF lv at] at_level_before [OF at, of b] levels_node(1) [OF lv, of b i]
  by (subst estimate_count.simps) (simp cong: if_cong)

lemma estimate_step_end:
  assumes lv: "levels Compare s L" and at: "at_level s L t i x []"
  shows "estimate_count Compare s t x i count =
    (if i = 0 then Some count else estimate_count Compare s t x (i - 1) (count * ucast (kBranching s)))"
proof -
  have "(case head_of (from_key Compare s t (L i)) of None \<Rightarrow> Some True
      | Some b \<Rightarrow> do { k \<leftarrow> Node_key (sl_nodes s) b; Some (Compare k t \<ge> 0) }) = Some True"
    using from_key_node [OF lv, of t i] by (auto split: option.splits)
  then show ?thesis
    using estimate_before [OF lv at] at_level_next [OF lv at] by (subst estimate_count.simps) simp
qed

lemma estimate_count_returns:
  assumes lv: "levels Compare s L" and at: "at_level s L t i x B"
  shows "\<exists>c. estimate_count Compare s t x i count = Some c"
  using at
proof (induction i arbitrary: x B count)
  case (0 x B count)
  then show ?case
  proof (induction B arbitrary: x count)
    case Nil
    then show ?case using estimate_step_end [OF lv Nil] by simp
  next
    case (Cons b B)
    then show ?case using estimate_step [OF lv Cons.prems] at_level_step [OF Cons.prems] by simp
  qed
next
  case (Suc i x B count)
  from Suc.prems show ?case
  proof (induction B arbitrary: x count)
    case Nil
    obtain B' where "at_level s L t i x B'" using at_level_down [OF lv Nil] by auto
    then show ?case using estimate_step_end [OF lv Nil] Suc.IH by simp
  next
    case (Cons b B)
    then show ?case using estimate_step [OF lv Cons.prems] at_level_step [OF Cons.prems] by simp
  qed
qed

lemma EstimateCount_returns: "levels Compare s L \<Longrightarrow> \<exists>c. EstimateCount Compare s t = Some c"
  unfolding EstimateCount_def by (rule estimate_count_returns [OF _ at_level_start])

end

section \<open>Properties\<close>

text \<open>C6: The skip list is a sorted set with an iterator.  Run any sequence of insertions and iterator calls on a new list, whatever
  heights the random numbers give and whether an insertion continues the last one or searches from the head.  The run fails
  exactly when a key is inserted that compares equal to one in the list, which is what the assertion is for; otherwise every search
  ends, no other assertion fails, no uninitialised link or key is read, the iterator stands where the cursor of the sorted set
  stands, also after insertions around it, and \<^verbatim>\<open>Contains\<close> knows exactly the inserted keys.\<close>

theorem skip_list_refines_sorted_set:
  assumes "key_comparator cmp" "SkipList_new head max_h branching_factor = Some s0" "distinct (head # new_nodes ops)"
  shows "case set_run cmp ops ([], None) of
      None \<Rightarrow> skip_run cmp ops (rnd, s0, SkipIter_new) = None
    | Some (ks, cur) \<Rightarrow> \<exists>rnd' s node. skip_run cmp ops (rnd, s0, SkipIter_new) = Some (rnd', s, node) \<and>
        SkipIter_Valid node = (cur \<noteq> None) \<and> SkipIter_key s node = cur \<and>
        (\<forall>k. Skip_Contains cmp s k = Some (\<exists>x \<in> set ks. cmp x k = 0) \<and> EstimateCount cmp s k \<noteq> None)"
proof -
  note inv = SkipList_new_inv [OF assms(2)]
  note r = key_comparator.skip_run_refines [OF assms(1) inv(1), where node = SkipIter_new and ops = ops and rnd = rnd]
  have "node_ok (\<lambda>i. []) SkipIter_new" by (simp add: node_ok_def SkipIter_new_def)
  moreover have "\<forall>a \<in> set (new_nodes ops). sl_nodes s0 a = None" using assms(3) inv(3) by (metis distinct.simps(2))
  moreover have "keys_of s0 (\<lambda>i. []) = []" "map_option (node_key_of s0) SkipIter_new = None" by (simp_all add: keys_of_def SkipIter_new_def)
  ultimately have run: "case set_run cmp ops ([], None) of
      None \<Rightarrow> skip_run cmp ops (rnd, s0, SkipIter_new) = None
    | Some (ks, cur) \<Rightarrow> \<exists>rnd' s' node' L'. skip_run cmp ops (rnd, s0, SkipIter_new) = Some (rnd', s', node') \<and> skip_inv cmp s' L' \<and>
        node_ok L' node' \<and> keys_of s' L' = ks \<and> map_option (node_key_of s') node' = cur"
    using r assms(3) by simp
  show ?thesis
  proof (cases "set_run cmp ops ([], None)")
    case None
    then show ?thesis using run by simp
  next
    case (Some x)
    obtain ks cur where x: "x = (ks, cur)" by (cases x)
    then obtain rnd' s node L where s: "skip_run cmp ops (rnd, s0, SkipIter_new) = Some (rnd', s, node)" "skip_inv cmp s L" "node_ok L node"
        "keys_of s L = ks" "map_option (node_key_of s) node = cur"
      using run Some by auto
    note lv = skip_inv_levels [OF s(2)]
    have "SkipIter_key s node = cur"
      using s(3,5) levels_node(1) [OF lv, of _ 0] by (cases node) (auto simp: SkipIter_key_def node_ok_def)
    moreover have "SkipIter_Valid node = (cur \<noteq> None)" using s(5) by (cases node) (auto simp: SkipIter_Valid_def)
    ultimately show ?thesis
      using Some x s(1,4) key_comparator.Contains_result [OF assms(1) lv] key_comparator.EstimateCount_returns [OF assms(1) lv] by simp
  qed
qed

theorem skip_list_refines_sorted_set_witness:
  "\<exists>s0 rnd' s node. SkipList_new 0 12 4 = Some s0 \<and>
    skip_run BytewiseCompare [Sk_Insert 1 [5], Sk_Insert 2 [3], Sk_Iter Op_SeekToFirst, Sk_Insert 3 [4], Sk_Iter Op_Next]
      (Random_new 301, s0, SkipIter_new) = Some (rnd', s, node) \<and>
    SkipIter_key s node = Some [4] \<and> Skip_Contains BytewiseCompare s [5] = Some True"
proof -
  let ?ops = "[Sk_Insert 1 [5], Sk_Insert 2 [3], Sk_Iter Op_SeekToFirst, Sk_Insert 3 [4], Sk_Iter Op_Next]"
  obtain s0 where s0: "SkipList_new 0 12 4 = Some s0"
    using clear_head_result [of "NewNode 0 None 12 Map.empty" 0 12 "[0..<12]"]
    by (auto simp: SkipList_new_def NewNode_def kMaxNext_def Random_M_def)
  have "set_run BytewiseCompare ?ops ([], None) = Some ([[3], [4], [5]], Some [4])"
    by (simp add: insert_key_def BytewiseCompare_def Slice_compare_iffs)
  moreover have "distinct (0 # new_nodes ?ops)" by simp
  note skip_list_refines_sorted_set [OF bytewise.key_comparator_axioms s0 this, of "Random_new 301"]
  ultimately obtain rnd' s node where "skip_run BytewiseCompare ?ops (Random_new 301, s0, SkipIter_new) = Some (rnd', s, node)"
      "SkipIter_key s node = Some [4]" "\<forall>k. Skip_Contains BytewiseCompare s k = Some (\<exists>x \<in> set [[3], [4], [5]]. BytewiseCompare x k = 0)"
    by auto
  moreover have "BytewiseCompare [5] [5] = 0" by (simp add: BytewiseCompare_def Slice_compare_iffs)
  ultimately show ?thesis using s0 by auto
qed

end
