(* ===== verification/Skip_Readers.thy ===== *)
theory Skip_Readers
  imports Skip_Properties
begin

text \<open>
  Readers beside a writer.  The skip list needs external synchronisation for writes only: a search takes no lock and may run
  while an insertion sets its links.  The system below interleaves the stores of one insertion after another with the
  rounds of a search, each of which loads one link; the acquire and release ordering of the code is taken to make these
  loads and stores appear in one order.
\<close>

section \<open>The system\<close>

text \<open>The writer between insertions, or before the store of one of the two links at a level: the link of the new node, which
  nobody reads yet, or the link that publishes it.\<close>

datatype writer = W_Idle | W_Linking bytes nat nat "nat list" nat bool

record skip_sys =
  ss_list :: SkipList
  ss_writer :: writer
  ss_reader :: "(bytes \<times> search) option"
  ss_keys :: "bytes list"

text \<open>\<open>ss_keys\<close> is a ghost: the keys in order, each from the moment its node is published at the lowest level.\<close>

inductive sys_step :: "(bytes \<Rightarrow> bytes \<Rightarrow> int) \<Rightarrow> skip_sys \<Rightarrow> skip_sys \<Rightarrow> bool" for cmp where
  W_begin: "ss_writer \<sigma> = W_Idle \<Longrightarrow> insert_prepare cmp key rnd (ss_list \<sigma>) = Some (p, mh, h, rnd') \<Longrightarrow>
    sl_nodes (ss_list \<sigma>) addr = None \<Longrightarrow>
    sys_step cmp \<sigma> (\<sigma>\<lparr>ss_list := (ss_list \<sigma>)\<lparr>max_height := mh, sl_nodes := NewNode addr (Some key) h (sl_nodes (ss_list \<sigma>))\<rparr>,
      ss_writer := W_Linking key addr h p 0 False\<rparr>)"
| W_own: "ss_writer \<sigma> = W_Linking key addr h p j False \<Longrightarrow> j < h \<Longrightarrow> Node_Next (sl_nodes (ss_list \<sigma>)) (p ! j) j = Some n \<Longrightarrow>
    Node_SetNext (sl_nodes (ss_list \<sigma>)) addr j n = Some st \<Longrightarrow>
    sys_step cmp \<sigma> (\<sigma>\<lparr>ss_list := (ss_list \<sigma>)\<lparr>sl_nodes := st\<rparr>, ss_writer := W_Linking key addr h p j True\<rparr>)"
| W_publish: "ss_writer \<sigma> = W_Linking key addr h p j True \<Longrightarrow> Node_SetNext (sl_nodes (ss_list \<sigma>)) (p ! j) j (Some addr) = Some st \<Longrightarrow>
    sys_step cmp \<sigma> (\<sigma>\<lparr>ss_list := (ss_list \<sigma>)\<lparr>sl_nodes := st\<rparr>, ss_writer := W_Linking key addr h p (Suc j) False,
      ss_keys := (if j = 0 then insert_key cmp key (ss_keys \<sigma>) else ss_keys \<sigma>)\<rparr>)"
| W_end: "ss_writer \<sigma> = W_Linking key addr h p h False \<Longrightarrow>
    sys_step cmp \<sigma> (\<sigma>\<lparr>ss_list := (ss_list \<sigma>)\<lparr>sl_prev := p[0 := addr], prev_height := h\<rparr>, ss_writer := W_Idle\<rparr>)"
| R_start: "sys_step cmp \<sigma> (\<sigma>\<lparr>ss_reader := Some (t, Searching (sl_head (ss_list \<sigma>)) (max_height (ss_list \<sigma>) - 1) None)\<rparr>)"
| R_step: "ss_reader \<sigma> = Some (t, Searching x level lb) \<Longrightarrow> find_iteration cmp (ss_list \<sigma>) t x level lb = Some r \<Longrightarrow>
    sys_step cmp \<sigma> (\<sigma>\<lparr>ss_reader := Some (t, r)\<rparr>)"

definition sys_init :: "SkipList \<Rightarrow> skip_sys" where
  "sys_init s = \<lparr>ss_list = s, ss_writer = W_Idle, ss_reader = None, ss_keys = []\<rparr>"

text \<open>The steps of the writer, with none of the reader between them, are \<^verbatim>\<open>Insert\<close>.\<close>

lemma link_levels_steps:
  assumes "link_levels addr p [j..<h] (sl_nodes (ss_list \<sigma>)) = Some st" "j \<le> h" "ss_writer \<sigma> = W_Linking key addr h p j False"
  shows "(sys_step cmp)\<^sup>*\<^sup>* \<sigma> (\<sigma>\<lparr>ss_list := (ss_list \<sigma>)\<lparr>sl_nodes := st\<rparr>, ss_writer := W_Linking key addr h p h False,
    ss_keys := (if j = 0 \<and> 0 < h then insert_key cmp key (ss_keys \<sigma>) else ss_keys \<sigma>)\<rparr>)"
  using assms
proof (induction "h - j" arbitrary: j \<sigma>)
  case 0
  then have "j = h" "sl_nodes (ss_list \<sigma>) = st" by simp_all
  then have "\<sigma> = \<sigma>\<lparr>ss_list := (ss_list \<sigma>)\<lparr>sl_nodes := st\<rparr>, ss_writer := W_Linking key addr h p h False,
      ss_keys := (if j = 0 \<and> 0 < h then insert_key cmp key (ss_keys \<sigma>) else ss_keys \<sigma>)\<rparr>"
    using 0 by (cases \<sigma>; cases "ss_list \<sigma>") auto
  then show ?case by (metis rtranclp.rtrancl_refl)
next
  case (Suc n)
  then have j: "j < h" by simp
  obtain nx st1 st2 where l: "Node_Next (sl_nodes (ss_list \<sigma>)) (p ! j) j = Some nx" "Node_SetNext (sl_nodes (ss_list \<sigma>)) addr j nx = Some st1"
      "Node_SetNext st1 (p ! j) j (Some addr) = Some st2" "link_levels addr p [Suc j..<h] st2 = Some st"
    using Suc.prems(1) upt_conv_Cons [OF j] by (auto split: bind_splits)
  let ?s1 = "\<sigma>\<lparr>ss_list := (ss_list \<sigma>)\<lparr>sl_nodes := st1\<rparr>, ss_writer := W_Linking key addr h p j True\<rparr>"
  let ?s2 = "?s1\<lparr>ss_list := (ss_list ?s1)\<lparr>sl_nodes := st2\<rparr>, ss_writer := W_Linking key addr h p (Suc j) False,
    ss_keys := (if j = 0 then insert_key cmp key (ss_keys ?s1) else ss_keys ?s1)\<rparr>"
  have "sys_step cmp \<sigma> ?s1" by (rule sys_step.W_own [OF Suc.prems(3) j l(1,2)])
  moreover have "sys_step cmp ?s1 ?s2" by (rule sys_step.W_publish) (use l(3) in simp_all)
  moreover have "(sys_step cmp)\<^sup>*\<^sup>* ?s2 (?s2\<lparr>ss_list := (ss_list ?s2)\<lparr>sl_nodes := st\<rparr>, ss_writer := W_Linking key addr h p h False,
      ss_keys := (if Suc j = 0 \<and> 0 < h then insert_key cmp key (ss_keys ?s2) else ss_keys ?s2)\<rparr>)"
    by (rule Suc.hyps(1)) (use Suc.hyps(2) l(4) j in simp_all)
  ultimately show ?case using j by (auto intro: converse_rtranclp_into_rtranclp)
qed

lemma Insert_steps:
  assumes "ss_writer \<sigma> = W_Idle" "sl_nodes (ss_list \<sigma>) addr = None" "Skip_Insert cmp addr key rnd (ss_list \<sigma>) = Some (rnd', s')"
  shows "(sys_step cmp)\<^sup>*\<^sup>* \<sigma> (\<sigma>\<lparr>ss_list := s', ss_keys := insert_key cmp key (ss_keys \<sigma>)\<rparr>)"
proof -
  let ?s = "ss_list \<sigma>"
  obtain p mh h where p: "insert_prepare cmp key rnd ?s = Some (p, mh, h, rnd')" and
      st: "\<exists>st. link_levels addr p [0..<h] (NewNode addr (Some key) h (sl_nodes ?s)) = Some st \<and>
        s' = ?s\<lparr>max_height := mh, sl_nodes := st, sl_prev := p[0 := addr], prev_height := h\<rparr>"
    using assms(3) by (auto simp: Skip_Insert_def split: bind_splits)
  then obtain st where st: "link_levels addr p [0..<h] (NewNode addr (Some key) h (sl_nodes ?s)) = Some st"
      "s' = ?s\<lparr>max_height := mh, sl_nodes := st, sl_prev := p[0 := addr], prev_height := h\<rparr>" by blast
  have h: "0 < h" using p by (auto simp: insert_prepare_def RandomHeight_def assert_def split: bind_splits if_splits prod.splits)
  let ?s1 = "\<sigma>\<lparr>ss_list := ?s\<lparr>max_height := mh, sl_nodes := NewNode addr (Some key) h (sl_nodes ?s)\<rparr>, ss_writer := W_Linking key addr h p 0 False\<rparr>"
  let ?s2 = "?s1\<lparr>ss_list := (ss_list ?s1)\<lparr>sl_nodes := st\<rparr>, ss_writer := W_Linking key addr h p h False,
    ss_keys := (if (0 :: nat) = 0 \<and> 0 < h then insert_key cmp key (ss_keys ?s1) else ss_keys ?s1)\<rparr>"
  let ?s3 = "?s2\<lparr>ss_list := (ss_list ?s2)\<lparr>sl_prev := p[0 := addr], prev_height := h\<rparr>, ss_writer := W_Idle\<rparr>"
  have "sys_step cmp \<sigma> ?s1" by (rule sys_step.W_begin [OF assms(1) p assms(2)])
  moreover have "(sys_step cmp)\<^sup>*\<^sup>* ?s1 ?s2" by (rule link_levels_steps) (use st(1) in simp_all)
  moreover have "sys_step cmp ?s2 ?s3" by (rule sys_step.W_end) simp
  ultimately have "(sys_step cmp)\<^sup>*\<^sup>* \<sigma> ?s3" by (meson converse_rtranclp_into_rtranclp rtranclp.rtrancl_into_rtrancl)
  moreover have "?s3 = \<sigma>\<lparr>ss_list := s', ss_keys := insert_key cmp key (ss_keys \<sigma>)\<rparr>"
    using st(2) h assms(1) by (cases \<sigma>) simp
  ultimately show ?thesis by simp
qed

section \<open>The invariant\<close>

fun reader_ok :: "(bytes \<Rightarrow> bytes \<Rightarrow> int) \<Rightarrow> SkipList \<Rightarrow> (nat \<Rightarrow> nat list) \<Rightarrow> (bytes \<times> search) option \<Rightarrow> bool" where
  "reader_ok cmp s L None \<longleftrightarrow> True"
| "reader_ok cmp s L (Some (t, Found n)) \<longleftrightarrow> True"
| "reader_ok cmp s L (Some (t, Searching x i lb)) \<longleftrightarrow>
     i < max_height s \<and> (x = sl_head s \<or> x \<in> set (before cmp s t (L i))) \<and>
     (\<forall>b. lb = Some b \<longrightarrow> b \<in> set (L 0) \<and> cmp (node_key_of s b) t > 0)"

definition linking ::
  "(bytes \<Rightarrow> bytes \<Rightarrow> int) \<Rightarrow> SkipList \<Rightarrow> (nat \<Rightarrow> nat list) \<Rightarrow> bytes \<Rightarrow> nat \<Rightarrow> nat \<Rightarrow> nat list \<Rightarrow> nat \<Rightarrow> bool \<Rightarrow> bool" where
  "linking cmp s L key addr h p j own \<longleftrightarrow> (\<exists>s0 L0 st.
     skip_inv cmp s0 L0 \<and> insert_ready cmp s0 L0 key addr h p \<and> length p = unat (kMaxHeight s0) \<and>
     (\<forall>i < max h (max_height s0). p ! i = last (sl_head s0 # before cmp s0 key (L0 i))) \<and> j \<le> h \<and>
     L = with_node cmp s0 L0 key addr j \<and> s = s0\<lparr>max_height := max h (max_height s0), sl_nodes := sl_nodes s\<rparr> \<and>
     link_state cmp s0 L0 key addr h j st \<and>
     (if own then j < h \<and> (\<exists>n. Node_Next st (p ! j) j = Some n \<and> Node_SetNext st addr j n = Some (sl_nodes s)) else sl_nodes s = st))"

fun writer_ok :: "(bytes \<Rightarrow> bytes \<Rightarrow> int) \<Rightarrow> SkipList \<Rightarrow> (nat \<Rightarrow> nat list) \<Rightarrow> writer \<Rightarrow> bool" where
  "writer_ok cmp s L W_Idle = skip_inv cmp s L"
| "writer_ok cmp s L (W_Linking key addr h p j own) = linking cmp s L key addr h p j own"

definition sys_inv :: "(bytes \<Rightarrow> bytes \<Rightarrow> int) \<Rightarrow> skip_sys \<Rightarrow> bool" where
  "sys_inv cmp \<sigma> \<longleftrightarrow> (\<exists>L. levels cmp (ss_list \<sigma>) L \<and> keys_of (ss_list \<sigma>) L = ss_keys \<sigma> \<and>
     reader_ok cmp (ss_list \<sigma>) L (ss_reader \<sigma>) \<and> writer_ok cmp (ss_list \<sigma>) L (ss_writer \<sigma>))"

text \<open>A growing list keeps a search where it is.\<close>

lemma reader_ok_grow:
  assumes lv: "levels cmp s L" and r: "reader_ok cmp s L r" and s': "sl_head s' = sl_head s" "max_height s \<le> max_height s'"
    and grow: "\<And>i. set (L i) \<subseteq> set (L' i)" "\<And>a. a \<in> set (L 0) \<Longrightarrow> node_key_of s' a = node_key_of s a"
  shows "reader_ok cmp s' L' r"
proof -
  have key: "node_key_of s' a = node_key_of s a" if "a \<in> set (L i)" for a i using grow(2) levels_node(3) [OF lv that] by blast
  have "set (before cmp s t (L i)) \<subseteq> set (before cmp s' t (L' i))" for t i
    using grow(1) [of i] key [of _ i] by (auto simp: before_def)
  then show ?thesis using r s' grow(1) [of 0] grow(2)
    by (cases "(cmp, s, L, r)" rule: reader_ok.cases) (simp_all, (blast intro: less_le_trans))
qed

lemma SetNext_keys:
  assumes "Node_SetNext (sl_nodes s) a n q = Some st"
  shows "node_key_of (s\<lparr>sl_nodes := st\<rparr>) b = node_key_of s b"
  using assms by (auto simp: Node_SetNext_def node_key_of_def Node_key_def assert_def split: bind_splits if_splits)

lemma with_node_0: "with_node cmp s L key addr 0 = L"
  by (auto simp: with_node_def)

context key_comparator
begin

lemma linking_levels:
  assumes "linking Compare s L key addr h p j own"
  shows "levels Compare s L"
proof -
  obtain s0 L0 st where l: "skip_inv Compare s0 L0" "insert_ready Compare s0 L0 key addr h p" "j \<le> h"
      "L = with_node Compare s0 L0 key addr j" "s = s0\<lparr>max_height := max h (max_height s0), sl_nodes := sl_nodes s\<rparr>"
      "link_state Compare s0 L0 key addr h j st"
      "if own then j < h \<and> (\<exists>n. Node_Next st (p ! j) j = Some n \<and> Node_SetNext st addr j n = Some (sl_nodes s)) else sl_nodes s = st"
    using assms unfolding linking_def by blast
  have ls: "link_state Compare s0 L0 key addr h j (sl_nodes s)"
  proof (cases own)
    case True
    then show ?thesis using l(7) link_round [OF l(2,6)] by auto
  next
    case False
    then show ?thesis using l(6,7) by simp
  qed
  have mh: "max_height s0 \<le> unat (kMaxHeight s0)" "h \<le> unat (kMaxHeight s0)" using l(1,2) by (auto simp: skip_inv_def levels_def insert_ready_def)
  have s: "kMaxHeight s = kMaxHeight s0" "sl_head s = sl_head s0" "max_height s = max h (max_height s0)"
    by (subst l(5), simp)+
  show "levels Compare s L" unfolding l(4) by (rule link_state_levels [OF l(2) ls s(1,2) refl]) (use s(3) l(3) mh in auto)
qed

section \<open>Steps\<close>

text \<open>A round of the search succeeds, and its answer is the first node that is not before the key at that moment.\<close>

lemma reader_round:
  assumes lv: "levels Compare s L" and r: "reader_ok Compare s L (Some (t, Searching x i lb))"
  shows "\<exists>r'. find_iteration Compare s t x i lb = Some r' \<and> reader_ok Compare s L (Some (t, r')) \<and>
    (\<forall>n. r' = Found n \<longrightarrow> n = head_of (from_key Compare s t (L 0)))"
proof -
  have i: "i < max_height s" and lb: "\<forall>a. lb = Some a \<longrightarrow> Compare (node_key_of s a) t > 0" using r by auto
  obtain A B where "sl_head s # before Compare s t (L i) = A @ x # B" using r by (metis list.set_intros reader_ok.simps(3) split_list)
  then have at: "at_level s L t i x B" using i by (auto simp: at_level_def)
  show ?thesis
  proof (cases B)
    case Nil
    note e = at [unfolded Nil]
    obtain B' where "0 < i \<Longrightarrow> at_level s L t (i - 1) x B'" using at_level_down [OF lv e] by blast
    then have "0 < i \<Longrightarrow> x = sl_head s \<or> x \<in> set (before Compare s t (L (i - 1)))" using at_level_mem by fastforce
    then show ?thesis
      using find_iteration_end [OF lv lb e] i from_key_node(1) [OF lv, of t i] levels_node(3) [OF lv] by auto
  next
    case (Cons b B')
    then have "b \<in> set (before Compare s t (L i))" using at_level_before [OF at, of b] by (simp add: before_def)
    then show ?thesis using find_iteration_walk [OF lv lb at [unfolded Cons]] i r by auto
  qed
qed

lemma search_alone:
  assumes lv: "levels Compare s L" and r: "reader_ok Compare s L (Some (t, Searching x i lb))"
  shows "find_greater_or_equal Compare s t x i lb = Some (head_of (from_key Compare s t (L 0)))"
proof -
  obtain A B where "sl_head s # before Compare s t (L i) = A @ x # B" using r by (metis list.set_intros reader_ok.simps(3) split_list)
  then have "at_level s L t i x B" using r by (auto simp: at_level_def)
  then show ?thesis by (rule find_greater_result [OF lv, rotated]) (use r in auto)
qed

lemma linking_own:
  assumes l: "linking Compare s L key addr h p j False" and "j < h"
    and st: "Node_Next (sl_nodes s) (p ! j) j = Some n" "Node_SetNext (sl_nodes s) addr j n = Some st"
  shows "linking Compare (s\<lparr>sl_nodes := st\<rparr>) L key addr h p j True"
proof -
  obtain s0 L0 where l: "skip_inv Compare s0 L0" "insert_ready Compare s0 L0 key addr h p" "length p = unat (kMaxHeight s0)"
      "\<forall>i < max h (max_height s0). p ! i = last (sl_head s0 # before Compare s0 key (L0 i))" "j \<le> h"
      "L = with_node Compare s0 L0 key addr j" "s = s0\<lparr>max_height := max h (max_height s0), sl_nodes := sl_nodes s\<rparr>"
      "link_state Compare s0 L0 key addr h j (sl_nodes s)"
    using l unfolding linking_def by (auto simp only: if_False)
  have "s\<lparr>sl_nodes := st\<rparr> = s0\<lparr>max_height := max h (max_height s0), sl_nodes := st\<rparr>" by (subst l(7)) simp
  then show ?thesis unfolding linking_def using l assms(2) st
    by (intro exI [of _ s0] exI [of _ L0] exI [of _ "sl_nodes s"]) simp
qed

lemma linking_publish:
  assumes l: "linking Compare s L key addr h p j True"
  shows "\<exists>st. Node_SetNext (sl_nodes s) (p ! j) j (Some addr) = Some st \<and> (\<exists>L'. linking Compare (s\<lparr>sl_nodes := st\<rparr>) L' key addr h p (Suc j) False \<and>
    (\<forall>i. set (L i) \<subseteq> set (L' i)) \<and>
    keys_of (s\<lparr>sl_nodes := st\<rparr>) L' = (if j = 0 then insert_key Compare key (keys_of s L) else keys_of s L))"
proof -
  obtain s0 L0 st0 n where l: "skip_inv Compare s0 L0" "insert_ready Compare s0 L0 key addr h p" "length p = unat (kMaxHeight s0)"
      "\<forall>i < max h (max_height s0). p ! i = last (sl_head s0 # before Compare s0 key (L0 i))" "j < h"
      "L = with_node Compare s0 L0 key addr j" "s = s0\<lparr>max_height := max h (max_height s0), sl_nodes := sl_nodes s\<rparr>"
      "link_state Compare s0 L0 key addr h j st0" "Node_Next st0 (p ! j) j = Some n" "Node_SetNext st0 addr j n = Some (sl_nodes s)"
    using l unfolding linking_def by (auto simp only: if_True)
  obtain st where st: "Node_SetNext (sl_nodes s) (p ! j) j (Some addr) = Some st" "link_state Compare s0 L0 key addr h j (sl_nodes s)"
      "link_state Compare s0 L0 key addr h (Suc j) st"
    using link_round [OF l(2,8,5)] l(9,10) by auto
  let ?s = "s\<lparr>sl_nodes := st\<rparr>" and ?L = "with_node Compare s0 L0 key addr (Suc j)"
  have "?s = s0\<lparr>max_height := max h (max_height s0), sl_nodes := st\<rparr>" by (subst l(7)) simp
  then have "linking Compare ?s ?L key addr h p (Suc j) False"
    unfolding linking_def using l(1-5) st(3) by (intro exI [of _ s0] exI [of _ L0] exI [of _ st]) simp
  moreover have "set (L i) \<subseteq> set (?L i)" for i unfolding l(6) by (auto simp: with_node_def before_def from_key_def)
  moreover have "keys_of ?s ?L = insert_key Compare key (keys_of s0 L0)" using keys_of_with_node(1) [OF l(2), of "Suc j" ?s] st(3) by simp
  moreover have "keys_of s L = (if j = 0 then keys_of s0 L0 else insert_key Compare key (keys_of s0 L0))"
    using keys_of_with_node(1) [OF l(2) st(2)] l(6) by simp
  ultimately show ?thesis using st(1) by auto
qed

lemma linking_end:
  assumes l: "linking Compare s L key addr h p h False"
  shows "skip_inv Compare (s\<lparr>sl_prev := p[0 := addr], prev_height := h\<rparr>) L"
proof -
  obtain s0 L0 where l: "skip_inv Compare s0 L0" "insert_ready Compare s0 L0 key addr h p" "length p = unat (kMaxHeight s0)"
      "\<forall>i < max h (max_height s0). p ! i = last (sl_head s0 # before Compare s0 key (L0 i))"
      "L = with_node Compare s0 L0 key addr h" "s = s0\<lparr>max_height := max h (max_height s0), sl_nodes := sl_nodes s\<rparr>"
      "link_state Compare s0 L0 key addr h h (sl_nodes s)"
    using l unfolding linking_def by (auto simp only: if_False)
  have "s\<lparr>sl_prev := p[0 := addr], prev_height := h\<rparr> =
      s0\<lparr>max_height := max h (max_height s0), sl_nodes := sl_nodes s, sl_prev := p[0 := addr], prev_height := h\<rparr>" by (subst l(6)) simp
  then show ?thesis using with_node_inv [OF l(1,2,7,3) refl l(4)] l(5) by simp
qed

lemma linking_begin:
  assumes inv: "skip_inv Compare s L" and pr: "insert_prepare Compare key rnd s = Some (p, mh, h, rnd')" and fresh: "sl_nodes s addr = None"
  shows "linking Compare (s\<lparr>max_height := mh, sl_nodes := NewNode addr (Some key) h (sl_nodes s)\<rparr>) L key addr h p 0 False"
    "max_height s \<le> mh" "a \<in> set (L i) \<Longrightarrow> node_key_of (s\<lparr>max_height := mh, sl_nodes := NewNode addr (Some key) h (sl_nodes s)\<rparr>) a = node_key_of s a"
proof -
  have new: "\<forall>a \<in> set (L 0). Compare (node_key_of s a) key \<noteq> 0" using insert_prepare_duplicate [OF inv] pr by fastforce
  have p: "mh = max h (max_height s)" "1 \<le> h" "h \<le> unat (kMaxHeight s)" "length p = unat (kMaxHeight s)"
      "\<forall>j < max h (max_height s). p ! j = last (sl_head s # before Compare s key (L j))"
    using insert_prepare_result [OF inv new, of rnd] pr by auto
  have r: "insert_ready Compare s L key addr h p" by (rule skip_inv_ready [OF inv fresh new p(2,3)]) (use p(5) in simp)
  show "max_height s \<le> mh" using p(1) by simp
  show "linking Compare (s\<lparr>max_height := mh, sl_nodes := NewNode addr (Some key) h (sl_nodes s)\<rparr>) L key addr h p 0 False"
    unfolding linking_def using inv r p link_state_0 [OF r]
    by (intro exI [of _ s] exI [of _ L] exI [of _ "NewNode addr (Some key) h (sl_nodes s)"]) (simp add: with_node_0)
  show "node_key_of (s\<lparr>max_height := mh, sl_nodes := NewNode addr (Some key) h (sl_nodes s)\<rparr>) a = node_key_of s a" if "a \<in> set (L i)"
    using insert_ready_fresh(2) [OF r, of i] that by (auto simp: node_key_of_def Node_key_def NewNode_def)
qed

lemma sys_inv_step:
  assumes "sys_step Compare \<sigma> \<sigma>'" "sys_inv Compare \<sigma>"
  shows "sys_inv Compare \<sigma>'"
proof -
  obtain L where lv: "levels Compare (ss_list \<sigma>) L" and keys: "keys_of (ss_list \<sigma>) L = ss_keys \<sigma>"
    and r: "reader_ok Compare (ss_list \<sigma>) L (ss_reader \<sigma>)" and w: "writer_ok Compare (ss_list \<sigma>) L (ss_writer \<sigma>)"
    using assms(2) by (auto simp: sys_inv_def)
  from assms(1) show ?thesis
  proof cases
    case (W_begin key rnd p mh h rnd' addr)
    let ?s = "(ss_list \<sigma>)\<lparr>max_height := mh, sl_nodes := NewNode addr (Some key) h (sl_nodes (ss_list \<sigma>))\<rparr>"
    have "skip_inv Compare (ss_list \<sigma>) L" using w W_begin(2) by simp
    note b = linking_begin [OF this W_begin(3,4)]
    have "keys_of ?s L = ss_keys \<sigma>" unfolding keys [symmetric] keys_of_def by (rule map_cong [OF refl b(3)])
    moreover have "reader_ok Compare ?s L (ss_reader \<sigma>)" by (rule reader_ok_grow [OF lv r]) (use b(2,3) in auto)
    ultimately show ?thesis unfolding sys_inv_def W_begin(1) using b(1) linking_levels [OF b(1)] by (intro exI [of _ L]) simp
  next
    case (W_own key addr h p j n st)
    let ?s = "(ss_list \<sigma>)\<lparr>sl_nodes := st\<rparr>"
    have "linking Compare (ss_list \<sigma>) L key addr h p j False" using w W_own(2) by simp
    note b = linking_own [OF this W_own(3-5)] and k = SetNext_keys [OF W_own(5)]
    have "reader_ok Compare ?s L (ss_reader \<sigma>)" by (rule reader_ok_grow [OF lv r]) (use k in auto)
    moreover have "keys_of ?s L = ss_keys \<sigma>" unfolding keys [symmetric] keys_of_def by (rule map_cong [OF refl k])
    ultimately show ?thesis unfolding sys_inv_def W_own(1) using b linking_levels [OF b] by (intro exI [of _ L]) simp
  next
    case (W_publish key addr h p j st)
    let ?s = "(ss_list \<sigma>)\<lparr>sl_nodes := st\<rparr>"
    have "linking Compare (ss_list \<sigma>) L key addr h p j True" using w W_publish(2) by simp
    from linking_publish [OF this] W_publish(3) obtain L' where L': "linking Compare ?s L' key addr h p (Suc j) False"
        "\<forall>i. set (L i) \<subseteq> set (L' i)" "keys_of ?s L' = (if j = 0 then insert_key Compare key (keys_of (ss_list \<sigma>) L) else keys_of (ss_list \<sigma>) L)"
      by auto
    have "reader_ok Compare ?s L' (ss_reader \<sigma>)" by (rule reader_ok_grow [OF lv r]) (use L'(2) SetNext_keys [OF W_publish(3)] in auto)
    then show ?thesis unfolding sys_inv_def W_publish(1) using L'(1,3) linking_levels [OF L'(1)] keys by (intro exI [of _ L']) simp
  next
    case (W_end key addr h p)
    let ?s = "(ss_list \<sigma>)\<lparr>sl_prev := p[0 := addr], prev_height := h\<rparr>"
    have "linking Compare (ss_list \<sigma>) L key addr h p h False" using w W_end(2) by simp
    note b = linking_end [OF this]
    have k: "node_key_of ?s a = node_key_of (ss_list \<sigma>) a" for a by (simp add: node_key_of_def)
    have "reader_ok Compare ?s L (ss_reader \<sigma>)" by (rule reader_ok_grow [OF lv r]) (use k in auto)
    moreover have "keys_of ?s L = ss_keys \<sigma>" unfolding keys [symmetric] keys_of_def by (rule map_cong [OF refl k])
    ultimately show ?thesis unfolding sys_inv_def W_end(1) using b skip_inv_levels [OF b] by (intro exI [of _ L]) simp
  next
    case (R_start t)
    then show ?thesis unfolding sys_inv_def using lv keys w levels_height [OF lv] by (intro exI [of _ L]) simp
  next
    case (R_step t x level lb r')
    have "reader_ok Compare (ss_list \<sigma>) L (Some (t, r'))" using reader_round [OF lv r [unfolded R_step(2)]] R_step(3) by auto
    then show ?thesis unfolding sys_inv_def R_step(1) using lv keys w by (intro exI [of _ L]) simp
  qed
qed

lemma sys_inv_reachable: "(sys_step Compare)\<^sup>*\<^sup>* \<sigma> \<sigma>' \<Longrightarrow> sys_inv Compare \<sigma> \<Longrightarrow> sys_inv Compare \<sigma>'"
  by (induction rule: rtranclp_induct) (auto intro: sys_inv_step)

text \<open>The writer is never stuck between two links.\<close>

lemma writer_progress:
  assumes "sys_inv Compare \<sigma>" "ss_writer \<sigma> = W_Linking key addr h p j own"
  shows "\<exists>\<sigma>'. sys_step Compare \<sigma> \<sigma>' \<and> ss_writer \<sigma>' \<noteq> ss_writer \<sigma> \<and> ss_reader \<sigma>' = ss_reader \<sigma>"
proof -
  obtain L where l: "linking Compare (ss_list \<sigma>) L key addr h p j own" using assms by (auto simp: sys_inv_def)
  show ?thesis
  proof (cases own)
    case True
    then obtain st where st: "Node_SetNext (sl_nodes (ss_list \<sigma>)) (p ! j) j (Some addr) = Some st"
      using linking_publish [of "ss_list \<sigma>" L key addr h p j] l by auto
    show ?thesis using sys_step.W_publish [OF _ st, of key h Compare] assms(2) True by fastforce
  next
    case False
    then obtain s0 L0 where s0: "insert_ready Compare s0 L0 key addr h p" "link_state Compare s0 L0 key addr h j (sl_nodes (ss_list \<sigma>))" "j \<le> h"
      using l unfolding linking_def by (auto simp only: if_False)
    show ?thesis
    proof (cases "j = h")
      case True
      then show ?thesis using sys_step.W_end [of \<sigma> key addr h p Compare] assms(2) False by fastforce
    next
      case False
      then obtain n st where st: "Node_Next (sl_nodes (ss_list \<sigma>)) (p ! j) j = Some n" "Node_SetNext (sl_nodes (ss_list \<sigma>)) addr j n = Some st"
        using link_round [OF s0(1,2)] s0(3) by fastforce
      show ?thesis using sys_step.W_own [OF _ _ st, of key h Compare] assms(2) False \<open>\<not> own\<close> s0(3) by fastforce
    qed
  qed
qed

end

section \<open>Properties\<close>

text \<open>C7: Searches need no lock.  In every state that the stores of insertions and the rounds of a search can reach, also in the
  middle of an insertion, the next round of the search succeeds (no assertion fails, no link or key is read before it is
  initialised), and when it is the last round it returns the first published key that is not less than the target: the answer an
  atomic search would give at that moment.  Run on its own from any such state the search ends with that answer, so a reader
  never waits for the writer; and the writer is never stuck between two links.\<close>

theorem skip_list_readers_need_no_lock:
  assumes "key_comparator cmp" "SkipList_new head max_h branching_factor = Some s0" "(sys_step cmp)\<^sup>*\<^sup>* (sys_init s0) \<sigma>"
  shows "(\<forall>t x level lb. ss_reader \<sigma> = Some (t, Searching x level lb) \<longrightarrow>
      (\<exists>r. find_iteration cmp (ss_list \<sigma>) t x level lb = Some r \<and>
         (\<forall>n. r = Found n \<longrightarrow> map_option (node_key_of (ss_list \<sigma>)) n = head_of (filter (\<lambda>k. \<not> cmp k t < 0) (ss_keys \<sigma>)))) \<and>
      (\<exists>n. find_greater_or_equal cmp (ss_list \<sigma>) t x level lb = Some n \<and>
         map_option (node_key_of (ss_list \<sigma>)) n = head_of (filter (\<lambda>k. \<not> cmp k t < 0) (ss_keys \<sigma>)))) \<and>
    (ss_writer \<sigma> \<noteq> W_Idle \<longrightarrow> (\<exists>\<sigma>'. sys_step cmp \<sigma> \<sigma>' \<and> ss_writer \<sigma>' \<noteq> ss_writer \<sigma> \<and> ss_reader \<sigma>' = ss_reader \<sigma>))"
proof -
  note kc = assms(1)
  note new = SkipList_new_inv [OF assms(2)]
  have "sys_inv cmp (sys_init s0)"
    unfolding sys_inv_def using new(1) [of cmp] skip_inv_levels [OF new(1)]
    by (intro exI [of _ "\<lambda>i. []"]) (simp add: sys_init_def keys_of_def)
  then have inv: "sys_inv cmp \<sigma>" using key_comparator.sys_inv_reachable [OF kc assms(3)] by blast
  then obtain L where lv: "levels cmp (ss_list \<sigma>) L" and keys: "keys_of (ss_list \<sigma>) L = ss_keys \<sigma>"
    and r: "reader_ok cmp (ss_list \<sigma>) L (ss_reader \<sigma>)"
    by (auto simp: sys_inv_def)
  have first: "map_option (node_key_of (ss_list \<sigma>)) (head_of (from_key cmp (ss_list \<sigma>) t (L 0))) =
      head_of (filter (\<lambda>k. \<not> cmp k t < 0) (ss_keys \<sigma>))" for t
    unfolding keys [symmetric] by (simp add: key_comparator.keys_of_filter [OF kc] head_of_map from_key_def)
  have "\<exists>n. find_greater_or_equal cmp (ss_list \<sigma>) t x level lb = Some n \<and>
      map_option (node_key_of (ss_list \<sigma>)) n = head_of (filter (\<lambda>k. \<not> cmp k t < 0) (ss_keys \<sigma>))"
    if "ss_reader \<sigma> = Some (t, Searching x level lb)" for t x level lb
    using key_comparator.search_alone [OF kc lv] r that first by auto
  moreover have "\<exists>r. find_iteration cmp (ss_list \<sigma>) t x level lb = Some r \<and>
      (\<forall>n. r = Found n \<longrightarrow> map_option (node_key_of (ss_list \<sigma>)) n = head_of (filter (\<lambda>k. \<not> cmp k t < 0) (ss_keys \<sigma>)))"
    if "ss_reader \<sigma> = Some (t, Searching x level lb)" for t x level lb
    using key_comparator.reader_round [OF kc lv r [unfolded that]] first by blast
  moreover have "\<exists>\<sigma>'. sys_step cmp \<sigma> \<sigma>' \<and> ss_writer \<sigma>' \<noteq> ss_writer \<sigma> \<and> ss_reader \<sigma>' = ss_reader \<sigma>" if "ss_writer \<sigma> \<noteq> W_Idle"
    using key_comparator.writer_progress [OF kc inv] that by (cases "ss_writer \<sigma>") auto
  ultimately show ?thesis by blast
qed

theorem skip_list_readers_need_no_lock_witness:
  "\<exists>s0 \<sigma> x level lb n. SkipList_new 0 12 4 = Some s0 \<and> (sys_step BytewiseCompare)\<^sup>*\<^sup>* (sys_init s0) \<sigma> \<and>
    ss_reader \<sigma> = Some ([3], Searching x level lb) \<and> find_greater_or_equal BytewiseCompare (ss_list \<sigma>) [3] x level lb = Some n \<and>
    map_option (node_key_of (ss_list \<sigma>)) n = Some [5]"
proof -
  obtain s0 where s0: "SkipList_new 0 12 4 = Some s0"
    using clear_head_result [of "NewNode 0 None 12 Map.empty" 0 12 "[0..<12]"]
    by (auto simp: SkipList_new_def NewNode_def kMaxNext_def Random_M_def)
  obtain rnd' s' where ins: "Skip_Insert BytewiseCompare 1 [5] (Random_new 301) s0 = Some (rnd', s')"
    using bytewise.Skip_Insert_result [OF SkipList_new_inv(1) [OF s0], of 1 "[5]" "Random_new 301"] SkipList_new_inv(3) [OF s0] by auto
  let ?\<sigma> = "(sys_init s0)\<lparr>ss_list := s', ss_keys := insert_key BytewiseCompare [5] []\<rparr>"
  have run: "(sys_step BytewiseCompare)\<^sup>*\<^sup>* (sys_init s0) ?\<sigma>"
    using ins Insert_steps [of "sys_init s0" 1 BytewiseCompare "[5]" "Random_new 301" rnd' s'] SkipList_new_inv(3) [OF s0] by (simp add: sys_init_def)
  let ?\<sigma>' = "?\<sigma>\<lparr>ss_reader := Some ([3], Searching (sl_head (ss_list ?\<sigma>)) (max_height (ss_list ?\<sigma>) - 1) None)\<rparr>"
  have run': "(sys_step BytewiseCompare)\<^sup>*\<^sup>* (sys_init s0) ?\<sigma>'" using run sys_step.R_start by (meson rtranclp.rtrancl_into_rtrancl)
  have "head_of (filter (\<lambda>k. \<not> BytewiseCompare k [3] < 0) (ss_keys ?\<sigma>')) = Some [5]"
    by (simp add: insert_key_def BytewiseCompare_def Slice_compare_iffs)
  then show ?thesis
    using skip_list_readers_need_no_lock [OF bytewise.key_comparator_axioms s0 run'] s0 run'
    by (intro exI [of _ s0] exI [of _ ?\<sigma>']) fastforce
qed

end
