(* ===== verification/Spec2Isabelle.thy ===== *)
theory Spec2Isabelle
  imports Block_Cursor Crc32c Heap Lru_Properties Sharded_Cache Table_Format Bloom_Avx2 Filter_Full Filter_Blocks Merge_Properties Skip_Readers
begin

text \<open>
  Verification of the storage engine below the search engine of this repository.

  The program.  The Java files at the top of \<^verbatim>\<open>src/\<close> crawl pages and keep their indexes in a key-value store; the store
  is the C++ library under \<^verbatim>\<open>src/lib/rocksdb-master/\<close>.  A table file of that library is a sequence of blocks of sorted,
  prefix-compressed entries, filters, and a footer that says where they are.  A read consults a filter, finds a block in the
  block cache, positions an iterator in it, and merges the iterators of several tables into one; recent
  entries are in a skip list in memory.  The development models this read path and the writers whose output it reads.  Paths below are relative to \<^verbatim>\<open>src/lib/rocksdb-master/\<close>.

  \<^bold>\<open>Theories and the code they model\<close>

  \<^item> \<open>Rocks_Prelude\<close>: machine words, byte strings and the lemmas on words, bits and lists that the components share.
  \<^item> \<open>Slice\<close>: \<^verbatim>\<open>include/rocksdb/slice.h\<close>, \<^verbatim>\<open>util/slice.cc\<close>.  Comparison is the lexicographic order, hexadecimal output
    reads back, the prefix extractors.
  \<^item> \<open>Coding\<close>: \<^verbatim>\<open>util/coding.h/.cc\<close>.  Fixed-width and variable-length integers, zigzag, length-prefixed slices: the unrolled
    encoders equal the loops, everything reads back, sequences of slices are uniquely decodable.
  \<^item> \<open>Comparator\<close>: \<^verbatim>\<open>util/comparator.cc\<close>.  The interface \<open>key_comparator\<close> and its extension \<open>separator_comparator\<close>,
    interpreted for both built-in orders.
  \<^item> \<open>Status\<close>: \<^verbatim>\<open>include/rocksdb/status.h\<close>, \<^verbatim>\<open>util/status.cc\<close>.
  \<^item> \<open>Hashing\<close>: \<^verbatim>\<open>util/hash.h/.cc\<close>.  \<open>Crc32c\<close>: the portable path of \<^verbatim>\<open>util/crc32c.cc\<close>, equal to division by the
    CRC polynomial bit by bit, and what bursts it detects.
  \<^item> \<open>Data_Block_Index\<close>: \<^verbatim>\<open>table/block_based/data_block_footer.cc\<close> and \<^verbatim>\<open>data_block_hash_index.cc\<close>.  \<open>Block_Builder\<close>:
    \<^verbatim>\<open>block_builder.cc\<close>.  \<open>Block_Iter\<close>: \<^verbatim>\<open>block.h/.cc\<close>, the reader.  \<open>Block_Layout\<close> relates the bytes the builder writes
    to what one parse reads, and \<open>Block_Cursor\<close> proves that the iterator is a cursor over the entries.
  \<^item> \<open>Heap\<close>: \<^verbatim>\<open>util/heap.h\<close>, \<^verbatim>\<open>table/iter_heap.h\<close>.  The interface \<open>heap_order\<close>, the priority queue with its root
    cache, also when the key of the top changes before it is replaced, as iterators do.
  \<^item> \<open>Merging_Iterator\<close>: \<^verbatim>\<open>table/merging_iterator.cc\<close>, \<^verbatim>\<open>table/iterator_wrapper.h\<close>.  \<open>Merge_Positions\<close> is about positions in
    sorted lists and their merge (\<open>merged_lists\<close>).  \<open>Merge_Refinement\<close> states what a child must do (\<open>cursor_iterator\<close>) and proves
    that the merging iterator is a cursor over the union (\<open>merging_contract\<close>).  \<open>Merge_Properties\<close> interprets both for
    data block iterators and treats errors of children.
  \<^item> \<open>Lru_Table\<close>, \<open>Lru_Cache\<close>: \<^verbatim>\<open>cache/lru_cache.h/.cc\<close>, with handles in an explicit store and the list as two pointer maps.
    \<open>Lru_Invariant\<close>, \<open>Lru_Evict\<close>, \<open>Lru_Shard\<close>, \<open>Lru_Operations\<close>, \<open>Lru_Insert\<close> show that every operation keeps the
    invariant; \<open>Lru_Trace\<close> runs sequences of operations and \<open>Lru_Properties\<close> states the results.  \<open>Sharded_Cache\<close> composes
    shards into the cache of \<^verbatim>\<open>cache/sharded_cache.cc\<close>.
  \<^item> \<open>Random_Lcg\<close>: the generator of \<^verbatim>\<open>util/random.h\<close>.  \<open>Skip_List\<close>: \<^verbatim>\<open>memtable/skiplist.h\<close>, with nodes in an explicit store and
    heights drawn from that generator.  \<open>Skip_Levels\<close> is about searches, \<open>Skip_Insert\<close> about the cached predecessors and the links of
    an insertion, \<open>Skip_Properties\<close> about sequences of operations and \<open>Skip_Readers\<close> about searches that run beside an insertion.
  \<^item> \<open>Table_Format\<close>: \<^verbatim>\<open>table/format.h/.cc\<close>.  Block handles, index values, footers, and the reader of a footer.
  \<^item> \<open>Bloom_Impl\<close>, \<open>Bloom_Avx2\<close>: \<^verbatim>\<open>util/bloom_impl.h\<close>.  \<open>Filter_Policy\<close>: \<^verbatim>\<open>table/block_based/filter_policy.cc\<close>.
    \<open>Filter_Fast\<close>, \<open>Filter_Layout\<close>, \<open>Filter_Legacy\<close> follow a filter from the builder to the reader; \<open>Filter_Properties\<close> and
    \<open>Filter_Safety\<close> state what the policy promises, and what its readers do with bytes that no builder wrote.
  \<^item> \<open>Filter_Block\<close>: \<^verbatim>\<open>table/block_based/block_based_filter_block.cc\<close> and \<^verbatim>\<open>full_filter_block.cc\<close>, the filter blocks of a table
    over the policy.  \<open>Filter_Blocks\<close> is about the first, with its array of offsets, and \<open>Filter_Full\<close> about the second and about
    queries for a range of keys.

  \<^bold>\<open>Conventions\<close>

  Structs and classes are records and enumerations are datatypes with the names of the source; a method takes the object and
  returns it changed.  Unsigned integers are words of their width, and \<^verbatim>\<open>size_t\<close> is a natural number where the code does not rely
  on its wrap-around.  The value \<open>None\<close> of an operation is a failed assertion, a null pointer that is followed, an access outside
  an array or a loop that does not end; the theorems that say that an operation returns exclude all of them.  Loops whose end is
  not evident (binary search, linear search, backward caching, sinking in the heap, eviction, the pool adjustment) are partial
  functions, and their termination is part of the theorems.

  Code that the repository does not contain is an argument: the internal key format of \<^verbatim>\<open>db/dbformat.h\<close> (the record \<open>dbformat\<close>
  with the hypothesis \<open>IterKey_contract\<close>, instantiated by \<open>plain_dbformat\<close> in the witnesses), arithmetic on \<^verbatim>\<open>double\<close> (the records
  \<open>double_ops\<close> and \<open>pool_ops\<close>), the 64-bit hash of the vendored XXH3, the size of a cache line, the address of a buffer in the
  checksum, the addresses that the allocator returns, and the file reader behind the footer.

  Concurrency is modelled in \<open>Skip_Readers\<close> only: a step relation interleaves the stores of one writer with the loads of a reader, in
  one order that all threads agree on.  The other components are used under locks, and their operations are atomic here.

  \<^bold>\<open>Bounds\<close>

  A block is shorter than \<open>2 ^ 32\<close> bytes, because the reader keeps offsets in 32 bits; a merging iterator has fewer than
  \<open>2 ^ 64 - 2\<close> children, because the largest \<^verbatim>\<open>size_t\<close> marks the empty root cache; the number of keys of a filter is bounded where
  the builder computes with \<^verbatim>\<open>int\<close>.  The theorems state each bound.

  \<^bold>\<open>What the theorems show\<close>

  Iterators: the block iterator is a cursor over the entries the builder was given, a seek ends at the first key that is not
  less, the merging iterator is a cursor over the union and reports the errors of its children, and the heap below it is a priority
  queue.  Cache: no assertion can fail, lookups are coherent, usage is exact, eviction takes the oldest entries and no more than
  needed, for a shard and for the sharded cache.  Filters: no false negatives, from the policy up to the filter blocks of a table with
  whole keys and prefixes; answers are exactly the probed bits, the vector query equals the portable one, readers stay inside the
  filter.  Memtable: the skip list is a sorted set with an iterator, and its searches need no lock.  Formats: every encoder
  reads back, decoders are total on corrupt input.  Where the code behaves other than it says, a theorem shows the behaviour at the smallest input: lengths of an entry that overflow their sum, short or damaged filters, an
  insertion into a full cache, the successor test of the reverse comparator, a reset of the block builder, the range test for
  capped prefixes.

  \<^bold>\<open>Not modelled\<close>

  The Java application and the Java binding; files, threads, clocks, logging and statistics; memory pinning; the table
  builder and reader around the blocks; index block iterators; partitioned filters and indexes; plain and cuckoo tables; the
  skip list with concurrent writers and the memtable representations; the utilities above the database interface.  The directory
  \<^verbatim>\<open>db/\<close> is not part of the repository.  Next in the plan: index block iterators, and the table builder over the modelled block
  and filter builders.
\<close>

end
